(* ===== verification/Prelude.thy ===== *)
theory Prelude
  imports Main "HOL-Library.Word"
begin

text \<open>
  Shared vocabulary of the development.  The fixed-width C integers of the
  emulator are words of the same width, a run-time failure of the C program
  (a call of \<open>abort()\<close>, a failed \<open>assert\<close>, an access outside an array, a
  division by zero) is a value of type \<open>fault\<close>, and a routine that can fail
  returns a value of the sum type \<open>'a result\<close>.  The rest of the theory holds
  the facts on bits, lists and results that the component theories share, in
  the collections \<open>bit_test\<close> (single-bit tests, sets and clears) and
  \<open>result_simps\<close>.
\<close>

unbundle bit_operations_syntax

named_theorems bit_test
named_theorems result_simps

section \<open>Machine types and run-time failures\<close>

type_synonym u8 = "8 word"
type_synonym u16 = "16 word"
type_synonym u32 = "32 word"
type_synonym u64 = "64 word"

datatype fault = Abort | Assertion | OutOfBounds | DivByZero | DivOverflow | ShiftRange

type_synonym 'a result = "fault + 'a"

definition bind_result :: "'a result \<Rightarrow> ('a \<Rightarrow> 'b result) \<Rightarrow> 'b result" where
  "bind_result m f = (case m of Inl e \<Rightarrow> Inl e | Inr x \<Rightarrow> f x)"

lemma bind_result_simps [simp, result_simps]:
  "bind_result (Inl e) f = Inl e"
  "bind_result (Inr x) f = f x"
  by (simp_all add: bind_result_def)

lemma bind_result_assoc:
  "bind_result (bind_result m f) g = bind_result m (\<lambda>x. bind_result (f x) g)"
  by (cases m) simp_all

lemma bind_result_eq_Inr [result_simps]:
  "bind_result m f = Inr y \<longleftrightarrow> (\<exists>x. m = Inr x \<and> f x = Inr y)"
  by (cases m) simp_all

definition returns :: "'a result \<Rightarrow> bool" where
  "returns r = (case r of Inl _ \<Rightarrow> False | Inr _ \<Rightarrow> True)"

lemma returns_simps [simp]: "returns (Inr x)" "\<not> returns (Inl e)"
  by (simp_all add: returns_def)

lemma returns_iff: "returns r \<longleftrightarrow> (\<exists>x. r = Inr x)"
  by (cases r) simp_all

section \<open>Single bits\<close>

text \<open>
  The C code tests, sets and clears one bit with \<open>x & (1 << n)\<close>,
  \<open>x |= 1 << n\<close> and \<open>x &= ~(1 << n)\<close>.
\<close>

lemma and_exp_eq_0 [bit_test]:
  fixes x :: "'a::len word"
  shows "x AND 2 ^ n = 0 \<longleftrightarrow> \<not> bit x n"
  by (simp add: and_exp_eq_0_iff_not_bit)

lemma bit_or_exp [bit_test]:
  fixes x :: "'a::len word"
  shows "bit (x OR 2 ^ n) m \<longleftrightarrow> bit x m \<or> (m = n \<and> n < LENGTH('a))"
  by (auto simp: bit_simps)

lemma bit_and_not_exp [bit_test]:
  fixes x :: "'a::len word"
  shows "bit (x AND NOT (2 ^ n)) m \<longleftrightarrow> bit x m \<and> m \<noteq> n"
  by (auto simp: bit_simps dest: bit_imp_le_length)

lemma or_exp_absorb [bit_test]:
  fixes x :: "'a::len word"
  shows "bit x n \<Longrightarrow> x OR 2 ^ n = x"
  by (rule bit_word_eqI) (auto simp: bit_simps)

lemma and_not_exp_absorb [bit_test]:
  fixes x :: "'a::len word"
  shows "\<not> bit x n \<Longrightarrow> x AND NOT (2 ^ n) = x"
  by (rule bit_word_eqI) (auto simp: bit_simps)

lemma or_exp_and_not_exp [bit_test]:
  fixes x :: "'a::len word"
  shows "\<not> bit x n \<Longrightarrow> (x OR 2 ^ n) AND NOT (2 ^ n) = x"
  by (rule bit_word_eqI) (auto simp: bit_simps)

lemma word_eq_0_iff_no_bit:
  fixes x :: "'a::len word"
  shows "x = 0 \<longleftrightarrow> (\<forall>n < LENGTH('a). \<not> bit x n)"
  by (auto simp: bit_eq_iff)

lemma word_neq_0_bitE:
  fixes x :: "'a::len word"
  assumes "x \<noteq> 0"
  obtains n where "n < LENGTH('a)" "bit x n"
  using assms by (auto simp: word_eq_0_iff_no_bit)

lemma unat_and_le_right:
  fixes x m :: "'a::len word"
  shows "unat (x AND m) \<le> unat m"
  using word_and_le1 [of x m] by (simp add: word_le_nat_alt)

lemma unat_ucast_mod:
  "unat (ucast (x :: 'a::len word) :: 'b::len word) = unat x mod 2 ^ LENGTH('b)"
  by (simp add: unsigned_ucast_eq unsigned_take_bit_eq take_bit_eq_mod)

lemma u8_neq_0_iff: "(m :: u8) \<noteq> 0 \<longleftrightarrow> (\<exists>n<8. bit m n)"
  by (simp add: word_eq_0_iff_no_bit)

lemma unat_and_7: "unat ((x :: u32) AND 7) < 8"
  using unat_and_le_right [of x 7] by simp

lemma unat_ucast_and_7: "unat (ucast ((x :: u32) AND 7) :: u8) < 8"
  using unat_and_7 [of x] by (simp add: unat_ucast_mod)

lemma unat_of_nat_mod8: "unat (of_nat (n mod 8) :: u8) = n mod 8"
  by (simp add: unat_of_nat)

lemma unat_and_7_mod: "unat ((x :: 'a::len word) AND 7) = unat x mod 8"
proof -
  have "x AND 7 = take_bit 3 x"
    by (simp add: take_bit_eq_mask mask_eq_exp_minus_1)
  then have "unat (x AND 7) = take_bit 3 (unat x)"
    by (simp only: unsigned_take_bit_eq)
  then show ?thesis by (simp add: take_bit_eq_mod)
qed

lemma unat_u8_less: "unat (x :: u8) < 256"
  using unsigned_less [of x] by simp

lemma sint_u32:
  assumes "unat (x :: u32) < 2 ^ 31"
  shows "sint x = int (unat x)"
proof -
  have u: "uint x = int (unat x)" by simp
  have "int (unat x) < int (2 ^ 31)" using assms by (simp only: of_nat_less_iff)
  then have "signed_take_bit 31 (int (unat x)) = int (unat x)"
    by (intro signed_take_bit_int_eq_self) (simp_all del: of_nat_unat)
  then show ?thesis unfolding sint_uint u by simp
qed

section \<open>Rotation of the eight interrupt lines\<close>

lemma unrotate_rotate:
  fixes n a :: nat
  assumes "n < 8"
  shows "((n + 8 - a mod 8) mod 8 + a) mod 8 = n"
proof -
  have "((n + 8 - a mod 8) mod 8 + a) mod 8 = ((n + 8 - a mod 8) + a mod 8) mod 8"
    by (metis mod_add_left_eq mod_add_right_eq)
  also have "\<dots> = (n + 8) mod 8"
    using mod_less_divisor [of 8 a] by (simp del: mod_less_divisor add: less_imp_le)
  finally show ?thesis using assms by simp
qed

lemma rotate_unrotate:
  fixes n a :: nat
  assumes "n < 8"
  shows "((n + a) mod 8 + 8 - a mod 8) mod 8 = n"
proof -
  define b where "b = a mod 8"
  then have "b < 8" and "(n + a) mod 8 = (n + b) mod 8"
    by (simp_all add: mod_simps)
  moreover have "((n + b) mod 8 + 8 - b) mod 8 = n"
    using assms \<open>b < 8\<close> by (cases "n + b < 8") (simp_all add: le_mod_geq)
  ultimately show ?thesis by (simp add: b_def)
qed

end
