(* ===== verification/Interrupts.thy ===== *)
theory Interrupts
  imports Prelude
begin

text \<open>
  The interface between the devices and the interrupt controller.  Every device
  of the emulator holds an opaque controller and a callback
  \<open>set_irq(void *pic, int irq, int level)\<close>; the board (\<open>pc.c\<close>) passes the 8259
  pair for both.  The device models take the callback as an argument and thread
  the controller through it.  The locale \<open>irq_controller\<close> states what a device
  relies on: the level of an input line is what was last driven onto it, and a
  rising edge on a line leaves a request for it pending.
\<close>

text \<open>A pulse: drive a line high and then low, as the PIT and the RTC do.\<close>

definition pulse :: "('p \<Rightarrow> nat \<Rightarrow> bool \<Rightarrow> 'p) \<Rightarrow> 'p \<Rightarrow> nat \<Rightarrow> 'p" where
  "pulse set_irq p irq = set_irq (set_irq p irq True) irq False"

locale irq_controller =
  fixes set_irq :: "'p \<Rightarrow> nat \<Rightarrow> bool \<Rightarrow> 'p"
    and ok :: "'p \<Rightarrow> bool"
    and valid :: "nat \<Rightarrow> bool"
    and line :: "'p \<Rightarrow> nat \<Rightarrow> bool"
    and pending :: "'p \<Rightarrow> nat \<Rightarrow> bool"
  assumes ok_set: "ok p \<Longrightarrow> valid n \<Longrightarrow> ok (set_irq p n l)"
    and line_set: "ok p \<Longrightarrow> valid n \<Longrightarrow> valid m \<Longrightarrow>
      line (set_irq p n l) m = (if m = n then l else line p m)"
    and pending_set: "ok p \<Longrightarrow> valid n \<Longrightarrow> valid m \<Longrightarrow>
      pending (set_irq p n l) m = (pending p m \<or> (m = n \<and> l \<and> \<not> line p n))"
begin

lemma ok_pulse: "ok p \<Longrightarrow> valid n \<Longrightarrow> ok (pulse set_irq p n)"
  by (simp add: pulse_def ok_set)

lemma line_pulse: "ok p \<Longrightarrow> valid n \<Longrightarrow> valid m \<Longrightarrow>
    line (pulse set_irq p n) m = (m \<noteq> n \<and> line p m)"
  by (auto simp: pulse_def ok_set line_set)

lemma pending_pulse: "ok p \<Longrightarrow> valid n \<Longrightarrow> valid m \<Longrightarrow>
    pending (pulse set_irq p n) m = (pending p m \<or> (m = n \<and> \<not> line p n))"
  by (auto simp: pulse_def ok_set line_set pending_set)

lemmas pulse_simps = ok_pulse line_pulse pending_pulse

end

end
