(* ===== verification/PIC.thy ===== *)
theory PIC
  imports Interrupts
begin

text \<open>
  The two cascaded 8259 interrupt controllers of \<open>source/winspire/i8259.c\<close>.
  A \<open>PicState\<close> is one controller, \<open>PicState2\<close> the pair together with the
  callback that signals the CPU.  A C pointer to one of the two controllers is
  an index of type \<open>pic_id\<close> into the pair, so that \<open>s->pics_state\<close> and the
  comparison \<open>s == &s->pics_state->pics[0]\<close> can be written down.  A return
  value of \<open>-1\<close> ("no interrupt") is \<open>None\<close>.
\<close>

section \<open>State\<close>

record PicState =
  last_irr :: u8
  irr :: u8
  imr :: u8
  isr :: u8
  priority_add :: u8
  irq_base :: u8
  read_reg_select :: u8
  poll :: u8
  special_mask :: u8
  init_state :: u8
  auto_eoi :: u8
  rotate_on_auto_eoi :: u8
  special_fully_nested_mode :: u8
  init4 :: u8
  single_mode :: u8

datatype pic_id = Master | Slave

record 'o PicState2 =
  pics :: "pic_id \<Rightarrow> PicState"
  raise_fn :: "'o \<Rightarrow> 'o"
  obj :: 'o

text \<open>Writing one controller back into the pair.\<close>

definition set_pic :: "pic_id \<Rightarrow> PicState \<Rightarrow> 'o PicState2 \<Rightarrow> 'o PicState2" where
  "set_pic i p s = s\<lparr>pics := (pics s)(i := p)\<rparr>"

section \<open>Operations\<close>

text \<open>\<open>pic_set_irq1\<close>: edge detection on one input line.\<close>

definition pic_set_irq1 :: "PicState \<Rightarrow> nat \<Rightarrow> bool \<Rightarrow> PicState" where
  "pic_set_irq1 s irq level =
     (let mask = push_bit irq 1 in
      if level then
        (let s' = (if last_irr s AND mask = 0 then s\<lparr>irr := irr s OR mask\<rparr> else s)
         in s'\<lparr>last_irr := last_irr s' OR mask\<rparr>)
      else s\<lparr>last_irr := last_irr s AND NOT mask\<rparr>)"

text \<open>
  \<open>get_priority\<close>: the \<open>while\<close> loop scans the rotated mask upwards; it does not
  return on an empty mask, which the caller tests first.
\<close>

partial_function (option) get_priority_loop :: "u8 \<Rightarrow> u8 \<Rightarrow> nat \<Rightarrow> nat option" where
  "get_priority_loop msk add priority =
     (if msk AND push_bit ((priority + unat add) mod 8) 1 = 0
      then get_priority_loop msk add (Suc priority)
      else Some priority)"

definition get_priority :: "PicState \<Rightarrow> u8 \<Rightarrow> nat" where
  "get_priority s msk =
     (if msk = 0 then 8 else the (get_priority_loop msk (priority_add s) 0))"

definition pic_get_irq :: "'o PicState2 \<Rightarrow> pic_id \<Rightarrow> nat option" where
  "pic_get_irq s2 i =
     (let s = pics s2 i;
          mask = irr s AND NOT (imr s);
          priority = get_priority s mask
      in if priority = 8 then None
         else
           (let mask = isr s;
                mask = (if special_mask s \<noteq> 0 then mask AND NOT (imr s) else mask);
                mask = (if special_fully_nested_mode s \<noteq> 0 \<and> i = Master
                        then mask AND NOT (push_bit 2 1) else mask);
                cur_priority = get_priority s mask
            in if priority < cur_priority
               then Some ((priority + unat (priority_add s)) mod 8) else None))"

definition pic_update_irq :: "'o PicState2 \<Rightarrow> 'o PicState2" where
  "pic_update_irq s =
     (let s = (case pic_get_irq s Slave of
                 Some irq2 \<Rightarrow>
                   set_pic Master (pic_set_irq1 (pic_set_irq1 (pics s Master) 2 True) 2 False) s
               | None \<Rightarrow> s)
      in case pic_get_irq s Master of
           Some irq \<Rightarrow> s\<lparr>obj := raise_fn s (obj s)\<rparr>
         | None \<Rightarrow> s)"

text \<open>\<open>i8259_set_irq\<close> indexes the two-element array \<open>pics\<close> with \<open>irq >> 3\<close>.\<close>

definition i8259_set_irq :: "'o PicState2 \<Rightarrow> nat \<Rightarrow> bool \<Rightarrow> 'o PicState2 result" where
  "i8259_set_irq s irq level =
     (if irq div 8 \<ge> 2 then Inl OutOfBounds
      else
        (let i = (if irq div 8 = 0 then Master else Slave)
         in Inr (pic_update_irq (set_pic i (pic_set_irq1 (pics s i) (irq mod 8) level) s))))"

definition pic_intack :: "PicState \<Rightarrow> nat \<Rightarrow> PicState" where
  "pic_intack s irq =
     (let s = (if auto_eoi s \<noteq> 0
               then (if rotate_on_auto_eoi s \<noteq> 0
                     then s\<lparr>priority_add := of_nat ((irq + 1) mod 8)\<rparr> else s)
               else s\<lparr>isr := isr s OR push_bit irq 1\<rparr>)
      in s\<lparr>irr := irr s AND NOT (push_bit irq 1)\<rparr>)"

definition i8259_read_irq :: "'o PicState2 \<Rightarrow> nat \<times> 'o PicState2" where
  "i8259_read_irq s =
     (let (intno, s) =
        (case pic_get_irq s Master of
           Some irq \<Rightarrow>
             (let s = set_pic Master (pic_intack (pics s Master) irq) s
              in if irq = 2 then
                   (case pic_get_irq s Slave of
                      Some irq2 \<Rightarrow>
                        (let s = set_pic Slave (pic_intack (pics s Slave) irq2) s
                         in (unat (irq_base (pics s Slave)) + irq2, s))
                    | None \<Rightarrow> (unat (irq_base (pics s Slave)) + 7, s))
                 else (unat (irq_base (pics s Master)) + irq, s))
         | None \<Rightarrow> (unat (irq_base (pics s Master)) + 7, s))
      in (intno, pic_update_irq s))"

definition pic_reset :: "PicState \<Rightarrow> PicState" where
  "pic_reset s = s\<lparr>last_irr := 0, irr := 0, imr := 0, isr := 0, priority_add := 0,
     irq_base := 0, read_reg_select := 0, poll := 0, special_mask := 0, init_state := 0,
     auto_eoi := 0, rotate_on_auto_eoi := 0, special_fully_nested_mode := 0, init4 := 0,
     single_mode := 0\<rparr>"

text \<open>
  \<open>pic_ioport_write\<close>: initialisation words, operation control words and the
  mask register.  A level-triggered initialisation word ends in \<open>hw_error\<close>,
  which calls \<open>abort()\<close>.
\<close>

definition hw_error :: "'a result" where
  "hw_error = Inl Abort"

definition pic_write_ocw3 :: "PicState \<Rightarrow> u32 \<Rightarrow> PicState" where
  "pic_write_ocw3 s val =
     (let s = (if val AND 0x04 \<noteq> 0 then s\<lparr>poll := 1\<rparr> else s);
          s = (if val AND 0x02 \<noteq> 0 then s\<lparr>read_reg_select := ucast (val AND 1)\<rparr> else s);
          s = (if val AND 0x40 \<noteq> 0 then s\<lparr>special_mask := ucast (drop_bit 5 val AND 1)\<rparr> else s)
      in s)"

definition pic_write_ocw2 :: "'o PicState2 \<Rightarrow> pic_id \<Rightarrow> u32 \<Rightarrow> 'o PicState2" where
  "pic_write_ocw2 s2 i val =
     (let s = pics s2 i; cmd = unat (drop_bit 5 val)
      in if cmd = 0 \<or> cmd = 4 then
           set_pic i (s\<lparr>rotate_on_auto_eoi := of_nat (cmd div 4)\<rparr>) s2
         else if cmd = 1 \<or> cmd = 5 then
           (let priority = get_priority s (isr s)
            in if priority \<noteq> 8 then
                 (let irq = (priority + unat (priority_add s)) mod 8;
                      s = s\<lparr>isr := isr s AND NOT (push_bit irq 1)\<rparr>;
                      s = (if cmd = 5 then s\<lparr>priority_add := of_nat ((irq + 1) mod 8)\<rparr> else s)
                  in pic_update_irq (set_pic i s s2))
               else s2)
         else if cmd = 3 then
           (let irq = unat (val AND 7)
            in pic_update_irq (set_pic i (s\<lparr>isr := isr s AND NOT (push_bit irq 1)\<rparr>) s2))
         else if cmd = 6 then
           pic_update_irq (set_pic i (s\<lparr>priority_add := ucast ((val + 1) AND 7)\<rparr>) s2)
         else if cmd = 7 then
           (let irq = unat (val AND 7)
            in pic_update_irq (set_pic i (s\<lparr>isr := isr s AND NOT (push_bit irq 1),
                 priority_add := of_nat ((irq + 1) mod 8)\<rparr>) s2))
         else s2)"

definition pic_write_data :: "'o PicState2 \<Rightarrow> pic_id \<Rightarrow> u32 \<Rightarrow> 'o PicState2" where
  "pic_write_data s2 i val =
     (let s = pics s2 i
      in if init_state s = 0 then
           pic_update_irq (set_pic i (s\<lparr>imr := ucast val\<rparr>) s2)
         else if init_state s = 1 then
           set_pic i (s\<lparr>irq_base := ucast (val AND 0xf8),
             init_state := (if single_mode s \<noteq> 0 then (if init4 s \<noteq> 0 then 3 else 0) else 2)\<rparr>) s2
         else if init_state s = 2 then
           set_pic i (s\<lparr>init_state := (if init4 s \<noteq> 0 then 3 else 0)\<rparr>) s2
         else if init_state s = 3 then
           set_pic i (s\<lparr>special_fully_nested_mode := ucast (drop_bit 4 val AND 1),
             auto_eoi := ucast (drop_bit 1 val AND 1), init_state := 0\<rparr>) s2
         else s2)"

definition pic_ioport_write :: "'o PicState2 \<Rightarrow> pic_id \<Rightarrow> u32 \<Rightarrow> u32 \<Rightarrow> 'o PicState2 result" where
  "pic_ioport_write s2 i addr val =
     (if addr AND 1 = 0 then
        (if val AND 0x10 \<noteq> 0 then
           (let s = pic_reset (pics s2 i);
                s = s\<lparr>init_state := 1, init4 := ucast (val AND 1),
                      single_mode := ucast (val AND 2)\<rparr>
            in if val AND 0x08 \<noteq> 0 then hw_error else Inr (set_pic i s s2))
         else if val AND 0x08 \<noteq> 0 then
           Inr (set_pic i (pic_write_ocw3 (pics s2 i) val) s2)
         else Inr (pic_write_ocw2 s2 i val))
      else Inr (pic_write_data s2 i val))"

definition pic_poll_read :: "'o PicState2 \<Rightarrow> pic_id \<Rightarrow> u32 \<Rightarrow> u32 \<times> 'o PicState2" where
  "pic_poll_read s2 i addr1 =
     (case pic_get_irq s2 i of
        Some ret \<Rightarrow>
          (let s2 = (if drop_bit 7 addr1 \<noteq> 0
                     then set_pic Master ((pics s2 Master)
                            \<lparr>isr := isr (pics s2 Master) AND NOT (push_bit 2 1),
                             irr := irr (pics s2 Master) AND NOT (push_bit 2 1)\<rparr>) s2
                     else s2);
               s = pics s2 i;
               s2 = set_pic i (s\<lparr>irr := irr s AND NOT (push_bit ret 1),
                                isr := isr s AND NOT (push_bit ret 1)\<rparr>) s2
           in (of_nat ret,
               if drop_bit 7 addr1 \<noteq> 0 \<or> ret \<noteq> 2 then pic_update_irq s2 else s2))
      | None \<Rightarrow> (0x07, pic_update_irq s2))"

definition pic_ioport_read :: "'o PicState2 \<Rightarrow> pic_id \<Rightarrow> u32 \<Rightarrow> u32 \<times> 'o PicState2" where
  "pic_ioport_read s2 i addr1 =
     (let s = pics s2 i
      in if poll s \<noteq> 0 then
           (let (ret, s2) = pic_poll_read s2 i addr1
            in (ret, set_pic i ((pics s2 i)\<lparr>poll := 0\<rparr>) s2))
         else if addr1 AND 1 = 0 then
           (if read_reg_select s \<noteq> 0 then (ucast (isr s), s2) else (ucast (irr s), s2))
         else (ucast (imr s), s2))"

definition i8259_ioport_read :: "'o PicState2 \<Rightarrow> u32 \<Rightarrow> u32 \<times> 'o PicState2" where
  "i8259_ioport_read s addr =
     (if addr = 0x20 \<or> addr = 0x21 then pic_ioport_read s Master addr
      else pic_ioport_read s Slave addr)"

definition i8259_ioport_write :: "'o PicState2 \<Rightarrow> u32 \<Rightarrow> u32 \<Rightarrow> 'o PicState2 result" where
  "i8259_ioport_write s addr val =
     (if addr = 0x20 \<or> addr = 0x21 then pic_ioport_write s Master addr val
      else pic_ioport_write s Slave addr val)"

text \<open>\<open>i8259_init\<close>: both controllers come out of \<open>pic_reset\<close>.\<close>

definition pic_zero :: PicState where
  "pic_zero = \<lparr>last_irr = 0, irr = 0, imr = 0, isr = 0, priority_add = 0,
     irq_base = 0, read_reg_select = 0, poll = 0, special_mask = 0, init_state = 0,
     auto_eoi = 0, rotate_on_auto_eoi = 0, special_fully_nested_mode = 0, init4 = 0,
     single_mode = 0\<rparr>"

definition i8259_init :: "('o \<Rightarrow> 'o) \<Rightarrow> 'o \<Rightarrow> 'o PicState2" where
  "i8259_init raise ob = \<lparr>pics = (\<lambda>_. pic_reset pic_zero), raise_fn = raise, obj = ob\<rparr>"

text \<open>
  \<open>set_irq\<close> of \<open>pc.c\<close>, the callback every device is given: the controller is
  carried as a \<open>result\<close>, so that an index outside the two controllers is
  visible to whoever looks at it later.
\<close>

definition set_irq :: "'o PicState2 result \<Rightarrow> nat \<Rightarrow> bool \<Rightarrow> 'o PicState2 result" where
  "set_irq p irq level = bind_result p (\<lambda>s. i8259_set_irq s irq level)"

section \<open>Specification vocabulary\<close>

text \<open>
  \<open>rank\<close> is the priority of a line under the current rotation (0 is the
  highest), \<open>requesting\<close> and \<open>blocking\<close> are the lines whose request is seen
  and the lines whose service holds others back, \<open>pic2_wf\<close> is the invariant of
  the pair and \<open>pic_reach\<close> the states the board can drive it into.
\<close>

definition rank :: "PicState \<Rightarrow> nat \<Rightarrow> nat" where
  "rank s irq = (irq + 8 - unat (priority_add s) mod 8) mod 8"

definition requesting :: "PicState \<Rightarrow> nat \<Rightarrow> bool" where
  "requesting s n \<longleftrightarrow> n < 8 \<and> bit (irr s) n \<and> \<not> bit (imr s) n"

definition blocking :: "PicState \<Rightarrow> pic_id \<Rightarrow> nat \<Rightarrow> bool" where
  "blocking s i n \<longleftrightarrow> n < 8 \<and> bit (isr s) n \<and> (special_mask s \<noteq> 0 \<longrightarrow> \<not> bit (imr s) n) \<and>
     (special_fully_nested_mode s \<noteq> 0 \<and> i = Master \<longrightarrow> n \<noteq> 2)"

definition cascade :: "PicState \<Rightarrow> PicState" where
  "cascade p = pic_set_irq1 (pic_set_irq1 p 2 True) 2 False"

definition pic_wf :: "PicState \<Rightarrow> bool" where
  "pic_wf s \<longleftrightarrow> unat (priority_add s) < 8 \<and> unat (init_state s) < 4 \<and> irq_base s AND 7 = 0"

definition pic2_wf :: "'o PicState2 \<Rightarrow> bool" where
  "pic2_wf s \<longleftrightarrow> pic_wf (pics s Master) \<and> pic_wf (pics s Slave) \<and>
     \<not> bit (last_irr (pics s Master)) 2"

definition line_pic :: "nat \<Rightarrow> pic_id" where
  "line_pic irq = (if irq div 8 = 0 then Master else Slave)"

inductive pic_reach :: "('o \<Rightarrow> 'o) \<Rightarrow> 'o \<Rightarrow> 'o PicState2 \<Rightarrow> bool" for f x where
  start: "pic_reach f x (i8259_init f x)"
| line: "pic_reach f x s \<Longrightarrow> irq < 16 \<Longrightarrow> irq \<noteq> 2 \<Longrightarrow> i8259_set_irq s irq l = Inr t
         \<Longrightarrow> pic_reach f x t"
| ack: "pic_reach f x s \<Longrightarrow> i8259_read_irq s = (v, t) \<Longrightarrow> pic_reach f x t"
| write_port: "pic_reach f x s \<Longrightarrow> i8259_ioport_write s addr val = Inr t \<Longrightarrow> pic_reach f x t"
| read_port: "pic_reach f x s \<Longrightarrow> i8259_ioport_read s addr = (v, t) \<Longrightarrow> pic_reach f x t"

definition write_ports :: "'o PicState2 \<Rightarrow> (u32 \<times> u32) list \<Rightarrow> 'o PicState2 result" where
  "write_ports s ws = foldl (\<lambda>r (addr, val). bind_result r (\<lambda>t. i8259_ioport_write t addr val)) (Inr s) ws"

fun drive_lines :: "'o PicState2 \<Rightarrow> (nat \<times> bool) list \<Rightarrow> 'o PicState2 result" where
  "drive_lines s [] = Inr s"
| "drive_lines s ((irq, level) # ls) = bind_result (i8259_set_irq s irq level) (\<lambda>t. drive_lines t ls)"

definition cmd_port :: "pic_id \<Rightarrow> u32" where
  "cmd_port i = (case i of Master \<Rightarrow> 0x20 | Slave \<Rightarrow> 0xa0)"

definition pic_ok :: "'o PicState2 result \<Rightarrow> bool" where
  "pic_ok r = (case r of Inl _ \<Rightarrow> False | Inr s \<Rightarrow> pic2_wf s)"

definition pic_irq_valid :: "nat \<Rightarrow> bool" where
  "pic_irq_valid irq \<longleftrightarrow> irq < 16 \<and> irq \<noteq> 2"

definition pic_line :: "'o PicState2 result \<Rightarrow> nat \<Rightarrow> bool" where
  "pic_line r irq = (case r of Inl _ \<Rightarrow> False
     | Inr s \<Rightarrow> bit (last_irr (pics s (line_pic irq))) (irq mod 8))"

definition pic_pending :: "'o PicState2 result \<Rightarrow> nat \<Rightarrow> bool" where
  "pic_pending r irq = (case r of Inl _ \<Rightarrow> False
     | Inr s \<Rightarrow> bit (irr (pics s (line_pic irq))) (irq mod 8))"

text \<open>Two concrete states for the examples below.\<close>

definition pic_example :: "bool PicState2" where
  "pic_example = (i8259_init (\<lambda>_. True) False)
     \<lparr>pics := (\<lambda>i. pic_zero\<lparr>irr := 0x12, imr := 0x02, isr := 0x20\<rparr>)\<rparr>"

section \<open>Priority resolution\<close>

lemma rank_less: "rank s irq < 8"
  by (simp add: rank_def)

lemma line_of_rank: "irq < 8 \<Longrightarrow> (rank s irq + unat (priority_add s)) mod 8 = irq"
  by (simp add: rank_def unrotate_rotate)

lemma rank_of_line: "p < 8 \<Longrightarrow> rank s ((p + unat (priority_add s)) mod 8) = p"
  by (simp add: rank_def rotate_unrotate)

lemma rank_eq_iff: "m < 8 \<Longrightarrow> n < 8 \<Longrightarrow> rank s m = rank s n \<longleftrightarrow> m = n"
  by (metis line_of_rank)

lemma get_priority_loop_first:
  assumes "bit m ((p + unat add) mod 8)" and "k \<le> p"
    and "\<And>q. k \<le> q \<Longrightarrow> q < p \<Longrightarrow> \<not> bit m ((q + unat add) mod 8)"
  shows "get_priority_loop m add k = Some p"
  using assms(2,3)
proof (induction "p - k" arbitrary: k)
  case 0
  then have "k = p" by simp
  with assms(1) show ?case
    by (simp add: get_priority_loop.simps [of m add p] bit_test)
next
  case (Suc d)
  then have "k < p" by simp
  with Suc.prems have "\<not> bit m ((k + unat add) mod 8)" by simp
  moreover have "get_priority_loop m add (Suc k) = Some p"
    using Suc by simp
  ultimately show ?case
    by (simp add: get_priority_loop.simps [of m add k] bit_test)
qed

lemma get_priority_loop_returns:
  assumes "m \<noteq> 0"
  shows "\<exists>p < 8. get_priority_loop m add 0 = Some p"
proof -
  from assms obtain n where n: "n < 8" "bit m n"
    by (auto elim: word_neq_0_bitE)
  let ?P = "\<lambda>p. bit m ((p + unat add) mod 8)"
  let ?p = "LEAST p. ?P p"
  have ex: "?P ((n + 8 - unat add mod 8) mod 8)"
  proof -
    have "((n + 8 - unat add mod 8) mod 8 + unat add) mod 8 = n"
      using n(1) by (rule unrotate_rotate)
    with n(2) show ?thesis by simp
  qed
  have "?p \<le> (n + 8 - unat add mod 8) mod 8" using ex by (rule Least_le)
  also have "\<dots> < 8" by simp
  finally have "?p < 8" .
  moreover have "get_priority_loop m add 0 = Some ?p"
    by (rule get_priority_loop_first) (use ex in \<open>auto intro: LeastI dest: not_less_Least\<close>)
  ultimately show ?thesis by blast
qed

lemma get_priority_Min:
  assumes "m \<noteq> 0"
  shows "get_priority s m = Min (rank s ` {n. n < 8 \<and> bit m n})" (is "_ = Min ?R")
proof -
  have fin: "finite ?R" and ne: "?R \<noteq> {}"
    using assms by (auto simp: u8_neq_0_iff)
  then have "Min ?R \<in> ?R" by (rule Min_in)
  then obtain n where n: "n < 8" "bit m n" "Min ?R = rank s n" by auto
  have "get_priority_loop m (priority_add s) 0 = Some (Min ?R)"
  proof (rule get_priority_loop_first)
    show "bit m ((Min ?R + unat (priority_add s)) mod 8)"
      using n by (simp add: line_of_rank)
  next
    fix q assume q: "q < Min ?R"
    then have "q < 8" using n(3) rank_less [of s n] by simp
    show "\<not> bit m ((q + unat (priority_add s)) mod 8)"
    proof
      assume "bit m ((q + unat (priority_add s)) mod 8)"
      then have "rank s ((q + unat (priority_add s)) mod 8) \<in> ?R" by auto
      with \<open>q < 8\<close> have "q \<in> ?R" by (simp add: rank_of_line)
      with fin have "Min ?R \<le> q" by simp
      with q show False by simp
    qed
  qed simp
  with assms show ?thesis by (simp add: get_priority_def)
qed

lemma get_priority_le: "get_priority s m \<le> 8"
  and get_priority_eq_8: "get_priority s m = 8 \<longleftrightarrow> m = 0"
  using get_priority_loop_returns [of m "priority_add s"]
  by (auto simp: get_priority_def)

lemma get_priority_eq_rank:
  assumes "n < 8"
  shows "get_priority s m = rank s n \<longleftrightarrow>
     bit m n \<and> (\<forall>k<8. bit m k \<longrightarrow> rank s n \<le> rank s k)"
proof (cases "m = 0")
  case True
  then show ?thesis using rank_less [of s n] by (simp add: get_priority_def)
next
  case False
  let ?R = "rank s ` {n. n < 8 \<and> bit m n}"
  have fin: "finite ?R" and ne: "?R \<noteq> {}"
    using False by (auto simp: u8_neq_0_iff)
  show ?thesis
    using assms Min_eq_iff [OF fin ne, of "rank s n"]
    by (auto simp: get_priority_Min [OF False] rank_eq_iff)
qed

lemma get_priority_greater:
  "r < 8 \<Longrightarrow> r < get_priority s m \<longleftrightarrow> (\<forall>k<8. bit m k \<longrightarrow> r < rank s k)"
proof (cases "m = 0")
  case True
  then show "r < 8 \<Longrightarrow> ?thesis" by (simp add: get_priority_def)
next
  case False
  have "finite (rank s ` {n. n < 8 \<and> bit m n})" "rank s ` {n. n < 8 \<and> bit m n} \<noteq> {}"
    using False by (auto simp: u8_neq_0_iff)
  then show ?thesis
    by (auto simp: get_priority_Min [OF False])
qed

lemma pic_get_irq_Some_iff:
  "pic_get_irq s2 i = Some irq \<longleftrightarrow>
     requesting (pics s2 i) irq \<and>
     (\<forall>n. requesting (pics s2 i) n \<longrightarrow> rank (pics s2 i) irq \<le> rank (pics s2 i) n) \<and>
     (\<forall>n. blocking (pics s2 i) i n \<longrightarrow> rank (pics s2 i) irq < rank (pics s2 i) n)"
proof -
  let ?s = "pics s2 i"
  let ?req = "irr ?s AND NOT (imr ?s)"
  let ?m1 = "if special_mask ?s \<noteq> 0 then isr ?s AND NOT (imr ?s) else isr ?s"
  let ?blk = "if special_fully_nested_mode ?s \<noteq> 0 \<and> i = Master then ?m1 AND NOT (push_bit 2 1) else ?m1"
  let ?p = "get_priority ?s ?req"
  have req: "requesting ?s n \<longleftrightarrow> n < 8 \<and> bit ?req n" for n
    by (auto simp: requesting_def bit_simps)
  have "bit ?blk n \<longleftrightarrow> blocking ?s i n" if "n < 8" for n
    using that bit_and_not_exp [of ?m1 2 n] by (auto simp: blocking_def bit_simps)
  then have blk: "blocking ?s i n \<longleftrightarrow> n < 8 \<and> bit ?blk n" for n
    by (auto simp: blocking_def)
  have eq: "pic_get_irq s2 i = (if ?p = 8 then None else
      if ?p < get_priority ?s ?blk then Some ((?p + unat (priority_add ?s)) mod 8) else None)"
    by (simp only: pic_get_irq_def Let_def)
  have "pic_get_irq s2 i = Some irq \<longleftrightarrow>
      irq < 8 \<and> ?p = rank ?s irq \<and> ?p < get_priority ?s ?blk"
    using get_priority_le [of ?s ?req] rank_less [of ?s irq] line_of_rank [of irq ?s]
      rank_of_line [of ?p ?s]
    unfolding eq by auto
  also have "\<dots> \<longleftrightarrow> irq < 8 \<and> ?p = rank ?s irq \<and> rank ?s irq < get_priority ?s ?blk"
    by auto
  finally show ?thesis
    by (auto simp only: get_priority_eq_rank get_priority_greater [OF rank_less] req blk)
qed

lemma pic_get_irq_None_iff:
  "pic_get_irq s2 i = None \<longleftrightarrow>
     (\<forall>n. requesting (pics s2 i) n \<longrightarrow> 
        (\<exists>m. blocking (pics s2 i) i m \<and> rank (pics s2 i) m \<le> rank (pics s2 i) n))"
  (is "?L = ?R")
proof
  let ?s = "pics s2 i"
  assume L: ?L
  show ?R
  proof (intro allI impI)
    fix n assume n: "requesting ?s n"
    obtain m where m: "requesting ?s m" "\<And>k. requesting ?s k \<Longrightarrow> rank ?s m \<le> rank ?s k"
      using n ex_has_least_nat [of "requesting ?s" n "rank ?s"] by auto
    with L obtain k where "blocking ?s i k" "rank ?s k \<le> rank ?s m"
      using pic_get_irq_Some_iff [of s2 i m] by (auto simp: not_less)
    with m(2) [OF n] show "\<exists>m. blocking ?s i m \<and> rank ?s m \<le> rank ?s n"
      by (meson order_trans)
  qed
next
  assume R: ?R
  show ?L
  proof (cases "pic_get_irq s2 i")
    case (Some irq)
    with R show ?thesis
      by (fastforce simp: pic_get_irq_Some_iff)
  qed
qed

section \<open>Frame facts\<close>

lemma set_pic_simps [simp]:
  "pics (set_pic i p s) i = p"
  "j \<noteq> i \<Longrightarrow> pics (set_pic i p s) j = pics s j"
  "raise_fn (set_pic i p s) = raise_fn s"
  "obj (set_pic i p s) = obj s"
  by (simp_all add: set_pic_def)

lemma pic_get_irq_cong: "pics s i = pics t i \<Longrightarrow> pic_get_irq s i = pic_get_irq t i"
  by (simp add: pic_get_irq_def)

lemma pic_get_irq_obj [simp]: "pic_get_irq (s\<lparr>obj := x\<rparr>) i = pic_get_irq s i"
  by (rule pic_get_irq_cong) simp

lemma cascade_eq:
  "cascade p = p\<lparr>irr := (if bit (last_irr p) 2 then irr p else irr p OR 4),
                last_irr := last_irr p AND NOT 4\<rparr>"
proof -
  have "(last_irr p OR 4) AND NOT 4 = last_irr p AND NOT 4"
    by (rule bit_word_eqI) (auto simp: bit_simps)
  moreover have "last_irr p AND 4 = 0 \<longleftrightarrow> \<not> bit (last_irr p) 2"
    using and_exp_eq_0 [of "last_irr p" 2] by simp
  ultimately show ?thesis by (simp add: cascade_def pic_set_irq1_def)
qed

lemma pics_pic_update_irq:
  "pics (pic_update_irq s) =
     (if pic_get_irq s Slave = None then pics s else (pics s)(Master := cascade (pics s Master)))"
  by (auto simp: pic_update_irq_def cascade_def set_pic_def Let_def split: option.splits)

lemma raise_fn_pic_update_irq [simp]: "raise_fn (pic_update_irq s) = raise_fn s"
  by (simp add: pic_update_irq_def Let_def split: option.splits)

lemma obj_pic_update_irq:
  "obj (pic_update_irq s) =
     (if pic_get_irq (pic_update_irq s) Master = None then obj s else raise_fn s (obj s))"
proof -
  define t where "t = (if pic_get_irq s Slave = None then s
    else set_pic Master (cascade (pics s Master)) s)"
  have "pic_update_irq s = (if pic_get_irq t Master = None then t else t\<lparr>obj := raise_fn t (obj t)\<rparr>)"
    by (auto simp: pic_update_irq_def t_def cascade_def split: option.splits)
  then show ?thesis by (auto simp: t_def)
qed

section \<open>Well-formed states\<close>

lemma pic2_wfD: "pic2_wf s \<Longrightarrow> pic_wf (pics s i)"
  by (cases i) (simp_all add: pic2_wf_def)

lemma pic_wf_cong:
  "priority_add s = priority_add t \<Longrightarrow> init_state s = init_state t \<Longrightarrow> irq_base s = irq_base t
   \<Longrightarrow> pic_wf s = pic_wf t"
  by (simp add: pic_wf_def)

lemma pic_wf_pic_set_irq1 [simp]: "pic_wf (pic_set_irq1 s n l) = pic_wf s"
  by (rule pic_wf_cong) (simp_all add: pic_set_irq1_def Let_def)

lemma pic2_wf_pic_update_irq [simp, intro]: "pic2_wf s \<Longrightarrow> pic2_wf (pic_update_irq s)"
  by (auto simp: pic2_wf_def pics_pic_update_irq cascade_eq pic_wf_def bit_simps)

lemma pic2_wf_set_pic:
  "pic2_wf s \<Longrightarrow> pic_wf p \<Longrightarrow> (i = Master \<Longrightarrow> \<not> bit (last_irr p) 2) \<Longrightarrow> pic2_wf (set_pic i p s)"
  by (cases i) (auto simp: pic2_wf_def)

lemma pic2_wf_set_pic_keep:
  "pic2_wf s \<Longrightarrow> pic_wf p \<Longrightarrow> last_irr p = last_irr (pics s i) \<Longrightarrow> pic2_wf (set_pic i p s)"
  by (rule pic2_wf_set_pic) (auto simp: pic2_wf_def)

lemma last_irr_pic_set_irq1:
  "n < 8 \<Longrightarrow> bit (last_irr (pic_set_irq1 s n l)) m = (if m = n then l else bit (last_irr s) m)"
  by (auto simp: pic_set_irq1_def Let_def bit_test)

lemma irr_pic_set_irq1:
  "n < 8 \<Longrightarrow> bit (irr (pic_set_irq1 s n l)) m =
     (bit (irr s) m \<or> (m = n \<and> l \<and> \<not> bit (last_irr s) n))"
  by (auto simp: pic_set_irq1_def Let_def bit_test)

lemma pic2_wf_set_irq1:
  assumes "pic2_wf s" "n < 8" "i = Master \<Longrightarrow> n \<noteq> 2"
  shows "pic2_wf (set_pic i (pic_set_irq1 (pics s i) n l) s)"
  using assms by (auto intro!: pic2_wf_set_pic simp: last_irr_pic_set_irq1 pic2_wfD)
    (auto simp: pic2_wf_def)

lemma i8259_set_irq_wf:
  assumes "pic2_wf s" "irq < 16" "irq \<noteq> 2"
  shows "\<exists>t. i8259_set_irq s irq l = Inr t \<and> pic2_wf t"
proof -
  let ?i = "if irq div 8 = 0 then Master else Slave"
  have "?i = Master \<Longrightarrow> irq mod 8 \<noteq> 2" using assms(3) by (auto split: if_splits)
  with assms(1) have "pic2_wf (set_pic ?i (pic_set_irq1 (pics s ?i) (irq mod 8) l) s)"
    by (intro pic2_wf_set_irq1) auto
  moreover have "irq div 8 < 2" using assms(2) by (simp add: less_mult_imp_div_less)
  ultimately show ?thesis by (simp add: i8259_set_irq_def Let_def)
qed

lemma pic_wf_pic_intack: "pic_wf s \<Longrightarrow> pic_wf (pic_intack s n)"
  by (simp add: pic_wf_def pic_intack_def Let_def unat_of_nat_mod8)

lemma last_irr_pic_intack [simp]: "last_irr (pic_intack s n) = last_irr s"
  by (simp add: pic_intack_def Let_def)

lemma i8259_read_irq_wf: "pic2_wf s \<Longrightarrow> pic2_wf (snd (i8259_read_irq s))"
  by (auto simp: i8259_read_irq_def Let_def split: option.splits
      intro!: pic2_wf_set_pic_keep pic_wf_pic_intack pic2_wf_pic_update_irq dest: pic2_wfD)

lemma base_and_7: "ucast ((x :: u32) AND 0xf8) AND (7 :: u8) = 0"
  by (rule bit_word_eqI) (auto simp: bit_simps bit_numeral_rec numeral_eq_Suc less_Suc_eq)

lemma pic_ioport_write_wf:
  assumes "pic2_wf s" "pic_ioport_write s i addr val = Inr t"
  shows "pic2_wf t"
proof -
  have wf: "pic_wf (pics s i)" using assms(1) by (rule pic2_wfD)
  consider (icw1) "addr AND 1 = 0" "val AND 0x10 \<noteq> 0"
    | (ocw3) "addr AND 1 = 0" "val AND 0x10 = 0" "val AND 0x08 \<noteq> 0"
    | (ocw2) "addr AND 1 = 0" "val AND 0x10 = 0" "val AND 0x08 = 0"
    | (data) "addr AND 1 \<noteq> 0" by blast
  then show ?thesis
  proof cases
    case icw1
    with assms(2) show ?thesis
      by (auto simp: pic_ioport_write_def Let_def hw_error_def pic_reset_def pic_wf_def
          intro!: pic2_wf_set_pic [OF assms(1)] split: if_splits)
  next
    case ocw3
    with assms(2) wf have "t = set_pic i (pic_write_ocw3 (pics s i) val) s"
      by (simp add: pic_ioport_write_def)
    with wf show ?thesis
      by (auto simp: pic_write_ocw3_def pic_wf_def Let_def intro!: pic2_wf_set_pic_keep [OF assms(1)])
  next
    case ocw2
    with assms(2) have "t = pic_write_ocw2 s i val" by (simp add: pic_ioport_write_def)
    with wf assms(1) show ?thesis
      by (auto simp: pic_write_ocw2_def Let_def pic_wf_def unat_of_nat_mod8 unat_ucast_and_7
          intro!: pic2_wf_set_pic_keep)
  next
    case data
    with assms(2) have "t = pic_write_data s i val" by (simp add: pic_ioport_write_def)
    with wf assms(1) show ?thesis
      by (auto simp: pic_write_data_def Let_def pic_wf_def base_and_7
          intro!: pic2_wf_set_pic_keep)
  qed
qed

lemma pic2_wf_set_requests:
  "pic2_wf s \<Longrightarrow> pic2_wf (set_pic i ((pics s i)\<lparr>irr := a, isr := b\<rparr>) s)"
  "pic2_wf s \<Longrightarrow> pic2_wf (set_pic i ((pics s i)\<lparr>isr := b, irr := a\<rparr>) s)"
  by (auto simp: pic_wf_def intro!: pic2_wf_set_pic_keep dest: pic2_wfD [of _ i])

lemma pic_poll_read_wf: "pic2_wf s \<Longrightarrow> pic2_wf (snd (pic_poll_read s i addr))"
  by (auto simp: pic_poll_read_def Let_def split: option.splits intro!: pic2_wf_set_requests)

lemma pic_ioport_read_wf: "pic2_wf s \<Longrightarrow> pic2_wf (snd (pic_ioport_read s i addr))"
  using pic_poll_read_wf [of s i addr] pic2_wfD [of "snd (pic_poll_read s i addr)" i]
  by (auto simp: pic_ioport_read_def Let_def pic_wf_def split: prod.splits
      intro!: pic2_wf_set_pic_keep)

lemma pic2_wf_init: "pic2_wf (i8259_init f x)"
  by (simp add: i8259_init_def pic2_wf_def pic_wf_def pic_reset_def pic_zero_def)

section \<open>Delivery, acknowledgement and initialisation\<close>

lemma pic_get_irq_single:
  assumes "\<And>m. requesting (pics s i) m \<longleftrightarrow> m = n" and "\<And>m. \<not> blocking (pics s i) i m"
  shows "pic_get_irq s i = Some n"
  using assms by (simp add: pic_get_irq_Some_iff)

lemma pic_get_irq_idle: "irr (pics s i) = 0 \<Longrightarrow> pic_get_irq s i = None"
  by (simp add: pic_get_irq_None_iff requesting_def)

lemma not_blocking_idle: "isr s = 0 \<Longrightarrow> \<not> blocking s i n"
  by (simp add: blocking_def)

lemma pic_set_irq1_fields [simp]:
  "imr (pic_set_irq1 s n l) = imr s" "isr (pic_set_irq1 s n l) = isr s"
  "irq_base (pic_set_irq1 s n l) = irq_base s" "auto_eoi (pic_set_irq1 s n l) = auto_eoi s"
  "special_mask (pic_set_irq1 s n l) = special_mask s"
  "special_fully_nested_mode (pic_set_irq1 s n l) = special_fully_nested_mode s"
  "priority_add (pic_set_irq1 s n l) = priority_add s"
  by (simp_all add: pic_set_irq1_def Let_def)

lemma pic_intack_fields [simp]:
  "imr (pic_intack s n) = imr s" "irq_base (pic_intack s n) = irq_base s"
  "auto_eoi (pic_intack s n) = auto_eoi s" "special_mask (pic_intack s n) = special_mask s"
  "special_fully_nested_mode (pic_intack s n) = special_fully_nested_mode s"
  "irr (pic_intack s n) = irr s AND NOT (2 ^ n)"
  "isr (pic_intack s n) = (if auto_eoi s \<noteq> 0 then isr s else isr s OR 2 ^ n)"
  by (simp_all add: pic_intack_def Let_def)

text \<open>Delivery of one request on the master alone, and through the cascade.\<close>

lemma irr_single_requesting:
  "irr s = 0 \<Longrightarrow> n < 8 \<Longrightarrow> \<not> bit (last_irr s) n \<Longrightarrow> \<not> bit (imr s) n \<Longrightarrow>
   requesting (pic_set_irq1 s n True) m \<longleftrightarrow> m = n"
  by (auto simp: requesting_def irr_pic_set_irq1)

lemma irr_after_ack:
  assumes "irr s = 0" "n < 8" "\<not> bit (last_irr s) n"
  shows "irr (pic_intack (pic_set_irq1 s n True) n) = 0"
  by (rule bit_word_eqI) (use assms in \<open>auto simp: bit_test irr_pic_set_irq1\<close>)

lemma delivery_master:
  fixes s :: "'o PicState2"
  assumes n: "n < 8" "n \<noteq> 2"
    and idle: "\<And>i. irr (pics s i) = 0" "isr (pics s Master) = 0"
    and low: "\<not> bit (last_irr (pics s Master)) n" and unmasked: "\<not> bit (imr (pics s Master)) n"
  shows "\<exists>u. i8259_set_irq s n True =
           Inr (set_pic Master (pic_set_irq1 (pics s Master) n True) s\<lparr>obj := raise_fn s (obj s)\<rparr>) \<and>
         i8259_read_irq (set_pic Master (pic_set_irq1 (pics s Master) n True) s\<lparr>obj := raise_fn s (obj s)\<rparr>) =
           (unat (irq_base (pics s Master)) + n, u) \<and>
         irr (pics u Master) = 0 \<and>
         isr (pics u Master) = (if auto_eoi (pics s Master) \<noteq> 0 then 0 else 2 ^ n)"
proof -
  let ?p = "pic_set_irq1 (pics s Master) n True"
  let ?t = "set_pic Master ?p s\<lparr>obj := raise_fn s (obj s)\<rparr>"
  let ?u = "set_pic Master (pic_intack ?p n) ?t"
  have slave: "pic_get_irq x Slave = None" if "pics x Slave = pics s Slave" for x :: "'o PicState2"
    using idle by (simp add: pic_get_irq_idle that)
  have mst: "pic_get_irq x Master = Some n" if "pics x Master = ?p" for x :: "'o PicState2"
    using n idle low unmasked
    by (intro pic_get_irq_single) (simp_all add: that irr_single_requesting not_blocking_idle)
  have "i8259_set_irq s n True = Inr ?t"
    using n by (simp add: i8259_set_irq_def pic_update_irq_def slave mst)
  moreover have "i8259_read_irq ?t = (unat (irq_base (pics s Master)) + n, pic_update_irq ?u)"
    using n by (simp add: i8259_read_irq_def mst set_pic_def)
  moreover have "pics (pic_update_irq ?u) Master = pic_intack ?p n"
    by (simp add: pics_pic_update_irq slave)
  ultimately show ?thesis
    using n idle low irr_after_ack [of "pics s Master" n] by simp
qed

lemma delivery_slave:
  fixes s :: "'o PicState2"
  assumes wf: "pic2_wf s" and n: "n < 8"
    and idle: "\<And>i. irr (pics s i) = 0" "\<And>i. isr (pics s i) = 0"
    and low: "\<not> bit (last_irr (pics s Slave)) n"
    and unmasked: "\<not> bit (imr (pics s Slave)) n" "\<not> bit (imr (pics s Master)) 2"
  shows "\<exists>t u. i8259_set_irq s (8 + n) True = Inr t \<and> obj t = raise_fn s (obj s) \<and>
         i8259_read_irq t = (unat (irq_base (pics s Slave)) + n, u) \<and>
         irr (pics u Slave) = 0 \<and>
         isr (pics u Slave) = (if auto_eoi (pics s Slave) \<noteq> 0 then 0 else 2 ^ n)"
proof -
  let ?p = "pic_set_irq1 (pics s Slave) n True"
  let ?q = "cascade (pics s Master)"
  let ?t = "set_pic Master ?q (set_pic Slave ?p s)\<lparr>obj := raise_fn s (obj s)\<rparr>"
  let ?u = "set_pic Slave (pic_intack ?p n) (set_pic Master (pic_intack ?q 2) ?t)"
  have div: "(8 + n) div 8 = 1" using n by (simp add: div_add_self1)
  have sl: "pic_get_irq x Slave = Some n" if "pics x Slave = ?p" for x :: "'o PicState2"
    using n idle low unmasked
    by (intro pic_get_irq_single) (simp_all add: that irr_single_requesting not_blocking_idle)
  have q: "irr ?q = 4" "isr ?q = 0" "imr ?q = imr (pics s Master)"
    using idle wf by (simp_all add: cascade_eq pic2_wf_def)
  have "requesting ?q m \<longleftrightarrow> m = 2" for m
    using unmasked(2) bit_exp_iff [where 'a = "8 word", of 2 m] by (auto simp: requesting_def q)
  then have mst: "pic_get_irq x Master = Some 2" if "pics x Master = ?q" for x :: "'o PicState2"
    using that q by (intro pic_get_irq_single) (simp_all add: not_blocking_idle)
  have "i8259_set_irq s (8 + n) True = Inr ?t"
    using div by (simp add: i8259_set_irq_def pic_update_irq_def sl mst flip: cascade_def)
  moreover have "i8259_read_irq ?t = (unat (irq_base (pics s Slave)) + n, pic_update_irq ?u)"
    by (simp add: i8259_read_irq_def mst sl set_pic_def)
  moreover have "pics (pic_update_irq ?u) Slave = pic_intack ?p n"
    by (simp add: pics_pic_update_irq set_pic_def)
  ultimately show ?thesis
    using n idle low irr_after_ack [of "pics s Slave" n] by simp
qed

lemma pic_reach_wf: "pic_reach f x s \<Longrightarrow> pic2_wf s"
proof (induction rule: pic_reach.induct)
  case start
  show ?case by (rule pic2_wf_init)
next
  case (line s irq l t)
  then show ?case using i8259_set_irq_wf [of s irq l] by auto
next
  case (ack s v t)
  then show ?case using i8259_read_irq_wf [of s] by simp
next
  case (write_port s addr val t)
  then show ?case by (auto simp: i8259_ioport_write_def intro: pic_ioport_write_wf split: if_splits)
next
  case (read_port s addr v t)
  then show ?case
    using pic_ioport_read_wf [of s Master addr] pic_ioport_read_wf [of s Slave addr]
    by (auto simp: i8259_ioport_read_def split: if_splits)
qed

lemma base_plus_line:
  fixes b :: u8
  assumes "b AND 7 = 0" "n < 8"
  shows "unat b + n < 256" "(unat b + n) mod 8 = n"
proof -
  have "unat b mod 8 = 0"
    using assms(1) unat_and_7_mod [of b] by simp
  moreover have "unat b < 256" by (rule unat_u8_less)
  ultimately show "unat b + n < 256" "(unat b + n) mod 8 = n"
    using assms(2) by presburger+
qed

lemma blocking_after_ack:
  assumes "auto_eoi p = 0" "n < 8" "special_mask p = 0" "special_fully_nested_mode p = 0"
  shows "blocking (pic_intack p n) i n"
  using assms by (simp add: blocking_def bit_test)

lemma master_after_ack:
  assumes "pic_get_irq s Master = Some irq" "i8259_read_irq s = (v, t)"
  shows "pics t Master \<in> {pic_intack (pics s Master) irq, cascade (pic_intack (pics s Master) irq)}"
  using assms
  by (auto simp: i8259_read_irq_def Let_def pics_pic_update_irq split: option.splits if_splits)

lemma service_i8259_set_irq:
  assumes "i8259_set_irq s irq l = Inr t"
  shows "isr (pics t i) = isr (pics s i)" "imr (pics t i) = imr (pics s i)"
    "special_mask (pics t i) = special_mask (pics s i)"
    "special_fully_nested_mode (pics t i) = special_fully_nested_mode (pics s i)"
    "priority_add (pics t i) = priority_add (pics s i)"
  using assms
  by (cases i; auto simp: i8259_set_irq_def Let_def pics_pic_update_irq cascade_eq split: if_splits)+

lemma service_drive_lines:
  assumes "drive_lines s ls = Inr t"
  shows "isr (pics t i) = isr (pics s i) \<and> imr (pics t i) = imr (pics s i) \<and>
    special_mask (pics t i) = special_mask (pics s i) \<and>
    special_fully_nested_mode (pics t i) = special_fully_nested_mode (pics s i) \<and>
    priority_add (pics t i) = priority_add (pics s i)"
  using assms
proof (induction ls arbitrary: s)
  case Nil
  then show ?case by simp
next
  case (Cons x ls)
  obtain irq l where "x = (irq, l)" by force
  with Cons.prems obtain s' where "i8259_set_irq s irq l = Inr s'" "drive_lines s' ls = Inr t"
    by (auto simp: result_simps)
  with Cons.IH [of s'] show ?case by (simp add: service_i8259_set_irq)
qed

lemma cmd_port_and_1: "cmd_port i AND 1 = 0" "(cmd_port i + 1) AND 1 = 1"
  by (cases i; simp add: cmd_port_def)+

lemma i8259_ioport_write_port:
  "i8259_ioport_write s (cmd_port i) val = pic_ioport_write s i (cmd_port i) val"
  "i8259_ioport_write s (cmd_port i + 1) val = pic_ioport_write s i (cmd_port i + 1) val"
  by (cases i; simp add: i8259_ioport_write_def cmd_port_def)+

section \<open>The controller as a sink of interrupt lines\<close>

lemma i8259_set_irq_eq:
  assumes "pic_irq_valid irq"
  shows "i8259_set_irq s irq l =
    Inr (pic_update_irq (set_pic (line_pic irq) (pic_set_irq1 (pics s (line_pic irq)) (irq mod 8) l) s))"
proof -
  have "irq div 8 < 2" using assms by (simp add: pic_irq_valid_def less_mult_imp_div_less)
  then show ?thesis by (simp add: i8259_set_irq_def line_pic_def Let_def)
qed

lemma line_pic_eqD:
  "line_pic m = line_pic n \<Longrightarrow> m mod 8 = n mod 8 \<Longrightarrow> pic_irq_valid m \<Longrightarrow> pic_irq_valid n \<Longrightarrow> m = n"
proof -
  assume *: "line_pic m = line_pic n" "m mod 8 = n mod 8" "pic_irq_valid m" "pic_irq_valid n"
  have "m div 8 < 2" "n div 8 < 2"
    using *(3,4) by (simp_all add: pic_irq_valid_def less_mult_imp_div_less)
  with *(1) have "m div 8 = n div 8" by (auto simp: line_pic_def split: if_splits)
  with *(2) show "m = n" by (metis div_mult_mod_eq)
qed

lemma line_pic_2: "line_pic m = Master \<Longrightarrow> pic_irq_valid m \<Longrightarrow> m mod 8 \<noteq> 2"
  by (auto simp: line_pic_def pic_irq_valid_def split: if_splits)

lemma requests_pic_update_irq:
  assumes "i = Master \<Longrightarrow> n \<noteq> 2"
  shows "bit (irr (pics (pic_update_irq s) i)) n = bit (irr (pics s i)) n"
    and "bit (last_irr (pics (pic_update_irq s) i)) n = bit (last_irr (pics s i)) n"
  using assms bit_or_exp [of "irr (pics s Master)" 2 n] bit_and_not_exp [of "last_irr (pics s Master)" 2 n]
  by (cases i; auto simp: pics_pic_update_irq cascade_eq)+

lemma line_requests:
  assumes "pic_irq_valid n" "pic_irq_valid m"
  shows "pic_line (set_irq (Inr s) n l) m = (if m = n then l else pic_line (Inr s) m)"
    and "pic_pending (set_irq (Inr s) n l) m =
      (pic_pending (Inr s) m \<or> (m = n \<and> l \<and> \<not> pic_line (Inr s) n))"
  using assms line_pic_2 [of m] line_pic_eqD [of m n]
  by (cases "line_pic m = line_pic n";
      auto simp: pic_line_def pic_pending_def set_irq_def i8259_set_irq_eq requests_pic_update_irq
        last_irr_pic_set_irq1 irr_pic_set_irq1)+

interpretation pic_irq: irq_controller set_irq pic_ok pic_irq_valid pic_line pic_pending
proof (unfold_locales, goal_cases)
  case (1 p n l)
  then show ?case
    using i8259_set_irq_wf [of "projr p" n l]
    by (auto simp: pic_ok_def set_irq_def pic_irq_valid_def split: sum.splits)
next
  case (2 p n m l)
  then show ?case by (cases p) (simp_all add: pic_ok_def line_requests)
next
  case (3 p n m l)
  then show ?case by (cases p) (simp_all add: pic_ok_def line_requests)
qed

section \<open>Properties\<close>

text \<open>
  C1: \<open>pic_get_irq\<close> returns exactly the unmasked request of highest priority
  under the current rotation, provided it ranks above every line in service that
  the special modes do not exempt; it returns "none" exactly when every such
  request is held back by a line in service of at least its priority.
\<close>

theorem pic_get_irq_correct:
  "(pic_get_irq s i = Some irq \<longleftrightarrow>
     requesting (pics s i) irq \<and>
     (\<forall>n. requesting (pics s i) n \<longrightarrow> rank (pics s i) irq \<le> rank (pics s i) n) \<and>
     (\<forall>n. blocking (pics s i) i n \<longrightarrow> rank (pics s i) irq < rank (pics s i) n)) \<and>
   (pic_get_irq s i = None \<longleftrightarrow>
     (\<forall>n. requesting (pics s i) n \<longrightarrow>
       (\<exists>m. blocking (pics s i) i m \<and> rank (pics s i) m \<le> rank (pics s i) n)))"
  by (intro conjI pic_get_irq_Some_iff pic_get_irq_None_iff)

theorem pic_get_irq_correct_witness:
  "pic_get_irq pic_example Master = Some 4 \<and> requesting (pics pic_example Master) 4 \<and>
   blocking (pics pic_example Master) Master 5 \<and>
   rank (pics pic_example Master) 4 < rank (pics pic_example Master) 5"
proof -
  have "pic_get_irq pic_example Master = Some 4"
    by (simp add: pic_example_def pic_get_irq_def get_priority_def get_priority_loop.simps pic_zero_def)
  moreover have "blocking (pics pic_example Master) Master 5"
    by (simp add: pic_example_def blocking_def pic_zero_def)
  ultimately show ?thesis
    using pic_get_irq_correct [of pic_example Master 4] by simp
qed

text \<open>
  C3: in every state the board can reach, acknowledging an interrupt returns a
  vector below 256 whose low three bits are the line being served (the slave's
  line behind line 2, line 7 for a spurious interrupt), and leaves the
  controllers well-formed.
\<close>

theorem reachable_vector:
  assumes "pic_reach f x s" "i8259_read_irq s = (v, t)"
  shows "v < 256 \<and> pic2_wf t \<and>
    v mod 8 = (case pic_get_irq s Master of None \<Rightarrow> 7
       | Some irq \<Rightarrow> if irq = 2 then (case pic_get_irq s Slave of None \<Rightarrow> 7 | Some irq2 \<Rightarrow> irq2)
                     else irq)"
proof -
  from assms(1) have wf: "pic2_wf s" by (rule pic_reach_wf)
  then have base: "irq_base (pics s i) AND 7 = 0" for i
    using pic2_wfD [of s i] by (simp add: pic_wf_def)
  have lt: "pic_get_irq s i = Some n \<Longrightarrow> n < 8" for i n
    by (simp add: pic_get_irq_Some_iff requesting_def)
  have "pic_get_irq (set_pic Master p s) Slave = pic_get_irq s Slave" for p
    by (rule pic_get_irq_cong) simp
  then show ?thesis
    using assms(2) i8259_read_irq_wf [OF wf] base_plus_line [OF base] lt
    by (auto simp: i8259_read_irq_def Let_def split: option.splits if_splits)
qed

theorem reachable_vector_witness:
  "let s = i8259_init (\<lambda>_. True) False in
     fst (i8259_read_irq s) < 256 \<and> fst (i8259_read_irq s) mod 8 = 7"
proof -
  let ?s = "i8259_init (\<lambda>_. True) False"
  have "pic_get_irq ?s Master = None"
    by (simp add: pic_get_irq_idle i8259_init_def pic_reset_def)
  moreover obtain v t where "i8259_read_irq ?s = (v, t)" by force
  ultimately show ?thesis
    using reachable_vector [OF pic_reach.start, of "\<lambda>_. True" False v t] by simp
qed

text \<open>
  C2: while no request is pending and none is in service on either controller, a
  rising edge on an unmasked line whose level was low (for lines 8 to 15 the cascade
  line must be unmasked too) signals the CPU, and the acknowledge cycle returns the programmed vector of that line
  (through the cascade for lines 8 to 15), clears the request and marks the line
  in service unless automatic end of interrupt is on.
\<close>

theorem irq_delivery:
  assumes "pic2_wf s" "irq < 16" "irq \<noteq> 2"
    and "\<And>i. irr (pics s i) = 0" "\<And>i. isr (pics s i) = 0"
    and "\<not> bit (last_irr (pics s (line_pic irq))) (irq mod 8)"
    and "\<not> bit (imr (pics s (line_pic irq))) (irq mod 8)"
    and "line_pic irq = Slave \<Longrightarrow> \<not> bit (imr (pics s Master)) 2"
  shows "\<exists>t u. i8259_set_irq s irq True = Inr t \<and> obj t = raise_fn s (obj s) \<and>
    i8259_read_irq t = (unat (irq_base (pics s (line_pic irq))) + irq mod 8, u) \<and>
    irr (pics u (line_pic irq)) = 0 \<and>
    isr (pics u (line_pic irq)) =
      (if auto_eoi (pics s (line_pic irq)) \<noteq> 0 then 0 else 2 ^ (irq mod 8))"
proof (cases "irq < 8")
  case True
  with assms delivery_master [of irq s] show ?thesis
    by (auto simp: line_pic_def)
next
  case False
  then obtain n where "irq = 8 + n" "n < 8" using assms(2)
    by (metis add.commute le_Suc_ex linorder_not_less nat_add_left_cancel_less numeral_Bit0)
  with assms delivery_slave [of s n] show ?thesis
    by (auto simp: line_pic_def)
qed

theorem irq_delivery_witness:
  "\<exists>t u. i8259_set_irq (i8259_init (\<lambda>_. True) False) 12 True = Inr t \<and> obj t \<and>
     i8259_read_irq t = (4, u) \<and> isr (pics u Slave) = 0x10"
  using irq_delivery [of "i8259_init (\<lambda>_. True) False" 12] pic2_wf_init [of "\<lambda>_. True" False]
  by (simp add: i8259_init_def line_pic_def pic_reset_def) blast

text \<open>
  Once an interrupt has been acknowledged in fully nested mode, then
  whatever the devices do to their lines, until the end-of-interrupt command the
  master offers only lines of strictly higher priority.
\<close>

lemma ack_nesting:
  assumes "pic_get_irq s Master = Some irq" "i8259_read_irq s = (v, t)"
    and "auto_eoi (pics s Master) = 0" "special_mask (pics s Master) = 0"
      "special_fully_nested_mode (pics s Master) = 0"
    and "drive_lines t ls = Inr u" "pic_get_irq u Master = Some irq'"
  shows "rank (pics s Master) irq' < rank (pics s Master) irq"
proof -
  have "irq < 8" using assms(1) by (simp add: pic_get_irq_Some_iff requesting_def)
  then have "blocking (pic_intack (pics s Master) irq) Master irq"
    using assms by (simp add: blocking_after_ack)
  then have "blocking (pics t Master) Master irq" "special_mask (pics t Master) = 0"
    using master_after_ack [OF assms(1,2)] assms(4) by (auto simp: blocking_def cascade_eq)
  moreover have "priority_add (pics t Master) = priority_add (pics s Master)"
    using master_after_ack [OF assms(1,2)] assms(3) by (auto simp: cascade_eq pic_intack_def Let_def)
  ultimately have "blocking (pics u Master) Master irq" "rank (pics u Master) = rank (pics s Master)"
    using service_drive_lines [OF assms(6)] by (auto simp: blocking_def rank_def fun_eq_iff)
  with assms(7) show ?thesis by (simp add: pic_get_irq_Some_iff)
qed


text \<open>
  A non-specific end-of-interrupt command clears exactly one in-service bit,
  that of the line of highest priority among those in service.
\<close>

lemma nonspecific_eoi:
  assumes "isr (pics s i) \<noteq> 0" "addr = (if i = Master then 0x20 else 0xa0)"
  shows "\<exists>t n. i8259_ioport_write s addr 0x20 = Inr t \<and> n < 8 \<and> bit (isr (pics s i)) n \<and>
    (\<forall>m<8. bit (isr (pics s i)) m \<longrightarrow> rank (pics s i) n \<le> rank (pics s i) m) \<and>
    isr (pics t i) = isr (pics s i) AND NOT (2 ^ n)"
proof -
  let ?s = "pics s i"
  let ?p = "get_priority ?s (isr ?s)"
  define n where "n = (?p + unat (priority_add ?s)) mod 8"
  have "?p < 8" using assms(1) get_priority_le [of ?s "isr ?s"] get_priority_eq_8 [of ?s "isr ?s"]
    by simp
  then have "?p = rank ?s n" and n: "n < 8" by (simp_all add: n_def rank_of_line)
  then have sel: "bit (isr ?s) n \<and> (\<forall>m<8. bit (isr ?s) m \<longrightarrow> rank ?s n \<le> rank ?s m)"
    using get_priority_eq_rank [of n ?s "isr ?s"] by simp
  have "i8259_ioport_write s addr 0x20 =
      Inr (pic_update_irq (set_pic i (?s\<lparr>isr := isr ?s AND NOT (push_bit n 1)\<rparr>) s))"
    using assms(2) \<open>?p < 8\<close>
    by (cases i) (simp_all add: i8259_ioport_write_def pic_ioport_write_def pic_write_ocw2_def
        Let_def n_def)
  with n sel show ?thesis
    by (auto simp: pics_pic_update_irq cascade_eq)
qed


text \<open>
  The four-byte initialisation sequence resets one controller, programs its
  vector base and its modes, returns it to normal operation and leaves the other
  controller and the CPU alone.
\<close>

lemma icw_sequence:
  "\<exists>t. write_ports s [(cmd_port i, 0x11), (cmd_port i + 1, icw2), (cmd_port i + 1, icw3),
                     (cmd_port i + 1, icw4)] = Inr t \<and>
     pics t i = (pic_reset (pics s i))
       \<lparr>init4 := 1, irq_base := ucast (icw2 AND 0xf8),
        special_fully_nested_mode := ucast (drop_bit 4 icw4 AND 1),
        auto_eoi := ucast (drop_bit 1 icw4 AND 1)\<rparr> \<and>
     (\<forall>j. j \<noteq> i \<longrightarrow> pics t j = pics s j) \<and> obj t = obj s"
  by (simp add: write_ports_def i8259_ioport_write_port pic_ioport_write_def cmd_port_and_1
      Let_def pic_write_data_def pic_reset_def)


end
