(* ===== verification/UART.thy ===== *)
theory UART
  imports Interrupts
begin

text \<open>
  The 8250 serial port of \<open>source/winspire/misc.c\<close> (\<open>U8250\<close>).  The host side is
  the record \<open>uart_host\<close>: the bytes waiting on standard input, which \<open>IsKBHit\<close> and
  \<open>ReadKBByte\<close> look at, and the bytes written to \<open>out_fd\<close>.  A write that is
  interrupted is repeated by the C code until it is not; the model appends the byte.
\<close>

section \<open>State\<close>

record U8250 =
  dll :: u8
  dlh :: u8
  lcr :: u8
  ier :: u8
  mcr :: u8
  ioready :: u8
  rx :: u8
  uirq :: nat

record uart_host =
  input :: "u8 list"
  sent :: "u8 list"

section \<open>Operations\<close>

definition u8250_init :: "nat \<Rightarrow> U8250" where
  "u8250_init irq = \<lparr>dll = 0, dlh = 0, lcr = 0, ier = 0, mcr = 0, ioready = 0, rx = 0, uirq = irq\<rparr>"

definition u8250_update_interrupts :: "('p \<Rightarrow> nat \<Rightarrow> bool \<Rightarrow> 'p) \<Rightarrow> U8250 \<Rightarrow> 'p \<Rightarrow> 'p" where
  "u8250_update_interrupts set_irq uart p =
     (if ier uart AND ioready uart \<noteq> 0 then set_irq p (uirq uart) True else set_irq p (uirq uart) False)"

definition u8250_reg_read ::
    "('p \<Rightarrow> nat \<Rightarrow> bool \<Rightarrow> 'p) \<Rightarrow> nat \<Rightarrow> U8250 \<times> 'p \<Rightarrow> u8 \<times> U8250 \<times> 'p" where
  "u8250_reg_read set_irq off = (\<lambda>(uart, p).
     if off = 0 then
       (if lcr uart AND 0x80 \<noteq> 0 then (dll uart, uart, p)
        else
          (let val = rx uart; uart = uart\<lparr>ioready := ioready uart AND NOT 1\<rparr>
           in (val, uart, u8250_update_interrupts set_irq uart p)))
     else if off = 1 then (if lcr uart AND 0x80 \<noteq> 0 then dlh uart else ier uart, uart, p)
     else if off = 2 then (if ier uart AND ioready uart \<noteq> 0 then 0 else 1, uart, p)
     else if off = 3 then (lcr uart, uart, p)
     else if off = 4 then (mcr uart, uart, p)
     else if off = 5 then (0x60 OR (ioready uart AND 1), uart, p)
     else if off = 6 then (0xb0, uart, p)
     else (0, uart, p))"

definition u8250_reg_write ::
    "('p \<Rightarrow> nat \<Rightarrow> bool \<Rightarrow> 'p) \<Rightarrow> nat \<Rightarrow> u8 \<Rightarrow> U8250 \<times> uart_host \<times> 'p \<Rightarrow> U8250 \<times> uart_host \<times> 'p" where
  "u8250_reg_write set_irq off val = (\<lambda>(uart, h, p).
     if off = 0 then
       (if lcr uart AND 0x80 \<noteq> 0 then (uart\<lparr>dll := val\<rparr>, h, p)
        else (uart, h\<lparr>sent := sent h @ [val]\<rparr>, p))
     else if off = 1 then
       (if lcr uart AND 0x80 \<noteq> 0 then (uart\<lparr>dlh := val\<rparr>, h, p)
        else
          (let uart = uart\<lparr>ier := val\<rparr>;
               uart = (if ier uart AND 2 \<noteq> 0 then uart\<lparr>ioready := ioready uart OR 2\<rparr>
                       else uart\<lparr>ioready := ioready uart AND NOT 2\<rparr>)
           in (uart, h, u8250_update_interrupts set_irq uart p)))
     else if off = 3 then (uart\<lparr>lcr := val\<rparr>, h, p)
     else if off = 4 then (uart\<lparr>mcr := val\<rparr>, h, p)
     else (uart, h, p))"

definition u8250_update ::
    "('p \<Rightarrow> nat \<Rightarrow> bool \<Rightarrow> 'p) \<Rightarrow> U8250 \<times> uart_host \<times> 'p \<Rightarrow> U8250 \<times> uart_host \<times> 'p" where
  "u8250_update set_irq = (\<lambda>(uart, h, p).
     case input h of [] \<Rightarrow> (uart, h, p)
     | b # bs \<Rightarrow>
         if ioready uart AND 1 = 0 then
           (let uart = uart\<lparr>rx := b, ioready := ioready uart OR 1\<rparr>
            in (uart, h\<lparr>input := bs\<rparr>, u8250_update_interrupts set_irq uart p))
         else (uart, h, p))"

section \<open>Specification vocabulary\<close>

datatype uart_op = URead nat | UWrite nat u8 | UPoll

text \<open>
  One step, with the list of received bytes: a read of the data register while
  data is ready and the divisor latch is closed receives a byte.
\<close>

fun uart_step ::
    "('p \<Rightarrow> nat \<Rightarrow> bool \<Rightarrow> 'p) \<Rightarrow> uart_op \<Rightarrow> (U8250 \<times> uart_host \<times> 'p) \<times> u8 list \<Rightarrow> (U8250 \<times> uart_host \<times> 'p) \<times> u8 list" where
  "uart_step set_irq (URead off) ((uart, h, p), got) =
     (let (v, uart', p') = u8250_reg_read set_irq off (uart, p)
      in ((uart', h, p'), if off = 0 \<and> \<not> bit (lcr uart) 7 \<and> bit (ioready uart) 0 then got @ [v] else got))"
| "uart_step set_irq (UWrite off v) (x, got) = (u8250_reg_write set_irq off v x, got)"
| "uart_step set_irq UPoll (x, got) = (u8250_update set_irq x, got)"

text \<open>The bytes taken from the host: those received and the one waiting in the register.\<close>

definition taken :: "U8250 \<Rightarrow> u8 list \<Rightarrow> u8 list" where
  "taken uart got = got @ (if bit (ioready uart) 0 then [rx uart] else [])"

section \<open>Lemmas\<close>

lemma and_u8_bits:
  "x AND 1 = 0 \<longleftrightarrow> \<not> bit (x :: u8) 0" "x AND 2 = 0 \<longleftrightarrow> \<not> bit x 1" "x AND 0x80 = 0 \<longleftrightarrow> \<not> bit x 7"
  using and_exp_eq_0 [of x 0] and_exp_eq_0 [of x 1] and_exp_eq_0 [of x 7] by simp_all

lemma read_taken:
  "u8250_reg_read set_irq off (uart, p) = (v, uart', p') \<Longrightarrow>
     taken uart' (if off = 0 \<and> \<not> bit (lcr uart) 7 \<and> bit (ioready uart) 0 then got @ [v] else got) = taken uart got"
  by (auto simp: u8250_reg_read_def taken_def and_u8_bits Let_def bit_simps split: if_splits)

lemma write_taken:
  "u8250_reg_write set_irq off v (uart, h, p) = (uart', h', p') \<Longrightarrow>
     taken uart' got = taken uart got \<and> input h' = input h"
  by (auto simp: u8250_reg_write_def taken_def and_u8_bits Let_def bit_simps split: if_splits)

lemma poll_taken:
  "u8250_update set_irq (uart, h, p) = (uart', h', p') \<Longrightarrow>
     taken uart' got @ input h' = taken uart got @ input h"
  by (auto simp: u8250_update_def taken_def and_u8_bits Let_def bit_simps split: if_splits list.splits)

lemma step_taken:
  "uart_step set_irq op ((uart, h, p), got) = ((uart', h', p'), got') \<Longrightarrow>
     taken uart' got' @ input h' = taken uart got @ input h"
proof (cases op)
  case (URead off)
  moreover assume "uart_step set_irq op ((uart, h, p), got) = ((uart', h', p'), got')"
  ultimately show ?thesis
    using read_taken [of set_irq off uart p _ uart' p' got] by (auto split: prod.splits)
next
  case (UWrite off v)
  moreover assume "uart_step set_irq op ((uart, h, p), got) = ((uart', h', p'), got')"
  ultimately show ?thesis using write_taken [of set_irq off v uart h p uart' h' p' got] by auto
next
  case UPoll
  moreover assume "uart_step set_irq op ((uart, h, p), got) = ((uart', h', p'), got')"
  ultimately show ?thesis using poll_taken [of set_irq uart h p uart' h' p' got] by auto
qed

text \<open>The interrupt line follows the enabled conditions, for any interrupt controller.\<close>

locale uart_wiring = irq_controller set_irq ok valid line pending
  for set_irq :: "'p \<Rightarrow> nat \<Rightarrow> bool \<Rightarrow> 'p" and ok valid line pending +
  fixes n :: nat
  assumes valid_irq: "valid n"
begin

definition uart_driven :: "U8250 \<times> 'h \<times> 'p \<Rightarrow> bool" where
  "uart_driven = (\<lambda>(uart, h, p). ok p \<and> uirq uart = n \<and>
     line p n = (ier uart AND ioready uart \<noteq> 0))"

lemma uart_driven_update:
  "ok p \<Longrightarrow> uirq uart = n \<Longrightarrow> uart_driven (uart, h, u8250_update_interrupts set_irq uart p)"
  by (simp add: uart_driven_def u8250_update_interrupts_def ok_set line_set valid_irq)

lemma uart_driven_read:
  assumes "uart_driven (uart, h, p)" "u8250_reg_read set_irq off (uart, p) = (v, uart', p')"
  shows "uart_driven (uart', h, p')"
proof -
  have "ok p" "uirq uart = n" using assms(1) by (simp_all add: uart_driven_def)
  then show ?thesis
    using assms uart_driven_update [of p "uart\<lparr>ioready := ioready uart AND NOT 1\<rparr>" h]
    by (auto simp: u8250_reg_read_def Let_def split: if_splits)
qed

lemma uart_driven_write:
  assumes "uart_driven (uart, h, p)"
  shows "uart_driven (u8250_reg_write set_irq off v (uart, h, p))"
proof -
  have "ok p" "uirq uart = n" using assms(1) by (simp_all add: uart_driven_def)
  then have "uart_driven (u, h, u8250_update_interrupts set_irq u p)" if "uirq u = uirq uart" for u
    using that uart_driven_update [of p u h] by simp
  with assms show ?thesis by (auto simp: u8250_reg_write_def Let_def uart_driven_def)
qed

lemma uart_driven_poll:
  assumes "uart_driven (uart, h, p)"
  shows "uart_driven (u8250_update set_irq (uart, h, p))"
proof -
  have "ok p" "uirq uart = n" using assms(1) by (simp_all add: uart_driven_def)
  then have "uart_driven (u, g, u8250_update_interrupts set_irq u p)" if "uirq u = uirq uart" for u and g :: uart_host
    using that uart_driven_update [of p u g] by simp
  with assms show ?thesis by (auto simp: u8250_update_def Let_def split: list.splits)
qed

lemma uart_driven_step:
  assumes "uart_driven (fst x)" shows "uart_driven (fst (uart_step set_irq op x))"
  using assms uart_driven_write uart_driven_poll
  by (cases x; cases op) (auto split: prod.splits intro: uart_driven_read)

lemma uart_driven_run: "uart_driven (fst x) \<Longrightarrow> uart_driven (fst (fold (uart_step set_irq) ops x))"
  by (induction ops arbitrary: x) (simp_all add: uart_driven_step)

end

section \<open>Properties\<close>

text \<open>
  C10: The receiver neither loses nor repeats a byte: after any sequence of guest
  register accesses and host polls, the bytes the guest has received, the byte
  waiting in the receive register and the bytes still waiting on the host are
  together exactly the bytes there were at the start, in order.
\<close>

theorem uart_receives_in_order:
  assumes "fold (uart_step set_irq) ops ((uart, h, p), []) = ((uart', h', p'), got)"
    and "\<not> bit (ioready uart) 0"
  shows "got @ (if bit (ioready uart') 0 then [rx uart'] else []) @ input h' = input h"
proof -
  have "taken uart' got @ input h' = taken uart got0 @ input h"
    if "fold (uart_step set_irq) ops ((uart, h, p), got0) = ((uart', h', p'), got)" for got0
    using that
  proof (induction ops arbitrary: uart h p got0)
    case (Cons op ops)
    obtain u1 h1 p1 got1 where 1: "uart_step set_irq op ((uart, h, p), got0) = ((u1, h1, p1), got1)"
      by (metis surj_pair)
    then show ?case using Cons step_taken [OF 1] by simp
  qed simp
  from this [OF assms(1)] assms(2) show ?thesis by (simp add: taken_def)
qed

theorem uart_receives_in_order_witness:
  "\<exists>uart' h' p'. fold (uart_step (\<lambda>p n l. p @ [(n, l)])) [UPoll, UPoll, URead 0, UPoll]
      ((u8250_init 4, \<lparr>input = [65, 66, 67], sent = []\<rparr>, []), []) = ((uart', h', p'), [65]) \<and>
    [65] @ (if bit (ioready uart') 0 then [rx uart'] else []) @ input h' = [65, 66, 67]"
proof -
  let ?ops = "[UPoll, UPoll, URead 0, UPoll]" and ?f = "\<lambda>p n l. p @ [(n, l)]"
  let ?x = "((u8250_init 4, \<lparr>input = [65, 66, 67], sent = []\<rparr>, []), [])"
  obtain uart' h' p' where r: "fold (uart_step ?f) ?ops ?x = ((uart', h', p'), [65])"
    by (simp add: u8250_init_def u8250_update_def u8250_reg_read_def u8250_update_interrupts_def)
  moreover have "\<not> bit (ioready (u8250_init 4)) 0" by (simp add: u8250_init_def)
  ultimately show ?thesis using uart_receives_in_order [OF r] by auto
qed

end
