(* ===== verification/RTC.thy ===== *)
theory RTC
  imports Interrupts
begin

text \<open>
  The CMOS memory and real-time clock of \<open>source/winspire/misc.c\<close> (\<open>CMOS\<close>).  The
  broken-down time of \<open>gmtime\<close> and the 32768 Hz reading of \<open>cmos_get_timer\<close> are
  arguments of the routines that take them.  The index register is masked to 7
  bits, so that it always addresses the 128 bytes; an index outside them would be an
  \<open>OutOfBounds\<close> failure.
\<close>

section \<open>State\<close>

record CMOS =
  cdata :: "u8 list"
  index :: nat
  cirq :: nat
  irq_timeout :: u32
  irq_period :: u32

record tm =
  tm_sec :: int
  tm_min :: int
  tm_hour :: int
  tm_wday :: int
  tm_mday :: int
  tm_mon :: int
  tm_year :: int

abbreviation (input) "RTC_REG_A \<equiv> 10 :: nat"
abbreviation (input) "RTC_REG_B \<equiv> 11 :: nat"
abbreviation (input) "RTC_REG_C \<equiv> 12 :: nat"
abbreviation (input) "REG_A_UIP \<equiv> 0x80 :: u8"
abbreviation (input) "REG_B_PIE \<equiv> 0x40 :: u8"

section \<open>Operations\<close>

text \<open>C's integer division truncates; the arguments here are never negative.\<close>

definition bin2bcd :: "int \<Rightarrow> int" where
  "bin2bcd a = push_bit 4 (a div 10) OR (a mod 10)"

definition cmos_update_time :: "tm \<Rightarrow> CMOS \<Rightarrow> CMOS" where
  "cmos_update_time t s = s\<lparr>cdata := (cdata s)
     [0 := of_int (bin2bcd (tm_sec t)), 2 := of_int (bin2bcd (tm_min t)),
      4 := of_int (bin2bcd (tm_hour t)), 6 := of_int (bin2bcd (tm_wday t)),
      7 := of_int (bin2bcd (tm_mday t)), 8 := of_int (bin2bcd (tm_mon t + 1)),
      9 := of_int (bin2bcd (tm_year t mod 100)),
      0x32 := of_int (bin2bcd (tm_year t div 100 + 19))]\<rparr>"

definition cmos_init :: "int \<Rightarrow> nat \<Rightarrow> tm \<Rightarrow> CMOS" where
  "cmos_init mem_size irq_num t =
     (let c = cmos_update_time t \<lparr>cdata = replicate 128 0, index = 0, cirq = irq_num,
                irq_timeout = 0, irq_period = 0\<rparr>;
          c = c\<lparr>cdata := (cdata c)[10 := 0x26, 11 := 0x02, 12 := 0x00, 13 := 0x80]\<rparr>
      in if mem_size \<ge> 1024 * 1024 then
           (if mem_size \<ge> 64 * 1024 * 1024 then
              (let mem_size = mem_size - 16 * 1024 * 1024
               in c\<lparr>cdata := (cdata c)[0x35 := of_int (drop_bit 24 mem_size), 0x34 := of_int (drop_bit 16 mem_size)]\<rparr>)
            else
              (let mem_size = mem_size - 1024 * 1024
               in c\<lparr>cdata := (cdata c)[0x31 := of_int (drop_bit 18 mem_size), 0x30 := of_int (drop_bit 10 mem_size)]\<rparr>))
         else c)"

text \<open>\<open>cmos_get_timer\<close> as a function of the microsecond clock (the calculator build).\<close>

definition cmos_get_timer :: "u32 \<Rightarrow> u32" where
  "cmos_get_timer uticks = ucast ((ucast uticks :: u64) * 32768 div 1000000)"

definition cmos_update_timer :: "u32 \<Rightarrow> CMOS \<Rightarrow> CMOS" where
  "cmos_update_timer now s =
     (let period_code = unat (cdata s ! RTC_REG_A AND 0x0f)
      in if cdata s ! RTC_REG_B AND REG_B_PIE \<noteq> 0 \<and> period_code \<noteq> 0 then
           (let period_code = (if period_code \<le> 2 then period_code + 7 else period_code);
                period = push_bit (period_code - 1) 1
            in s\<lparr>irq_period := period, irq_timeout := (now + period) AND NOT (period - 1)\<rparr>)
         else s)"

definition cmos_update_irq ::
    "('p \<Rightarrow> nat \<Rightarrow> bool \<Rightarrow> 'p) \<Rightarrow> u32 \<Rightarrow> CMOS \<times> 'p \<Rightarrow> CMOS \<times> 'p" where
  "cmos_update_irq set_irq now = (\<lambda>(s, p).
     if cdata s ! RTC_REG_B AND REG_B_PIE \<noteq> 0 then
       (let d = now - irq_timeout s
        in if 0 \<le> sint d then
             (let s = s\<lparr>cdata := (cdata s)[RTC_REG_C := cdata s ! RTC_REG_C OR 0xc0]\<rparr>;
                  p = set_irq p (cirq s) True;
                  p = set_irq p (cirq s) False
              in (s\<lparr>irq_timeout := (now + irq_period s) AND NOT (irq_period s - 1)\<rparr>, p))
           else (s, p))
     else (s, p))"

definition cmos_ioport_read :: "u32 \<Rightarrow> tm \<Rightarrow> CMOS \<Rightarrow> (u8 \<times> CMOS) result" where
  "cmos_ioport_read addr t s =
     (if addr = 0x70 then Inr (0xff, s)
      else
        (let s = cmos_update_time t s
         in if index s < length (cdata s) then Inr (cdata s ! index s, s) else Inl OutOfBounds))"

definition cmos_ioport_write :: "u32 \<Rightarrow> u8 \<Rightarrow> u32 \<Rightarrow> CMOS \<Rightarrow> CMOS result" where
  "cmos_ioport_write addr val now s =
     (if addr = 0x70 then Inr (s\<lparr>index := unat (val AND 0x7f)\<rparr>)
      else if \<not> index s < length (cdata s) then Inl OutOfBounds
      else if index s = RTC_REG_A then
        Inr (cmos_update_timer now (s\<lparr>cdata := (cdata s)
          [RTC_REG_A := (val AND NOT REG_A_UIP) OR (cdata s ! RTC_REG_A AND REG_A_UIP)]\<rparr>))
      else if index s = RTC_REG_B then
        Inr (cmos_update_timer now (s\<lparr>cdata := (cdata s)[index s := val]\<rparr>))
      else Inr (s\<lparr>cdata := (cdata s)[index s := val]\<rparr>))"

definition cmos_set :: "nat \<Rightarrow> u8 \<Rightarrow> CMOS \<Rightarrow> u8 \<times> CMOS" where
  "cmos_set addr val s = (val, if addr < 128 then s\<lparr>cdata := (cdata s)[addr := val]\<rparr> else s)"

section \<open>Specification vocabulary\<close>

definition cmos_wf :: "CMOS \<Rightarrow> bool" where
  "cmos_wf s \<longleftrightarrow> length (cdata s) = 128 \<and> index s < 128"

definition bcd_value :: "u8 \<Rightarrow> int" where
  "bcd_value b = 10 * (uint b div 16) + uint b mod 16"

definition tm_ok :: "tm \<Rightarrow> bool" where
  "tm_ok t \<longleftrightarrow> 0 \<le> tm_sec t \<and> tm_sec t \<le> 60 \<and> 0 \<le> tm_min t \<and> tm_min t < 60 \<and> 0 \<le> tm_hour t \<and> tm_hour t < 24 \<and>
     0 \<le> tm_wday t \<and> tm_wday t < 7 \<and> 1 \<le> tm_mday t \<and> tm_mday t \<le> 31 \<and> 0 \<le> tm_mon t \<and> tm_mon t < 12 \<and>
     0 \<le> tm_year t \<and> tm_year t < 8100"

text \<open>The guest selects a byte and reads it.\<close>

definition read_cmos :: "nat \<Rightarrow> tm \<Rightarrow> CMOS \<Rightarrow> u8 result" where
  "read_cmos i t s =
     bind_result (cmos_ioport_write 0x70 (of_nat i) 0 s) (\<lambda>s.
     bind_result (cmos_ioport_read 0x71 t s) (\<lambda>(v, s). Inr v))"

definition cmos_fires :: "u32 \<Rightarrow> CMOS \<Rightarrow> bool" where
  "cmos_fires now s \<longleftrightarrow> bit (cdata s ! RTC_REG_B) 6 \<and> now - irq_timeout s < 2 ^ 31"

section \<open>Lemmas\<close>

lemma bin2bcd_add: "0 \<le> a \<Longrightarrow> a < 100 \<Longrightarrow> bin2bcd a = 16 * (a div 10) + a mod 10"
proof -
  assume "0 \<le> a" "a < 100"
  have "push_bit 4 (a div 10) AND a mod 10 = 0"
  proof (rule bit_eqI)
    fix n
    have "\<not> bit (a mod 10) n" if "4 \<le> n"
    proof -
      have "a mod 10 div 2 ^ n = 0"
      proof -
        have "(16 :: int) \<le> 2 ^ n" using power_increasing [OF that, of "2 :: int"] by simp
        then show ?thesis using pos_mod_bound [of 10 a] by (intro div_pos_pos_trivial) auto
      qed
      then show ?thesis by (simp add: bit_iff_odd)
    qed
    then show "bit (push_bit 4 (a div 10) AND a mod 10) n = bit 0 n"
      by (auto simp: bit_simps)
  qed
  then show ?thesis by (simp add: bin2bcd_def disjunctive_add_eq_or [symmetric] push_bit_eq_mult)
qed

lemma bcd_roundtrip:
  assumes "0 \<le> a" "a < 100"
  shows "bcd_value (of_int (bin2bcd a)) = a"
proof -
  have m: "0 \<le> a mod 10" "a mod 10 < 10" "0 \<le> a div 10" "a div 10 < 10" using assms by auto
  have b: "bin2bcd a = 16 * (a div 10) + a mod 10" using assms by (rule bin2bcd_add)
  then have "0 \<le> bin2bcd a" "bin2bcd a < 256" using m by simp_all
  then have "uint (of_int (bin2bcd a) :: u8) = bin2bcd a" by (simp add: uint_word_of_int)
  moreover have "(16 * (a div 10) + a mod 10) div 16 = a div 10" "(16 * (a div 10) + a mod 10) mod 16 = a mod 10"
    using m by auto
  ultimately show ?thesis by (simp only: bcd_value_def b) simp
qed

lemma length_update_time [simp]: "length (cdata (cmos_update_time t s)) = length (cdata s)"
  by (simp add: cmos_update_time_def)

lemma read_cmos_eq:
  assumes "cmos_wf s" "i < 128"
  shows "read_cmos i t s = Inr (cdata (cmos_update_time t s) ! i)"
proof -
  have "unat (of_nat i AND 0x7f :: u8) = i"
  proof -
    have "(0x7f :: u8) = mask 7" by (simp add: mask_eq_exp_minus_1)
    then have "unat (of_nat i AND 0x7f :: u8) = unat (take_bit 7 (of_nat i :: u8))"
      by (simp only: take_bit_eq_mask)
    also have "\<dots> = take_bit 7 i" using assms(2) by (simp add: unsigned_take_bit_eq unat_of_nat)
    finally show ?thesis using assms(2) by (simp add: take_bit_eq_mod)
  qed
  with assms show ?thesis
    by (simp add: read_cmos_def cmos_ioport_write_def cmos_ioport_read_def cmos_wf_def cmos_update_time_def)
qed

lemma sint_nonneg_iff: "0 \<le> sint (d :: u32) \<longleftrightarrow> d < 2 ^ 31"
proof -
  have "0 \<le> sint d \<longleftrightarrow> \<not> bit (uint d) 31"
    by (simp add: sint_uint signed_take_bit_nonnegative_iff)
  also have "\<dots> \<longleftrightarrow> uint d < 2 ^ 31"
  proof -
    have u: "0 \<le> uint d" "uint d < 2 ^ 32" using unsigned_less [of d, where 'a = int] by simp_all
    show ?thesis
    proof (cases "uint d < 2 ^ 31")
      case True
      then have "uint d div 2 ^ 31 = 0" using u by (intro div_pos_pos_trivial) auto
      with True show ?thesis by (simp add: bit_iff_odd)
    next
      case False
      then have "uint d div 2 ^ 31 = 1" using u by (intro int_div_pos_eq [of _ _ _ "uint d - 2 ^ 31"]) auto
      with False show ?thesis by (simp add: bit_iff_odd)
    qed
  qed
  also have "\<dots> \<longleftrightarrow> d < 2 ^ 31" by (simp add: word_less_def)
  finally show ?thesis .
qed

lemma and_not_mask: "(x :: u32) AND NOT (mask k) = x - take_bit k x"
proof -
  have "(x AND NOT (mask k)) AND take_bit k x = 0"
    by (rule bit_word_eqI) (auto simp: bit_simps)
  then have "(x AND NOT (mask k)) + take_bit k x = (x AND NOT (mask k)) OR take_bit k x"
    by (rule disjunctive_add_eq_or)
  also have "\<dots> = x" by (rule bit_word_eqI) (auto simp: bit_simps)
  finally show ?thesis by (simp add: eq_diff_eq)
qed

text \<open>The next multiple of the period, strictly after \<open>now\<close> and at most one period away.\<close>

lemma next_timeout:
  fixes now :: u32
  assumes "k \<le> 14"
  defines "t \<equiv> (now + 2 ^ k) AND NOT (2 ^ k - 1)"
  shows "1 \<le> unat (t - now)" "unat (t - now) \<le> 2 ^ k" "unat t mod 2 ^ k = 0"
proof -
  have mk: "(2 ^ k - 1 :: u32) = mask k" by (simp add: mask_eq_exp_minus_1)
  have tt: "t = now + 2 ^ k - take_bit k (now + 2 ^ k)"
    unfolding t_def mk by (rule and_not_mask)
  have "(2 :: nat) ^ k < 2 ^ 32" using assms(1) by (intro power_strict_increasing) simp_all
  then have pk: "unat (2 ^ k :: u32) = 2 ^ k"
    using unat_of_nat [of "2 ^ k", where 'a = 32] by simp
  have less: "unat (take_bit k (now + 2 ^ k)) < 2 ^ k"
    by (simp add: unsigned_take_bit_eq)
  have "t - now = 2 ^ k - take_bit k (now + 2 ^ k)" by (simp add: tt)
  then have "unat (t - now) = 2 ^ k - unat (take_bit k (now + 2 ^ k))"
    using less pk by (simp add: unat_sub word_le_nat_alt)
  with less show "1 \<le> unat (t - now)" "unat (t - now) \<le> 2 ^ k" by linarith+
  have "take_bit k t = 0" unfolding t_def mk by (rule bit_word_eqI) (auto simp: bit_simps)
  then have "take_bit k (unat t) = 0" by (simp only: unsigned_take_bit_eq [symmetric] unsigned_0)
  then show "unat t mod 2 ^ k = 0" by (simp add: take_bit_eq_mod)
qed

lemma later_fires:
  fixes a b :: u32
  assumes "1 \<le> unat b" "unat b \<le> 2 ^ 14" "unat a \<le> 2 ^ 31"
  shows "a - b < 2 ^ 31 \<longleftrightarrow> unat b \<le> unat a"
proof (cases "unat b \<le> unat a")
  case True
  then have "unat (a - b) = unat a - unat b" by (intro unat_sub) (simp add: word_le_nat_alt)
  with True assms show ?thesis by (simp add: word_less_nat_alt)
next
  case False
  then have "unat (a - b) = 2 ^ 32 + unat a - unat b"
    using unat_sub_if' [of a b] by simp
  with False assms show ?thesis by (simp add: word_less_nat_alt)
qed

lemma cmos_update_irq_eq:
  "cmos_update_irq set_irq now (s, p) =
     (if cmos_fires now s
      then (s\<lparr>cdata := (cdata s)[12 := cdata s ! 12 OR 0xc0],
              irq_timeout := (now + irq_period s) AND NOT (irq_period s - 1)\<rparr>, pulse set_irq p (cirq s))
      else (s, p))"
  using and_exp_eq_0 [of "cdata s ! 11" 6]
  by (simp add: cmos_update_irq_def cmos_fires_def sint_nonneg_iff pulse_def Let_def)

text \<open>
  With a rate selection of zero, which on the hardware means no periodic interrupt,
  and no rate selected before, an enabled periodic interrupt is raised at every poll.
\<close>

lemma rate_zero_fires_at_every_poll:
  assumes "cmos_wf s" "bit (cdata s ! 11) 6" "irq_period s = 0" "irq_timeout s = 0" "\<forall>t \<in> set ts. t < 2 ^ 31"
  shows "snd (fold (cmos_update_irq (\<lambda>p n l. p + (if l then 1 else 0 :: nat))) ts (s, n)) = n + length ts"
  using assms
proof (induction ts arbitrary: s n)
  case (Cons t ts)
  then have "cmos_fires t s" by (simp add: cmos_fires_def)
  then have "cmos_update_irq (\<lambda>p n l. p + (if l then 1 else 0 :: nat)) t (s, n) =
      (s\<lparr>cdata := (cdata s)[12 := cdata s ! 12 OR 0xc0], irq_timeout := 0\<rparr>, Suc n)"
    using Cons.prems(3) by (simp add: cmos_update_irq_eq pulse_def)
  with Cons.IH [of "s\<lparr>cdata := (cdata s)[12 := cdata s ! 12 OR 0xc0], irq_timeout := 0\<rparr>" "Suc n"] Cons.prems
  show ?case by (simp add: cmos_wf_def)
qed simp

section \<open>Properties\<close>

text \<open>
  The clock registers read back the host's calendar time: for every broken-down
  time of the years 1900 to 9999, selecting and reading the seconds, minutes, hours,
  weekday, day, month, year and century bytes yields its fields in binary coded
  decimal.
\<close>

lemma rtc_reads_time:
  assumes "cmos_wf s" "tm_ok t"
  shows "\<exists>b. (\<forall>i \<in> {0, 2, 4, 6, 7, 8, 9, 0x32}. read_cmos i t s = Inr (b i)) \<and>
    bcd_value (b 0) = tm_sec t \<and> bcd_value (b 2) = tm_min t \<and> bcd_value (b 4) = tm_hour t \<and>
    bcd_value (b 6) = tm_wday t \<and> bcd_value (b 7) = tm_mday t \<and> bcd_value (b 8) = tm_mon t + 1 \<and>
    100 * bcd_value (b 0x32) + bcd_value (b 9) = 1900 + tm_year t"
proof -
  have y: "0 \<le> tm_year t mod 100" "tm_year t mod 100 < 100" "0 \<le> tm_year t div 100" "tm_year t div 100 < 81"
    using assms(2) by (auto simp: tm_ok_def)
  have "100 * (tm_year t div 100 + 19) + tm_year t mod 100 = 1900 + tm_year t"
    using mult_div_mod_eq [of 100 "tm_year t"] by simp
  with assms y show ?thesis
    by (intro exI [of _ "\<lambda>i. cdata (cmos_update_time t s) ! i"])
      (simp add: read_cmos_eq bcd_roundtrip cmos_update_time_def cmos_wf_def tm_ok_def)
qed


text \<open>
  C11: Schedule of the periodic interrupt, once a rate other than 0 has set a period,
  which is a power of two of at most \<open>2 ^ 14\<close> ticks.  A poll that fires raises one pulse and
  sets the next deadline to the first multiple of the period strictly after it, at
  most one period away; any poll within \<open>2 ^ 31\<close> ticks fires again exactly when that
  deadline has been reached, so a slow host never sees missed periods replayed.
\<close>

theorem rtc_periodic_schedule:
  assumes "cmos_wf s" "irq_period s = 2 ^ k" "k \<le> 14" "cmos_fires now s"
    and "cmos_update_irq set_irq now (s, p) = (s', p')"
  shows "p' = pulse set_irq p (cirq s) \<and> unat (irq_timeout s') mod 2 ^ k = 0 \<and>
    1 \<le> unat (irq_timeout s' - now) \<and> unat (irq_timeout s' - now) \<le> 2 ^ k \<and>
    (\<forall>later. unat (later - now) \<le> 2 ^ 31 \<longrightarrow>
      cmos_fires later s' = (unat (irq_timeout s' - now) \<le> unat (later - now)))"
proof -
  have s': "s' = s\<lparr>cdata := (cdata s)[12 := cdata s ! 12 OR 0xc0],
      irq_timeout := (now + 2 ^ k) AND NOT (2 ^ k - 1)\<rparr>" "p' = pulse set_irq p (cirq s)"
    using assms(2,4,5) by (simp_all add: cmos_update_irq_eq)
  note n = next_timeout [OF assms(3), of now]
  have "(2 :: nat) ^ k \<le> 2 ^ 14" using assms(3) by (intro power_increasing) simp_all
  then have b: "unat (irq_timeout s' - now) \<le> 2 ^ 14" using n(2) by (simp add: s')
  have "cmos_fires later s' = (unat (irq_timeout s' - now) \<le> unat (later - now))"
    if "unat (later - now) \<le> 2 ^ 31" for later
  proof -
    have "bit (cdata s' ! 11) 6" using assms(4) by (simp add: s' cmos_fires_def)
    moreover have "later - irq_timeout s' = (later - now) - (irq_timeout s' - now)" by simp
    ultimately show ?thesis
      using later_fires [OF _ b that] n(1) by (simp only: cmos_fires_def) (simp add: s')
  qed
  with n show ?thesis by (simp add: s')
qed

theorem rtc_periodic_schedule_witness:
  "\<exists>s' p'. cmos_update_irq (\<lambda>p n l. p @ [(n, l)]) 100
      (\<lparr>cdata = (replicate 128 0)[11 := 0x42], index = 0, cirq = 8, irq_timeout = 96, irq_period = 2 ^ 5\<rparr>, []) = (s', p') \<and>
    p' = [(8, True), (8, False)] \<and> unat (irq_timeout s' - 100) \<le> 2 ^ 5"
proof -
  let ?s = "\<lparr>cdata = (replicate 128 0)[11 := 0x42], index = 0, cirq = 8, irq_timeout = 96, irq_period = 2 ^ 5\<rparr>"
  let ?f = "\<lambda>p n l. p @ [(n :: nat, l :: bool)]"
  obtain s' p' where r: "cmos_update_irq ?f 100 (?s, []) = (s', p')" by (metis surj_pair)
  have "cmos_wf ?s" "cmos_fires 100 ?s" by (simp_all add: cmos_wf_def cmos_fires_def bit_simps)
  from rtc_periodic_schedule [OF this(1) _ _ this(2) r, of 5] r show ?thesis
    by (auto simp: pulse_def)
qed

end
