(* ===== verification/Floppy.thy ===== *)
theory Floppy
  imports Prelude
begin

text \<open>
  The paravirtual floppy link of \<open>source/winspire/misc.c\<close> (\<open>EMULINK\<close>): two drives
  backed by image files, a command register, up to four arguments and a data port.
  An open file is its bytes and its position; \<open>fseek\<close>, \<open>fread\<close> and \<open>fwrite\<close> are
  modelled as the C library documents them on a regular file.  The guest chooses
  the drive number, and an index outside the two drives is an \<open>OutOfBounds\<close>
  failure.
\<close>

section \<open>Files\<close>

record cfile =
  bytes :: "u8 list"
  pos :: nat

definition fseek_set :: "cfile \<Rightarrow> int \<Rightarrow> cfile option" where
  "fseek_set f off = (if off < 0 then None else Some (f\<lparr>pos := nat off\<rparr>))"

definition fread :: "cfile \<Rightarrow> nat \<Rightarrow> u8 list \<times> cfile" where
  "fread f n = (let bs = take n (drop (pos f) (bytes f)) in (bs, f\<lparr>pos := pos f + length bs\<rparr>))"

definition fwrite :: "cfile \<Rightarrow> u8 list \<Rightarrow> cfile" where
  "fwrite f bs =
     (let padded = bytes f @ replicate (pos f - length (bytes f)) 0
      in f\<lparr>bytes := take (pos f) padded @ bs @ drop (pos f + length bs) (bytes f),
           pos := pos f + length bs\<rparr>)"

section \<open>State\<close>

record fdfmt =
  sectors :: nat
  tracks :: nat
  heads :: nat

definition fmt_entry :: "nat \<times> nat \<times> nat \<Rightarrow> fdfmt" where
  "fmt_entry = (\<lambda>(s, t, h). \<lparr>sectors = s, tracks = t, heads = h\<rparr>)"

definition fmt :: "fdfmt list" where
  "fmt = map fmt_entry
    [(18, 80, 2), (20, 80, 2), (21, 80, 2), (21, 82, 2), (21, 83, 2), (22, 80, 2), (23, 80, 2), (24, 80, 2),
     (36, 80, 2), (39, 80, 2), (40, 80, 2), (44, 80, 2), (48, 80, 2),
     (9, 80, 2), (10, 80, 2), (10, 82, 2), (10, 83, 2), (13, 80, 2), (14, 80, 2),
     (15, 80, 2), (18, 80, 2), (18, 82, 2), (18, 83, 2), (20, 80, 2),
     (9, 80, 2), (11, 80, 2),
     (9, 40, 2), (9, 40, 1), (10, 41, 2), (10, 42, 2),
     (8, 40, 2), (8, 40, 1), (0, 0, 0)]"

record EMULINK =
  status :: u32
  cmd :: u32
  args :: "u32 list"
  argi :: nat
  dataleft :: int
  fdd :: "cfile option list"
  fdfmti :: "nat list"

abbreviation (input) "EIO \<equiv> 5 :: u32"
abbreviation (input) "EINVAL \<equiv> 22 :: u32"

section \<open>Operations\<close>

definition emulink_init :: EMULINK where
  "emulink_init = \<lparr>status = 0, cmd = -1, args = replicate 4 0, argi = 0, dataleft = 0,
     fdd = [None, None], fdfmti = [0, 0]\<rparr>"

fun find_format :: "nat \<Rightarrow> fdfmt list \<Rightarrow> nat \<Rightarrow> nat option" where
  "find_format j [] sz = None"
| "find_format j (f # fs) sz =
     (if sectors f = 0 then None
      else if sz = sectors f * tracks f * heads f * 512 then Some j
      else find_format (j + 1) fs sz)"

text \<open>
  \<open>fopen\<close> maps a file name to the bytes of the file, \<open>None\<close> when it cannot be
  opened; the result is 0 or -1.
\<close>

definition emulink_attach_floppy ::
    "(string \<Rightarrow> u8 list option) \<Rightarrow> EMULINK \<Rightarrow> int \<Rightarrow> string option \<Rightarrow> int \<times> EMULINK" where
  "emulink_attach_floppy fopen e i filename =
     (if 0 \<le> i \<and> i < 2 then
        (let content = (case filename of None \<Rightarrow> None | Some fn \<Rightarrow> fopen fn)
         in case content of
              None \<Rightarrow> (-1, e\<lparr>fdd := (fdd e)[nat i := None]\<rparr>)
            | Some bs \<Rightarrow>
                (let e = e\<lparr>fdd := (fdd e)[nat i := Some \<lparr>bytes = bs, pos = length bs\<rparr>]\<rparr>
                 in case find_format 0 fmt (length bs) of
                      Some j \<Rightarrow> (0, e\<lparr>fdfmti := (fdfmti e)[nat i := j]\<rparr>)
                    | None \<Rightarrow> (-1, e)))
      else (0, e))"

definition emulink_status_read :: "EMULINK \<Rightarrow> u32" where
  "emulink_status_read e = status e"

definition drive :: "EMULINK \<Rightarrow> cfile option result" where
  "drive e = (if unat (args e ! 0) < length (fdd e) then Inr (fdd e ! unat (args e ! 0)) else Inl OutOfBounds)"

definition set_drive :: "EMULINK \<Rightarrow> cfile \<Rightarrow> EMULINK" where
  "set_drive e f = e\<lparr>fdd := (fdd e)[unat (args e ! 0) := Some f]\<rparr>"

text \<open>The byte offset that \<open>exec_cmd\<close> computes from cylinder, head and sector, in C \<open>int\<close> arithmetic.\<close>

definition chs_offset :: "fdfmt \<Rightarrow> u32 \<Rightarrow> int" where
  "chs_offset f chs =
     (let c = drop_bit 16 chs; h = drop_bit 8 chs AND 0xff; s = chs AND 0xff;
          lba = (c * of_nat (heads f) + h) * of_nat (sectors f) + (s - 1)
      in sint (512 * lba))"

definition exec_cmd :: "EMULINK \<Rightarrow> EMULINK result" where
  "exec_cmd e =
     (if cmd e = 0 then Inr (e\<lparr>status := 0xaa55ff00, cmd := -1\<rparr>)
      else if cmd e = 0x100 then
        Inr (e\<lparr>status := (if fdd e ! 0 \<noteq> None then 0x40 else 0) OR (if fdd e ! 1 \<noteq> None then 0x04 else 0),
               cmd := -1\<rparr>)
      else if cmd e = 0x101 \<or> cmd e = 0x102 then
        (if argi e = 3 then
           bind_result (drive e) (\<lambda>d. case d of
               None \<Rightarrow> Inr (e\<lparr>status := - EIO, cmd := -1\<rparr>)
             | Some f \<Rightarrow>
                 if args e ! 0 < 2 then
                   (case fseek_set f (chs_offset (fmt ! (fdfmti e ! unat (args e ! 0))) (args e ! 1)) of
                      None \<Rightarrow> Inr (e\<lparr>status := - EINVAL, cmd := -1\<rparr>)
                    | Some f \<Rightarrow> Inr ((set_drive e f)\<lparr>status := 0, dataleft := sint (512 * (args e ! 2))\<rparr>))
                 else Inr e)
         else Inr e)
      else Inr e)"

definition emulink_cmd_write :: "EMULINK \<Rightarrow> u32 \<Rightarrow> EMULINK result" where
  "emulink_cmd_write e val = exec_cmd (e\<lparr>cmd := val, argi := 0\<rparr>)"

definition emulink_data_write :: "EMULINK \<Rightarrow> u32 \<Rightarrow> EMULINK result" where
  "emulink_data_write e val =
     exec_cmd (if argi e < 4 then e\<lparr>args := (args e)[argi e := val], argi := argi e + 1\<rparr> else e)"

definition emulink_fail :: "EMULINK \<Rightarrow> EMULINK" where
  "emulink_fail e = e\<lparr>cmd := -1, status := -1\<rparr>"

definition emulink_done :: "EMULINK \<Rightarrow> nat \<Rightarrow> EMULINK" where
  "emulink_done e len =
     (let e = e\<lparr>dataleft := dataleft e - int len\<rparr>
      in if dataleft e = 0 then e\<lparr>cmd := -1, status := 0\<rparr> else e)"

text \<open>\<open>buf\<close> are the \<open>size * count\<close> bytes that the CPU hands over or expects.\<close>

definition emulink_data_write_string :: "EMULINK \<Rightarrow> u8 list \<Rightarrow> EMULINK result" where
  "emulink_data_write_string e buf =
     (if cmd e = 0x102 then
        bind_result (drive e) (\<lambda>d. case d of
            None \<Rightarrow> Inr (emulink_fail e)
          | Some f \<Rightarrow>
              if argi e = 3 \<and> int (length buf) \<le> dataleft e
              then Inr (emulink_done (set_drive e (fwrite f buf)) (length buf))
              else Inr (emulink_fail e))
      else Inr (emulink_fail e))"

text \<open>On success the bytes read; a short read leaves the file position where \<open>fread\<close> stopped.\<close>

definition emulink_data_read_string :: "EMULINK \<Rightarrow> nat \<Rightarrow> (u8 list option \<times> EMULINK) result" where
  "emulink_data_read_string e len =
     (if cmd e = 0x101 then
        bind_result (drive e) (\<lambda>d. case d of
            None \<Rightarrow> Inr (None, emulink_fail e)
          | Some f \<Rightarrow>
              if argi e = 3 \<and> int len \<le> dataleft e then
                (let (bs, f) = fread f len; e = set_drive e f
                 in if length bs \<noteq> len then Inr (None, emulink_fail e)
                    else Inr (Some bs, emulink_done e len))
              else Inr (None, emulink_fail e))
      else Inr (None, emulink_fail e))"

section \<open>Specification vocabulary\<close>

definition emulink_wf :: "EMULINK \<Rightarrow> bool" where
  "emulink_wf e \<longleftrightarrow> length (args e) = 4 \<and> length (fdd e) = 2 \<and> length (fdfmti e) = 2 \<and>
     (\<forall>i<2. fdfmti e ! i < length fmt)"

text \<open>A floppy command with its three arguments.\<close>

definition floppy_cmd :: "EMULINK \<Rightarrow> u32 \<Rightarrow> u32 \<Rightarrow> u32 \<Rightarrow> u32 \<Rightarrow> EMULINK result" where
  "floppy_cmd e c drv chs n =
     bind_result (emulink_cmd_write e c) (\<lambda>e. bind_result (emulink_data_write e drv) (\<lambda>e.
     bind_result (emulink_data_write e chs) (\<lambda>e. emulink_data_write e n)))"

section \<open>Lemmas\<close>

lemma fwrite_fread:
  "fread ((fwrite f bs)\<lparr>pos := pos f\<rparr>) (length bs) = (bs, fwrite f bs)"
proof -
  have "length (take (pos f) (bytes f @ replicate (pos f - length (bytes f)) 0)) = pos f" by simp
  then show ?thesis by (simp add: fwrite_def fread_def Let_def)
qed

lemma exec_cmd_wait: "cmd e = 0x101 \<or> cmd e = 0x102 \<Longrightarrow> argi e \<noteq> 3 \<Longrightarrow> exec_cmd e = Inr e"
  by (auto simp: exec_cmd_def)

lemma floppy_cmd_eq:
  assumes "emulink_wf e" "c = 0x101 \<or> c = 0x102"
  shows "floppy_cmd e c drv chs n =
    exec_cmd (e\<lparr>cmd := c, args := [drv, chs, n, args e ! 3], argi := 3\<rparr>)"
proof -
  obtain a0 a1 a2 a3 where a: "args e = [a0, a1, a2, a3]"
    using assms(1) by (auto simp: emulink_wf_def numeral_eq_Suc length_Suc_conv)
  with assms(2) show ?thesis
    by (simp add: floppy_cmd_def emulink_cmd_write_def emulink_data_write_def exec_cmd_wait)
      (simp add: numeral_3_eq_3)
qed

lemma floppy_seek:
  assumes "emulink_wf e" "c = 0x101 \<or> c = 0x102" "drv < 2" "fdd e ! unat drv = Some f"
    and "0 \<le> chs_offset (fmt ! (fdfmti e ! unat drv)) chs"
  shows "floppy_cmd e c drv chs n =
    Inr (e\<lparr>cmd := c, args := [drv, chs, n, args e ! 3], argi := 3,
           fdd := (fdd e)[unat drv := Some (f\<lparr>pos := nat (chs_offset (fmt ! (fdfmti e ! unat drv)) chs)\<rparr>)],
           status := 0, dataleft := sint (512 * n)\<rparr>)"
proof -
  have "unat drv < 2" using assms(3) by (simp add: word_less_nat_alt)
  then show ?thesis
    using assms by (auto simp: floppy_cmd_eq exec_cmd_def drive_def set_drive_def fseek_set_def emulink_wf_def)
qed

lemma floppy_bad_drive:
  assumes "emulink_wf e" "c = 0x101 \<or> c = 0x102" "\<not> drv < 2"
  shows "floppy_cmd e c drv chs n = Inl OutOfBounds"
proof -
  have "\<not> unat drv < 2" using assms(3) by (simp add: word_less_nat_alt)
  then show ?thesis using assms by (auto simp: floppy_cmd_eq exec_cmd_def drive_def emulink_wf_def)
qed

lemma find_format_Some:
  "find_format j fs sz = Some k \<Longrightarrow> j \<le> k \<and> k - j < length fs \<and>
     sectors (fs ! (k - j)) * tracks (fs ! (k - j)) * heads (fs ! (k - j)) * 512 = sz \<and> sectors (fs ! (k - j)) \<noteq> 0"
proof (induction fs arbitrary: j)
  case (Cons f fs)
  show ?case
  proof (cases "sz = sectors f * tracks f * heads f * 512 \<or> sectors f = 0")
    case True
    with Cons.prems show ?thesis by (auto split: if_splits)
  next
    case False
    with Cons.prems have "find_format (j + 1) fs sz = Some k" by simp
    note ih = Cons.IH [OF this]
    then have "k - j = Suc (k - (j + 1))" by linarith
    with ih show ?thesis by simp
  qed
qed simp

section \<open>Properties\<close>

text \<open>
  C12: A sector write is read back: on either drive, writing \<open>n\<close> sectors at a
  cylinder, head and sector and then reading \<open>n\<close> sectors there returns the bytes
  written; both commands complete with status 0 and the other drive is untouched.
\<close>

theorem floppy_roundtrip:
  assumes "emulink_wf e" "drv < 2" "fdd e ! unat drv = Some f"
    and "0 \<le> chs_offset (fmt ! (fdfmti e ! unat drv)) chs"
    and "0 < n" "512 * unat n < 2 ^ 31" "length buf = 512 * unat n"
  shows "\<exists>e1 e2 e3 e4. floppy_cmd e 0x102 drv chs n = Inr e1 \<and> emulink_data_write_string e1 buf = Inr e2 \<and>
    status e2 = 0 \<and> cmd e2 = -1 \<and> floppy_cmd e2 0x101 drv chs n = Inr e3 \<and>
    emulink_data_read_string e3 (512 * unat n) = Inr (Some buf, e4) \<and> status e4 = 0 \<and>
    (\<forall>i. i \<noteq> unat drv \<longrightarrow> fdd e4 ! i = fdd e ! i)"
proof -
  let ?i = "unat drv" and ?off = "nat (chs_offset (fmt ! (fdfmti e ! unat drv)) chs)"
  have i: "?i < 2" using assms(2) by (simp add: word_less_nat_alt)
  have "unat (512 * n) = 512 * unat n" using assms(6) by (simp add: unat_word_ariths)
  then have d: "sint (512 * n) = int (length buf)"
    using assms(6,7) sint_u32 [of "512 * n"] by simp
  have pos: "length buf \<noteq> 0" using assms(5,7) by (simp add: word_less_nat_alt)
  let ?f = "f\<lparr>pos := ?off\<rparr>"
  let ?e1 = "e\<lparr>cmd := 0x102, args := [drv, chs, n, args e ! 3], argi := 3, fdd := (fdd e)[?i := Some ?f],
    status := 0, dataleft := int (length buf)\<rparr>"
  have 1: "floppy_cmd e 0x102 drv chs n = Inr ?e1" using floppy_seek [OF assms(1) _ assms(2-4)] d by simp
  let ?e2 = "?e1\<lparr>fdd := (fdd e)[?i := Some (fwrite ?f buf)], dataleft := 0, cmd := -1, status := 0\<rparr>"
  have 2: "emulink_data_write_string ?e1 buf = Inr ?e2"
    using i assms(1) by (simp add: emulink_data_write_string_def drive_def set_drive_def emulink_done_def emulink_wf_def)
  have wf2: "emulink_wf ?e2" using assms(1) by (simp add: emulink_wf_def)
  have f2: "fdd ?e2 ! ?i = Some (fwrite ?f buf)" using i assms(1) by (simp add: emulink_wf_def)
  let ?g = "(fwrite ?f buf)\<lparr>pos := ?off\<rparr>"
  let ?e3 = "?e2\<lparr>cmd := 0x101, args := [drv, chs, n, args ?e2 ! 3], argi := 3, fdd := (fdd ?e2)[?i := Some ?g],
    status := 0, dataleft := int (length buf)\<rparr>"
  have 3: "floppy_cmd ?e2 0x101 drv chs n = Inr ?e3"
    using floppy_seek [OF wf2 _ assms(2) f2, of "0x101" chs n] assms(4) d by simp
  have rd: "fread ?g (length buf) = (buf, fwrite ?f buf)" using fwrite_fread [of ?f buf] by simp
  let ?e4 = "?e3\<lparr>fdd := (fdd ?e3)[?i := Some (fwrite ?f buf)], dataleft := 0, cmd := -1, status := 0\<rparr>"
  have 4: "emulink_data_read_string ?e3 (512 * unat n) = Inr (Some buf, ?e4)"
    using i assms(1) rd unfolding assms(7) [symmetric]
    by (simp add: emulink_data_read_string_def drive_def set_drive_def emulink_done_def emulink_wf_def)
  show ?thesis
    by (intro exI conjI, rule 1, rule 2, simp, simp, rule 3, rule 4) simp_all
qed

theorem floppy_roundtrip_witness:
  "\<exists>e1 e2 e3 e4. floppy_cmd (emulink_init\<lparr>fdd := [Some \<lparr>bytes = [], pos = 0\<rparr>, None]\<rparr>) 0x102 0 0x101 1 = Inr e1 \<and>
    emulink_data_write_string e1 (replicate 512 7) = Inr e2 \<and> floppy_cmd e2 0x101 0 0x101 1 = Inr e3 \<and>
    emulink_data_read_string e3 512 = Inr (Some (replicate 512 7), e4)"
proof -
  let ?e = "emulink_init\<lparr>fdd := [Some \<lparr>bytes = [], pos = 0\<rparr>, None]\<rparr>"
  have wf: "emulink_wf ?e" by (simp add: emulink_wf_def emulink_init_def fmt_def nth_Cons')
  have off: "chs_offset (fmt ! (fdfmti ?e ! unat (0 :: u32))) 0x101 = 9216"
    by (simp add: chs_offset_def fmt_def emulink_init_def fmt_entry_def)
  show ?thesis
    using floppy_roundtrip [OF wf, of 0 "\<lparr>bytes = [], pos = 0\<rparr>" "0x101" 1 "replicate 512 7"] off by auto
qed

text \<open>
  A floppy command for a drive number other than 0 and 1 reads the drive table
  out of bounds, because the table is indexed before the number is tested.
\<close>

lemma floppy_drive_unchecked:
  assumes "emulink_wf e" "c = 0x101 \<or> c = 0x102"
  shows "returns (floppy_cmd e c drv chs n) \<longleftrightarrow> drv < 2"
proof (cases "drv < 2")
  case True
  then have "unat drv < 2" by (simp add: word_less_nat_alt)
  then show ?thesis
    using True assms by (auto simp: floppy_cmd_eq exec_cmd_def drive_def emulink_wf_def fseek_set_def split: option.splits)
next
  case False
  then show ?thesis using floppy_bad_drive [OF assms] by simp
qed


end
