(* ===== verification/PCI.thy ===== *)
theory PCI
  imports Prelude
begin

text \<open>
  The PCI bus and the i440FX host bridge of \<open>source/winspire/pci.c\<close>: devices with
  a 256-byte configuration space and seven base address registers, the
  configuration access through the ports 0xcf8 and 0xcfc, and the mapping of the
  regions.  A configuration access outside the 256 bytes is an \<open>OutOfBounds\<close>
  failure.  The function pointer \<open>bar_set\<close> of a region acts on the opaque state
  \<open>'o\<close> that is passed along; the pointer \<open>piix3_dev\<close> of the bridge is the device
  number it points to.
\<close>

section \<open>State\<close>

record 'o PCIIORegion =
  rsize :: u32
  rtype :: u8
  enabled :: bool
  bar_set :: "'o \<Rightarrow> nat \<Rightarrow> u32 \<Rightarrow> bool \<Rightarrow> 'o"

record 'o PCIDevice =
  devfn :: u8
  config :: "u8 list"
  next_cap_offset :: u8
  name :: string
  io_regions :: "nat \<Rightarrow> 'o PCIIORegion"

record 'o PCIBus =
  bus_num :: u32
  device :: "nat \<Rightarrow> 'o PCIDevice option"

record 'o I440FXState =
  pci_bus :: "'o PCIBus"
  piix3_dev :: nat
  config_reg :: u32

abbreviation (input) "PCI_ROM_SLOT \<equiv> 6 :: nat"
abbreviation (input) "PCI_NUM_REGIONS \<equiv> 7 :: nat"
abbreviation (input) "PCI_COMMAND \<equiv> 4 :: nat"
abbreviation (input) "PCI_STATUS \<equiv> 6 :: nat"
abbreviation (input) "PCI_CAPABILITY_LIST \<equiv> 0x34 :: nat"
abbreviation (input) "PCI_INTERRUPT_LINE \<equiv> 0x3c :: nat"
abbreviation (input) "PCI_INTERRUPT_PIN \<equiv> 0x3d :: nat"

section \<open>Bytes of the configuration space\<close>

definition cfg_get :: "u8 list \<Rightarrow> nat \<Rightarrow> u8 result" where
  "cfg_get c a = (if a < length c then Inr (c ! a) else Inl OutOfBounds)"

definition cfg_set :: "u8 list \<Rightarrow> nat \<Rightarrow> u8 \<Rightarrow> u8 list result" where
  "cfg_set c a v = (if a < length c then Inr (c[a := v]) else Inl OutOfBounds)"

definition get_le16 :: "u8 list \<Rightarrow> nat \<Rightarrow> u16 result" where
  "get_le16 c a =
     bind_result (cfg_get c a) (\<lambda>b0. bind_result (cfg_get c (a + 1)) (\<lambda>b1.
       Inr (ucast b0 OR push_bit 8 (ucast b1))))"

definition get_le32 :: "u8 list \<Rightarrow> nat \<Rightarrow> u32 result" where
  "get_le32 c a =
     bind_result (cfg_get c a) (\<lambda>b0. bind_result (cfg_get c (a + 1)) (\<lambda>b1.
     bind_result (cfg_get c (a + 2)) (\<lambda>b2. bind_result (cfg_get c (a + 3)) (\<lambda>b3.
       Inr (ucast b0 OR push_bit 8 (ucast b1) OR push_bit 16 (ucast b2) OR push_bit 24 (ucast b3))))))"

definition put_le16 :: "u8 list \<Rightarrow> nat \<Rightarrow> u16 \<Rightarrow> u8 list result" where
  "put_le16 c a v =
     bind_result (cfg_set c a (ucast v)) (\<lambda>c. cfg_set c (a + 1) (ucast (drop_bit 8 v)))"

definition put_le32 :: "u8 list \<Rightarrow> nat \<Rightarrow> u32 \<Rightarrow> u8 list result" where
  "put_le32 c a v =
     bind_result (cfg_set c a (ucast v)) (\<lambda>c.
     bind_result (cfg_set c (a + 1) (ucast (drop_bit 8 v))) (\<lambda>c.
     bind_result (cfg_set c (a + 2) (ucast (drop_bit 16 v))) (\<lambda>c.
       cfg_set c (a + 3) (ucast (drop_bit 24 v)))))"

section \<open>Devices\<close>

definition bus_map_irq :: "'o PCIDevice \<Rightarrow> int \<Rightarrow> int" where
  "bus_map_irq d irq_num = (let slot_addend = int (unat (drop_bit 3 (devfn d))) - 1 in (irq_num + slot_addend) AND 3)"

fun devfn_alloc_loop :: "'o PCIBus \<Rightarrow> nat list \<Rightarrow> nat option" where
  "devfn_alloc_loop b [] = None"
| "devfn_alloc_loop b (n # ns) = (if device b n = None then Some n else devfn_alloc_loop b ns)"

definition devfn_alloc :: "'o PCIBus \<Rightarrow> nat option" where
  "devfn_alloc b = devfn_alloc_loop b (map (\<lambda>i. 8 * i) [0..<32])"

definition no_region :: "'o PCIIORegion" where
  "no_region = \<lparr>rsize = 0, rtype = 0, enabled = False, bar_set = (\<lambda>x _ _ _. x)\<rparr>"

definition put_device :: "'o PCIBus \<Rightarrow> nat \<Rightarrow> 'o PCIDevice \<Rightarrow> 'o PCIBus" where
  "put_device b n d = b\<lparr>device := (device b)(n \<mapsto> d)\<rparr>"

text \<open>
  \<open>pci_register_device\<close> returns the new device (here its number) or \<open>NULL\<close>; the
  argument is \<open>None\<close> for a negative number, which asks for the lowest free slot.
\<close>

definition pci_new_config :: "u16 \<Rightarrow> u16 \<Rightarrow> u8 \<Rightarrow> u16 \<Rightarrow> u8 list result" where
  "pci_new_config vendor_id device_id revision class_id =
     bind_result (put_le16 (replicate 256 0) 0x00 vendor_id) (\<lambda>c.
     bind_result (put_le16 c 0x02 device_id) (\<lambda>c.
     bind_result (cfg_set c 0x08 revision) (\<lambda>c.
     bind_result (put_le16 c 0x0a class_id) (\<lambda>c. cfg_set c 0x0e 0x00))))"

definition pci_register_device ::
    "'o PCIBus \<Rightarrow> string \<Rightarrow> nat option \<Rightarrow> u16 \<Rightarrow> u16 \<Rightarrow> u8 \<Rightarrow> u16 \<Rightarrow> (nat option \<times> 'o PCIBus) result" where
  "pci_register_device b nm dfn vendor_id device_id revision class_id =
     (let dfn = (case dfn of None \<Rightarrow> devfn_alloc b | Some n \<Rightarrow> Some n)
      in case dfn of None \<Rightarrow> Inr (None, b)
         | Some n \<Rightarrow>
             if n \<ge> 256 then Inl OutOfBounds
             else if device b n \<noteq> None then Inr (None, b)
             else
               bind_result (pci_new_config vendor_id device_id revision class_id) (\<lambda>c.
                 Inr (Some n, put_device b n
                   \<lparr>devfn = of_nat n, config = c, next_cap_offset = 0x40, name = nm,
                    io_regions = (\<lambda>_. no_region)\<rparr>)))"

definition pci_device_config_read :: "'o PCIDevice \<Rightarrow> nat \<Rightarrow> nat \<Rightarrow> u32 result" where
  "pci_device_config_read d addr size_log2 =
     (if size_log2 = 0 then bind_result (cfg_get (config d) addr) (\<lambda>v. Inr (ucast v))
      else if size_log2 = 1 then
        (if addr \<le> 0xfe then bind_result (get_le16 (config d) addr) (\<lambda>v. Inr (ucast v))
         else bind_result (cfg_get (config d) addr) (\<lambda>v. Inr (ucast v)))
      else if size_log2 = 2 then get_le32 (config d) addr
      else Inl Abort)"

definition pci_register_bar ::
    "'o PCIDevice \<Rightarrow> nat \<Rightarrow> u32 \<Rightarrow> u8 \<Rightarrow> ('o \<Rightarrow> nat \<Rightarrow> u32 \<Rightarrow> bool \<Rightarrow> 'o) \<Rightarrow> 'o PCIDevice result" where
  "pci_register_bar d bar_num sz ty set_bar =
     (if \<not> bar_num < PCI_NUM_REGIONS \<or> sz AND (sz - 1) \<noteq> 0 \<or> \<not> 4 \<le> sz \<or> rsize (io_regions d bar_num) \<noteq> 0
      then Inl Assertion
      else
        (let r = \<lparr>rsize = sz, rtype = ty, enabled = False, bar_set = set_bar\<rparr>;
             (val, config_addr) =
               (if bar_num = PCI_ROM_SLOT then (0, 0x30) else (ucast ty, 0x10 + 4 * bar_num))
         in bind_result (put_le32 (config d) config_addr val) (\<lambda>c.
              Inr (d\<lparr>io_regions := (io_regions d)(bar_num := r), config := c\<rparr>))))"

definition bar_offset :: "nat \<Rightarrow> nat" where
  "bar_offset i = (if i = PCI_ROM_SLOT then 0x30 else 0x10 + i * 4)"

definition pci_update_mapping :: "u16 \<Rightarrow> nat \<Rightarrow> 'o PCIDevice \<times> 'o \<Rightarrow> ('o PCIDevice \<times> 'o) result" where
  "pci_update_mapping cmd i = (\<lambda>(d, x).
     let r = io_regions d i
     in bind_result (get_le32 (config d) (bar_offset i)) (\<lambda>new_addr.
        let new_enabled =
              (rsize r \<noteq> 0 \<and>
               (if rtype r AND 1 \<noteq> 0 \<and> cmd AND 1 \<noteq> 0 then True
                else if cmd AND 2 \<noteq> 0 then (if i = PCI_ROM_SLOT then new_addr AND 1 \<noteq> 0 else True)
                else False))
        in if new_enabled then
             Inr (d\<lparr>io_regions := (io_regions d)(i := r\<lparr>enabled := True\<rparr>)\<rparr>,
                  bar_set r x i (new_addr AND NOT (rsize r - 1)) True)
           else if enabled r then
             Inr (d\<lparr>io_regions := (io_regions d)(i := r\<lparr>enabled := False\<rparr>)\<rparr>, bar_set r x i 0 False)
           else Inr (d, x)))"

fun update_mapping_loop :: "u16 \<Rightarrow> nat list \<Rightarrow> 'o PCIDevice \<times> 'o \<Rightarrow> ('o PCIDevice \<times> 'o) result" where
  "update_mapping_loop cmd [] dx = Inr dx"
| "update_mapping_loop cmd (i # is) dx =
     bind_result (pci_update_mapping cmd i dx) (update_mapping_loop cmd is)"

definition pci_update_mappings :: "'o PCIDevice \<times> 'o \<Rightarrow> ('o PCIDevice \<times> 'o) result" where
  "pci_update_mappings = (\<lambda>(d, x).
     bind_result (get_le16 (config d) PCI_COMMAND) (\<lambda>cmd. update_mapping_loop cmd [0..<PCI_NUM_REGIONS] (d, x)))"

text \<open>The result is \<open>None\<close> when the write is not handled (the C code returns -1).\<close>

definition pci_write_bar :: "'o PCIDevice \<times> 'o \<Rightarrow> nat \<Rightarrow> u32 \<Rightarrow> ('o PCIDevice \<times> 'o) option result" where
  "pci_write_bar = (\<lambda>(d, x) addr val.
     let reg = (if addr = 0x30 then PCI_ROM_SLOT else (addr - 0x10) div 4); r = io_regions d reg
     in if rsize r = 0 then Inr None
        else
          (let val = (if reg = PCI_ROM_SLOT then val AND (NOT (rsize r - 1) OR 1)
                      else (val AND NOT (rsize r - 1)) OR ucast (rtype r))
           in bind_result (put_le32 (config d) addr val) (\<lambda>c.
              bind_result (pci_update_mappings (d\<lparr>config := c\<rparr>, x)) (\<lambda>dx. Inr (Some dx)))))"

definition read_only_header0 :: "nat \<Rightarrow> bool" where
  "read_only_header0 addr \<longleftrightarrow> addr \<in> {0x00, 0x01, 0x02, 0x03, 0x08, 0x09, 0x0a, 0x0b, 0x0e, 0x3d} \<or>
     0x10 \<le> addr \<and> addr \<le> 0x27 \<or> 0x30 \<le> addr \<and> addr \<le> 0x33"

definition read_only_header1 :: "nat \<Rightarrow> bool" where
  "read_only_header1 addr \<longleftrightarrow> addr \<in> {0x00, 0x01, 0x02, 0x03, 0x08, 0x09, 0x0a, 0x0b, 0x0e, 0x3d} \<or>
     0x38 \<le> addr \<and> addr \<le> 0x3b"

definition pci_device_config_write8 :: "u8 list \<Rightarrow> nat \<Rightarrow> u8 \<Rightarrow> u8 list result" where
  "pci_device_config_write8 c addr val =
     (if addr = PCI_STATUS \<or> addr = PCI_STATUS + 1 then
        bind_result (cfg_get c addr) (\<lambda>b. cfg_set c addr (b AND NOT val))
      else
        bind_result (cfg_get c 0x0e) (\<lambda>h.
          let can_write = (if h = 0x00 \<or> h = 0x80 then \<not> read_only_header0 addr else \<not> read_only_header1 addr)
          in if can_write then cfg_set c addr val else Inr c))"

fun config_write_loop :: "nat list \<Rightarrow> u8 list \<Rightarrow> nat \<Rightarrow> u32 \<Rightarrow> u8 list result" where
  "config_write_loop [] c addr val = Inr c"
| "config_write_loop (i # is) c addr val =
     bind_result
       (if addr + i \<le> 0xff then pci_device_config_write8 c (addr + i) (ucast (drop_bit (i * 8) val AND 0xff))
        else Inr c)
       (\<lambda>c. config_write_loop is c addr val)"

definition pci_device_config_write_bytes ::
    "'o PCIDevice \<times> 'o \<Rightarrow> nat \<Rightarrow> u32 \<Rightarrow> nat \<Rightarrow> ('o PCIDevice \<times> 'o) result" where
  "pci_device_config_write_bytes = (\<lambda>(d, x) addr val size_log2.
     bind_result (config_write_loop [0..<2 ^ size_log2] (config d) addr val) (\<lambda>c.
       if PCI_COMMAND \<ge> addr \<and> PCI_COMMAND < addr + 2 ^ size_log2
       then pci_update_mappings (d\<lparr>config := c\<rparr>, x) else Inr (d\<lparr>config := c\<rparr>, x)))"

definition pci_device_config_write ::
    "'o PCIDevice \<times> 'o \<Rightarrow> nat \<Rightarrow> u32 \<Rightarrow> nat \<Rightarrow> ('o PCIDevice \<times> 'o) result" where
  "pci_device_config_write dx addr val size_log2 =
     (if size_log2 = 2 \<and> (0x10 \<le> addr \<and> addr < 0x10 + 4 * 6 \<or> addr = 0x30) then
        bind_result (pci_write_bar dx addr val)
          (\<lambda>r. case r of Some dx \<Rightarrow> Inr dx | None \<Rightarrow> pci_device_config_write_bytes dx addr val size_log2)
      else pci_device_config_write_bytes dx addr val size_log2)"

definition pci_data_write :: "'o PCIBus \<Rightarrow> 'o \<Rightarrow> u32 \<Rightarrow> u32 \<Rightarrow> nat \<Rightarrow> ('o PCIBus \<times> 'o) result" where
  "pci_data_write s x addr val size_log2 =
     (if drop_bit 16 addr AND 0xff \<noteq> bus_num s then Inr (s, x)
      else
        (let dfn = unat (drop_bit 8 addr AND 0xff)
         in case device s dfn of None \<Rightarrow> Inr (s, x)
            | Some d \<Rightarrow>
                bind_result (pci_device_config_write (d, x) (unat (addr AND 0xff)) val size_log2)
                  (\<lambda>(d, x). Inr (put_device s dfn d, x))))"

definition val_ones :: "nat \<Rightarrow> u32 result" where
  "val_ones n = (if n = 0 then Inr 0xff else if n = 1 then Inr 0xffff else if n = 2 then Inr 0xffffffff
     else Inl OutOfBounds)"

definition pci_data_read :: "'o PCIBus \<Rightarrow> u32 \<Rightarrow> nat \<Rightarrow> u32 result" where
  "pci_data_read s addr size_log2 =
     (if drop_bit 16 addr AND 0xff \<noteq> bus_num s then val_ones size_log2
      else
        (case device s (unat (drop_bit 8 addr AND 0xff)) of None \<Rightarrow> val_ones size_log2
         | Some d \<Rightarrow> pci_device_config_read d (unat (addr AND 0xff)) size_log2))"

definition pci_device_set_config8 :: "'o PCIDevice \<Rightarrow> u8 \<Rightarrow> u8 \<Rightarrow> 'o PCIDevice result" where
  "pci_device_set_config8 d addr val =
     bind_result (cfg_set (config d) (unat addr) val) (\<lambda>c. Inr (d\<lparr>config := c\<rparr>))"

definition pci_device_set_config16 :: "'o PCIDevice \<Rightarrow> u8 \<Rightarrow> u16 \<Rightarrow> 'o PCIDevice result" where
  "pci_device_set_config16 d addr val =
     bind_result (put_le16 (config d) (unat addr) val) (\<lambda>c. Inr (d\<lparr>config := c\<rparr>))"

fun cfg_copy :: "u8 list \<Rightarrow> nat \<Rightarrow> u8 list \<Rightarrow> u8 list result" where
  "cfg_copy c a [] = Inr c"
| "cfg_copy c a (b # bs) = bind_result (cfg_set c a b) (\<lambda>c. cfg_copy c (a + 1) bs)"

definition pci_add_capability :: "'o PCIDevice \<Rightarrow> u8 list \<Rightarrow> (nat option \<times> 'o PCIDevice) result" where
  "pci_add_capability d buf =
     (let offset = unat (next_cap_offset d)
      in if offset + length buf > 256 then Inr (None, d)
         else
           bind_result (cfg_get (config d) PCI_STATUS) (\<lambda>st.
           bind_result (cfg_set (config d) PCI_STATUS (st OR 0x10)) (\<lambda>c.
           bind_result (cfg_copy c offset buf) (\<lambda>c.
           bind_result (cfg_get c PCI_CAPABILITY_LIST) (\<lambda>nx.
           bind_result (cfg_set c (offset + 1) nx) (\<lambda>c.
           bind_result (cfg_set c PCI_CAPABILITY_LIST (of_nat offset)) (\<lambda>c.
             Inr (Some offset, d\<lparr>config := c, next_cap_offset := next_cap_offset d + of_nat (length buf)\<rparr>))))))))"

section \<open>The host bridge\<close>

definition i440fx_write_addr :: "'o I440FXState \<Rightarrow> u32 \<Rightarrow> 'o I440FXState" where
  "i440fx_write_addr s val = s\<lparr>config_reg := val\<rparr>"

definition i440fx_read_addr :: "'o I440FXState \<Rightarrow> u32" where
  "i440fx_read_addr s = config_reg s"

definition i440fx_write_data ::
    "'o I440FXState \<Rightarrow> 'o \<Rightarrow> u32 \<Rightarrow> u32 \<Rightarrow> nat \<Rightarrow> ('o I440FXState \<times> 'o) result" where
  "i440fx_write_data s x offset val size_log2 =
     (if config_reg s AND 0x80000000 \<noteq> 0 then
        (let addr = (if size_log2 = 2 then config_reg s AND NOT 3 else config_reg s OR offset)
         in bind_result (pci_data_write (pci_bus s) x addr val size_log2)
              (\<lambda>(b, x). Inr (s\<lparr>pci_bus := b\<rparr>, x)))
      else Inr (s, x))"

definition i440fx_read_data :: "'o I440FXState \<Rightarrow> u32 \<Rightarrow> nat \<Rightarrow> u32 result" where
  "i440fx_read_data s offset size_log2 =
     (if config_reg s AND 0x80000000 = 0 then val_ones size_log2
      else if size_log2 = 2 then pci_data_read (pci_bus s) (config_reg s AND NOT 3) size_log2
      else pci_data_read (pci_bus s) (config_reg s OR offset) size_log2)"

definition update_device ::
    "'o PCIBus \<Rightarrow> nat \<Rightarrow> ('o PCIDevice \<Rightarrow> 'o PCIDevice result) \<Rightarrow> 'o PCIBus result" where
  "update_device b n f =
     (case device b n of None \<Rightarrow> Inl OutOfBounds
      | Some d \<Rightarrow> bind_result (f d) (\<lambda>d. Inr (put_device b n d)))"

definition i440fx_init :: "'o I440FXState result" where
  "i440fx_init =
     (let b = \<lparr>bus_num = 0, device = (\<lambda>_. None)\<rparr>
      in bind_result (pci_register_device b ''i440FX'' (Some 0) 0x8086 0x1237 0x02 0x0600) (\<lambda>(_, b).
         bind_result (update_device b 0 (\<lambda>d. pci_device_set_config16 d 0x2c 0x1af4)) (\<lambda>b.
         bind_result (update_device b 0 (\<lambda>d. pci_device_set_config16 d 0x2e 0x1100)) (\<lambda>b.
         bind_result (pci_register_device b ''PIIX3'' (Some 8) 0x8086 0x7000 0x00 0x0601) (\<lambda>(_, b).
         bind_result (update_device b 8 (\<lambda>d. pci_device_set_config8 d 0x0e 0x80)) (\<lambda>b.
           Inr \<lparr>pci_bus = b, piix3_dev = 8, config_reg = 0\<rparr>))))))"

fun map_pirq_loop :: "nat list \<Rightarrow> u8 list \<Rightarrow> u8 list \<times> u8 list \<Rightarrow> (u8 list \<times> u8 list) result" where
  "map_pirq_loop [] pci_irqs ce = Inr ce"
| "map_pirq_loop (i # is) pci_irqs (c, elcr) =
     bind_result (cfg_get pci_irqs i) (\<lambda>irq_num.
     bind_result (cfg_set c (0x60 + i) irq_num) (\<lambda>c.
     bind_result (cfg_get elcr (unat (drop_bit 3 irq_num))) (\<lambda>e.
     bind_result (cfg_set elcr (unat (drop_bit 3 irq_num)) (e OR push_bit (unat (irq_num AND 7)) 1)) (\<lambda>elcr.
       map_pirq_loop is pci_irqs (c, elcr)))))"

fun map_line_loop :: "nat list \<Rightarrow> nat \<Rightarrow> 'o PCIBus \<Rightarrow> 'o PCIBus result" where
  "map_line_loop [] hdev b = Inr b"
| "map_line_loop (n # ns) hdev b =
     (case device b n of None \<Rightarrow> map_line_loop ns hdev b
      | Some d \<Rightarrow>
          bind_result (cfg_get (config d) PCI_INTERRUPT_PIN) (\<lambda>pin.
            if pin = 0 then map_line_loop ns hdev b
            else
              (case device b hdev of None \<Rightarrow> Inl OutOfBounds
               | Some h \<Rightarrow>
                   bind_result (cfg_get (config h) (0x60 + nat (bus_map_irq d 0))) (\<lambda>pic_irq.
                     if pic_irq < 16 then
                       bind_result (cfg_set (config d) PCI_INTERRUPT_LINE pic_irq) (\<lambda>c.
                         map_line_loop ns hdev (put_device b n (d\<lparr>config := c\<rparr>)))
                     else map_line_loop ns hdev b))))"

definition i440fx_map_interrupts ::
    "'o I440FXState \<Rightarrow> u8 list \<Rightarrow> u8 list \<Rightarrow> ('o I440FXState \<times> u8 list) result" where
  "i440fx_map_interrupts s elcr pci_irqs =
     (case device (pci_bus s) (piix3_dev s) of None \<Rightarrow> Inl OutOfBounds
      | Some h \<Rightarrow>
          bind_result (cfg_set elcr 0 0) (\<lambda>elcr.
          bind_result (cfg_set elcr 1 0) (\<lambda>elcr.
          bind_result (map_pirq_loop [0..<4] pci_irqs (config h, elcr)) (\<lambda>(c, elcr).
          bind_result (map_line_loop [0..<256] (piix3_dev s)
              (put_device (pci_bus s) (piix3_dev s) (h\<lparr>config := c\<rparr>))) (\<lambda>b.
            Inr (s\<lparr>pci_bus := b\<rparr>, elcr))))))"

section \<open>Specification vocabulary\<close>

definition dev_wf :: "'o PCIDevice \<Rightarrow> bool" where
  "dev_wf d \<longleftrightarrow> length (config d) = 256"

definition bus_wf :: "'o PCIBus \<Rightarrow> bool" where
  "bus_wf b \<longleftrightarrow> (\<forall>n d. device b n = Some d \<longrightarrow> dev_wf d)"

text \<open>The identification of a device with a type 0 header: IDs, revision, class, header type, interrupt pin.\<close>

definition id_bytes :: "nat set" where
  "id_bytes = {0, 1, 2, 3, 8, 9, 10, 11, 14, 0x3d}"

definition same_id :: "u8 list \<Rightarrow> u8 list \<Rightarrow> bool" where
  "same_id c c' \<longleftrightarrow> (\<forall>a \<in> id_bytes. c' ! a = c ! a)"

definition header0 :: "u8 list \<Rightarrow> bool" where
  "header0 c \<longleftrightarrow> c ! 0x0e = 0 \<or> c ! 0x0e = 0x80"

definition dev_keeps :: "'o PCIDevice \<Rightarrow> 'o PCIDevice \<Rightarrow> bool" where
  "dev_keeps d d' \<longleftrightarrow> dev_wf d' \<and> same_id (config d) (config d') \<and>
    (\<forall>j. rsize (io_regions d' j) = rsize (io_regions d j) \<and> rtype (io_regions d' j) = rtype (io_regions d j))"

text \<open>A guest access through the two ports.\<close>

datatype pci_op = WriteAddr u32 | WriteData u32 u32 nat | ReadData u32 nat

fun pci_step :: "pci_op \<Rightarrow> 'o I440FXState \<times> 'o \<Rightarrow> ('o I440FXState \<times> 'o) result" where
  "pci_step (WriteAddr v) (s, x) = Inr (i440fx_write_addr s v, x)"
| "pci_step (WriteData offset v n) (s, x) = i440fx_write_data s x offset v n"
| "pci_step (ReadData offset n) (s, x) = bind_result (i440fx_read_data s offset n) (\<lambda>_. Inr (s, x))"

fun pci_run :: "pci_op list \<Rightarrow> 'o I440FXState \<times> 'o \<Rightarrow> ('o I440FXState \<times> 'o) result" where
  "pci_run [] sx = Inr sx"
| "pci_run (op # ops) sx = bind_result (pci_step op sx) (pci_run ops)"

fun access_ok :: "pci_op \<Rightarrow> bool" where
  "access_ok (WriteAddr v) = True"
| "access_ok (WriteData offset v n) = (n \<le> 2)"
| "access_ok (ReadData offset n) = (n \<le> 2)"

definition bus_keeps :: "'o PCIBus \<Rightarrow> 'o PCIBus \<Rightarrow> bool" where
  "bus_keeps b b' \<longleftrightarrow> bus_wf b' \<and> bus_num b' = bus_num b \<and>
     (\<forall>m. case device b m of None \<Rightarrow> device b' m = None
            | Some d \<Rightarrow> \<exists>d'. device b' m = Some d' \<and> dev_keeps d d')"

text \<open>The configuration address of byte \<open>a\<close> of device \<open>n\<close> on bus 0, with the enable bit.\<close>

definition cfg_address :: "nat \<Rightarrow> nat \<Rightarrow> u32" where
  "cfg_address n a = of_nat (0x80000000 + 256 * n + a)"

definition inert :: "'o PCIDevice \<Rightarrow> nat \<Rightarrow> bool" where
  "inert d j \<longleftrightarrow> rsize (io_regions d j) = 0 \<and> \<not> enabled (io_regions d j)"

text \<open>A bus with one display device, as the board builds it.\<close>

definition vga_dev_example :: "(nat \<times> u32 \<times> bool) list PCIDevice" where
  "vga_dev_example = \<lparr>devfn = 16, config = (replicate 256 0)[4 := 2], next_cap_offset = 0x40, name = ''VGA'',
     io_regions = (\<lambda>_. no_region)(0 := \<lparr>rsize = 0x800000, rtype = 0, enabled = False,
       bar_set = (\<lambda>x i a e. x @ [(i, a, e)])\<rparr>)\<rparr>"

definition vga_bus_example :: "(nat \<times> u32 \<times> bool) list I440FXState" where
  "vga_bus_example = \<lparr>pci_bus = \<lparr>bus_num = 0, device = [16 \<mapsto> vga_dev_example]\<rparr>, piix3_dev = 8, config_reg = 0\<rparr>"

section \<open>Configuration space\<close>

lemma cfg_simps [simp]:
  "a < length c \<Longrightarrow> cfg_get c a = Inr (c ! a)" "a < length c \<Longrightarrow> cfg_set c a v = Inr (c[a := v])"
  by (simp_all add: cfg_get_def cfg_set_def)

lemma put_le32_Inr:
  "a + 3 < length c \<Longrightarrow> put_le32 c a v =
     Inr (c[a := ucast v, a + 1 := ucast (drop_bit 8 v), a + 2 := ucast (drop_bit 16 v), a + 3 := ucast (drop_bit 24 v)])"
  by (simp add: put_le32_def)

lemma get_le32_Inr:
  "a + 3 < length c \<Longrightarrow> get_le32 c a = Inr (ucast (c ! a) OR push_bit 8 (ucast (c ! (a + 1))) OR
     push_bit 16 (ucast (c ! (a + 2))) OR push_bit 24 (ucast (c ! (a + 3))))"
  by (simp add: get_le32_def)

lemma get_le16_Inr:
  "a + 1 < length c \<Longrightarrow> get_le16 c a = Inr (ucast (c ! a) OR push_bit 8 (ucast (c ! (a + 1))))"
  by (simp add: get_le16_def)

lemma bytes32: "(ucast (ucast v :: u8) OR push_bit 8 (ucast (ucast (drop_bit 8 v) :: u8)) OR
    push_bit 16 (ucast (ucast (drop_bit 16 v) :: u8)) OR push_bit 24 (ucast (ucast (drop_bit 24 v) :: u8))) = (v :: u32)"
proof (rule bit_word_eqI)
  fix n :: nat
  assume "n < LENGTH(32)"
  then consider "n < 8" | "8 \<le> n" "n < 16" | "16 \<le> n" "n < 24" | "24 \<le> n" "n < 32" by fastforce
  then show "bit (ucast (ucast v :: u8) OR push_bit 8 (ucast (ucast (drop_bit 8 v) :: u8)) OR
    push_bit 16 (ucast (ucast (drop_bit 16 v) :: u8)) OR push_bit 24 (ucast (ucast (drop_bit 24 v) :: u8)) :: u32) n = bit v n"
    by cases (auto simp: bit_simps)
qed

lemma bytes16: "(ucast (ucast v :: u8) OR push_bit 8 (ucast (ucast (drop_bit 8 v) :: u8))) = (v :: u16)"
proof (rule bit_word_eqI)
  fix n :: nat
  assume "n < LENGTH(16)"
  then consider "n < 8" | "8 \<le> n" "n < 16" by fastforce
  then show "bit (ucast (ucast v :: u8) OR push_bit 8 (ucast (ucast (drop_bit 8 v) :: u8)) :: u16) n = bit v n"
    by cases (auto simp: bit_simps)
qed

lemma get_put_le32:
  "a + 3 < length c \<Longrightarrow> put_le32 c a v = Inr c' \<Longrightarrow> get_le32 c' a = Inr v"
  by (auto simp: put_le32_Inr get_le32_Inr bytes32)

lemma get_put_le16:
  "a + 1 < length c \<Longrightarrow> put_le16 c a v = Inr c' \<Longrightarrow> get_le16 c' a = Inr v"
  by (auto simp: put_le16_def get_le16_Inr bytes16)

lemma put_le32_frame:
  "put_le32 c a v = Inr c' \<Longrightarrow> a + 3 < length c \<Longrightarrow> length c' = length c"
  "put_le32 c a v = Inr c' \<Longrightarrow> a + 3 < length c \<Longrightarrow> i < a \<or> a + 3 < i \<Longrightarrow> c' ! i = c ! i"
  by (auto simp: put_le32_Inr)

lemma bar_offset_less: "i < 7 \<Longrightarrow> bar_offset i + 3 < 256"
  by (simp add: bar_offset_def)

text \<open>Updating the mappings changes neither the configuration space nor the shape of the regions.\<close>

lemma pci_update_mapping_ok:
  assumes "dev_wf d" "i < 7"
  shows "\<exists>d' x'. pci_update_mapping cmd i (d, x) = Inr (d', x') \<and> config d' = config d \<and>
    (\<forall>j. rsize (io_regions d' j) = rsize (io_regions d j) \<and> rtype (io_regions d' j) = rtype (io_regions d j))"
proof -
  have "get_le32 (config d) (bar_offset i) \<noteq> Inl e" for e
    using assms bar_offset_less [of i] by (simp add: get_le32_Inr dev_wf_def)
  then obtain v where "get_le32 (config d) (bar_offset i) = Inr v" by (cases "get_le32 (config d) (bar_offset i)") auto
  then show ?thesis by (simp add: pci_update_mapping_def Let_def)
qed

lemma update_mapping_loop_ok:
  "dev_wf d \<Longrightarrow> \<forall>i \<in> set is. i < 7 \<Longrightarrow>
    \<exists>d' x'. update_mapping_loop cmd is (d, x) = Inr (d', x') \<and> config d' = config d \<and>
    (\<forall>j. rsize (io_regions d' j) = rsize (io_regions d j) \<and> rtype (io_regions d' j) = rtype (io_regions d j))"
proof (induction "is" arbitrary: d x)
  case (Cons i "is")
  then obtain d1 x1 where 1: "pci_update_mapping cmd i (d, x) = Inr (d1, x1)" "config d1 = config d"
    "\<forall>j. rsize (io_regions d1 j) = rsize (io_regions d j) \<and> rtype (io_regions d1 j) = rtype (io_regions d j)"
    using pci_update_mapping_ok [of d i cmd x] by auto
  with Cons.IH [of d1 x1] Cons.prems show ?case by (auto simp: dev_wf_def)
qed simp

lemma pci_update_mappings_ok:
  assumes "dev_wf d"
  shows "\<exists>d' x'. pci_update_mappings (d, x) = Inr (d', x') \<and> config d' = config d \<and>
    (\<forall>j. rsize (io_regions d' j) = rsize (io_regions d j) \<and> rtype (io_regions d' j) = rtype (io_regions d j))"
  using assms update_mapping_loop_ok [OF assms, of "[0..<7]"]
  by (simp add: pci_update_mappings_def get_le16_Inr dev_wf_def del: upt_Suc)

lemma same_id_refl [simp]: "same_id c c"
  by (simp add: same_id_def)

lemma same_id_trans: "same_id a b \<Longrightarrow> same_id b c \<Longrightarrow> same_id a c"
  by (simp add: same_id_def)

lemma config_write8_ok:
  assumes "length c = 256" "a \<le> 0xff"
  shows "\<exists>c'. pci_device_config_write8 c a v = Inr c' \<and> length c' = 256 \<and> same_id c c'"
proof -
  have "same_id c (c[a := w])" if "a \<notin> id_bytes" for w
    using that unfolding same_id_def by (metis nth_list_update_neq)
  moreover have "a \<in> id_bytes \<Longrightarrow> read_only_header0 a" "a \<in> id_bytes \<Longrightarrow> read_only_header1 a"
    by (auto simp: id_bytes_def read_only_header0_def read_only_header1_def)
  moreover have "6 \<notin> id_bytes" "7 \<notin> id_bytes" by (simp_all add: id_bytes_def)
  ultimately show ?thesis
    using assms by (auto simp: pci_device_config_write8_def Let_def)
qed

lemma config_write_loop_ok:
  "length c = 256 \<Longrightarrow> \<exists>c'. config_write_loop is c addr v = Inr c' \<and> length c' = 256 \<and> same_id c c'"
proof (induction "is" arbitrary: c)
  case (Cons i "is")
  have "\<exists>c'. (if addr + i \<le> 0xff then pci_device_config_write8 c (addr + i) (ucast (drop_bit (i * 8) v AND 0xff))
        else Inr c) = Inr c' \<and> length c' = 256 \<and> same_id c c'"
    using config_write8_ok [OF Cons.prems, of "addr + i"] Cons.prems by simp
  then obtain c1 where "(if addr + i \<le> 0xff then pci_device_config_write8 c (addr + i) (ucast (drop_bit (i * 8) v AND 0xff))
        else Inr c) = Inr c1" "length c1 = 256" "same_id c c1" by blast
  with Cons.IH [of c1] show ?case by (auto intro: same_id_trans)
qed simp

lemma pci_write_bar_ok:
  assumes "dev_wf d" "0x10 \<le> addr \<and> addr < 0x28 \<or> addr = 0x30"
  shows "pci_write_bar (d, x) addr v = Inr None \<or>
    (\<exists>d' x'. pci_write_bar (d, x) addr v = Inr (Some (d', x')) \<and> dev_keeps d d')"
proof -
  let ?reg = "if addr = 0x30 then 6 else (addr - 0x10) div 4"
  let ?r = "io_regions d ?reg"
  define w where "w = (if ?reg = 6 then v AND (NOT (rsize ?r - 1) OR 1) else (v AND NOT (rsize ?r - 1)) OR ucast (rtype ?r))"
  have l: "addr + 3 < length (config d)" using assms by (auto simp: dev_wf_def)
  obtain c where c: "put_le32 (config d) addr w = Inr c" using l by (simp add: put_le32_Inr)
  note fr = put_le32_frame [OF c l]
  have wf: "dev_wf (d\<lparr>config := c\<rparr>)" using fr(1) assms(1) by (simp add: dev_wf_def)
  have "same_id (config d) c"
    using assms(2) by (auto simp: same_id_def id_bytes_def intro!: fr(2))
  with pci_update_mappings_ok [OF wf, of x] c wf show ?thesis
    by (auto simp: pci_write_bar_def Let_def w_def dev_keeps_def dev_wf_def)
qed

lemma config_write_bytes_ok:
  assumes "dev_wf d"
  shows "\<exists>d' x'. pci_device_config_write_bytes (d, x) addr v sz = Inr (d', x') \<and> dev_keeps d d'"
proof -
  obtain c where c: "config_write_loop [0..<2 ^ sz] (config d) addr v = Inr c" "length c = 256" "same_id (config d) c"
    using config_write_loop_ok [of "config d" "[0..<2 ^ sz]" addr v] assms by (auto simp: dev_wf_def)
  then have "dev_wf (d\<lparr>config := c\<rparr>)" by (simp add: dev_wf_def)
  with pci_update_mappings_ok [OF this, of x] c show ?thesis
    by (auto simp: pci_device_config_write_bytes_def dev_keeps_def dev_wf_def)
qed

lemma config_write_ok:
  assumes "dev_wf d"
  shows "\<exists>d' x'. pci_device_config_write (d, x) addr v sz = Inr (d', x') \<and> dev_keeps d d'"
proof (cases "sz = 2 \<and> (0x10 \<le> addr \<and> addr < 0x10 + 4 * 6 \<or> addr = 0x30)")
  case True
  then consider "pci_write_bar (d, x) addr v = Inr None"
    | d' x' where "pci_write_bar (d, x) addr v = Inr (Some (d', x'))" "dev_keeps d d'"
    using pci_write_bar_ok [OF assms, of addr x v] by auto
  then show ?thesis
    using True config_write_bytes_ok [OF assms, of x addr v sz]
    by cases (auto simp: pci_device_config_write_def)
next
  case False
  then have "pci_device_config_write (d, x) addr v sz = pci_device_config_write_bytes (d, x) addr v sz"
    unfolding pci_device_config_write_def by (rule if_not_P)
  then show ?thesis using config_write_bytes_ok [OF assms, of x addr v sz] by simp
qed

section \<open>Accesses through the ports\<close>

lemma unat_and_ff: "unat ((x :: u32) AND 0xff) < 256"
  using unat_and_le_right [of x "0xff"] by simp

lemma val_ones_returns: "n \<le> 2 \<Longrightarrow> \<exists>v. val_ones n = Inr v"
  by (auto simp: val_ones_def)

lemma config_read_returns:
  assumes "dev_wf d" "a < 256" "n \<le> 2" "n = 2 \<Longrightarrow> a mod 4 = 0"
  shows "\<exists>v. pci_device_config_read d a n = Inr v"
proof -
  have "n = 0 \<or> n = 1 \<or> n = 2" using assms(3) by auto
  moreover have "a + 3 < 256" if "n = 2"
  proof -
    have "a mod 4 = 0" using assms(4) that by simp
    then obtain q where "a = 4 * q" by (auto simp: mod_eq_0_iff_dvd)
    then show ?thesis using assms(2) by simp
  qed
  ultimately show ?thesis
    using assms(1,2) by (auto simp: pci_device_config_read_def get_le16_Inr get_le32_Inr dev_wf_def)
qed

lemma pci_data_write_ok:
  assumes "bus_wf b"
  shows "\<exists>b' x'. pci_data_write b x addr v n = Inr (b', x') \<and> bus_wf b' \<and> bus_num b' = bus_num b \<and>
    (\<forall>m. case device b m of None \<Rightarrow> device b' m = None | Some d \<Rightarrow> \<exists>d'. device b' m = Some d' \<and> dev_keeps d d')"
proof -
  let ?n = "unat (drop_bit 8 addr AND 0xff)"
  have refl: "dev_keeps d d" if "device b m = Some d" for m d
    using assms that by (auto simp: dev_keeps_def bus_wf_def)
  show ?thesis
  proof (cases "drop_bit 16 addr AND 0xff \<noteq> bus_num b \<or> device b ?n = None")
    case True
    then have "pci_data_write b x addr v n = Inr (b, x)" by (auto simp: pci_data_write_def)
    with refl assms show ?thesis by (auto split: option.splits)
  next
    case False
    then obtain d where d: "device b ?n = Some d" by auto
    then have "dev_wf d" using assms by (simp add: bus_wf_def)
    from config_write_ok [OF this, of x "unat (addr AND 0xff)" v n] obtain d' x' where
      w: "pci_device_config_write (d, x) (unat (addr AND 0xff)) v n = Inr (d', x')" "dev_keeps d d'" by blast
    have "pci_data_write b x addr v n = Inr (put_device b ?n d', x')"
      using False d w(1) by (simp add: pci_data_write_def)
    moreover have "bus_wf (put_device b ?n d')"
      using assms w(2) by (auto simp: bus_wf_def put_device_def dev_keeps_def)
    ultimately show ?thesis using refl d w(2) by (auto simp: put_device_def split: option.splits)
  qed
qed

lemma pci_data_read_returns:
  assumes "bus_wf b" "n \<le> 2" "n = 2 \<Longrightarrow> unat (addr AND 0xff) mod 4 = 0"
  shows "\<exists>v. pci_data_read b addr n = Inr v"
  using assms val_ones_returns [OF assms(2)] config_read_returns [OF _ unat_and_ff, of _ n addr]
  by (auto simp: pci_data_read_def bus_wf_def split: option.splits)

lemma take_bit_2_0: "\<not> bit y 0 \<Longrightarrow> \<not> bit y 1 \<Longrightarrow> take_bit 2 (y :: u32) = 0"
  by (rule bit_word_eqI) (auto simp: bit_take_bit_iff less_2_cases_iff, metis gr0I)

lemma unat_mod_4: "take_bit 2 (y :: u32) = 0 \<Longrightarrow> unat y mod 4 = 0"
  using unat_mod_distrib [of y 4] by (simp add: take_bit_eq_mod)

lemma aligned_addr: "unat ((x AND NOT 3 :: u32) AND 0xff) mod 4 = 0"
  by (intro unat_mod_4 take_bit_2_0) (simp_all add: bit_simps)

lemma bus_keeps_refl: "bus_wf b \<Longrightarrow> bus_keeps b b"
  by (auto simp: bus_keeps_def bus_wf_def dev_keeps_def split: option.splits)

lemma dev_keeps_trans: "dev_keeps a b \<Longrightarrow> dev_keeps b c \<Longrightarrow> dev_keeps a c"
  by (auto simp: dev_keeps_def intro: same_id_trans)

lemma bus_keeps_trans: "bus_keeps a b \<Longrightarrow> bus_keeps b c \<Longrightarrow> bus_keeps a c"
  unfolding bus_keeps_def
  by (auto split: option.splits intro: dev_keeps_trans) (metis dev_keeps_trans option.distinct(1) option.inject)+

lemma pci_step_ok:
  assumes "bus_wf (pci_bus s)" "access_ok op"
  shows "\<exists>s' x'. pci_step op (s, x) = Inr (s', x') \<and> bus_keeps (pci_bus s) (pci_bus s')"
proof (cases op)
  case (WriteAddr v)
  then show ?thesis using assms(1) by (simp add: i440fx_write_addr_def bus_keeps_refl)
next
  case (WriteData offset v n)
  define addr where "addr = (if n = 2 then config_reg s AND NOT 3 else config_reg s OR offset)"
  obtain b' x' where "pci_data_write (pci_bus s) x addr v n = Inr (b', x')" "bus_keeps (pci_bus s) b'"
    using pci_data_write_ok [OF assms(1), of x addr v n] by (auto simp: bus_keeps_def)
  then show ?thesis
    using WriteData assms(1) by (auto simp: i440fx_write_data_def addr_def Let_def bus_keeps_refl)
next
  case (ReadData offset n)
  then have n: "n \<le> 2" using assms(2) by simp
  obtain v w where "val_ones n = Inr v" using val_ones_returns [OF n] by blast
  moreover have "n = 2 \<Longrightarrow> \<exists>w. pci_data_read (pci_bus s) (config_reg s AND NOT 3) n = Inr w"
    using pci_data_read_returns [OF assms(1) n aligned_addr] by simp
  moreover have "n \<noteq> 2 \<Longrightarrow> \<exists>w. pci_data_read (pci_bus s) (config_reg s OR offset) n = Inr w"
    using pci_data_read_returns [OF assms(1) n] by simp
  ultimately show ?thesis
    using ReadData assms(1) by (auto simp: i440fx_read_data_def bus_keeps_refl)
qed

lemma pci_run_ok:
  "bus_wf (pci_bus s) \<Longrightarrow> \<forall>op \<in> set ops. access_ok op \<Longrightarrow>
    \<exists>s' x'. pci_run ops (s, x) = Inr (s', x') \<and> bus_keeps (pci_bus s) (pci_bus s')"
proof (induction ops arbitrary: s x)
  case (Cons op ops)
  then obtain s1 x1 where 1: "pci_step op (s, x) = Inr (s1, x1)" "bus_keeps (pci_bus s) (pci_bus s1)"
    using pci_step_ok [of s op x] by auto
  then have "bus_wf (pci_bus s1)" by (simp add: bus_keeps_def)
  with 1 Cons.IH [of s1 x1] Cons.prems show ?case by (auto intro: bus_keeps_trans)
qed (simp add: bus_keeps_refl)

lemma unat_and_ff_mod: "unat ((x :: u32) AND 0xff) = unat x mod 256"
proof -
  have "x AND 0xff = take_bit 8 x" by (simp add: take_bit_eq_mask mask_eq_exp_minus_1)
  then have "unat (x AND 0xff) = take_bit 8 (unat x)" by (simp only: unsigned_take_bit_eq)
  then show ?thesis by (simp add: take_bit_eq_mod)
qed

lemma cfg_address_fields:
  assumes "n < 256" "a < 256"
  shows "unat (cfg_address n a AND 0xff) = a" "unat (drop_bit 8 (cfg_address n a) AND 0xff) = n"
    "drop_bit 16 (cfg_address n a) AND 0xff = 0" "cfg_address n a AND 0x80000000 \<noteq> 0"
    "a mod 4 = 0 \<Longrightarrow> cfg_address n a AND NOT 3 = cfg_address n a"
proof -
  have u: "unat (cfg_address n a) = 0x80000000 + 256 * n + a"
    using assms by (simp add: cfg_address_def unat_of_nat del: of_nat_add of_nat_mult)
  have "2147483648 + 256 * n + a = a + (8388608 + n) * 256" by simp
  then have "(2147483648 + 256 * n + a) mod 256 = a" using assms by (simp only: mod_mult_self1) simp
  then show "unat (cfg_address n a AND 0xff) = a" by (simp add: unat_and_ff_mod u)
  have "(2147483648 + 256 * n + a) div 256 = 8388608 + n" using assms by simp
  moreover have "(8388608 + n) mod 256 = n"
    using assms(1) mod_mult_self1 [of n 32768 256] by (simp add: add.commute)
  ultimately show "unat (drop_bit 8 (cfg_address n a) AND 0xff) = n"
    by (simp add: unat_and_ff_mod drop_bit_eq_div unat_div_distrib u)
  have "(2147483648 + 256 * n + a) div 65536 = 32768" using assms by simp
  then have "unat (drop_bit 16 (cfg_address n a) AND 0xff) = 0"
    by (simp add: unat_and_ff_mod drop_bit_eq_div unat_div_distrib u)
  then show "drop_bit 16 (cfg_address n a) AND 0xff = 0" by (simp add: unat_eq_0)
  have "unat (drop_bit 31 (cfg_address n a)) = 1"
    using assms by (simp add: drop_bit_eq_div unat_div_distrib u)
  then have "bit (cfg_address n a) 31"
    by (simp add: bit_iff_odd_drop_bit word_unat_eq_iff [of _ 1, simplified, symmetric])
  then show "cfg_address n a AND 0x80000000 \<noteq> 0"
    using and_exp_eq_0 [of "cfg_address n a" 31] by simp
  assume "a mod 4 = 0"
  then have "unat (cfg_address n a) mod 4 = 0" using u by (simp add: mod_add_eq [symmetric] mod_mult_left_eq [symmetric])
  then have t: "take_bit 2 (cfg_address n a) = 0"
    using unat_mod_distrib [of "cfg_address n a" 4] by (simp add: take_bit_eq_mod unat_eq_0)
  have three: "(3 :: u32) = mask 2" by (simp add: mask_eq_exp_minus_1)
  show "cfg_address n a AND NOT 3 = cfg_address n a"
  proof (rule bit_word_eqI)
    fix j :: nat
    have "\<not> (bit (cfg_address n a) j \<and> j < 2)"
      using arg_cong [OF t, of "\<lambda>y. bit y j"] by (auto simp: bit_take_bit_iff)
    then show "bit (cfg_address n a AND NOT 3) j = bit (cfg_address n a) j"
      unfolding three by (auto simp: bit_and_iff bit_not_iff bit_mask_iff dest: bit_imp_le_length)
  qed
qed

lemma update_mapping_loop_append:
  "update_mapping_loop cmd (as @ bs) dx = bind_result (update_mapping_loop cmd as dx) (update_mapping_loop cmd bs)"
  by (induction as arbitrary: dx) (auto simp: bind_result_def split: sum.splits)

lemma inert_mapping:
  assumes "dev_wf d" "j < 7" "inert d j"
  shows "pci_update_mapping cmd j (d, x) = Inr (d, x)"
proof -
  obtain v where "get_le32 (config d) (bar_offset j) = Inr v"
    using assms bar_offset_less [of j] by (simp add: get_le32_Inr dev_wf_def)
  with assms(3) show ?thesis by (simp add: pci_update_mapping_def inert_def Let_def)
qed

lemma inert_loop:
  "dev_wf d \<Longrightarrow> \<forall>j \<in> set is. j < 7 \<and> inert d j \<Longrightarrow> update_mapping_loop cmd is (d, x) = Inr (d, x)"
  by (induction "is") (simp_all add: inert_mapping)

lemma single_region_mappings:
  assumes "dev_wf d" "i < 7" "\<forall>j<7. j \<noteq> i \<longrightarrow> inert d j" "get_le16 (config d) 4 = Inr cmd"
  shows "pci_update_mappings (d, x) = pci_update_mapping cmd i (d, x)"
proof -
  obtain d' x' where m: "pci_update_mapping cmd i (d, x) = Inr (d', x')" "config d' = config d"
    using pci_update_mapping_ok [OF assms(1,2), of cmd x] by blast
  have "io_regions d' j = io_regions d j" if "j \<noteq> i" for j
    using m(1) that by (auto simp: pci_update_mapping_def Let_def bind_result_eq_Inr split: if_splits)
  then have "\<forall>j<7. j \<noteq> i \<longrightarrow> inert d' j" "dev_wf d'" using assms(1,3) m(2) by (auto simp: inert_def dev_wf_def)
  moreover have "[0..<7] = [0..<i] @ i # [Suc i..<7]"
    using assms(2) upt_add_eq_append [of 0 i "7 - i"] upt_conv_Cons [of i 7] by simp
  ultimately show ?thesis
    using assms m by (simp add: pci_update_mappings_def update_mapping_loop_append inert_loop)
qed

lemma masked_or: "t AND m = 0 \<Longrightarrow> (v AND m OR t) AND m = v AND (m :: u32)"
  by (simp add: bit.conj_disj_distrib2 and.assoc)

lemma devfn_alloc_loop_Some:
  "devfn_alloc_loop b ns = Some n \<Longrightarrow> \<exists>as bs. ns = as @ n # bs \<and> device b n = None \<and> (\<forall>m \<in> set as. device b m \<noteq> None)"
proof (induction ns)
  case (Cons k ns)
  show ?case
  proof (cases "device b k = None")
    case True
    with Cons.prems show ?thesis by (intro exI [of _ "[]"] exI [of _ ns]) simp
  next
    case False
    with Cons obtain as bs where "ns = as @ n # bs" "device b n = None" "\<forall>m \<in> set as. device b m \<noteq> None" by auto
    with False show ?thesis by (intro exI [of _ "k # as"] exI [of _ bs]) simp
  qed
qed simp

lemma devfn_alloc_loop_None: "devfn_alloc_loop b ns = None \<longleftrightarrow> (\<forall>n \<in> set ns. device b n \<noteq> None)"
  by (induction ns) simp_all

lemma devfn_alloc_first:
  assumes "k < 32" "device b (8 * k) = None" "\<forall>j<k. device b (8 * j) \<noteq> None"
  shows "devfn_alloc b = Some (8 * k)"
proof -
  have "devfn_alloc b \<noteq> None"
    unfolding devfn_alloc_def devfn_alloc_loop_None using assms(1,2) by (auto simp del: upt_Suc)
  then obtain n where n: "devfn_alloc b = Some n" by auto
  then obtain as bs where s: "map (\<lambda>i. 8 * i) [0..<32] = as @ n # bs" "device b n = None" "\<forall>m \<in> set as. device b m \<noteq> None"
    using devfn_alloc_loop_Some [of b "map (\<lambda>i. 8 * i) [0..<32]" n] unfolding devfn_alloc_def by blast
  let ?p = "length as"
  have len: "?p < 32" using arg_cong [OF s(1), of length] by (simp del: upt_Suc)
  have nth: "(as @ n # bs) ! q = 8 * q" if "q < 32" for q
    using that by (simp add: s(1) [symmetric] del: upt_Suc)
  have np: "n = 8 * ?p" using nth [OF len] by simp
  have "\<not> ?p < k" using assms(3) s(2) np by auto
  moreover have "\<not> k < ?p"
  proof
    assume "k < ?p"
    then have "as ! k = 8 * k" "as ! k \<in> set as"
      using nth [OF assms(1)] nth_mem [OF \<open>k < ?p\<close>] by (simp_all only: nth_append if_True)
    then show False using s(3) assms(2) by auto
  qed
  ultimately show ?thesis using n np by simp
qed

lemma pci_new_config_ok:
  "\<exists>c. pci_new_config vid did rv cls = Inr c \<and> length c = 256 \<and>
     get_le16 c 0 = Inr vid \<and> get_le16 c 2 = Inr did \<and> get_le16 c 0x0a = Inr cls \<and> c ! 0x0e = 0"
  by (simp add: pci_new_config_def put_le16_def get_le16_Inr bytes16)

lemma i440fx_init_ok: "\<exists>s. i440fx_init = Inr s \<and> bus_wf (pci_bus s) \<and> bus_num (pci_bus s) = 0"
proof -
  obtain c c' where c: "pci_new_config 0x8086 0x1237 0x02 0x0600 = Inr c" "length c = 256"
    "pci_new_config 0x8086 0x7000 0x00 0x0601 = Inr c'" "length c' = 256"
    using pci_new_config_ok by metis
  then show ?thesis
    by (simp add: i440fx_init_def pci_register_device_def update_device_def pci_device_set_config16_def
        pci_device_set_config8_def put_le16_def put_device_def bus_wf_def dev_wf_def)
qed

section \<open>Properties\<close>

text \<open>
  C9: No guest can make the configuration mechanism fault or forge a device's
  identity: every sequence of 8, 16 and 32-bit accesses to the address and data
  ports returns, keeps the set of devices, their region sizes and types, and
  leaves vendor and device ID, revision, class, header type and interrupt pin of
  every device unchanged.  The addresses of the regions and what is mapped are the
  guest's to change.
\<close>

theorem pci_guest_accesses:
  assumes "bus_wf (pci_bus s)" "\<forall>op \<in> set ops. access_ok op"
  shows "\<exists>s' x'. pci_run ops (s, x) = Inr (s', x') \<and> bus_keeps (pci_bus s) (pci_bus s')"
  using assms by (rule pci_run_ok)

theorem pci_guest_accesses_witness:
  "\<exists>(s :: unit I440FXState) s' x'. i440fx_init = Inr s \<and>
    pci_run [WriteAddr 0x80000000, WriteData 0 0xdeadbeef 2, ReadData 0 2] (s, ()) = Inr (s', x') \<and>
    bus_keeps (pci_bus s) (pci_bus s')"
proof -
  obtain s :: "unit I440FXState" where s: "i440fx_init = Inr s" "bus_wf (pci_bus s)"
    using i440fx_init_ok by blast
  then show ?thesis
    using pci_guest_accesses [of s "[WriteAddr 0x80000000, WriteData 0 0xdeadbeef 2, ReadData 0 2]" "()"]
    by auto
qed

text \<open>
  Programming a base address register: a 32-bit write through the ports to the
  register of the only region of a device reads back as the address with the bits
  below the region size cleared and the type bits in place, and the region is
  mapped at exactly that address when the command register enables memory,
  unmapped when it was mapped and memory is disabled.  Writing all ones therefore
  reveals the size.
\<close>

lemma bar_programming:
  assumes "bus_wf (pci_bus s)" "bus_num (pci_bus s) = 0" "n < 256" "device (pci_bus s) n = Some d"
    and "i < 6" "rsize (io_regions d i) \<noteq> 0" "\<forall>j<7. j \<noteq> i \<longrightarrow> inert d j"
    and "rtype (io_regions d i) AND 1 = 0"
    and "ucast (rtype (io_regions d i)) AND NOT (rsize (io_regions d i) - 1) = 0"
    and "get_le16 (config d) 4 = Inr cmd"
  shows "\<exists>s' x'. i440fx_write_data (i440fx_write_addr s (cfg_address n (0x10 + 4 * i))) x 0 v 2 = Inr (s', x') \<and>
    i440fx_read_data s' 0 2 = Inr ((v AND NOT (rsize (io_regions d i) - 1)) OR ucast (rtype (io_regions d i))) \<and>
    x' = (if cmd AND 2 \<noteq> 0 then bar_set (io_regions d i) x i (v AND NOT (rsize (io_regions d i) - 1)) True
          else if enabled (io_regions d i) then bar_set (io_regions d i) x i 0 False else x)"
proof -
  let ?a = "0x10 + 4 * i" and ?r = "io_regions d i"
  let ?w = "(v AND NOT (rsize ?r - 1)) OR ucast (rtype ?r)"
  have wf: "dev_wf d" using assms(1,4) by (simp add: bus_wf_def)
  have l: "?a + 3 < length (config d)" using wf assms(5) by (simp add: dev_wf_def)
  obtain c where c: "put_le32 (config d) ?a ?w = Inr c" using l by (simp add: put_le32_Inr)
  note fr = put_le32_frame [OF c l]
  let ?d = "d\<lparr>config := c\<rparr>"
  have wf': "dev_wf ?d" using fr(1) wf by (simp add: dev_wf_def)
  have "get_le16 c 4 = get_le16 (config d) 4"
    using fr wf by (simp add: get_le16_Inr dev_wf_def)
  then have m: "pci_update_mappings (?d, x) = pci_update_mapping cmd i (?d, x)"
    using assms(5,7,10) wf' by (intro single_region_mappings) (auto simp: inert_def)
  obtain d' x' where u: "pci_update_mapping cmd i (?d, x) = Inr (d', x')" "config d' = c"
    using pci_update_mapping_ok [OF wf', of i cmd x] assms(5) by auto
  have new: "get_le32 c ?a = Inr ?w" using get_put_le32 [OF l c] .
  have x': "x' = (if cmd AND 2 \<noteq> 0 then bar_set ?r x i (v AND NOT (rsize ?r - 1)) True
      else if enabled ?r then bar_set ?r x i 0 False else x)"
    using u(1) new assms(5,6,8) masked_or [OF assms(9), of v]
    by (auto simp: pci_update_mapping_def bar_offset_def mult.commute Let_def split: if_splits)
  have reg: "(?a - 0x10) div 4 = i" "?a \<noteq> 0x30" using assms(5) by simp_all
  have "pci_write_bar (d, x) ?a v = Inr (Some (d', x'))"
    using c m u(1) assms(5,6) unfolding pci_write_bar_def reg by (simp add: Let_def)
  then have w: "pci_device_config_write (d, x) ?a v 2 = Inr (d', x')"
    using assms(5) by (simp add: pci_device_config_write_def)
  have "?a < 256" "?a mod 4 = 0" using assms(5) by simp_all
  note f = cfg_address_fields [OF assms(3) this(1)] \<open>?a mod 4 = 0\<close>
  have wd: "pci_data_write (pci_bus s) x (cfg_address n ?a) v 2 = Inr (put_device (pci_bus s) n d', x')"
    using w assms(2,4) unfolding pci_data_write_def f(1-3) by simp
  let ?s' = "(i440fx_write_addr s (cfg_address n ?a))\<lparr>pci_bus := put_device (pci_bus s) n d'\<rparr>"
  have 1: "i440fx_write_data (i440fx_write_addr s (cfg_address n ?a)) x 0 v 2 = Inr (?s', x')"
    using wd f by (simp add: i440fx_write_data_def i440fx_write_addr_def)
  have "pci_data_read (put_device (pci_bus s) n d') (cfg_address n ?a) 2 = Inr ?w"
    unfolding pci_data_read_def f(1-3)
    using new u(2) assms(2) by (simp add: put_device_def pci_device_config_read_def)
  then have 2: "i440fx_read_data ?s' 0 2 = Inr ?w"
    using f by (simp add: i440fx_read_data_def i440fx_write_addr_def)
  show ?thesis using 1 2 x' by blast
qed


text \<open>
  Registering a device without a number takes the lowest free slot (a multiple
  of 8), changes no other device and yields a 256-byte configuration space with the
  given IDs and class; it is refused, with the bus unchanged, exactly when all 32
  slots are taken.
\<close>

lemma pci_register_first_free:
  "(if \<forall>k<32. device b (8 * k) \<noteq> None then pci_register_device b nm None vid did rv cls = Inr (None, b)
    else \<exists>k<32. \<exists>d. device b (8 * k) = None \<and> (\<forall>j<k. device b (8 * j) \<noteq> None) \<and>
      pci_register_device b nm None vid did rv cls = Inr (Some (8 * k), put_device b (8 * k) d) \<and>
      dev_wf d \<and> unat (devfn d) = 8 * k \<and> get_le16 (config d) 0 = Inr vid \<and> get_le16 (config d) 2 = Inr did \<and>
      get_le16 (config d) 0x0a = Inr cls)"
proof (cases "\<forall>k<32. device b (8 * k) \<noteq> None")
  case True
  then have "devfn_alloc b = None"
    unfolding devfn_alloc_def devfn_alloc_loop_None by (auto simp del: upt_Suc)
  with True show ?thesis by (simp add: pci_register_device_def)
next
  case False
  then have "\<exists>k. k < 32 \<and> device b (8 * k) = None" by auto
  then obtain k where k: "k < 32 \<and> device b (8 * k) = None"
    and "\<forall>j<k. \<not> (j < 32 \<and> device b (8 * j) = None)"
    using exists_least_iff [of "\<lambda>k. k < 32 \<and> device b (8 * k) = None"] by blast
  then have l: "\<forall>j<k. device b (8 * j) \<noteq> None" by (meson less_trans)
  have a: "devfn_alloc b = Some (8 * k)" using devfn_alloc_first k l by blast
  obtain c where c: "pci_new_config vid did rv cls = Inr c" "length c = 256"
     "get_le16 c 0 = Inr vid" "get_le16 c 2 = Inr did" "get_le16 c 0x0a = Inr cls"
    using pci_new_config_ok by blast
  let ?d = "\<lparr>devfn = of_nat (8 * k), config = c, next_cap_offset = 0x40, name = nm, io_regions = (\<lambda>_. no_region)\<rparr>"
  have "pci_register_device b nm None vid did rv cls = Inr (Some (8 * k), put_device b (8 * k) ?d)"
    using a c k by (simp add: pci_register_device_def)
  moreover have "unat (devfn ?d) = 8 * k" using k by (simp add: unat_of_nat del: of_nat_mult)
  ultimately show ?thesis
    unfolding if_not_P [OF False] using k l c
    by (intro exI [of _ k] conjI exI [of _ ?d]) (simp_all add: dev_wf_def)
qed


end
