(* ===== verification/DMA.thy ===== *)
theory DMA
  imports Prelude
begin

text \<open>
  The 8257 DMA controllers of \<open>source/winspire/i8257.c\<close>: four channels with their
  address, count, page and mode registers, the flip-flop, request and mask bits,
  the transfer loop with its re-entrance guard, and the memory accesses of a
  transfer.  The transfer handler of a channel is a function pointer; the model
  stores an identifier (\<open>None\<close> for \<open>i8257_phony_handler\<close>) and the routines take
  the handlers as an argument, which may change the controller itself, as a device
  does when it raises or drops its request from inside a transfer.  The guest's
  physical memory is a list of bytes, and an access outside the four channels is
  an \<open>OutOfBounds\<close> failure.
\<close>

section \<open>State\<close>

record I8257Regs =
  now_addr :: int
  now_count :: int
  base_addr :: u16
  base_count :: u16
  dmode :: u8
  page :: u8
  pageh :: u8
  transfer_handler :: "nat option"

record I8257State =
  dshift :: nat
  dstatus :: u8
  dcommand :: u8
  dmask :: u8
  flip_flop :: bool
  regs :: "nat \<Rightarrow> I8257Regs"
  dma_bh_scheduled :: bool
  running :: bool

type_synonym 'o handlers =
  "nat \<Rightarrow> nat \<Rightarrow> int \<Rightarrow> int \<Rightarrow> I8257State \<times> 'o \<Rightarrow> int \<times> I8257State \<times> 'o"

definition set_regs :: "nat \<Rightarrow> (I8257Regs \<Rightarrow> I8257Regs) \<Rightarrow> I8257State \<Rightarrow> I8257State" where
  "set_regs n f d = d\<lparr>regs := (regs d)(n := f (regs d n))\<rparr>"

section \<open>Page registers\<close>

text \<open>The table \<open>channels\<close>: the page port of each channel; \<open>None\<close> is -1.\<close>

definition page_channel :: "u32 \<Rightarrow> nat option" where
  "page_channel nport = [None, Some 2, Some 3, Some 1, None, None, None, Some 0] ! unat (nport AND 7)"

definition i8257_write_page :: "I8257State \<Rightarrow> u32 \<Rightarrow> u32 \<Rightarrow> I8257State" where
  "i8257_write_page d nport val =
     (case page_channel nport of None \<Rightarrow> d | Some ichan \<Rightarrow> set_regs ichan (\<lambda>r. r\<lparr>page := ucast val\<rparr>) d)"

definition i8257_write_pageh :: "I8257State \<Rightarrow> u32 \<Rightarrow> u32 \<Rightarrow> I8257State" where
  "i8257_write_pageh d nport val =
     (case page_channel nport of None \<Rightarrow> d | Some ichan \<Rightarrow> set_regs ichan (\<lambda>r. r\<lparr>pageh := ucast val\<rparr>) d)"

definition i8257_read_page :: "I8257State \<Rightarrow> u32 \<Rightarrow> u32" where
  "i8257_read_page d nport =
     (case page_channel nport of None \<Rightarrow> 0 | Some ichan \<Rightarrow> ucast (page (regs d ichan)))"

definition i8257_read_pageh :: "I8257State \<Rightarrow> u32 \<Rightarrow> u32" where
  "i8257_read_pageh d nport =
     (case page_channel nport of None \<Rightarrow> 0 | Some ichan \<Rightarrow> ucast (pageh (regs d ichan)))"

section \<open>Channel registers\<close>

definition i8257_init_chan :: "nat \<Rightarrow> I8257State \<Rightarrow> I8257State" where
  "i8257_init_chan ichan d =
     set_regs ichan (\<lambda>r. r\<lparr>now_addr := push_bit (dshift d) (uint (base_addr r)), now_count := 0\<rparr>) d"

definition i8257_getff :: "I8257State \<Rightarrow> bool \<times> I8257State" where
  "i8257_getff d = (flip_flop d, d\<lparr>flip_flop := \<not> flip_flop d\<rparr>)"

definition i8257_read_chan :: "I8257State \<Rightarrow> u32 \<Rightarrow> (u32 \<times> I8257State) result" where
  "i8257_read_chan d nport =
     (let iport = unat (drop_bit (dshift d) nport AND 0x0f); ichan = iport div 2; nreg = iport mod 2
      in if 4 \<le> ichan then Inl OutOfBounds
         else
           (let r = regs d ichan;
                dir = (if bit (dmode r) 5 then - 1 else 1);
                (ff, d') = i8257_getff d;
                val = (if nreg \<noteq> 0 then push_bit (dshift d) (uint (base_count r)) - now_count r
                       else now_addr r + now_count r * dir)
            in Inr (of_int (drop_bit (dshift d + (if ff then 8 else 0)) val AND 0xff), d')))"

definition i8257_write_chan :: "I8257State \<Rightarrow> u32 \<Rightarrow> u32 \<Rightarrow> I8257State result" where
  "i8257_write_chan d nport val =
     (let iport = unat (drop_bit (dshift d) nport AND 0x0f); ichan = iport div 2; nreg = iport mod 2
      in if 4 \<le> ichan then Inl OutOfBounds
         else
           (let (ff, d) = i8257_getff d;
                hi = (\<lambda>b :: u16. (b AND 0xff) OR (ucast (push_bit 8 val) AND 0xff00));
                lo = (\<lambda>b :: u16. (b AND 0xff00) OR (ucast val AND 0xff));
                upd = (if ff then hi else lo);
                d = set_regs ichan (\<lambda>r. if nreg = 0 then r\<lparr>base_addr := upd (base_addr r)\<rparr>
                                        else r\<lparr>base_count := upd (base_count r)\<rparr>) d
            in Inr (if ff then i8257_init_chan ichan d else d)))"

section \<open>Transfers\<close>

definition i8257_channel_run :: "'o handlers \<Rightarrow> nat \<Rightarrow> I8257State \<times> 'o \<Rightarrow> I8257State \<times> 'o" where
  "i8257_channel_run handler ichan = (\<lambda>(d, x).
     let r = regs d ichan; len = push_bit (dshift d) (uint (base_count r) + 1);
         (n, d, x) = (case transfer_handler r of
                        None \<Rightarrow> (now_count r, d, x)
                      | Some h \<Rightarrow> handler h (ichan + 4 * dshift d) (now_count r) len (d, x));
         d = set_regs ichan (\<lambda>r. r\<lparr>now_count := n\<rparr>) d
     in (if n = push_bit (dshift d) (uint (base_count (regs d ichan)) + 1)
         then d\<lparr>dstatus := dstatus d OR push_bit ichan 1\<rparr> else d, x))"

definition chan_active :: "I8257State \<Rightarrow> nat \<Rightarrow> bool" where
  "chan_active d ichan \<longleftrightarrow> dmask d AND push_bit ichan 1 = 0 \<and> dstatus d AND push_bit (ichan + 4) 1 \<noteq> 0"

fun dma_run_loop :: "'o handlers \<Rightarrow> nat list \<Rightarrow> bool \<Rightarrow> I8257State \<times> 'o \<Rightarrow> bool \<times> I8257State \<times> 'o" where
  "dma_run_loop handler [] rearm dx = (rearm, dx)"
| "dma_run_loop handler (i # is) rearm dx =
     (if chan_active (fst dx) i then dma_run_loop handler is True (i8257_channel_run handler i dx)
      else dma_run_loop handler is rearm dx)"

definition i8257_dma_run :: "'o handlers \<Rightarrow> I8257State \<times> 'o \<Rightarrow> I8257State \<times> 'o" where
  "i8257_dma_run handler = (\<lambda>(d, x).
     let (rearm, d, x) =
           (if running d then (True, d, x)
            else
              (let (rearm, d, x) = dma_run_loop handler [0, 1, 2, 3] False (d\<lparr>running := True\<rparr>, x)
               in (rearm, d\<lparr>running := False\<rparr>, x)))
     in (if rearm then d\<lparr>dma_bh_scheduled := True\<rparr> else d, x))"

definition CMD_NOT_SUPPORTED :: u32 where
  "CMD_NOT_SUPPORTED = 0x01 OR 0x02 OR 0x08 OR 0x10 OR 0x20 OR 0x40 OR 0x80"

definition i8257_write_cont ::
    "'o handlers \<Rightarrow> u32 \<Rightarrow> u32 \<Rightarrow> I8257State \<times> 'o \<Rightarrow> I8257State \<times> 'o" where
  "i8257_write_cont handler nport val = (\<lambda>(d, x).
     let iport = unat (drop_bit (dshift d) nport AND 0x0f); ichan = unat (val AND 3)
     in if iport = 0 then
          (if val \<noteq> 0 \<and> val AND CMD_NOT_SUPPORTED \<noteq> 0 then (d, x) else (d\<lparr>dcommand := ucast val\<rparr>, x))
        else if iport = 1 then
          (let st = (if val AND 4 \<noteq> 0 then dstatus d OR push_bit (ichan + 4) 1
                     else dstatus d AND NOT (push_bit (ichan + 4) 1))
           in i8257_dma_run handler (d\<lparr>dstatus := st AND NOT (push_bit ichan 1)\<rparr>, x))
        else if iport = 2 then
          i8257_dma_run handler
            (d\<lparr>dmask := (if val AND 4 \<noteq> 0 then dmask d OR push_bit ichan 1
                         else dmask d AND NOT (push_bit ichan 1))\<rparr>, x)
        else if iport = 3 then (set_regs ichan (\<lambda>r. r\<lparr>dmode := ucast val\<rparr>) d, x)
        else if iport = 4 then (d\<lparr>flip_flop := False\<rparr>, x)
        else if iport = 5 then (d\<lparr>flip_flop := False, dmask := NOT 0, dstatus := 0, dcommand := 0\<rparr>, x)
        else if iport = 6 then i8257_dma_run handler (d\<lparr>dmask := 0\<rparr>, x)
        else if iport = 7 then i8257_dma_run handler (d\<lparr>dmask := ucast val\<rparr>, x)
        else (d, x))"

definition i8257_read_cont :: "I8257State \<Rightarrow> u32 \<Rightarrow> u32 \<times> I8257State" where
  "i8257_read_cont d nport =
     (let iport = unat (drop_bit (dshift d) nport AND 0x0f)
      in if iport = 0 then (ucast (dstatus d), d\<lparr>dstatus := dstatus d AND 0xf0\<rparr>)
         else if iport = 1 then (ucast (dmask d), d)
         else (0, d))"

definition i8257_dma_hold_DREQ :: "'o handlers \<Rightarrow> nat \<Rightarrow> I8257State \<times> 'o \<Rightarrow> I8257State \<times> 'o" where
  "i8257_dma_hold_DREQ handler nchan = (\<lambda>(d, x).
     i8257_dma_run handler (d\<lparr>dstatus := dstatus d OR push_bit (nchan mod 4 + 4) 1\<rparr>, x))"

definition i8257_dma_release_DREQ :: "'o handlers \<Rightarrow> nat \<Rightarrow> I8257State \<times> 'o \<Rightarrow> I8257State \<times> 'o" where
  "i8257_dma_release_DREQ handler nchan = (\<lambda>(d, x).
     i8257_dma_run handler (d\<lparr>dstatus := dstatus d AND NOT (push_bit (nchan mod 4 + 4) 1)\<rparr>, x))"

definition i8257_dma_register_channel :: "nat \<Rightarrow> nat \<Rightarrow> I8257State \<Rightarrow> I8257State" where
  "i8257_dma_register_channel nchan h d = set_regs (nchan mod 4) (\<lambda>r. r\<lparr>transfer_handler := Some h\<rparr>) d"

section \<open>Memory of a transfer\<close>

definition i8257_is_verify_transfer :: "I8257Regs \<Rightarrow> bool" where
  "i8257_is_verify_transfer r \<longleftrightarrow> dmode r AND 0x0c = 0"

definition dma_addr :: "I8257Regs \<Rightarrow> u32" where
  "dma_addr r = push_bit 24 (ucast (pageh r AND 0x7f)) OR push_bit 16 (ucast (page r)) OR of_int (now_addr r)"

text \<open>
  The copy loops: from index \<open>i\<close> on, \<open>n\<close> bytes are left; the loop ends early at the
  first address outside the physical memory.
\<close>

fun copy_in :: "u8 list \<Rightarrow> u32 \<Rightarrow> nat \<Rightarrow> nat \<Rightarrow> u8 list \<Rightarrow> u8 list" where
  "copy_in mem start i 0 p = p"
| "copy_in mem start i (Suc n) p =
     (if unat (start + of_nat i) < length mem
      then copy_in mem start (i + 1) n (p[i := mem ! unat (start + of_nat i)]) else p)"

fun copy_out :: "u8 list \<Rightarrow> u32 \<Rightarrow> nat \<Rightarrow> nat \<Rightarrow> u8 list \<Rightarrow> u8 list" where
  "copy_out mem start i 0 p = mem"
| "copy_out mem start i (Suc n) p =
     (if unat (start + of_nat i) < length mem
      then copy_out (mem[unat (start + of_nat i) := p ! i]) start (i + 1) n p else mem)"

fun reverse_loop :: "nat list \<Rightarrow> nat \<Rightarrow> u8 list \<Rightarrow> u8 list" where
  "reverse_loop [] len p = p"
| "reverse_loop (i # is) len p = reverse_loop is len (p[i := p ! (len - i - 1)])"

definition i8257_dma_read_memory :: "I8257State \<Rightarrow> u8 list \<Rightarrow> nat \<Rightarrow> u8 list \<Rightarrow> u32 \<Rightarrow> nat \<Rightarrow> u8 list" where
  "i8257_dma_read_memory d mem nchan buf at len =
     (let r = regs d (nchan mod 4); addr = dma_addr r
      in if i8257_is_verify_transfer r then buf
         else if bit (dmode r) 5 then
           reverse_loop [0..<len div 2] len (copy_in mem (addr - at - of_nat len) 0 len buf)
         else copy_in mem (addr + at) 0 len buf)"

text \<open>The second component is the caller's buffer, which decrement mode overwrites.\<close>

definition i8257_dma_write_memory ::
    "I8257State \<Rightarrow> u8 list \<Rightarrow> nat \<Rightarrow> u8 list \<Rightarrow> u32 \<Rightarrow> nat \<Rightarrow> u8 list \<times> u8 list" where
  "i8257_dma_write_memory d mem nchan buf at len =
     (let r = regs d (nchan mod 4); addr = dma_addr r
      in if i8257_is_verify_transfer r then (mem, buf)
         else if bit (dmode r) 5 then
           (copy_out mem (addr - at - of_nat len) 0 len buf, reverse_loop [0..<len] len buf)
         else (copy_out mem (addr + at) 0 len buf, buf))"

definition i8257_new :: "nat \<Rightarrow> I8257State" where
  "i8257_new sh =
     \<lparr>dshift = sh, dstatus = 0, dcommand = 0, dmask = 0, flip_flop = False,
      regs = (\<lambda>_. \<lparr>now_addr = 0, now_count = 0, base_addr = 0, base_count = 0, dmode = 0, page = 0,
                   pageh = 0, transfer_handler = None\<rparr>),
      dma_bh_scheduled = False, running = False\<rparr>"

section \<open>Specification vocabulary\<close>

text \<open>What releasing its request does to a running controller, and the length of a channel's block.\<close>

definition drop_request :: "nat \<Rightarrow> I8257State \<Rightarrow> I8257State" where
  "drop_request i d =
     d\<lparr>dstatus := dstatus d AND NOT (push_bit (i + 4) 1), dma_bh_scheduled := True\<rparr>"

definition chan_len :: "I8257State \<Rightarrow> nat \<Rightarrow> int" where
  "chan_len d i = push_bit (dshift d) (uint (base_count (regs d i)) + 1)"

text \<open>Only channel \<open>k\<close> has a device, registered under \<open>h\<close>.\<close>

definition sole_device :: "nat \<Rightarrow> nat \<Rightarrow> I8257State \<Rightarrow> bool" where
  "sole_device k h d \<longleftrightarrow> k < 4 \<and> (\<forall>i<4. transfer_handler (regs d i) = (if i = k then Some h else None))"

text \<open>
  The channels in \<open>S\<close> have been served: the device of channel \<open>k\<close> reported position
  \<open>n\<close> and, if \<open>rel\<close>, released its request; the others have no device and stay where
  they are.
\<close>

definition served :: "nat \<Rightarrow> int \<Rightarrow> bool \<Rightarrow> nat set \<Rightarrow> I8257State \<Rightarrow> I8257State \<Rightarrow> bool" where
  "served k n rel S d d' \<longleftrightarrow>
     dshift d' = dshift d \<and> dmask d' = dmask d \<and> dcommand d' = dcommand d \<and> flip_flop d' = flip_flop d \<and>
     regs d' = (if k \<in> S \<and> chan_active d k then (regs d)(k := (regs d k)\<lparr>now_count := n\<rparr>) else regs d) \<and>
     (\<forall>i<4. bit (dstatus d') i \<longleftrightarrow>
        bit (dstatus d) i \<or> i \<in> S \<and> chan_active d i \<and> now_count (regs d' i) = chan_len d i) \<and>
     (\<forall>i<4. bit (dstatus d') (i + 4) \<longleftrightarrow>
        bit (dstatus d) (i + 4) \<and> \<not> (i = k \<and> k \<in> S \<and> chan_active d k \<and> rel))"

text \<open>The 16-bit register after its low and then its high byte.\<close>

definition two_bytes :: "u32 \<Rightarrow> u32 \<Rightarrow> u16" where
  "two_bytes lo hi = ucast lo OR push_bit 8 (ucast hi)"

section \<open>Lemmas\<close>

lemma set_regs_simps [simp]:
  "regs (set_regs n f d) i = (if i = n then f (regs d n) else regs d i)"
  "dshift (set_regs n f d) = dshift d" "dstatus (set_regs n f d) = dstatus d"
  "dmask (set_regs n f d) = dmask d" "dcommand (set_regs n f d) = dcommand d"
  "flip_flop (set_regs n f d) = flip_flop d" "running (set_regs n f d) = running d"
  "dma_bh_scheduled (set_regs n f d) = dma_bh_scheduled d"
  by (simp_all add: set_regs_def)

lemma chan_active_bit: "i < 4 \<Longrightarrow> chan_active d i \<longleftrightarrow> \<not> bit (dmask d) i \<and> bit (dstatus d) (i + 4)"
  by (simp add: chan_active_def and_exp_eq_0)

lemma drop_request_simps [simp]:
  "regs (drop_request i d) = regs d" "dshift (drop_request i d) = dshift d" "dmask (drop_request i d) = dmask d"
  "dcommand (drop_request i d) = dcommand d" "flip_flop (drop_request i d) = flip_flop d"
  "running (drop_request i d) = running d"
  "dstatus (drop_request i d) = dstatus d AND NOT (push_bit (i + 4) 1)" "dma_bh_scheduled (drop_request i d)"
  by (simp_all add: drop_request_def)

lemma release_running:
  "running d \<Longrightarrow> i8257_dma_release_DREQ handler c (d, x) = (drop_request (c mod 4) d, x)"
  by (simp add: i8257_dma_release_DREQ_def i8257_dma_run_def drop_request_def)

lemma bit_drop_request:
  "k < 4 \<Longrightarrow> i < 4 \<Longrightarrow> bit (dstatus (drop_request k d)) i = bit (dstatus d) i"
  "k < 4 \<Longrightarrow> i < 4 \<Longrightarrow> bit (dstatus (drop_request k d)) (i + 4) = (bit (dstatus d) (i + 4) \<and> i \<noteq> k)"
  by (auto simp: bit_simps)

lemma served_active: "served k n rel S d d' \<Longrightarrow> i < 4 \<Longrightarrow> i \<notin> S \<Longrightarrow> chan_active d' i = chan_active d i"
  by (auto simp: chan_active_bit served_def)

lemma served_empty: "served k n rel {} d d"
  by (simp add: served_def)

lemma served_none: "\<not> chan_active d i \<Longrightarrow> served k n rel {i} d d"
  by (auto simp: served_def)

lemma served_trans:
  assumes 1: "served k n rel S d d1" and 2: "served k n rel T d1 d2"
    and st: "S \<inter> T = {}" "S \<subseteq> {..<4}" "T \<subseteq> {..<4}"
  shows "served k n rel (S \<union> T) d d2"
proof -
  have act: "chan_active d1 i = chan_active d i" if "i \<in> T" for i
    using served_active [OF 1, of i] st that by auto
  have len: "chan_len d1 i = chan_len d i" for i
    using 1 by (auto simp: served_def chan_len_def)
  have r: "regs d2 = (if k \<in> S \<union> T \<and> chan_active d k
      then (regs d)(k := (regs d k)\<lparr>now_count := n\<rparr>) else regs d)"
    using 1 2 act [of k] by (auto simp: served_def)
  have same: "regs d2 i = regs d1 i" if "i \<in> S" for i
    using 2 st that by (auto simp: served_def)
  have "(bit (dstatus d2) i \<longleftrightarrow> bit (dstatus d) i \<or>
      i \<in> S \<union> T \<and> chan_active d i \<and> now_count (regs d2 i) = chan_len d i)" if "i < 4" for i
    using 1 2 that act [of i] len [of i] same [of i] st(1) unfolding served_def by auto
  moreover have "(bit (dstatus d2) (i + 4) \<longleftrightarrow> bit (dstatus d) (i + 4) \<and>
      \<not> (i = k \<and> k \<in> S \<union> T \<and> chan_active d k \<and> rel))" if "i < 4" for i
    using 1 2 that act [of k] unfolding served_def by auto
  moreover have "dshift d2 = dshift d \<and> dmask d2 = dmask d \<and> dcommand d2 = dcommand d \<and> flip_flop d2 = flip_flop d"
    using 1 2 by (simp add: served_def)
  ultimately show ?thesis
    using r unfolding served_def by blast
qed

section \<open>Devices\<close>

text \<open>
  What the controller relies on in the device of channel \<open>k\<close>: in the states \<open>ok\<close>
  the handler may release the request of its own channel, and no more of the
  controller than that; what it reports depends on the registers of its channel and
  on its own state.
\<close>

locale dma_device =
  fixes handler :: "'o handlers"
    and k :: nat
    and ok :: "'o \<Rightarrow> bool"
    and core :: "nat \<Rightarrow> int \<Rightarrow> int \<Rightarrow> I8257Regs \<Rightarrow> 'o \<Rightarrow> int \<times> bool \<times> 'o"
  assumes k: "k < 4"
    and law: "running d \<Longrightarrow> ok x \<Longrightarrow> c mod 4 = k \<Longrightarrow>
      handler h c pos len (d, x) =
        (case core c pos len (regs d k) x of
           (n, rel, x') \<Rightarrow> (n, if rel then drop_request k d else d, x'))"
begin

lemma channel_run_served:
  assumes "sole_device k h d" "running d" "i < 4" "chan_active d i"
    and c: "i = k \<Longrightarrow> ok x \<and>
      core (k + 4 * dshift d) (now_count (regs d k)) (chan_len d k) (regs d k) x = (n, rel, x1)"
    and "i8257_channel_run handler i (d, x) = (d', x')"
  shows "served k n rel {i} d d' \<and> running d' \<and>
    (dma_bh_scheduled d' \<longleftrightarrow> dma_bh_scheduled d \<or> i = k \<and> rel) \<and> x' = (if i = k then x1 else x)"
proof (cases "i = k")
  case True
  define e where "e = (if rel then drop_request k d else d)"
  have h: "handler h (k + 4 * dshift d) (now_count (regs d k)) (chan_len d k) (d, x) = (n, e, x1)"
    using law [OF assms(2), of x "k + 4 * dshift d"] k c True by (simp add: e_def)
  have e: "regs e = regs d" "dshift e = dshift d" "dmask e = dmask d" "dcommand e = dcommand d"
    "flip_flop e = flip_flop d" "running e" "dma_bh_scheduled e \<longleftrightarrow> dma_bh_scheduled d \<or> rel"
    "\<And>i. i < 4 \<Longrightarrow> bit (dstatus e) i = bit (dstatus d) i"
    "\<And>i. i < 4 \<Longrightarrow> bit (dstatus e) (i + 4) = (bit (dstatus d) (i + 4) \<and> \<not> (i = k \<and> rel))"
    using bit_drop_request [OF k] assms(2) by (auto simp: e_def)
  have th: "transfer_handler (regs d k) = Some h" using assms(1) k by (simp add: sole_device_def)
  have run: "d' = (let d2 = set_regs k (\<lambda>r. r\<lparr>now_count := n\<rparr>) e
      in if n = chan_len d k then d2\<lparr>dstatus := dstatus d2 OR push_bit k 1\<rparr> else d2)" "x' = x1"
    using assms(6) True th h by (simp_all add: i8257_channel_run_def Let_def chan_len_def e split: if_splits)
  have "regs d' = (regs d)(k := (regs d k)\<lparr>now_count := n\<rparr>)"
    by (rule ext) (simp add: run(1) Let_def e)
  then show ?thesis
    using True e assms(4) k by (auto simp: served_def run Let_def bit_or_exp)
next
  case False
  have th: "transfer_handler (regs d i) = None" using assms(1,3) False by (simp add: sole_device_def)
  have s: "set_regs i (\<lambda>r. r\<lparr>now_count := now_count (regs d i)\<rparr>) d = d"
    by (simp add: set_regs_def)
  have "d' = (if now_count (regs d i) = chan_len d i then d\<lparr>dstatus := dstatus d OR push_bit i 1\<rparr> else d)" "x' = x"
    using assms(6) th s by (auto simp: i8257_channel_run_def Let_def chan_len_def)
  then show ?thesis
    using False assms(2,3,4) by (auto simp: served_def bit_or_exp)
qed

lemma loop_served:
  assumes "distinct is" "set is \<subseteq> {..<4}" "sole_device k h d" "running d"
    and "k \<in> set is \<Longrightarrow> ok x \<and>
      core (k + 4 * dshift d) (now_count (regs d k)) (chan_len d k) (regs d k) x = (n, rel, x1)"
    and "dma_run_loop handler is r (d, x) = (r', d', x')"
  shows "served k n rel (set is) d d' \<and> running d' \<and>
    (dma_bh_scheduled d' \<longleftrightarrow> dma_bh_scheduled d \<or> k \<in> set is \<and> chan_active d k \<and> rel) \<and>
    (r' \<longleftrightarrow> r \<or> (\<exists>i \<in> set is. chan_active d i)) \<and> x' = (if k \<in> set is \<and> chan_active d k then x1 else x)"
  using assms
proof (induction "is" arbitrary: d x r)
  case Nil
  then show ?case by (simp add: served_empty)
next
  case (Cons i "is")
  obtain d1 y where 1: "(if chan_active d i then i8257_channel_run handler i (d, x) else (d, x)) = (d1, y)"
    by (metis surj_pair)
  have i: "i < 4" using Cons.prems(2) by simp
  have one: "served k n rel {i} d d1 \<and> running d1 \<and>
      (dma_bh_scheduled d1 \<longleftrightarrow> dma_bh_scheduled d \<or> i = k \<and> chan_active d k \<and> rel) \<and>
      y = (if i = k \<and> chan_active d k then x1 else x)"
  proof (cases "chan_active d i")
    case True
    then show ?thesis
      using channel_run_served [OF Cons.prems(3,4) i True, of x n rel x1 d1 y] Cons.prems(5) 1 by auto
  next
    case False
    then show ?thesis
      using 1 Cons.prems(4) served_none [OF False, of k n rel] by auto
  qed
  then have s1: "served k n rel {i} d d1" by simp
  have act: "chan_active d1 j = chan_active d j" if "j \<in> set is" for j
    using served_active [OF s1, of j] Cons.prems(1,2) that by auto
  have run: "dma_run_loop handler is (r \<or> chan_active d i) (d1, y) = (r', d', x')"
    using Cons.prems(6) 1 by (auto split: if_splits)
  have sole: "sole_device k h d1" using s1 Cons.prems(3) by (auto simp: served_def sole_device_def)
  have keep: "ok y \<and> core (k + 4 * dshift d1) (now_count (regs d1 k)) (chan_len d1 k) (regs d1 k) y = (n, rel, x1)"
    if "k \<in> set is"
  proof -
    have "i \<noteq> k" using Cons.prems(1) that by auto
    then have "regs d1 = regs d" "dshift d1 = dshift d" "y = x" using s1 one by (auto simp: served_def)
    then show ?thesis using Cons.prems(5) that by (simp add: chan_len_def)
  qed
  have ih: "served k n rel (set is) d1 d' \<and> running d' \<and>
      (dma_bh_scheduled d' \<longleftrightarrow> dma_bh_scheduled d1 \<or> k \<in> set is \<and> chan_active d1 k \<and> rel) \<and>
      (r' \<longleftrightarrow> (r \<or> chan_active d i) \<or> (\<exists>i \<in> set is. chan_active d1 i)) \<and>
      x' = (if k \<in> set is \<and> chan_active d1 k then x1 else y)"
    using Cons.IH [OF _ _ sole _ keep run] Cons.prems(1,2) one by auto
  have "served k n rel ({i} \<union> set is) d d'"
    by (rule served_trans [OF s1]) (use ih Cons.prems(1,2) in auto)
  then show ?case using ih one act Cons.prems(1) by auto
qed

text \<open>One run of a controller that is not in one serves its requests.\<close>

lemma run_serves:
  assumes "sole_device k h d" "\<not> running d" "ok x"
    and "core (k + 4 * dshift d) (now_count (regs d k)) (chan_len d k) (regs d k) x = (n, rel, x1)"
    and "i8257_dma_run handler (d, x) = (d', x')"
  shows "served k n rel {..<4} d d' \<and> \<not> running d' \<and>
    (dma_bh_scheduled d' \<longleftrightarrow> dma_bh_scheduled d \<or> (\<exists>i<4. chan_active d i)) \<and>
    x' = (if chan_active d k then x1 else x)"
proof -
  let ?d = "d\<lparr>running := True\<rparr>"
  have four: "{..<4} = set [0, 1, 2, 3 :: nat]" by (auto simp: eval_nat_numeral lessThan_Suc)
  obtain r d1 y where l: "dma_run_loop handler [0, 1, 2, 3] False (?d, x) = (r, d1, y)"
    by (metis surj_pair)
  have a: "chan_active ?d i = chan_active d i" "chan_len ?d i = chan_len d i" for i
    by (simp_all add: chan_active_def chan_len_def)
  have sole: "sole_device k h ?d" using assms(1) by (simp add: sole_device_def)
  have s: "served k n rel {..<4} ?d d1 \<and> running d1 \<and>
      (dma_bh_scheduled d1 \<longleftrightarrow> dma_bh_scheduled d \<or> chan_active d k \<and> rel) \<and>
      (r \<longleftrightarrow> (\<exists>i<4. chan_active d i)) \<and> y = (if chan_active d k then x1 else x)"
    using loop_served [OF _ _ sole _ _ l, of n rel x1] assms(3,4) k unfolding four [symmetric]
    by (simp add: a Bex_def)
  have d': "d' = (let d = d1\<lparr>running := False\<rparr> in if r then d\<lparr>dma_bh_scheduled := True\<rparr> else d)" "x' = y"
    using assms(2,5) l by (simp_all add: i8257_dma_run_def Let_def)
  have "served k n rel {..<4} d d'"
    using s by (simp add: d' Let_def served_def a)
  with s k show ?thesis by (auto simp: d' Let_def)
qed

end

lemma copy_in_spec:
  assumes "unat start + i + n \<le> length mem" "length mem \<le> 2 ^ 32" "i + n \<le> length p"
  shows "copy_in mem start i n p = take i p @ take n (drop (unat start + i) mem) @ drop (i + n) p"
  using assms
proof (induction n arbitrary: i p)
  case (Suc n)
  have "unat start + i < 2 ^ 32" using Suc.prems by simp
  then have u: "unat (start + of_nat i) = unat start + i"
    by (simp add: unat_word_ariths unat_of_nat)
  have lt: "unat start + i < length mem" "i < length p" using Suc.prems by simp_all
  let ?p = "p[i := mem ! (unat start + i)]"
  have "copy_in mem start i (Suc n) p = copy_in mem start (i + 1) n ?p" using u lt by simp
  also have "\<dots> = take (i + 1) ?p @ take n (drop (unat start + (i + 1)) mem) @ drop (i + 1 + n) ?p"
    using Suc.prems by (intro Suc.IH) simp_all
  also have "take (i + 1) ?p = take i p @ [mem ! (unat start + i)]"
    using lt by (simp add: take_Suc_conv_app_nth)
  also have "drop (i + 1 + n) ?p = drop (i + Suc n) p" by simp
  finally show ?case using lt by (simp add: Cons_nth_drop_Suc [symmetric])
qed simp

lemma copy_out_spec:
  assumes "unat start + i + n \<le> length mem" "length mem \<le> 2 ^ 32" "i + n \<le> length p"
  shows "copy_out mem start i n p =
    take (unat start + i) mem @ take n (drop i p) @ drop (unat start + i + n) mem"
  using assms
proof (induction n arbitrary: i mem)
  case (Suc n)
  have "unat start + i < 2 ^ 32" using Suc.prems by simp
  then have u: "unat (start + of_nat i) = unat start + i"
    by (simp add: unat_word_ariths unat_of_nat)
  have lt: "unat start + i < length mem" "i < length p" using Suc.prems by simp_all
  let ?m = "mem[unat start + i := p ! i]"
  have "copy_out mem start i (Suc n) p = copy_out ?m start (i + 1) n p" using u lt by simp
  also have "\<dots> = take (unat start + (i + 1)) ?m @ take n (drop (i + 1) p) @ drop (unat start + (i + 1) + n) ?m"
    using Suc.prems by (intro Suc.IH) simp_all
  also have "take (unat start + (i + 1)) ?m = take (unat start + i) mem @ [p ! i]"
    using lt by (simp add: take_Suc_conv_app_nth)
  finally show ?case using lt by (simp add: Cons_nth_drop_Suc [symmetric])
qed simp

lemma length_copy_out [simp]: "length (copy_out mem start i n p) = length mem"
  by (induction n arbitrary: mem i) simp_all

text \<open>The loop that is meant to reverse the buffer overwrites its first half with its second.\<close>

lemma reverse_loop_nth:
  assumes "length p = len" "m \<le> len div 2" "j < len"
  shows "reverse_loop [0..<m] len p ! j = (if j < m then p ! (len - 1 - j) else p ! j)"
proof -
  have gen: "reverse_loop [k..<m] len q ! j = (if k \<le> j \<and> j < m then q ! (len - 1 - j) else q ! j)"
    if "length q = len" "k \<le> m" for k q
    using that
  proof (induction "m - k" arbitrary: k q)
    case (Suc n)
    then have km: "k < m" by simp
    let ?q = "q[k := q ! (len - k - 1)]"
    have "reverse_loop [k..<m] len q = reverse_loop [Suc k..<m] len ?q" using km by (simp add: upt_conv_Cons)
    then have "reverse_loop [k..<m] len q ! j =
        (if Suc k \<le> j \<and> j < m then ?q ! (len - 1 - j) else ?q ! j)"
      using Suc km by simp
    moreover have "k \<noteq> len - 1 - j" if "j < m" using that assms km by auto
    ultimately show ?case using Suc.prems km assms by (auto simp: nth_list_update)
  qed auto
  show ?thesis using gen [OF assms(1), of 0] by simp
qed

lemma chan_port:
  assumes "i < 4" "sh \<le> 1" "nreg < 2"
  shows "unat (drop_bit sh (of_nat ((2 * i + nreg) * 2 ^ sh)) AND 0x0f :: u32) = 2 * i + nreg"
proof -
  have "i \<in> {0, 1, 2, 3}" "sh \<in> {0, 1}" "nreg \<in> {0, 1}" using assms by auto
  then show ?thesis by (elim insertE emptyE) simp_all
qed

lemma two_bytes_eq:
  assumes "lo < 0x100" "hi < 0x100"
  shows "(((b AND 0xff00) OR (ucast lo AND 0xff)) AND 0xff) OR (ucast (push_bit 8 hi) AND 0xff00) = two_bytes lo hi"
    and "of_int (uint (two_bytes lo hi) AND 0xff) = lo"
    and "of_int (drop_bit 8 (uint (two_bytes lo hi)) AND 0xff) = hi"
proof -
  have l: "bit lo n \<Longrightarrow> n < 8" "bit hi n \<Longrightarrow> n < 8" for n
  proof -
    have "take_bit 8 (unat lo) = unat lo" "take_bit 8 (unat hi) = unat hi"
      using assms by (simp_all add: take_bit_eq_mod word_less_nat_alt)
    then have "take_bit 8 lo = lo" "take_bit 8 hi = hi"
      by (simp_all only: word_unat_eq_iff unsigned_take_bit_eq)
    then show "bit lo n \<Longrightarrow> n < 8" "bit hi n \<Longrightarrow> n < 8" by (metis bit_take_bit_iff)+
  qed
  have m: "(0xff :: u16) = mask 8" "(0xff00 :: u16) = push_bit 8 (mask 8)" "(0xff :: int) = mask 8"
    by (simp_all add: mask_eq_exp_minus_1)
  show "(((b AND 0xff00) OR (ucast lo AND 0xff)) AND 0xff) OR (ucast (push_bit 8 hi) AND 0xff00) = two_bytes lo hi"
    unfolding two_bytes_def m
    by (rule bit_word_eqI) (auto simp: bit_simps dest: l)
  show "of_int (uint (two_bytes lo hi) AND 0xff) = lo"
    unfolding two_bytes_def m
    by (rule bit_word_eqI) (auto simp: bit_simps dest: l)
  show "of_int (drop_bit 8 (uint (two_bytes lo hi)) AND 0xff) = hi"
    unfolding two_bytes_def m
    by (rule bit_word_eqI) (auto simp: bit_simps dest: l)
qed

lemma drop_push_int [simp]: "drop_bit n (push_bit n (x :: int)) = x"
  by (simp add: drop_bit_eq_div push_bit_eq_mult)

section \<open>Properties\<close>

text \<open>
  Programming a channel address: on either controller, with the flip-flop clear,
  writing the low and the high byte to the address port of a channel loads the
  address (shifted for the 16-bit controller), resets the position, touches no other
  channel, and two reads of the port return the two bytes.
\<close>

lemma dma_address_roundtrip:
  assumes "i < 4" "dshift d \<le> 1" "\<not> flip_flop d" "lo < 0x100" "hi < 0x100"
  shows "\<exists>d1 d2 d3 d4. let port = of_nat (2 * i * 2 ^ dshift d) in
    i8257_write_chan d port lo = Inr d1 \<and> i8257_write_chan d1 port hi = Inr d2 \<and>
    now_addr (regs d2 i) = push_bit (dshift d) (uint (two_bytes lo hi)) \<and> now_count (regs d2 i) = 0 \<and>
    (\<forall>j. j \<noteq> i \<longrightarrow> regs d2 j = regs d j) \<and>
    i8257_read_chan d2 port = Inr (lo, d3) \<and> i8257_read_chan d3 port = Inr (hi, d4) \<and> \<not> flip_flop d4"
proof -
  let ?sh = "dshift d" and ?r = "regs d i"
  define port :: u32 where "port = of_nat (2 * i * 2 ^ dshift d)"
  have p: "unat (drop_bit ?sh port AND 0x0f) = 2 * i"
    using chan_port [OF assms(1,2), of 0] by (simp add: port_def)
  let ?b1 = "(base_addr ?r AND 0xff00) OR (ucast lo AND 0xff)"
  let ?w = "two_bytes lo hi"
  let ?d1 = "(set_regs i (\<lambda>r. r\<lparr>base_addr := ?b1\<rparr>) d)\<lparr>flip_flop := True\<rparr>"
  have 1: "i8257_write_chan d port lo = Inr ?d1"
    using assms(1,3) p by (simp add: i8257_write_chan_def i8257_getff_def Let_def set_regs_def fun_eq_iff)
  have "(?b1 AND 0xff) OR (ucast (push_bit 8 hi) AND 0xff00) = ?w" using two_bytes_eq(1) [OF assms(4,5)] .
  then obtain d2 where 2: "i8257_write_chan ?d1 port hi = Inr d2" and
    d2: "regs d2 i = ?r\<lparr>base_addr := ?w, now_addr := push_bit ?sh (uint ?w), now_count := 0\<rparr>"
      "\<forall>j. j \<noteq> i \<longrightarrow> regs d2 j = regs d j" "\<not> flip_flop d2" "dshift d2 = ?sh"
    using assms(1) p by (simp add: i8257_write_chan_def i8257_getff_def i8257_init_chan_def Let_def)
  have 3: "i8257_read_chan d2 port = Inr (lo, d2\<lparr>flip_flop := True\<rparr>)"
    using assms(1) p d2 two_bytes_eq(2) [OF assms(4,5)]
    by (simp add: i8257_read_chan_def i8257_getff_def Let_def)
  have "drop_bit (?sh + 8) (push_bit ?sh (uint ?w)) = drop_bit 8 (drop_bit ?sh (push_bit ?sh (uint ?w)))"
    by (simp only: drop_bit_drop_bit add.commute)
  then have "drop_bit (?sh + 8) (push_bit ?sh (uint ?w)) = drop_bit 8 (uint ?w)" by simp
  then have 4: "i8257_read_chan (d2\<lparr>flip_flop := True\<rparr>) port = Inr (hi, d2\<lparr>flip_flop := False\<rparr>)"
    using assms(1) p d2 two_bytes_eq(3) [OF assms(4,5)]
    by (simp add: i8257_read_chan_def i8257_getff_def Let_def)
  show ?thesis
    unfolding port_def [symmetric] Let_def
    by (rule exI [of _ ?d1], rule exI [of _ d2], rule exI [of _ "d2\<lparr>flip_flop := True\<rparr>"],
        rule exI [of _ "d2\<lparr>flip_flop := False\<rparr>"]) (use 1 2 d2 3 4 in simp)
qed


text \<open>
  A transfer in increment mode inside the physical memory moves exactly its
  block: what a device writes at a position of a channel is what a device reads back
  there, and no other byte of the memory changes.
\<close>

lemma dma_memory_roundtrip:
  assumes "\<not> i8257_is_verify_transfer (regs d (ch mod 4))" "\<not> bit (dmode (regs d (ch mod 4))) 5"
    and "unat (dma_addr (regs d (ch mod 4)) + at) + len \<le> length mem" "length mem \<le> 2 ^ 32"
    and "length buf = len" "length buf' = len"
  shows "let start = unat (dma_addr (regs d (ch mod 4)) + at); mem' = fst (i8257_dma_write_memory d mem ch buf at len) in
    i8257_dma_read_memory d mem' ch buf' at len = buf \<and> length mem' = length mem \<and>
    (\<forall>j. j < start \<or> start + len \<le> j \<longrightarrow> mem' ! j = mem ! j)"
proof -
  let ?a = "dma_addr (regs d (ch mod 4)) + at"
  let ?m = "copy_out mem ?a 0 len buf"
  have m: "?m = take (unat ?a) mem @ buf @ drop (unat ?a + len) mem"
    using copy_out_spec [of ?a 0 len mem buf] assms(3-5) by simp
  have "copy_in ?m ?a 0 len buf' = take len (drop (unat ?a) ?m)"
    using copy_in_spec [of ?a 0 len ?m buf'] assms(3,4,6) by simp
  also have "\<dots> = buf" using assms(3,5) by (simp add: m)
  finally have "copy_in ?m ?a 0 len buf' = buf" .
  moreover have "?m ! j = mem ! j" if "j < unat ?a \<or> unat ?a + len \<le> j" for j
    using that assms(3,5) by (auto simp: m nth_append)
  ultimately show ?thesis
    using assms(1,2) by (simp add: i8257_dma_write_memory_def i8257_dma_read_memory_def Let_def)
qed


text \<open>
  In decrement mode the loop that is meant to reverse the buffer does not: it
  copies the second half of the block over the first, so that what the device
  receives reads the same in both directions and the lower half of the block is
  lost.
\<close>

lemma dma_decrement_mirrors:
  assumes "bit (dmode (regs d (ch mod 4))) 5" "\<not> i8257_is_verify_transfer (regs d (ch mod 4))"
    and "unat (dma_addr (regs d (ch mod 4)) - at - of_nat len) + len \<le> length mem" "length mem \<le> 2 ^ 32"
    and "length buf = len" "j < len"
  shows "i8257_dma_read_memory d mem ch buf at len ! j =
    mem ! (unat (dma_addr (regs d (ch mod 4)) - at - of_nat len) + max j (len - 1 - j))"
proof -
  let ?a = "dma_addr (regs d (ch mod 4)) - at - of_nat len"
  have c: "copy_in mem ?a 0 len buf = take len (drop (unat ?a) mem)"
    using copy_in_spec [of ?a 0 len mem buf] assms(3-5) by simp
  have "i8257_dma_read_memory d mem ch buf at len = reverse_loop [0..<len div 2] len (take len (drop (unat ?a) mem))"
    using assms(1,2) by (simp add: i8257_dma_read_memory_def Let_def c)
  moreover have "length (take len (drop (unat ?a) mem)) = len" using assms(3) by simp
  moreover have "max j (len - 1 - j) = (if j < len div 2 then len - 1 - j else j)"
    unfolding max_def using assms(6) by presburger
  ultimately show ?thesis
    using reverse_loop_nth [of "take len (drop (unat ?a) mem)" len "len div 2" j] assms(3,6)
    by (auto split: if_splits)
qed


end
