(* ===== verification/PS2.thy ===== *)
theory PS2
  imports Interrupts
begin

text \<open>
  The PS/2 keyboard and mouse of \<open>source/winspire/i8042.c\<close> (second half of the
  file): the 256-byte ring buffer \<open>PS2Queue\<close>, the keyboard with its delayed
  second byte for extended keys, and the mouse with its packets and its
  IntelliMouse detection.  The callback \<open>update_irq(update_arg, level)\<close> is the
  argument \<open>upd\<close>, and \<open>u\<close> the state it changes.  C \<open>int\<close> values (deltas,
  key codes, the byte argument of \<open>ps2_queue\<close>) are of type \<open>int\<close> and do not wrap:
  the accumulated deltas \<open>mouse_dx\<close>, \<open>mouse_dy\<close> and \<open>mouse_dz\<close> stay exact where the
  C \<open>int\<close> would overflow after \<open>2 ^ 31\<close> counts without a packet.  A byte is
  truncated to \<open>u8\<close> when it is stored.  The build is the one without
  \<open>THREAD_SAFE\<close>.
\<close>

section \<open>State\<close>

abbreviation (input) "PS2_QUEUE_SIZE \<equiv> 256 :: nat"

record PS2Queue =
  data :: "u8 list"
  rptr :: nat
  wptr :: nat
  count :: nat

record PS2State =
  queue :: PS2Queue
  write_cmd :: int

record PS2KbdState =
  common :: PS2State
  scan_enabled :: bool
  translate :: bool
  delay :: bool
  delay_time :: u32
  delay_keycode :: int

record PS2MouseState =
  mcommon :: PS2State
  mouse_status :: u8
  mouse_resolution :: u8
  mouse_sample_rate :: u8
  mouse_wrap :: bool
  mouse_type :: u8
  mouse_detect_state :: u8
  mouse_dx :: int
  mouse_dy :: int
  mouse_dz :: int
  mouse_buttons :: u8

section \<open>The queue\<close>

text \<open>The part of \<open>ps2_queue\<close> and of \<open>ps2_read_data\<close> that works on the ring buffer.\<close>

definition queue_put :: "PS2Queue \<Rightarrow> int \<Rightarrow> PS2Queue" where
  "queue_put q b =
     (if count q \<ge> PS2_QUEUE_SIZE then q
      else q\<lparr>data := (data q)[wptr q := of_int b],
             wptr := (if wptr q + 1 = PS2_QUEUE_SIZE then 0 else wptr q + 1),
             count := count q + 1\<rparr>)"

definition queue_get :: "PS2Queue \<Rightarrow> u8 \<times> PS2Queue" where
  "queue_get q =
     (if count q = 0 then
        (let index = int (rptr q) - 1;
             index = (if index < 0 then int PS2_QUEUE_SIZE - 1 else index)
         in (data q ! nat index, q))
      else
        (data q ! rptr q,
         q\<lparr>rptr := (if rptr q + 1 = PS2_QUEUE_SIZE then 0 else rptr q + 1),
           count := count q - 1\<rparr>))"

definition ps2_queue :: "('u \<Rightarrow> bool \<Rightarrow> 'u) \<Rightarrow> int \<Rightarrow> PS2State \<times> 'u \<Rightarrow> PS2State \<times> 'u" where
  "ps2_queue upd b = (\<lambda>(s, u).
     if count (queue s) \<ge> PS2_QUEUE_SIZE then (s, u)
     else (s\<lparr>queue := queue_put (queue s) b\<rparr>, upd u True))"

definition ps2_read_data :: "('u \<Rightarrow> bool \<Rightarrow> 'u) \<Rightarrow> PS2State \<times> 'u \<Rightarrow> u8 \<times> PS2State \<times> 'u" where
  "ps2_read_data upd = (\<lambda>(s, u).
     let (val, q) = queue_get (queue s)
     in if count (queue s) = 0 then (val, s, u)
        else (val, s\<lparr>queue := q\<rparr>, upd (upd u False) (count q \<noteq> 0)))"

text \<open>Several bytes one after the other.\<close>

definition ps2_queues :: "('u \<Rightarrow> bool \<Rightarrow> 'u) \<Rightarrow> int list \<Rightarrow> PS2State \<times> 'u \<Rightarrow> PS2State \<times> 'u" where
  "ps2_queues upd bs = fold (ps2_queue upd) bs"

definition ps2_reset :: "PS2State \<Rightarrow> PS2State" where
  "ps2_reset s = s\<lparr>write_cmd := -1, queue := (queue s)\<lparr>rptr := 0, wptr := 0, count := 0\<rparr>\<rparr>"

section \<open>The keyboard\<close>

text \<open>\<open>kbd_queues\<close> and \<open>mouse_queues\<close> are calls of \<open>ps2_queue(&s->common, b)\<close>.\<close>

definition kbd_queues ::
    "('u \<Rightarrow> bool \<Rightarrow> 'u) \<Rightarrow> int list \<Rightarrow> PS2KbdState \<times> 'u \<Rightarrow> PS2KbdState \<times> 'u" where
  "kbd_queues upd bs = (\<lambda>(s, u).
     let (c, u) = ps2_queues upd bs (common s, u) in (s\<lparr>common := c\<rparr>, u))"

definition linux_input_to_keycode_set1 :: "int list" where
  "linux_input_to_keycode_set1 =
    [0x1c, 0x1d, 0x35, 0x00, 0x38, 0x00, 0x47, 0x48,
     0x49, 0x4b, 0x4d, 0x4f, 0x50, 0x51, 0x52, 0x53,
     0x00, 0x00, 0x00, 0x00, 0x00, 0x00, 0x00, 0x00,
     0x00, 0x00, 0x00, 0x00, 0x00, 0x5b, 0x5c, 0x5d]"

definition after_eq :: "u32 \<Rightarrow> u32 \<Rightarrow> bool" where
  "after_eq a b \<longleftrightarrow> a - b < push_bit 31 1"

definition ps2_put_keycode ::
    "('u \<Rightarrow> bool \<Rightarrow> 'u) \<Rightarrow> bool \<Rightarrow> int \<Rightarrow> u32 \<Rightarrow> PS2KbdState \<times> 'u \<Rightarrow> PS2KbdState \<times> 'u" where
  "ps2_put_keycode upd down keycode now = (\<lambda>(s, u).
     let (s, u) = (if delay s then kbd_queues upd [delay_keycode s] (s\<lparr>delay := False\<rparr>, u) else (s, u))
     in if keycode \<ge> 0xe000 then
          (let (s, u) = kbd_queues upd [drop_bit 8 keycode] (s, u)
           in (s\<lparr>delay := True, delay_time := now + 10000,
                 delay_keycode := (keycode AND 0xff) OR push_bit 7 (of_bool (\<not> down))\<rparr>, u))
        else if keycode \<ge> 96 then
          (if keycode > 127 then (s, u)
           else
             (let keycode = linux_input_to_keycode_set1 ! nat (keycode - 96)
              in if keycode = 0 then (s, u)
                 else
                   (let (s, u) = kbd_queues upd [0xe0] (s, u)
                    in (s\<lparr>delay := True, delay_time := now + 1000,
                          delay_keycode := keycode OR push_bit 7 (of_bool (\<not> down))\<rparr>, u))))
        else kbd_queues upd [keycode OR push_bit 7 (of_bool (\<not> down))] (s, u))"

text \<open>The keyboard part of \<open>kbd_step\<close>, called from the main loop.\<close>

definition kbd_step :: "('u \<Rightarrow> bool \<Rightarrow> 'u) \<Rightarrow> u32 \<Rightarrow> PS2KbdState \<times> 'u \<Rightarrow> PS2KbdState \<times> 'u" where
  "kbd_step upd now = (\<lambda>(s, u).
     if delay s \<and> after_eq now (delay_time s)
     then kbd_queues upd [delay_keycode s] (s\<lparr>delay := False\<rparr>, u) else (s, u))"

definition ps2_reset_keyboard :: "PS2KbdState \<Rightarrow> PS2KbdState" where
  "ps2_reset_keyboard s = s\<lparr>scan_enabled := True\<rparr>"

abbreviation (input) "KBD_REPLY_ACK \<equiv> 0xFA :: int"
abbreviation (input) "KBD_REPLY_RESEND \<equiv> 0xFE :: int"
abbreviation (input) "KBD_REPLY_POR \<equiv> 0xAA :: int"

definition set_kbd_cmd :: "int \<Rightarrow> PS2KbdState \<Rightarrow> PS2KbdState" where
  "set_kbd_cmd c s = s\<lparr>common := (common s)\<lparr>write_cmd := c\<rparr>\<rparr>"

definition ps2_write_keyboard ::
    "('u \<Rightarrow> bool \<Rightarrow> 'u) \<Rightarrow> int \<Rightarrow> PS2KbdState \<times> 'u \<Rightarrow> PS2KbdState \<times> 'u" where
  "ps2_write_keyboard upd val = (\<lambda>(s, u).
     if write_cmd (common s) = 0xED \<or> write_cmd (common s) = 0xF3 then
       (let (s, u) = kbd_queues upd [KBD_REPLY_ACK] (s, u) in (set_kbd_cmd (-1) s, u))
     else if val = 0x00 then kbd_queues upd [KBD_REPLY_ACK] (s, u)
     else if val = 0x05 then kbd_queues upd [KBD_REPLY_RESEND] (s, u)
     else if val = 0xF2 then kbd_queues upd [KBD_REPLY_ACK, 0xab, 0x83] (s, u)
     else if val = 0xEE then kbd_queues upd [0xEE] (s, u)
     else if val = 0xF4 then kbd_queues upd [KBD_REPLY_ACK] (s\<lparr>scan_enabled := True\<rparr>, u)
     else if val = 0xED \<or> val = 0xF3 then kbd_queues upd [KBD_REPLY_ACK] (set_kbd_cmd val s, u)
     else if val = 0xF5 then
       kbd_queues upd [KBD_REPLY_ACK] ((ps2_reset_keyboard s)\<lparr>scan_enabled := False\<rparr>, u)
     else if val = 0xF6 then
       kbd_queues upd [KBD_REPLY_ACK] ((ps2_reset_keyboard s)\<lparr>scan_enabled := True\<rparr>, u)
     else if val = 0xFF then
       kbd_queues upd [KBD_REPLY_ACK, KBD_REPLY_POR] (ps2_reset_keyboard s, u)
     else kbd_queues upd [KBD_REPLY_ACK] (s, u))"

definition ps2_keyboard_set_translation :: "bool \<Rightarrow> PS2KbdState \<Rightarrow> PS2KbdState" where
  "ps2_keyboard_set_translation m s = s\<lparr>translate := m\<rparr>"

definition ps2_zero :: PS2State where
  "ps2_zero = \<lparr>queue = \<lparr>data = replicate PS2_QUEUE_SIZE 0, rptr = 0, wptr = 0, count = 0\<rparr>, write_cmd = 0\<rparr>"

definition ps2_kbd_init :: PS2KbdState where
  "ps2_kbd_init = \<lparr>common = ps2_reset ps2_zero, scan_enabled = False, translate = False,
     delay = False, delay_time = 0, delay_keycode = 0\<rparr>"

section \<open>The mouse\<close>

definition mouse_queues ::
    "('u \<Rightarrow> bool \<Rightarrow> 'u) \<Rightarrow> int list \<Rightarrow> PS2MouseState \<times> 'u \<Rightarrow> PS2MouseState \<times> 'u" where
  "mouse_queues upd bs = (\<lambda>(s, u).
     let (c, u) = ps2_queues upd bs (mcommon s, u) in (s\<lparr>mcommon := c\<rparr>, u))"

definition clamp :: "int \<Rightarrow> int \<Rightarrow> int" where
  "clamp m x = (if x > m then m else if x < - m then - m else x)"

text \<open>
  The bytes of one packet: the deltas \<open>dx1\<close>, \<open>dy1\<close>, \<open>dz1\<close> of the C code are
  \<open>clamp 127 dx\<close>, \<open>clamp 127 dy\<close> and \<open>packet_dz\<close>.
\<close>

definition packet_dz :: "PS2MouseState \<Rightarrow> int" where
  "packet_dz s =
     (if mouse_type s = 3 then clamp 127 (mouse_dz s)
      else if mouse_type s = 4 then clamp 7 (mouse_dz s) else mouse_dz s)"

definition packet_bytes :: "PS2MouseState \<Rightarrow> int list" where
  "packet_bytes s =
     (let dx1 = clamp 127 (mouse_dx s); dy1 = clamp 127 (mouse_dy s); dz1 = packet_dz s;
          b = 0x08 OR push_bit 4 (of_bool (dx1 < 0)) OR push_bit 5 (of_bool (dy1 < 0)) OR
              (uint (mouse_buttons s) AND 0x07)
      in [b, dx1 AND 0xff, dy1 AND 0xff] @
         (if mouse_type s = 3 then [dz1 AND 0xff]
          else if mouse_type s = 4 then
            [(dz1 AND 0x0f) OR push_bit 1 (uint (mouse_buttons s) AND 0x18)]
          else []))"

definition ps2_mouse_send_packet ::
    "('u \<Rightarrow> bool \<Rightarrow> 'u) \<Rightarrow> PS2MouseState \<times> 'u \<Rightarrow> PS2MouseState \<times> 'u" where
  "ps2_mouse_send_packet upd = (\<lambda>(s, u).
     let (s', u) = mouse_queues upd (packet_bytes s) (s, u)
     in (s'\<lparr>mouse_dx := mouse_dx s - clamp 127 (mouse_dx s),
            mouse_dy := mouse_dy s - clamp 127 (mouse_dy s),
            mouse_dz := mouse_dz s - packet_dz s\<rparr>, u))"

definition at_rest :: "PS2MouseState \<Rightarrow> bool" where
  "at_rest s \<longleftrightarrow> mouse_dx s = 0 \<and> mouse_dy s = 0 \<and> mouse_dz s = 0"

definition motion :: "PS2MouseState \<Rightarrow> nat" where
  "motion s = nat (abs (mouse_dx s) + abs (mouse_dy s) + abs (mouse_dz s))"

lemma send_packet_deltas:
  assumes "ps2_mouse_send_packet upd (s, u) = (s', u')"
  shows "mouse_dx s' = mouse_dx s - clamp 127 (mouse_dx s)"
    and "mouse_dy s' = mouse_dy s - clamp 127 (mouse_dy s)"
    and "mouse_dz s' = mouse_dz s - packet_dz s"
  using assms by (auto simp: ps2_mouse_send_packet_def split: prod.splits)

lemma clamp_abs: "0 < m \<Longrightarrow> abs (x - clamp m x) \<le> abs x" "0 < m \<Longrightarrow> x \<noteq> 0 \<Longrightarrow> abs (x - clamp m x) < abs x"
  by (auto simp: clamp_def)

lemma packet_dz_abs:
  "abs (mouse_dz s - packet_dz s) \<le> abs (mouse_dz s)"
  "mouse_dz s \<noteq> 0 \<Longrightarrow> abs (mouse_dz s - packet_dz s) < abs (mouse_dz s)"
  by (auto simp: packet_dz_def clamp_abs)

lemma send_packet_motion:
  assumes "ps2_mouse_send_packet upd (s, u) = (s', u')" "\<not> at_rest s'"
  shows "motion s' < motion s"
proof -
  note d = send_packet_deltas [OF assms(1)]
  have "mouse_dx s \<noteq> 0 \<or> mouse_dy s \<noteq> 0 \<or> mouse_dz s \<noteq> 0"
    using assms(2) by (auto simp: at_rest_def d clamp_def packet_dz_def split: if_splits)
  moreover have "abs (mouse_dx s') \<le> abs (mouse_dx s)" "abs (mouse_dy s') \<le> abs (mouse_dy s)"
    "abs (mouse_dz s') \<le> abs (mouse_dz s)"
    by (simp_all add: d clamp_abs packet_dz_abs)
  moreover have "mouse_dx s \<noteq> 0 \<Longrightarrow> abs (mouse_dx s') < abs (mouse_dx s)"
    "mouse_dy s \<noteq> 0 \<Longrightarrow> abs (mouse_dy s') < abs (mouse_dy s)"
    "mouse_dz s \<noteq> 0 \<Longrightarrow> abs (mouse_dz s') < abs (mouse_dz s)"
    by (simp_all add: d clamp_abs packet_dz_abs)
  ultimately have "abs (mouse_dx s') + abs (mouse_dy s') + abs (mouse_dz s') <
      abs (mouse_dx s) + abs (mouse_dy s) + abs (mouse_dz s)"
    by linarith
  then show ?thesis by (simp add: motion_def)
qed

text \<open>The \<open>for (;;)\<close> loop of \<open>ps2_mouse_event\<close>; every round strictly shortens what is left to report.\<close>

function mouse_send_loop ::
    "('u \<Rightarrow> bool \<Rightarrow> 'u) \<Rightarrow> PS2MouseState \<Rightarrow> 'u \<Rightarrow> PS2MouseState \<times> 'u" where
  "mouse_send_loop upd s u =
     (let (s', u') = ps2_mouse_send_packet upd (s, u)
      in if at_rest s' then (s', u') else mouse_send_loop upd s' u')"
  by pat_completeness auto
termination
proof (relation "measure (\<lambda>(upd, s, u). motion s)")
  fix upd and s :: PS2MouseState and u :: 'u and x s' u'
  assume "x = ps2_mouse_send_packet upd (s, u)" "(s', u') = x" "\<not> at_rest s'"
  then have "motion s' < motion s" using send_packet_motion [of upd s u s' u'] by simp
  then show "((upd, s', u'), upd, s, u) \<in> measure (\<lambda>(upd, s, u). motion s)" by simp
qed simp

definition ps2_mouse_event ::
    "('u \<Rightarrow> bool \<Rightarrow> 'u) \<Rightarrow> int \<Rightarrow> int \<Rightarrow> int \<Rightarrow> int \<Rightarrow> PS2MouseState \<times> 'u \<Rightarrow> PS2MouseState \<times> 'u" where
  "ps2_mouse_event upd dx dy dz buttons_state = (\<lambda>(s, u).
     if mouse_status s AND 0x20 = 0 then (s, u)
     else
       (let s = s\<lparr>mouse_dx := mouse_dx s + dx, mouse_dy := mouse_dy s - dy, mouse_dz := mouse_dz s + dz\<rparr>
        in if at_rest s \<and> uint (mouse_buttons s) = buttons_state then (s, u)
           else
             (let s = s\<lparr>mouse_buttons := of_int buttons_state\<rparr>
              in if mouse_status s AND 0x40 = 0 \<and> count (queue (mcommon s)) < PS2_QUEUE_SIZE - 16
                 then mouse_send_loop upd s u else (s, u))))"

abbreviation (input) "AUX_ACK \<equiv> 0xFA :: int"

definition set_mouse_cmd :: "int \<Rightarrow> PS2MouseState \<Rightarrow> PS2MouseState" where
  "set_mouse_cmd c s = s\<lparr>mcommon := (mcommon s)\<lparr>write_cmd := c\<rparr>\<rparr>"

definition mouse_detect :: "int \<Rightarrow> PS2MouseState \<Rightarrow> PS2MouseState" where
  "mouse_detect val s =
     (if mouse_detect_state s = 1 then
        s\<lparr>mouse_detect_state := (if val = 100 then 2 else if val = 200 then 3 else 0)\<rparr>
      else if mouse_detect_state s = 2 then
        (if val = 80 then s\<lparr>mouse_type := 3\<rparr> else s)\<lparr>mouse_detect_state := 0\<rparr>
      else if mouse_detect_state s = 3 then
        (if val = 80 then s\<lparr>mouse_type := 4\<rparr> else s)\<lparr>mouse_detect_state := 0\<rparr>
      else if val = 200 then s\<lparr>mouse_detect_state := 1\<rparr> else s)"

definition mouse_command ::
    "('u \<Rightarrow> bool \<Rightarrow> 'u) \<Rightarrow> int \<Rightarrow> PS2MouseState \<times> 'u \<Rightarrow> PS2MouseState \<times> 'u" where
  "mouse_command upd val = (\<lambda>(s, u).
     if val = 0xE6 then mouse_queues upd [AUX_ACK] (s\<lparr>mouse_status := mouse_status s AND NOT 0x10\<rparr>, u)
     else if val = 0xE7 then mouse_queues upd [AUX_ACK] (s\<lparr>mouse_status := mouse_status s OR 0x10\<rparr>, u)
     else if val = 0xEA then mouse_queues upd [AUX_ACK] (s\<lparr>mouse_status := mouse_status s AND NOT 0x40\<rparr>, u)
     else if val = 0xEE then mouse_queues upd [AUX_ACK] (s\<lparr>mouse_wrap := True\<rparr>, u)
     else if val = 0xF0 then mouse_queues upd [AUX_ACK] (s\<lparr>mouse_status := mouse_status s OR 0x40\<rparr>, u)
     else if val = 0xF2 then mouse_queues upd [AUX_ACK, uint (mouse_type s)] (s, u)
     else if val = 0xE8 \<or> val = 0xF3 then mouse_queues upd [AUX_ACK] (set_mouse_cmd val s, u)
     else if val = 0xE9 then
       mouse_queues upd [AUX_ACK, uint (mouse_status s), uint (mouse_resolution s),
         uint (mouse_sample_rate s)] (s, u)
     else if val = 0xEB then ps2_mouse_send_packet upd (mouse_queues upd [AUX_ACK] (s, u))
     else if val = 0xF4 then mouse_queues upd [AUX_ACK] (s\<lparr>mouse_status := mouse_status s OR 0x20\<rparr>, u)
     else if val = 0xF5 then mouse_queues upd [AUX_ACK] (s\<lparr>mouse_status := mouse_status s AND NOT 0x20\<rparr>, u)
     else if val = 0xF6 then
       mouse_queues upd [AUX_ACK]
         (s\<lparr>mouse_sample_rate := 100, mouse_resolution := 2, mouse_status := 0\<rparr>, u)
     else if val = 0xFF then
       mouse_queues upd [AUX_ACK, 0xaa, 0]
         (s\<lparr>mouse_sample_rate := 100, mouse_resolution := 2, mouse_status := 0, mouse_type := 0\<rparr>, u)
     else (s, u))"

definition ps2_write_mouse ::
    "('u \<Rightarrow> bool \<Rightarrow> 'u) \<Rightarrow> int \<Rightarrow> PS2MouseState \<times> 'u \<Rightarrow> PS2MouseState \<times> 'u" where
  "ps2_write_mouse upd val = (\<lambda>(s, u).
     if write_cmd (mcommon s) = 0xF3 then
       (let s = mouse_detect val (s\<lparr>mouse_sample_rate := of_int val\<rparr>);
            (s, u) = mouse_queues upd [AUX_ACK] (s, u)
        in (set_mouse_cmd (-1) s, u))
     else if write_cmd (mcommon s) = 0xE8 then
       (let (s, u) = mouse_queues upd [AUX_ACK] (s\<lparr>mouse_resolution := of_int val\<rparr>, u)
        in (set_mouse_cmd (-1) s, u))
     else if mouse_wrap s \<and> val = 0xEC then mouse_queues upd [AUX_ACK] (s\<lparr>mouse_wrap := False\<rparr>, u)
     else if mouse_wrap s \<and> val \<noteq> 0xFF then mouse_queues upd [val] (s, u)
     else mouse_command upd val (s, u))"

definition ps2_mouse_init :: PS2MouseState where
  "ps2_mouse_init = \<lparr>mcommon = ps2_reset ps2_zero, mouse_status = 0, mouse_resolution = 0,
     mouse_sample_rate = 0, mouse_wrap = False, mouse_type = 0, mouse_detect_state = 0,
     mouse_dx = 0, mouse_dy = 0, mouse_dz = 0, mouse_buttons = 0\<rparr>"

section \<open>Specification vocabulary\<close>

definition queue_ok :: "PS2Queue \<Rightarrow> bool" where
  "queue_ok q \<longleftrightarrow> length (data q) = 256 \<and> rptr q < 256 \<and> count q \<le> 256 \<and>
     wptr q = (rptr q + count q) mod 256"

definition contents :: "PS2Queue \<Rightarrow> u8 list" where
  "contents q = map (\<lambda>i. data q ! ((rptr q + i) mod 256)) [0..<count q]"

text \<open>The byte that a read of the empty queue returns again.\<close>

definition replay :: "PS2Queue \<Rightarrow> u8" where
  "replay q = data q ! ((rptr q + 255) mod 256)"

datatype 'b fifo_op = Put 'b | Get

fun run_queue :: "('q \<Rightarrow> 'b \<Rightarrow> 'q) \<Rightarrow> ('q \<Rightarrow> 'c \<times> 'q) \<Rightarrow> 'b fifo_op list \<Rightarrow> 'q \<Rightarrow> 'c list \<times> 'q" where
  "run_queue put get [] q = ([], q)"
| "run_queue put get (Put b # ops) q = run_queue put get ops (put q b)"
| "run_queue put get (Get # ops) q =
     (let (c, q) = get q; (cs, q) = run_queue put get ops q in (c # cs, q))"

text \<open>The abstract FIFO: its contents and the byte read last.\<close>

fun run_fifo :: "('b \<Rightarrow> 'c) \<Rightarrow> nat \<Rightarrow> 'b fifo_op list \<Rightarrow> 'c list \<Rightarrow> 'c \<Rightarrow> 'c list \<times> 'c list" where
  "run_fifo enc cap [] xs l = ([], xs)"
| "run_fifo enc cap (Put b # ops) xs l =
     run_fifo enc cap ops (if length xs < cap then xs @ [enc b] else xs) l"
| "run_fifo enc cap (Get # ops) [] l = (let (cs, ys) = run_fifo enc cap ops [] l in (l # cs, ys))"
| "run_fifo enc cap (Get # ops) (x # xs) l = (let (cs, ys) = run_fifo enc cap ops xs x in (x # cs, ys))"

definition byte_room :: "PS2State \<Rightarrow> nat \<Rightarrow> bool" where
  "byte_room s n \<longleftrightarrow> queue_ok (queue s) \<and> count (queue s) + n \<le> 256"

text \<open>What has been typed: the queued bytes and the second byte still held back.\<close>

definition typed :: "PS2KbdState \<Rightarrow> u8 list" where
  "typed s = contents (queue (common s)) @ (if delay s then [of_int (delay_keycode s)] else [])"

definition scancodes :: "bool \<Rightarrow> int \<Rightarrow> int list" where
  "scancodes down keycode =
     (let brk = (if down then 0 else 0x80)
      in if keycode \<ge> 0xe000 then [drop_bit 8 keycode, (keycode AND 0xff) OR brk]
         else if keycode < 96 then [keycode OR brk]
         else if keycode \<le> 127 \<and> linux_input_to_keycode_set1 ! nat (keycode - 96) \<noteq> 0
         then [0xe0, linux_input_to_keycode_set1 ! nat (keycode - 96) OR brk]
         else [])"

datatype key_event = Key bool int u32 | Tick u32

fun key_run :: "('u \<Rightarrow> bool \<Rightarrow> 'u) \<Rightarrow> key_event list \<Rightarrow> PS2KbdState \<times> 'u \<Rightarrow> PS2KbdState \<times> 'u" where
  "key_run upd [] su = su"
| "key_run upd (Key down k now # es) su = key_run upd es (ps2_put_keycode upd down k now su)"
| "key_run upd (Tick now # es) su = key_run upd es (kbd_step upd now su)"

fun key_bytes :: "key_event list \<Rightarrow> int list" where
  "key_bytes [] = []"
| "key_bytes (Key down k now # es) = scancodes down k @ key_bytes es"
| "key_bytes (Tick now # es) = key_bytes es"

text \<open>How a driver reads a packet: the movement in the two's complement bytes.\<close>

definition packet_len :: "u8 \<Rightarrow> nat" where
  "packet_len ty = (if ty = 3 \<or> ty = 4 then 4 else 3)"

definition packet_x :: "u8 list \<Rightarrow> int" where
  "packet_x p = sint (p ! 1)"

definition packet_y :: "u8 list \<Rightarrow> int" where
  "packet_y p = sint (p ! 2)"

definition packet_z :: "u8 list \<Rightarrow> int" where
  "packet_z p = sint (p ! 3)"

text \<open>The movement fits into \<open>k\<close> packets.\<close>

definition mouse_span :: "PS2MouseState \<Rightarrow> nat \<Rightarrow> bool" where
  "mouse_span s k \<longleftrightarrow> abs (mouse_dx s) \<le> 127 * int k \<and> abs (mouse_dy s) \<le> 127 * int k \<and>
     (mouse_type s = 3 \<longrightarrow> abs (mouse_dz s) \<le> 127 * int k) \<and>
     (mouse_type s = 4 \<longrightarrow> abs (mouse_dz s) \<le> 7 * int k)"

definition mouse_idle :: "PS2MouseState \<Rightarrow> bool" where
  "mouse_idle s \<longleftrightarrow> write_cmd (mcommon s) = -1 \<and> \<not> mouse_wrap s"

text \<open>The driver sets a sample rate: the command byte and its argument.\<close>

definition set_rate :: "('u \<Rightarrow> bool \<Rightarrow> 'u) \<Rightarrow> int \<Rightarrow> PS2MouseState \<times> 'u \<Rightarrow> PS2MouseState \<times> 'u" where
  "set_rate upd r su = ps2_write_mouse upd r (ps2_write_mouse upd 0xF3 su)"

section \<open>The queue interface\<close>

locale byte_fifo =
  fixes put :: "'q \<Rightarrow> 'b \<Rightarrow> 'q" and get :: "'q \<Rightarrow> 'c \<times> 'q"
    and inv :: "'q \<Rightarrow> bool" and abs :: "'q \<Rightarrow> 'c list" and last_read :: "'q \<Rightarrow> 'c"
    and enc :: "'b \<Rightarrow> 'c" and cap :: nat
  assumes inv_put: "inv q \<Longrightarrow> inv (put q b)"
    and abs_put: "inv q \<Longrightarrow> abs (put q b) = (if length (abs q) < cap then abs q @ [enc b] else abs q)"
    and get_empty: "inv q \<Longrightarrow> abs q = [] \<Longrightarrow> get q = (last_read q, q)"
    and get_cons: "inv q \<Longrightarrow> abs q = x # xs \<Longrightarrow>
      \<exists>q'. get q = (x, q') \<and> inv q' \<and> abs q' = xs \<and> (xs = [] \<longrightarrow> last_read q' = x)"
    and cap_pos: "0 < cap"
begin

lemma put_length: "inv q \<Longrightarrow> length (abs q) \<le> cap \<Longrightarrow> length (abs (put q b)) \<le> cap"
  by (simp add: abs_put)

lemma inv_puts: "inv q \<Longrightarrow> inv (fold (\<lambda>b q. put q b) bs q)"
  by (induction bs arbitrary: q) (simp_all add: inv_put)

lemma abs_puts:
  "inv q \<Longrightarrow> abs (fold (\<lambda>b q. put q b) bs q) = abs q @ map enc (take (cap - length (abs q)) bs)"
  by (induction bs arbitrary: q) (auto simp: inv_put abs_put take_Cons' Suc_diff_Suc not_less)

lemma run_refines:
  assumes "inv q" "abs q = [] \<Longrightarrow> l = last_read q"
  shows "fst (run_queue put get ops q) = fst (run_fifo enc cap ops (abs q) l) \<and>
    abs (snd (run_queue put get ops q)) = snd (run_fifo enc cap ops (abs q) l)"
  using assms
proof (induction ops arbitrary: q l)
  case (Cons op ops)
  show ?case
  proof (cases op)
    case (Put b)
    have "abs (put q b) \<noteq> []" using Cons.prems(1) cap_pos by (auto simp: abs_put)
    then show ?thesis using Cons.IH [of "put q b" l] Cons.prems Put by (simp add: inv_put abs_put)
  next
    case Get
    show ?thesis
    proof (cases "abs q")
      case Nil
      then show ?thesis using Get Cons.IH [of q l] Cons.prems
        by (auto simp: get_empty split: prod.splits)
    next
      case (Cons x xs)
      then obtain q' where "get q = (x, q')" "inv q'" "abs q' = xs" "xs = [] \<longrightarrow> last_read q' = x"
        using get_cons Cons.prems(1) by blast
      then show ?thesis using Get Cons Cons.IH [of q' x] by (auto split: prod.splits)
    qed
  qed
qed simp

end

section \<open>The ring buffer\<close>

lemma length_contents [simp]: "length (contents q) = count q"
  by (simp add: contents_def)

lemma contents_eq_Nil [simp]: "contents q = [] \<longleftrightarrow> count q = 0"
  by (simp add: contents_def)

lemma mod_256_inj:
  fixes r i j :: nat
  assumes "(r + i) mod 256 = (r + j) mod 256" "i < j" "j < 256"
  shows "False"
proof -
  have "256 dvd (r + j) - (r + i)"
    using assms(1,2) mod_eq_dvd_iff_nat [of "r + i" "r + j" 256] by simp
  then show ?thesis using assms(2,3) by (auto dest: dvd_imp_le)
qed

lemma queue_put_ok: "queue_ok q \<Longrightarrow> queue_ok (queue_put q b)"
  by (auto simp: queue_ok_def queue_put_def mod_Suc)

lemma contents_put:
  assumes "queue_ok q" "count q < 256"
  shows "contents (queue_put q b) = contents q @ [of_int b]"
proof -
  have "(rptr q + count q) mod 256 \<noteq> (rptr q + i) mod 256" if "i < count q" for i
    using that assms(2) mod_256_inj [of "rptr q" i "count q"] by auto
  with assms show ?thesis by (auto simp: contents_def queue_put_def queue_ok_def)
qed

lemma queue_get_empty: "queue_ok q \<Longrightarrow> count q = 0 \<Longrightarrow> queue_get q = (replay q, q)"
  by (cases "rptr q") (auto simp: queue_get_def replay_def queue_ok_def Let_def nat_diff_distrib)

lemma queue_get_cons:
  assumes "queue_ok q" "contents q = x # xs"
  shows "\<exists>q'. queue_get q = (x, q') \<and> queue_ok q' \<and> contents q' = xs \<and> (xs = [] \<longrightarrow> replay q' = x)"
proof -
  define q' where "q' = snd (queue_get q)"
  have c: "count q = Suc (length xs)" using assms(2) by (metis length_contents length_Cons)
  have r: "rptr q < 256" using assms(1) by (simp add: queue_ok_def)
  then have "(if rptr q + 1 = 256 then 0 else rptr q + 1) = (rptr q + 1) mod 256" by simp
  then have q': "q' = q\<lparr>rptr := (rptr q + 1) mod 256, count := length xs\<rparr>"
    using c by (simp add: q'_def queue_get_def)
  have x: "x = data q ! rptr q" and xs: "xs = map (\<lambda>i. data q ! ((rptr q + i) mod 256)) [1..<count q]"
    using assms(2) c r unfolding contents_def by (simp_all add: upt_conv_Cons del: upt_Suc)
  have g: "queue_get q = (x, q')" using c by (simp add: q'_def x queue_get_def)
  have ok: "queue_ok q'" using assms(1) c by (simp add: q' queue_ok_def mod_add_left_eq)
  have "contents q' = map (\<lambda>i. data q ! ((rptr q + i) mod 256)) [1..<count q]"
    using c unfolding contents_def q'
    by (intro nth_equalityI) (simp_all add: mod_add_left_eq del: upt_Suc)
  with xs have "contents q' = xs" by simp
  moreover have "replay q' = x"
  proof -
    have "((rptr q + 1) mod 256 + 255) mod 256 = rptr q"
      using r by (simp only: mod_add_left_eq) simp
    then show ?thesis by (simp add: replay_def q' x)
  qed
  ultimately show ?thesis using g ok by blast
qed

interpretation ps2_fifo: byte_fifo "\<lambda>q b. ps2_queue upd b q" "ps2_read_data upd"
    "\<lambda>(s, u). queue_ok (queue s)" "\<lambda>(s, u). contents (queue s)" "\<lambda>(s, u). replay (queue s)"
    "of_int :: int \<Rightarrow> u8" 256
  for upd :: "'u \<Rightarrow> bool \<Rightarrow> 'u"
proof (unfold_locales, goal_cases)
  case (1 q b)
  then show ?case by (auto simp: ps2_queue_def queue_put_ok split: prod.splits)
next
  case (2 q b)
  then show ?case by (auto simp: ps2_queue_def contents_put queue_ok_def split: prod.splits)
next
  case (3 q)
  then show ?case by (auto simp: ps2_read_data_def queue_get_empty split: prod.splits)
next
  case (4 q x xs)
  then obtain s u where q: "q = (s, u)" "queue_ok (queue s)" "contents (queue s) = x # xs" by (cases q) auto
  moreover have "count (queue s) \<noteq> 0" using q(3) contents_eq_Nil [of "queue s"] by simp
  ultimately show ?case using queue_get_cons [of "queue s" x xs] by (auto simp: ps2_read_data_def)
qed simp

section \<open>Keyboard bytes\<close>

lemma ps2_queues_frame:
  "ps2_queues upd bs (s, u) = (s', u') \<Longrightarrow> write_cmd s' = write_cmd s"
proof (induction bs arbitrary: s u)
  case (Cons b bs)
  then show ?case
    by (cases "ps2_queue upd b (s, u)") (auto simp: ps2_queues_def ps2_queue_def split: if_splits)
qed (simp add: ps2_queues_def)

lemma ps2_queues_contents:
  assumes "byte_room s (length bs)" "ps2_queues upd bs (s, u) = (s', u')"
  shows "queue_ok (queue s')" and "contents (queue s') = contents (queue s) @ map of_int bs"
proof -
  have ok: "queue_ok (queue s)" using assms(1) by (simp add: byte_room_def)
  show "queue_ok (queue s')"
    using ps2_fifo.inv_puts [of "(s, u)" upd bs] ok assms(2) by (simp add: ps2_queues_def)
  have "take (256 - count (queue s)) bs = bs" using assms(1) by (auto simp: byte_room_def)
  then show "contents (queue s') = contents (queue s) @ map of_int bs"
    using ps2_fifo.abs_puts [of "(s, u)" upd bs] ok assms(2) by (simp add: ps2_queues_def)
qed

lemma ps2_queues_ok:
  assumes "queue_ok (queue s)" "ps2_queues upd bs (s, u) = (s', u')"
  shows "queue_ok (queue s')"
  using ps2_fifo.inv_puts [of "(s, u)" upd bs] assms by (simp add: ps2_queues_def)

lemma kbd_queues_typed:
  assumes "byte_room (common s) (length bs)" "kbd_queues upd bs (s, u) = (s', u')"
  shows "queue_ok (queue (common s'))"
    and "contents (queue (common s')) = contents (queue (common s)) @ map of_int bs"
    and "delay s' = delay s" "delay_keycode s' = delay_keycode s"
  using assms(2) ps2_queues_contents [OF assms(1), of upd u]
  by (auto simp: kbd_queues_def Let_def split: prod.splits)

lemma length_scancodes: "length (scancodes down k) \<le> 2"
  by (simp add: scancodes_def Let_def)

lemma brk_eq: "push_bit 7 (of_bool (\<not> down)) = (if down then 0 else 0x80 :: int)"
  by simp

lemma flush_typed:
  assumes "queue_ok (queue (common s))" "length (typed s) \<le> 256"
    and "(if delay s then kbd_queues upd [delay_keycode s] (s\<lparr>delay := False\<rparr>, u) else (s, u)) = (s', u')"
  shows "queue_ok (queue (common s')) \<and> contents (queue (common s')) = typed s \<and> \<not> delay s'"
proof (cases "delay s")
  case True
  then have "byte_room (common (s\<lparr>delay := False\<rparr>)) 1"
    using assms(1,2) by (simp add: byte_room_def typed_def)
  with True assms(3) kbd_queues_typed [of "s\<lparr>delay := False\<rparr>" "[delay_keycode s]" upd u s' u']
  show ?thesis by (simp add: typed_def)
next
  case False
  with assms show ?thesis by (auto simp: typed_def)
qed

lemma put_keycode_typed:
  assumes "queue_ok (queue (common s))" "length (typed s) + length (scancodes down k) \<le> 256"
    and "ps2_put_keycode upd down k now (s, u) = (s', u')"
  shows "queue_ok (queue (common s')) \<and> typed s' = typed s @ map of_int (scancodes down k)"
proof -
  obtain s1 u1 where 1: "(if delay s then kbd_queues upd [delay_keycode s] (s\<lparr>delay := False\<rparr>, u)
      else (s, u)) = (s1, u1)" by (metis surj_pair)
  have s1: "queue_ok (queue (common s1))" "contents (queue (common s1)) = typed s" "\<not> delay s1"
    using flush_typed [OF assms(1) _ 1] assms(2) by simp_all
  have room: "byte_room (common s1) (Suc 0)" if "scancodes down k \<noteq> []"
    using that assms(2) s1(1) length_contents [of "queue (common s1)"] s1(2)
    by (cases "scancodes down k") (auto simp: byte_room_def)
  let ?code = "linux_input_to_keycode_set1 ! nat (k - 96)"
  note run = assms(3) [unfolded ps2_put_keycode_def case_prod_conv Let_def 1 brk_eq]
  consider (ext) "0xe000 \<le> k" | (plain) "k < 96" | (table) "\<not> 0xe000 \<le> k" "96 \<le> k" "\<not> 127 < k" "?code \<noteq> 0"
    | (none) "\<not> 0xe000 \<le> k" "96 \<le> k" "127 < k \<or> ?code = 0" by linarith
  then show ?thesis
  proof cases
    case ext
    obtain sa ua where a: "kbd_queues upd [drop_bit 8 k] (s1, u1) = (sa, ua)" by (metis surj_pair)
    from ext room have "byte_room (common s1) (length [drop_bit 8 k])" by (simp add: scancodes_def Let_def)
    note kbd_queues_typed [OF this a]
    with run ext a s1(2) show ?thesis by (auto simp: typed_def [of s'] scancodes_def Let_def)
  next
    case plain
    let ?b = "[k OR (if down then 0 else 0x80)]"
    from plain run have r: "kbd_queues upd ?b (s1, u1) = (s', u')" by simp
    from plain room have "byte_room (common s1) (length ?b)" by (simp add: scancodes_def Let_def)
    note kbd_queues_typed [OF this r]
    with plain s1 show ?thesis by (simp add: typed_def [of s'] scancodes_def Let_def)
  next
    case table
    obtain sa ua where a: "kbd_queues upd [0xe0] (s1, u1) = (sa, ua)" by (metis surj_pair)
    from table room have "byte_room (common s1) (length [0xe0 :: int])" by (simp add: scancodes_def Let_def)
    note kbd_queues_typed [OF this a]
    with run table a s1(2) show ?thesis by (auto simp: typed_def [of s'] scancodes_def Let_def)
  next
    case none
    with run have "s' = s1" by (auto split: if_splits)
    with none s1 show ?thesis by (auto simp: typed_def [of s1] scancodes_def Let_def)
  qed
qed

lemma kbd_step_typed:
  assumes "queue_ok (queue (common s))" "length (typed s) \<le> 256" "kbd_step upd now (s, u) = (s', u')"
  shows "queue_ok (queue (common s')) \<and> typed s' = typed s"
proof (cases "delay s \<and> after_eq now (delay_time s)")
  case True
  with assms flush_typed [OF assms(1,2), of upd u s' u'] show ?thesis
    by (simp add: kbd_step_def typed_def)
next
  case False
  then have "kbd_step upd now (s, u) = (s, u)" by (simp only: kbd_step_def case_prod_conv if_False)
  with assms show ?thesis by simp
qed

section \<open>Mouse packets and detection\<close>

lemma sint_byte:
  assumes "- 128 \<le> x" "x < 128"
  shows "sint (of_int (x AND 0xff) :: u8) = x"
proof -
  have "x AND 0xff = take_bit 8 x" by (simp add: take_bit_eq_mask mask_eq_exp_minus_1)
  then have "(of_int (x AND 0xff) :: u8) = of_int x" by (simp add: word_of_int_eq_iff)
  then show ?thesis using assms by (simp add: signed_of_int signed_take_bit_int_eq_self)
qed

lemma clamp_byte: "- 128 \<le> clamp 127 x" "clamp 127 x < 128"
  by (simp_all add: clamp_def)

lemma length_packet_bytes: "length (packet_bytes s) = packet_len (mouse_type s)"
  by (simp add: packet_bytes_def packet_len_def Let_def)

lemma packet_bytes_move:
  "packet_x (map of_int (packet_bytes s)) = clamp 127 (mouse_dx s)"
  "packet_y (map of_int (packet_bytes s)) = clamp 127 (mouse_dy s)"
  "mouse_type s = 3 \<Longrightarrow> packet_z (map of_int (packet_bytes s)) = clamp 127 (mouse_dz s)"
  by (simp_all add: packet_x_def packet_y_def packet_z_def packet_bytes_def packet_dz_def Let_def sint_byte clamp_byte)

lemma send_packet_step:
  assumes "byte_room (mcommon s) (packet_len (mouse_type s))"
    and "ps2_mouse_send_packet upd (s, u) = (s', u')"
  shows "queue_ok (queue (mcommon s'))" "mouse_type s' = mouse_type s"
    and "contents (queue (mcommon s')) = contents (queue (mcommon s)) @ map of_int (packet_bytes s)"
proof -
  obtain c u1 where q: "ps2_queues upd (packet_bytes s) (mcommon s, u) = (c, u1)" by (metis surj_pair)
  have "byte_room (mcommon s) (length (packet_bytes s))" using assms(1) by (simp add: length_packet_bytes)
  note ps2_queues_contents [OF this q]
  then show "queue_ok (queue (mcommon s'))" "mouse_type s' = mouse_type s"
    "contents (queue (mcommon s')) = contents (queue (mcommon s)) @ map of_int (packet_bytes s)"
    using assms(2) q by (auto simp: ps2_mouse_send_packet_def mouse_queues_def)
qed

lemma clamp_span: "0 < m \<Longrightarrow> abs x \<le> m * (1 + int k) \<Longrightarrow> abs (x - clamp m x) \<le> m * int k"
  by (auto simp: clamp_def algebra_simps)

lemma send_packet_span:
  assumes "mouse_span s (Suc k)" "ps2_mouse_send_packet upd (s, u) = (s', u')"
    and "mouse_type s' = mouse_type s"
  shows "mouse_span s' k" and "k = 0 \<Longrightarrow> at_rest s'"
proof -
  note d = send_packet_deltas [OF assms(2)]
  show sp: "mouse_span s' k"
    using assms(1) by (auto simp: mouse_span_def d assms(3) packet_dz_def intro!: clamp_span)
  show "at_rest s'" if "k = 0"
    using sp that by (auto simp: mouse_span_def at_rest_def d assms(3) packet_dz_def split: if_splits)
qed

lemma mouse_send_loop_packets:
  assumes "mouse_span s (Suc k)" "byte_room (mcommon s) (packet_len (mouse_type s) * Suc k)"
  shows "\<exists>ps s' u'. mouse_send_loop upd s u = (s', u') \<and> at_rest s' \<and> length ps \<le> Suc k \<and>
    contents (queue (mcommon s')) = contents (queue (mcommon s)) @ concat ps \<and>
    (\<forall>p \<in> set ps. length p = packet_len (mouse_type s)) \<and>
    sum_list (map packet_x ps) = mouse_dx s \<and> sum_list (map packet_y ps) = mouse_dy s \<and>
    (mouse_type s = 3 \<longrightarrow> sum_list (map packet_z ps) = mouse_dz s)"
  using assms
proof (induction k arbitrary: s u)
  case 0
  obtain s1 u1 where 1: "ps2_mouse_send_packet upd (s, u) = (s1, u1)" by (metis surj_pair)
  have "byte_room (mcommon s) (packet_len (mouse_type s))" using 0(2) by simp
  note step = send_packet_step [OF this 1]
  have r: "at_rest s1" using send_packet_span [OF 0(1) 1 step(2)] by simp
  then have "mouse_dx s = clamp 127 (mouse_dx s)" "mouse_dy s = clamp 127 (mouse_dy s)"
    "mouse_type s = 3 \<Longrightarrow> mouse_dz s = clamp 127 (mouse_dz s)"
    using send_packet_deltas [OF 1] by (simp_all add: at_rest_def packet_dz_def)
  moreover have "mouse_send_loop upd s u = (s1, u1)" using 1 r by simp
  ultimately show ?case
    using step r
    by (intro exI [of _ "[map of_int (packet_bytes s)]"] exI [of _ s1] exI [of _ u1])
      (simp add: packet_bytes_move length_packet_bytes del: mouse_send_loop.simps)
next
  case (Suc k)
  obtain s1 u1 where 1: "ps2_mouse_send_packet upd (s, u) = (s1, u1)" by (metis surj_pair)
  have "byte_room (mcommon s) (packet_len (mouse_type s))" using Suc.prems(2) by (simp add: byte_room_def)
  note step = send_packet_step [OF this 1]
  note d = send_packet_deltas [OF 1]
  let ?p = "map of_int (packet_bytes s) :: u8 list"
  show ?case
  proof (cases "at_rest s1")
    case True
    then have "mouse_send_loop upd s u = (s1, u1)" using 1 by simp
    with True step d show ?thesis
      by (intro exI [of _ "[?p]"] exI [of _ s1] exI [of _ u1])
        (auto simp: packet_bytes_move length_packet_bytes at_rest_def packet_dz_def simp del: mouse_send_loop.simps)
  next
    case False
    then have l: "mouse_send_loop upd s u = mouse_send_loop upd s1 u1" using 1 by simp
    have "count (queue (mcommon s1)) = count (queue (mcommon s)) + packet_len (mouse_type s)"
      using arg_cong [OF step(3), of length] by (simp add: length_packet_bytes)
    then have "byte_room (mcommon s1) (packet_len (mouse_type s1) * Suc k)"
      using Suc.prems(2) step(1,2) by (simp add: byte_room_def)
    from Suc.IH [OF send_packet_span(1) [OF Suc.prems(1) 1 step(2)] this, of u1]
    obtain ps s' u' where "mouse_send_loop upd s1 u1 = (s', u')" "at_rest s'" "length ps \<le> Suc k"
      "contents (queue (mcommon s')) = contents (queue (mcommon s1)) @ concat ps"
      "\<forall>p \<in> set ps. length p = packet_len (mouse_type s1)"
      "sum_list (map packet_x ps) = mouse_dx s1" "sum_list (map packet_y ps) = mouse_dy s1"
      "mouse_type s1 = 3 \<longrightarrow> sum_list (map packet_z ps) = mouse_dz s1" by blast
    with l step d show ?thesis
      by (intro exI [of _ "?p # ps"] exI [of _ s'] exI [of _ u'])
        (auto simp: packet_bytes_move length_packet_bytes packet_dz_def simp del: mouse_send_loop.simps)
  qed
qed

lemma mouse_queues_frame:
  assumes "mouse_queues upd bs (s, u) = (s', u')"
  shows "mouse_type s' = mouse_type s" "mouse_detect_state s' = mouse_detect_state s"
    "mouse_wrap s' = mouse_wrap s" "write_cmd (mcommon s') = write_cmd (mcommon s)"
    "queue_ok (queue (mcommon s)) \<Longrightarrow> queue_ok (queue (mcommon s'))"
    "byte_room (mcommon s) (length bs) \<Longrightarrow>
       contents (queue (mcommon s')) = contents (queue (mcommon s)) @ map of_int bs"
proof -
  obtain c v where q: "ps2_queues upd bs (mcommon s, u) = (c, v)" by (metis surj_pair)
  then have "s' = s\<lparr>mcommon := c\<rparr>" using assms by (simp add: mouse_queues_def)
  then show "mouse_type s' = mouse_type s" "mouse_detect_state s' = mouse_detect_state s"
    "mouse_wrap s' = mouse_wrap s" "write_cmd (mcommon s') = write_cmd (mcommon s)"
    "queue_ok (queue (mcommon s)) \<Longrightarrow> queue_ok (queue (mcommon s'))"
    "byte_room (mcommon s) (length bs) \<Longrightarrow>
       contents (queue (mcommon s')) = contents (queue (mcommon s)) @ map of_int bs"
    using ps2_queues_frame [OF q] ps2_queues_ok [OF _ q] ps2_queues_contents(2) [OF _ q] by simp_all
qed

lemma mouse_detect_frame [simp]:
  "mcommon (mouse_detect v s) = mcommon s" "mouse_wrap (mouse_detect v s) = mouse_wrap s"
  by (simp_all add: mouse_detect_def)

lemma set_rate_step:
  assumes "mouse_idle s" "set_rate upd r (s, u) = (s', u')"
  shows "mouse_idle s'"
    "mouse_type s' = mouse_type (mouse_detect r s)"
    "mouse_detect_state s' = mouse_detect_state (mouse_detect r s)"
    "byte_room (mcommon s) 2 \<Longrightarrow>
       queue_ok (queue (mcommon s')) \<and> contents (queue (mcommon s')) = contents (queue (mcommon s)) @ [0xFA, 0xFA]"
proof -
  let ?s0 = "set_mouse_cmd 0xF3 s"
  obtain s1 u1 where 1: "mouse_queues upd [AUX_ACK] (?s0, u) = (s1, u1)" by (metis surj_pair)
  let ?s2 = "mouse_detect r (s1\<lparr>mouse_sample_rate := of_int r\<rparr>)"
  obtain s3 u3 where 3: "mouse_queues upd [AUX_ACK] (?s2, u1) = (s3, u3)" by (metis surj_pair)
  note f = mouse_queues_frame [OF 1] mouse_queues_frame [OF 3]
  have "ps2_write_mouse upd 0xF3 (s, u) = (s1, u1)"
    using assms(1) 1 by (simp add: ps2_write_mouse_def mouse_command_def mouse_idle_def)
  then have s': "s' = set_mouse_cmd (-1) s3"
    using assms(2) f(4) 3 by (simp add: set_rate_def ps2_write_mouse_def set_mouse_cmd_def)
  then show "mouse_idle s'" using f assms(1) by (simp add: mouse_idle_def set_mouse_cmd_def)
  show "mouse_type s' = mouse_type (mouse_detect r s)"
    "mouse_detect_state s' = mouse_detect_state (mouse_detect r s)"
    using f by (simp_all add: s' set_mouse_cmd_def mouse_detect_def)
  assume room: "byte_room (mcommon s) 2"
  then have c: "contents (queue (mcommon s1)) = contents (queue (mcommon s)) @ [0xFA]" "queue_ok (queue (mcommon s1))"
    using f(5,6) by (simp_all add: byte_room_def set_mouse_cmd_def)
  have "count (queue (mcommon s1)) = Suc (count (queue (mcommon s)))"
    using length_contents [of "queue (mcommon s1)"] unfolding c(1) by simp
  then have "byte_room (mcommon s1) 1" using room c(2) by (simp add: byte_room_def)
  then show "queue_ok (queue (mcommon s')) \<and> contents (queue (mcommon s')) = contents (queue (mcommon s)) @ [0xFA, 0xFA]"
    using f(11,12) c by (simp add: s' set_mouse_cmd_def)
qed

lemma detect_three:
  assumes "mouse_detect_state s = 0"
  shows "mouse_type (mouse_detect c (mouse_detect b (mouse_detect a s))) =
    (if (a, b, c) = (200, 100, 80) then 3 else if (a, b, c) = (200, 200, 80) then 4 else mouse_type s)"
  using assms by (auto simp: mouse_detect_def)

section \<open>The host of a PS/2 device\<close>

text \<open>
  What a device promises to its host: if the host keeps a relation \<open>host b u\<close>
  between its own state and a level, and every call of the callback establishes
  it for the new level, then after every operation the host's level tells whether
  the queue holds data.
\<close>

locale ps2_host =
  fixes upd :: "'u \<Rightarrow> bool \<Rightarrow> 'u" and host :: "bool \<Rightarrow> 'u \<Rightarrow> bool"
  assumes host_upd: "host b u \<Longrightarrow> host l (upd u l)"
begin

definition synced :: "PS2State \<times> 'u \<Rightarrow> bool" where
  "synced = (\<lambda>(s, u). queue_ok (queue s) \<and> host (count (queue s) \<noteq> 0) u)"

definition kbd_synced :: "PS2KbdState \<times> 'u \<Rightarrow> bool" where
  "kbd_synced = (\<lambda>(s, u). synced (common s, u))"

definition mouse_synced :: "PS2MouseState \<times> 'u \<Rightarrow> bool" where
  "mouse_synced = (\<lambda>(s, u). synced (mcommon s, u))"

lemma synced_queue: "synced x \<Longrightarrow> synced (ps2_queue upd b x)"
proof -
  assume "synced x"
  moreover obtain s u where "x = (s, u)" by (cases x)
  moreover have "count (queue_put (queue s) b) \<noteq> 0" if "\<not> 256 \<le> count (queue s)"
    using that by (simp add: queue_put_def)
  ultimately show ?thesis
    using host_upd [of "count (queue s) \<noteq> 0" u True]
    by (auto simp: ps2_queue_def synced_def queue_put_ok)
qed

lemma synced_queues: "synced x \<Longrightarrow> synced (ps2_queues upd bs x)"
  by (induction bs arbitrary: x) (simp_all add: ps2_queues_def synced_queue)

lemma synced_read:
  assumes "synced (s, u)" "ps2_read_data upd (s, u) = (v, s', u')"
  shows "synced (s', u')"
proof (cases "count (queue s) = 0")
  case True
  with assms show ?thesis by (auto simp: ps2_read_data_def split: prod.splits)
next
  case False
  then obtain x xs where xs: "contents (queue s) = x # xs"
    using contents_eq_Nil [of "queue s"] by (cases "contents (queue s)") auto
  have ok: "queue_ok (queue s)" and h: "host (count (queue s) \<noteq> 0) u" using assms(1) by (simp_all add: synced_def)
  obtain q where q: "queue_get (queue s) = (x, q)" "queue_ok q" using queue_get_cons [OF ok xs] by blast
  then have "s' = s\<lparr>queue := q\<rparr>" "u' = upd (upd u False) (count q \<noteq> 0)"
    using assms(2) False by (auto simp: ps2_read_data_def)
  then show ?thesis using q(2) host_upd [OF host_upd [OF h, of False], of "count q \<noteq> 0"] by (simp add: synced_def)
qed

lemma synced_kbd_queues: "kbd_synced x \<Longrightarrow> kbd_synced (kbd_queues upd bs x)"
  using synced_queues [of "(common (fst x), snd x)" bs]
  by (auto simp: kbd_synced_def kbd_queues_def split: prod.splits)

lemma synced_mouse_queues: "mouse_synced x \<Longrightarrow> mouse_synced (mouse_queues upd bs x)"
  using synced_queues [of "(mcommon (fst x), snd x)" bs]
  by (auto simp: mouse_synced_def mouse_queues_def split: prod.splits)

lemma kbd_synced_simps [simp]:
  "kbd_synced (s\<lparr>delay := a\<rparr>, u) = kbd_synced (s, u)"
  "kbd_synced (s\<lparr>scan_enabled := b\<rparr>, u) = kbd_synced (s, u)"
  "kbd_synced (s\<lparr>delay := a, delay_time := t, delay_keycode := k\<rparr>, u) = kbd_synced (s, u)"
  "kbd_synced (ps2_reset_keyboard s, u) = kbd_synced (s, u)"
  "kbd_synced (set_kbd_cmd c s, u) = kbd_synced (s, u)"
  by (simp_all add: kbd_synced_def ps2_reset_keyboard_def set_kbd_cmd_def synced_def)

lemma synced_put_keycode:
  assumes "kbd_synced (s, u)" shows "kbd_synced (ps2_put_keycode upd down k now (s, u))"
proof -
  let ?f = "if delay s then kbd_queues upd [delay_keycode s] (s\<lparr>delay := False\<rparr>, u) else (s, u)"
  obtain s1 u1 where 1: "?f = (s1, u1)" by (metis surj_pair)
  have "kbd_synced ?f" using assms synced_kbd_queues by simp
  then have s1: "kbd_synced (s1, u1)" unfolding 1 .
  have q: "kbd_synced (kbd_queues upd bs (s1, u1))" for bs using s1 by (rule synced_kbd_queues)
  obtain sa ua sb ub where r: "kbd_queues upd [drop_bit 8 k] (s1, u1) = (sa, ua)"
    "kbd_queues upd [0xe0] (s1, u1) = (sb, ub)" by (metis surj_pair)
  have "kbd_synced (sa, ua)" "kbd_synced (sb, ub)"
    using q [of "[drop_bit 8 k]"] q [of "[0xe0]"] by (simp_all add: r)
  with s1 q show ?thesis
    unfolding ps2_put_keycode_def case_prod_conv Let_def 1 r by simp
qed

lemma synced_kbd_step: "kbd_synced x \<Longrightarrow> kbd_synced (kbd_step upd now x)"
  using synced_kbd_queues [of "((fst x)\<lparr>delay := False\<rparr>, snd x)" "[delay_keycode (fst x)]"]
  by (cases x) (simp add: kbd_step_def)

lemma synced_write_keyboard:
  assumes "kbd_synced (s, u)" shows "kbd_synced (ps2_write_keyboard upd val (s, u))"
proof -
  obtain s1 u1 where 1: "kbd_queues upd [KBD_REPLY_ACK] (s, u) = (s1, u1)" by (metis surj_pair)
  have "kbd_synced (s1, u1)" using synced_kbd_queues [OF assms, of "[KBD_REPLY_ACK]"] by (simp add: 1)
  then have "kbd_synced (set_kbd_cmd (- 1) s1, u1)" by simp
  with assms show ?thesis
    unfolding ps2_write_keyboard_def case_prod_conv Let_def 1 by (simp add: synced_kbd_queues)
qed

lemma mouse_synced_simps [simp]:
  "mouse_synced (s\<lparr>mouse_status := x0\<rparr>, u) = mouse_synced (s, u)"
  "mouse_synced (s\<lparr>mouse_sample_rate := x1\<rparr>, u) = mouse_synced (s, u)"
  "mouse_synced (s\<lparr>mouse_resolution := x2\<rparr>, u) = mouse_synced (s, u)"
  "mouse_synced (s\<lparr>mouse_wrap := x3\<rparr>, u) = mouse_synced (s, u)"
  "mouse_synced (s\<lparr>mouse_type := x4\<rparr>, u) = mouse_synced (s, u)"
  "mouse_synced (s\<lparr>mouse_dx := x5\<rparr>, u) = mouse_synced (s, u)"
  "mouse_synced (s\<lparr>mouse_dy := x6\<rparr>, u) = mouse_synced (s, u)"
  "mouse_synced (s\<lparr>mouse_dz := x7\<rparr>, u) = mouse_synced (s, u)"
  "mouse_synced (s\<lparr>mouse_buttons := x8\<rparr>, u) = mouse_synced (s, u)"
  "mouse_synced (mouse_detect v s, u) = mouse_synced (s, u)"
  by (simp_all add: mouse_synced_def)

lemma mouse_synced_cmd [simp]: "mouse_synced (set_mouse_cmd c s, u) = mouse_synced (s, u)"
  by (simp add: mouse_synced_def set_mouse_cmd_def synced_def)

lemma synced_send_packet: "mouse_synced x \<Longrightarrow> mouse_synced (ps2_mouse_send_packet upd x)"
  using synced_mouse_queues [of x "packet_bytes (fst x)"]
  by (cases x) (auto simp: ps2_mouse_send_packet_def mouse_synced_def split: prod.splits)

lemma synced_send_loop: "mouse_synced (s, u) \<Longrightarrow> mouse_synced (mouse_send_loop upd s u)"
proof (induction "motion s" arbitrary: s u rule: less_induct)
  case less
  obtain s1 u1 where 1: "ps2_mouse_send_packet upd (s, u) = (s1, u1)" by (metis surj_pair)
  have "mouse_synced (s1, u1)" using synced_send_packet [OF less.prems] by (simp add: 1)
  then show ?case using less.hyps [of s1 u1] send_packet_motion [OF 1] by (simp add: 1)
qed

lemma synced_mouse_event: "mouse_synced (s, u) \<Longrightarrow> mouse_synced (ps2_mouse_event upd dx dy dz b (s, u))"
  by (simp add: ps2_mouse_event_def Let_def synced_send_loop del: mouse_send_loop.simps)

lemma synced_mouse_command:
  assumes "mouse_synced (s, u)" shows "mouse_synced (mouse_command upd val (s, u))"
proof -
  have q: "mouse_synced (mouse_queues upd bs (s', u))" if "mouse_synced (s', u)" for bs s'
    using that by (rule synced_mouse_queues)
  show ?thesis
    using assms unfolding mouse_command_def case_prod_conv
    by (simp add: q synced_send_packet)
qed

lemma synced_write_mouse:
  assumes "mouse_synced (s, u)" shows "mouse_synced (ps2_write_mouse upd val (s, u))"
proof -
  have q: "mouse_synced (let (s, u) = mouse_queues upd bs (s', u) in (set_mouse_cmd (-1) s, u))"
    if "mouse_synced (s', u)" for bs s'
    using synced_mouse_queues [OF that, of bs] by (auto split: prod.splits)
  show ?thesis
    using assms q [of "mouse_detect val (s\<lparr>mouse_sample_rate := of_int val\<rparr>)"]
      q [of "s\<lparr>mouse_resolution := of_int val\<rparr>"]
    unfolding ps2_write_mouse_def case_prod_conv
    by (simp add: synced_mouse_command synced_mouse_queues Let_def)
qed

end

section \<open>Properties\<close>

text \<open>
  C5: The 256-byte ring buffer behind \<open>ps2_queue\<close> and \<open>ps2_read_data\<close> implements
  a bounded FIFO: for every sequence of the two operations from the reset state
  the bytes read are those of the abstract queue of at most 256 bytes (a byte
  for the full queue is dropped, a read of the empty queue repeats the last byte
  read), and so are the bytes left.
\<close>

theorem ps2_queue_refines_fifo:
  "fst (run_queue (\<lambda>q b. ps2_queue upd b q) (ps2_read_data upd) ops (ps2_reset ps2_zero, u)) =
     fst (run_fifo of_int 256 ops [] 0) \<and>
   contents (queue (fst (snd (run_queue (\<lambda>q b. ps2_queue upd b q) (ps2_read_data upd) ops
     (ps2_reset ps2_zero, u))))) = snd (run_fifo of_int 256 ops [] 0)"
proof -
  let ?q = "queue (ps2_reset ps2_zero)"
  have "queue_ok ?q" "contents ?q = []" "replay ?q = 0"
    by (simp_all add: ps2_reset_def ps2_zero_def queue_ok_def contents_def replay_def)
  then show ?thesis
    using ps2_fifo.run_refines [of "(ps2_reset ps2_zero, u)" 0 upd ops]
    by (simp add: case_prod_beta del: contents_eq_Nil)
qed

text \<open>
  C6: No scan code byte is lost, duplicated or reordered: after any sequence of
  key events and main-loop ticks whose bytes fit into the queue, the queued
  bytes, with the held-back second byte of an extended key, are the former ones
  followed by the scan codes of the events in order.
\<close>

theorem key_stream:
  assumes "queue_ok (queue (common s))" "length (typed s) + length (key_bytes es) \<le> 256"
  shows "typed (fst (key_run upd es (s, u))) = typed s @ map of_int (key_bytes es)"
  using assms
proof (induction es arbitrary: s u)
  case (Cons e es)
  show ?case
  proof (cases e)
    case (Key down k now)
    obtain s' u' where s': "ps2_put_keycode upd down k now (s, u) = (s', u')" by (metis surj_pair)
    then show ?thesis
      using put_keycode_typed [OF Cons.prems(1) _ s'] Cons.prems(2) Cons.IH [of s' u'] Key by simp
  next
    case (Tick now)
    obtain s' u' where s': "kbd_step upd now (s, u) = (s', u')" by (metis surj_pair)
    then show ?thesis
      using kbd_step_typed [OF Cons.prems(1) _ s'] Cons.prems(2) Cons.IH [of s' u'] Tick by simp
  qed
qed simp

theorem key_stream_witness:
  "typed (fst (key_run (\<lambda>u l. l # u) [Key True 30 0, Key True 103 5, Tick 50, Key False 103 60] (ps2_kbd_init, []))) =
     [30, 0xe0, 0x48, 0xe0, 0xc8]"
proof -
  let ?es = "[Key True 30 0, Key True 103 5, Tick 50, Key False 103 60]"
  have k: "key_bytes ?es = [30, 0xe0, 0x48, 0xe0, 0xc8]"
    by (simp add: scancodes_def linux_input_to_keycode_set1_def)
  have "queue_ok (queue (common ps2_kbd_init))" "typed ps2_kbd_init = []"
    by (simp_all add: ps2_kbd_init_def ps2_reset_def ps2_zero_def queue_ok_def contents_def typed_def)
  then show ?thesis
    using key_stream [of ps2_kbd_init ?es "\<lambda>u l. l # u" "[]"] unfolding k by simp
qed

text \<open>
  A mouse event in stream mode whose accumulated movement fits into four
  packets is reported in full: the bytes appended to the queue are whole packets
  (three bytes, four with a wheel), their signed movements add up to the
  accumulated movement plus that of the event (the wheel included for type 3),
  and nothing is left to report.  The test for 16 free bytes is enough for that.
\<close>

lemma mouse_event_packets:
  assumes "queue_ok (queue (mcommon s))" "count (queue (mcommon s)) < 240"
    and "mouse_status s AND 0x20 \<noteq> 0" "mouse_status s AND 0x40 = 0"
    and "mouse_span (s\<lparr>mouse_dx := mouse_dx s + dx, mouse_dy := mouse_dy s - dy, mouse_dz := mouse_dz s + dz\<rparr>) 4"
  shows "\<exists>ps s' u'. ps2_mouse_event upd dx dy dz buttons (s, u) = (s', u') \<and> at_rest s' \<and>
    contents (queue (mcommon s')) = contents (queue (mcommon s)) @ concat ps \<and>
    (\<forall>p \<in> set ps. length p = packet_len (mouse_type s)) \<and>
    sum_list (map packet_x ps) = mouse_dx s + dx \<and> sum_list (map packet_y ps) = mouse_dy s - dy \<and>
    (mouse_type s = 3 \<longrightarrow> sum_list (map packet_z ps) = mouse_dz s + dz)"
proof -
  let ?s = "s\<lparr>mouse_dx := mouse_dx s + dx, mouse_dy := mouse_dy s - dy, mouse_dz := mouse_dz s + dz,
    mouse_buttons := of_int buttons\<rparr>"
  let ?n = "s\<lparr>mouse_dx := mouse_dx s + dx, mouse_dy := mouse_dy s - dy, mouse_dz := mouse_dz s + dz\<rparr>"
  show ?thesis
  proof (cases "at_rest ?n \<and> uint (mouse_buttons s) = buttons")
    case True
    then have "ps2_mouse_event upd dx dy dz buttons (s, u) = (?n, u)"
      using assms(3) by (simp add: ps2_mouse_event_def Let_def)
    with True show ?thesis
      by (intro exI [of _ "[]"] exI [of _ ?n] exI [of _ u]) (simp add: at_rest_def)
  next
    case False
    then have "ps2_mouse_event upd dx dy dz buttons (s, u) = mouse_send_loop upd ?s u"
      using assms(2-4) by (auto simp: ps2_mouse_event_def Let_def simp del: mouse_send_loop.simps)
    moreover have "mouse_span ?s (Suc 3)" using assms(5) by (simp add: mouse_span_def)
    moreover have "byte_room (mcommon ?s) (packet_len (mouse_type ?s) * Suc 3)"
      using assms(1,2) by (simp add: byte_room_def packet_len_def)
    ultimately show ?thesis using mouse_send_loop_packets [of ?s 3 upd u] by auto
  qed
qed


text \<open>
  The IntelliMouse detection: from the idle state the mouse reports type 3
  after the sample rates 200, 100, 80, type 4 after 200, 200, 80, and keeps its
  type after any other three rates; every byte is acknowledged.
\<close>

lemma intellimouse_knock:
  assumes "mouse_idle s" "mouse_detect_state s = 0" "byte_room (mcommon s) 6"
    and "set_rate upd c (set_rate upd b (set_rate upd a (s, u))) = (s', u')"
  shows "mouse_type s' = (if (a, b, c) = (200, 100, 80) then 3
           else if (a, b, c) = (200, 200, 80) then 4 else mouse_type s) \<and>
         contents (queue (mcommon s')) = contents (queue (mcommon s)) @ replicate 6 0xFA"
proof -
  obtain s1 u1 where 1: "set_rate upd a (s, u) = (s1, u1)" by (metis surj_pair)
  obtain s2 u2 where 2: "set_rate upd b (s1, u1) = (s2, u2)" by (metis surj_pair)
  have 3: "set_rate upd c (s2, u2) = (s', u')" using assms(4) 1 2 by simp
  note r1 = set_rate_step [OF assms(1) 1]
  note r2 = set_rate_step [OF r1(1) 2]
  note r3 = set_rate_step [OF r2(1) 3]
  have "mouse_type s' = mouse_type (mouse_detect c (mouse_detect b (mouse_detect a s)))"
    using r1(2,3) r2(2,3) r3(2) by (simp add: mouse_detect_def)
  then have ty: "mouse_type s' = (if (a, b, c) = (200, 100, 80) then 3
           else if (a, b, c) = (200, 200, 80) then 4 else mouse_type s)"
    by (simp only: detect_three [OF assms(2)])
  have q1: "queue_ok (queue (mcommon s1)) \<and> contents (queue (mcommon s1)) = contents (queue (mcommon s)) @ [0xFA, 0xFA]"
    using r1(4) assms(3) by (simp add: byte_room_def)
  then have "byte_room (mcommon s1) 4"
    using assms(3) length_contents [of "queue (mcommon s1)"] by (simp add: byte_room_def)
  then have q2: "queue_ok (queue (mcommon s2)) \<and> contents (queue (mcommon s2)) = contents (queue (mcommon s1)) @ [0xFA, 0xFA]"
    and "byte_room (mcommon s1) 4"
    using r2(4) by (simp_all add: byte_room_def)
  then have "byte_room (mcommon s2) 2"
    using length_contents [of "queue (mcommon s2)"] by (simp add: byte_room_def)
  then have "contents (queue (mcommon s')) = contents (queue (mcommon s)) @ replicate 6 0xFA"
    using r3(4) q1 q2 by (simp add: numeral_eq_Suc)
  with ty show ?thesis by blast
qed


end
