(* ===== verification/KBC.thy ===== *)
theory KBC
  imports PS2
begin

text \<open>
  The i8042 keyboard controller of \<open>source/winspire/i8042.c\<close> (first half of the
  file): status, mode and pending registers, the controller commands, and the
  two interrupt lines that follow the two PS/2 queues.  \<open>KBDState\<close> holds the
  registers; the two devices it points to stand beside it in \<open>i8042\<close>.  The
  callbacks \<open>set_irq\<close> and \<open>system_reset_request\<close> act on \<open>p\<close>, the rest of the
  machine.
\<close>

section \<open>State\<close>

record KBDState =
  kwrite_cmd :: u8
  status :: u8
  mode :: u8
  pending :: u8
  irq_kbd :: nat
  irq_mouse :: nat

record i8042 =
  ctl :: KBDState
  kbd :: PS2KbdState
  mouse :: PS2MouseState

abbreviation (input) "KBD_STAT_OBF \<equiv> 0x01 :: u8"
abbreviation (input) "KBD_STAT_SELFTEST \<equiv> 0x04 :: u8"
abbreviation (input) "KBD_STAT_CMD \<equiv> 0x08 :: u8"
abbreviation (input) "KBD_STAT_UNLOCKED \<equiv> 0x10 :: u8"
abbreviation (input) "KBD_STAT_MOUSE_OBF \<equiv> 0x20 :: u8"
abbreviation (input) "KBD_MODE_KBD_INT \<equiv> 0x01 :: u8"
abbreviation (input) "KBD_MODE_MOUSE_INT \<equiv> 0x02 :: u8"
abbreviation (input) "KBD_MODE_DISABLE_KBD \<equiv> 0x10 :: u8"
abbreviation (input) "KBD_MODE_DISABLE_MOUSE \<equiv> 0x20 :: u8"
abbreviation (input) "KBD_MODE_KCC \<equiv> 0x40 :: u8"
abbreviation (input) "KBD_PENDING_KBD \<equiv> 1 :: u8"
abbreviation (input) "KBD_PENDING_AUX \<equiv> 2 :: u8"

section \<open>Operations\<close>

definition kbd_update_irq ::
    "('p \<Rightarrow> nat \<Rightarrow> bool \<Rightarrow> 'p) \<Rightarrow> KBDState \<times> 'p \<Rightarrow> KBDState \<times> 'p" where
  "kbd_update_irq set_irq = (\<lambda>(s, p).
     let s = s\<lparr>status := status s AND NOT (KBD_STAT_OBF OR KBD_STAT_MOUSE_OBF)\<rparr>;
         (s, irq_kbd_level, irq_mouse_level) =
           (if pending s \<noteq> 0 then
              (let s = s\<lparr>status := status s OR KBD_STAT_OBF\<rparr>
               in if pending s = KBD_PENDING_AUX then
                    (s\<lparr>status := status s OR KBD_STAT_MOUSE_OBF\<rparr>, False,
                     mode s AND KBD_MODE_MOUSE_INT \<noteq> 0)
                  else
                    (s, mode s AND KBD_MODE_KBD_INT \<noteq> 0 \<and> mode s AND KBD_MODE_DISABLE_KBD = 0, False))
            else (s, False, False));
         p = set_irq p (irq_kbd s) irq_kbd_level;
         p = set_irq p (irq_mouse s) irq_mouse_level
     in (s, p))"

definition kbd_update_kbd_irq ::
    "('p \<Rightarrow> nat \<Rightarrow> bool \<Rightarrow> 'p) \<Rightarrow> KBDState \<times> 'p \<Rightarrow> bool \<Rightarrow> KBDState \<times> 'p" where
  "kbd_update_kbd_irq set_irq = (\<lambda>(s, p) level.
     kbd_update_irq set_irq
       (s\<lparr>pending := (if level then pending s OR KBD_PENDING_KBD
                      else pending s AND NOT KBD_PENDING_KBD)\<rparr>, p))"

definition kbd_update_aux_irq ::
    "('p \<Rightarrow> nat \<Rightarrow> bool \<Rightarrow> 'p) \<Rightarrow> KBDState \<times> 'p \<Rightarrow> bool \<Rightarrow> KBDState \<times> 'p" where
  "kbd_update_aux_irq set_irq = (\<lambda>(s, p) level.
     kbd_update_irq set_irq
       (s\<lparr>pending := (if level then pending s OR KBD_PENDING_AUX
                      else pending s AND NOT KBD_PENDING_AUX)\<rparr>, p))"

definition kbd_read_status :: "i8042 \<Rightarrow> u32" where
  "kbd_read_status d = ucast (status (ctl d))"

text \<open>
  A call of a keyboard or a mouse routine from the controller: the routine works
  on its device, its callback on the controller registers and on the machine.
\<close>

definition on_kbd ::
    "('p \<Rightarrow> nat \<Rightarrow> bool \<Rightarrow> 'p) \<Rightarrow>
     (((KBDState \<times> 'p) \<Rightarrow> bool \<Rightarrow> (KBDState \<times> 'p)) \<Rightarrow> PS2KbdState \<times> (KBDState \<times> 'p) \<Rightarrow> PS2KbdState \<times> (KBDState \<times> 'p)) \<Rightarrow>
     i8042 \<times> 'p \<Rightarrow> i8042 \<times> 'p" where
  "on_kbd set_irq f = (\<lambda>(d, p).
     let (k, c, p) = f (kbd_update_kbd_irq set_irq) (kbd d, ctl d, p)
     in (d\<lparr>kbd := k, ctl := c\<rparr>, p))"

definition on_mouse ::
    "('p \<Rightarrow> nat \<Rightarrow> bool \<Rightarrow> 'p) \<Rightarrow>
     (((KBDState \<times> 'p) \<Rightarrow> bool \<Rightarrow> (KBDState \<times> 'p)) \<Rightarrow> PS2MouseState \<times> (KBDState \<times> 'p) \<Rightarrow> PS2MouseState \<times> (KBDState \<times> 'p)) \<Rightarrow>
     i8042 \<times> 'p \<Rightarrow> i8042 \<times> 'p" where
  "on_mouse set_irq f = (\<lambda>(d, p).
     let (m, c, p) = f (kbd_update_aux_irq set_irq) (mouse d, ctl d, p)
     in (d\<lparr>mouse := m, ctl := c\<rparr>, p))"

definition on_ctl ::
    "(KBDState \<times> 'p \<Rightarrow> KBDState \<times> 'p) \<Rightarrow> i8042 \<times> 'p \<Rightarrow> i8042 \<times> 'p" where
  "on_ctl f = (\<lambda>(d, p). let (c, p) = f (ctl d, p) in (d\<lparr>ctl := c\<rparr>, p))"

definition kbd_queue ::
    "('p \<Rightarrow> nat \<Rightarrow> bool \<Rightarrow> 'p) \<Rightarrow> int \<Rightarrow> bool \<Rightarrow> i8042 \<times> 'p \<Rightarrow> i8042 \<times> 'p" where
  "kbd_queue set_irq b aux =
     (if aux then on_mouse set_irq (\<lambda>upd. mouse_queues upd [b])
      else on_kbd set_irq (\<lambda>upd. kbd_queues upd [b]))"

definition set_mode :: "(u8 \<Rightarrow> u8) \<Rightarrow> i8042 \<Rightarrow> i8042" where
  "set_mode f d = d\<lparr>ctl := (ctl d)\<lparr>mode := f (mode (ctl d))\<rparr>\<rparr>"

definition kbd_write_command ::
    "('p \<Rightarrow> nat \<Rightarrow> bool \<Rightarrow> 'p) \<Rightarrow> ('p \<Rightarrow> 'p) \<Rightarrow> u32 \<Rightarrow> i8042 \<times> 'p \<Rightarrow> i8042 \<times> 'p" where
  "kbd_write_command set_irq system_reset_request val = (\<lambda>(d, p).
     if val = 0x20 then kbd_queue set_irq (uint (mode (ctl d))) True (d, p)
     else if val \<in> {0x60, 0xD2, 0xD3, 0xD4, 0xD1} then
       (d\<lparr>ctl := (ctl d)\<lparr>kwrite_cmd := ucast val\<rparr>\<rparr>, p)
     else if val = 0xA7 then (set_mode (\<lambda>m. m OR KBD_MODE_DISABLE_MOUSE) d, p)
     else if val = 0xA8 then (set_mode (\<lambda>m. m AND NOT KBD_MODE_DISABLE_MOUSE) d, p)
     else if val = 0xA9 then kbd_queue set_irq 0 False (d, p)
     else if val = 0xAA then
       kbd_queue set_irq 0x55 False
         (d\<lparr>ctl := (ctl d)\<lparr>status := status (ctl d) OR KBD_STAT_SELFTEST\<rparr>\<rparr>, p)
     else if val = 0xAB then kbd_queue set_irq 0 False (d, p)
     else if val = 0xAD then
       on_ctl (kbd_update_irq set_irq) (set_mode (\<lambda>m. m OR KBD_MODE_DISABLE_KBD) d, p)
     else if val = 0xAE then
       on_ctl (kbd_update_irq set_irq) (set_mode (\<lambda>m. m AND NOT KBD_MODE_DISABLE_KBD) d, p)
     else if val = 0xC0 then kbd_queue set_irq 0 False (d, p)
     else if val = 0xD0 then
       kbd_queue set_irq
         (0x01 OR 0x02 OR (if status (ctl d) AND KBD_STAT_OBF \<noteq> 0 then 0x10 else 0) OR
          (if status (ctl d) AND KBD_STAT_MOUSE_OBF \<noteq> 0 then 0x20 else 0)) False (d, p)
     else if val = 0xFE then (d, system_reset_request p)
     else (d, p))"

definition kbd_read_data ::
    "('p \<Rightarrow> nat \<Rightarrow> bool \<Rightarrow> 'p) \<Rightarrow> i8042 \<times> 'p \<Rightarrow> u8 \<times> i8042 \<times> 'p" where
  "kbd_read_data set_irq = (\<lambda>(d, p).
     if pending (ctl d) = KBD_PENDING_AUX then
       (let (v, s, c, p) = ps2_read_data (kbd_update_aux_irq set_irq) (mcommon (mouse d), ctl d, p)
        in (v, d\<lparr>mouse := (mouse d)\<lparr>mcommon := s\<rparr>, ctl := c\<rparr>, p))
     else
       (let (v, s, c, p) = ps2_read_data (kbd_update_kbd_irq set_irq) (common (kbd d), ctl d, p)
        in (v, d\<lparr>kbd := (kbd d)\<lparr>common := s\<rparr>, ctl := c\<rparr>, p)))"

definition kbd_write_data ::
    "('p \<Rightarrow> nat \<Rightarrow> bool \<Rightarrow> 'p) \<Rightarrow> ('p \<Rightarrow> 'p) \<Rightarrow> u32 \<Rightarrow> i8042 \<times> 'p \<Rightarrow> i8042 \<times> 'p" where
  "kbd_write_data set_irq system_reset_request val = (\<lambda>(d, p).
     let cmd = kwrite_cmd (ctl d);
         (d, p) =
           (if cmd = 0 then on_kbd set_irq (\<lambda>upd. ps2_write_keyboard upd (sint val)) (d, p)
            else if cmd = 0x60 then
              on_ctl (kbd_update_irq set_irq)
                ((set_mode (\<lambda>_. ucast val) d)
                   \<lparr>kbd := ps2_keyboard_set_translation ((ucast val :: u8) AND KBD_MODE_KCC \<noteq> 0) (kbd d)\<rparr>, p)
            else if cmd = 0xD2 then kbd_queue set_irq (sint val) False (d, p)
            else if cmd = 0xD3 then kbd_queue set_irq (sint val) True (d, p)
            else if cmd = 0xD1 then (d, if val AND 1 = 0 then system_reset_request p else p)
            else if cmd = 0xD4 then on_mouse set_irq (\<lambda>upd. ps2_write_mouse upd (sint val)) (d, p)
            else (d, p))
     in (d\<lparr>ctl := (ctl d)\<lparr>kwrite_cmd := 0\<rparr>\<rparr>, p))"

definition kbd_reset :: "KBDState \<Rightarrow> KBDState" where
  "kbd_reset s = s\<lparr>mode := KBD_MODE_KBD_INT OR KBD_MODE_MOUSE_INT OR KBD_MODE_KCC,
     status := KBD_STAT_CMD OR KBD_STAT_UNLOCKED\<rparr>"

definition i8042_init :: "nat \<Rightarrow> nat \<Rightarrow> i8042" where
  "i8042_init kbd_irq mouse_irq =
     \<lparr>ctl = kbd_reset \<lparr>kwrite_cmd = 0, status = 0, mode = 0, pending = 0,
        irq_kbd = kbd_irq, irq_mouse = mouse_irq\<rparr>,
      kbd = ps2_kbd_init, mouse = ps2_mouse_init\<rparr>"

section \<open>Specification vocabulary\<close>

text \<open>Every way the machine drives the controller.\<close>

datatype kbc_op =
    WriteCommand u32 | WriteData u32 | ReadData | PutKeycode bool int u32 | KbdStep u32
  | MouseEvent int int int int

fun kbc_step ::
    "('p \<Rightarrow> nat \<Rightarrow> bool \<Rightarrow> 'p) \<Rightarrow> ('p \<Rightarrow> 'p) \<Rightarrow> kbc_op \<Rightarrow> i8042 \<times> 'p \<Rightarrow> i8042 \<times> 'p" where
  "kbc_step set_irq rst (WriteCommand val) x = kbd_write_command set_irq rst val x"
| "kbc_step set_irq rst (WriteData val) x = kbd_write_data set_irq rst val x"
| "kbc_step set_irq rst ReadData x = snd (kbd_read_data set_irq x)"
| "kbc_step set_irq rst (PutKeycode down k now) x =
     on_kbd set_irq (\<lambda>upd. ps2_put_keycode upd down k now) x"
| "kbc_step set_irq rst (KbdStep now) x = on_kbd set_irq (\<lambda>upd. kbd_step upd now) x"
| "kbc_step set_irq rst (MouseEvent dx dy dz b) x =
     on_mouse set_irq (\<lambda>upd. ps2_mouse_event upd dx dy dz b) x"

text \<open>
  The controller registers agree with the two queues: \<open>kb\<close> and \<open>mb\<close> tell whether
  the keyboard's and the mouse's queue hold data.  The keyboard has priority.
\<close>

definition ctl_follows :: "bool \<Rightarrow> bool \<Rightarrow> KBDState \<Rightarrow> bool" where
  "ctl_follows kb mb c \<longleftrightarrow>
     pending c = (if kb then 1 else 0) OR (if mb then 2 else 0) \<and>
     (bit (status c) 0 \<longleftrightarrow> kb \<or> mb) \<and> (bit (status c) 5 \<longleftrightarrow> \<not> kb \<and> mb)"

definition kbd_level :: "bool \<Rightarrow> KBDState \<Rightarrow> bool" where
  "kbd_level kb c \<longleftrightarrow> kb \<and> bit (mode c) 0 \<and> \<not> bit (mode c) 4"

definition mouse_level :: "bool \<Rightarrow> bool \<Rightarrow> KBDState \<Rightarrow> bool" where
  "mouse_level kb mb c \<longleftrightarrow> \<not> kb \<and> mb \<and> bit (mode c) 1"

definition kbd_data :: "i8042 \<Rightarrow> u8 list" where
  "kbd_data d = contents (queue (common (kbd d)))"

definition mouse_data :: "i8042 \<Rightarrow> u8 list" where
  "mouse_data d = contents (queue (mcommon (mouse d)))"

section \<open>The controller as a client of the interrupt controller\<close>

lemma kbd_update_irq_eq:
  "kbd_update_irq set_irq (c, p) =
     (let kb = bit (pending c) 0 \<or> pending c \<noteq> 2 \<and> pending c \<noteq> 0; mb = (pending c = 2);
          c' = c\<lparr>status := status c AND NOT 0x21 OR (if pending c \<noteq> 0 then 1 else 0) OR (if pending c = 2 then 0x20 else 0)\<rparr>
      in (c', set_irq (set_irq p (irq_kbd c) (kb \<and> mode c AND 1 \<noteq> 0 \<and> mode c AND 0x10 = 0))
                (irq_mouse c) (mb \<and> mode c AND 2 \<noteq> 0)))"
  by (auto simp: kbd_update_irq_def Let_def or.assoc)

lemma and_bits:
  "x AND 1 = 0 \<longleftrightarrow> \<not> bit (x :: u8) 0" "x AND 2 = 0 \<longleftrightarrow> \<not> bit x 1" "x AND 0x10 = 0 \<longleftrightarrow> \<not> bit x 4"
  using and_exp_eq_0 [of x 0] and_exp_eq_0 [of x 1] and_exp_eq_0 [of x 4] by simp_all

text \<open>
  The contract of the rest of the machine: an interrupt controller that leaves the
  lines of the two devices to them, and a reset request that changes no line.  Under
  it every operation keeps the registers and both lines in step with the queues.
\<close>

locale kbc_host = irq_controller set_irq ok valid line pending_line
  for set_irq :: "'p \<Rightarrow> nat \<Rightarrow> bool \<Rightarrow> 'p" and ok valid line pending_line +
  fixes rst :: "'p \<Rightarrow> 'p" and k m :: nat
  assumes ok_rst: "ok p \<Longrightarrow> ok (rst p)"
    and line_rst: "ok p \<Longrightarrow> valid n \<Longrightarrow> line (rst p) n = line p n"
    and valid_lines: "valid k" "valid m" "k \<noteq> m"
begin

definition wired :: "KBDState \<times> 'p \<Rightarrow> bool" where
  "wired = (\<lambda>(c, p). ok p \<and> irq_kbd c = k \<and> irq_mouse c = m)"

definition linked :: "bool \<Rightarrow> bool \<Rightarrow> KBDState \<times> 'p \<Rightarrow> bool" where
  "linked kb mb = (\<lambda>(c, p). wired (c, p) \<and> ctl_follows kb mb c \<and>
     line p k = kbd_level kb c \<and> line p m = mouse_level kb mb c)"

lemma linked_update_irq:
  assumes "wired (c, p)" "pending c = (if kb then 1 else 0) OR (if mb then 2 else 0)"
  shows "linked kb mb (kbd_update_irq set_irq (c, p))"
  using assms valid_lines ok_set
  unfolding kbd_update_irq_eq
  by (cases kb; cases mb)
    (auto simp: linked_def wired_def ctl_follows_def kbd_level_def mouse_level_def line_set ok_set and_bits Let_def bit_simps)

lemma linked_kbd_irq: "linked b mb x \<Longrightarrow> linked l mb (kbd_update_kbd_irq set_irq x l)"
  unfolding kbd_update_kbd_irq_def case_prod_beta
  by (rule linked_update_irq) (auto simp: linked_def wired_def ctl_follows_def split: prod.splits)

lemma linked_aux_irq: "linked kb b x \<Longrightarrow> linked kb l (kbd_update_aux_irq set_irq x l)"
  unfolding kbd_update_aux_irq_def case_prod_beta
  by (rule linked_update_irq) (auto simp: linked_def wired_def ctl_follows_def split: prod.splits)

end

sublocale kbc_host < kh: ps2_host "kbd_update_kbd_irq set_irq" "\<lambda>b. linked b mb" for mb
  by unfold_locales (rule linked_kbd_irq)

sublocale kbc_host < mh: ps2_host "kbd_update_aux_irq set_irq" "linked kb" for kb
  by unfold_locales (rule linked_aux_irq)

context kbc_host
begin

definition inv :: "i8042 \<times> 'p \<Rightarrow> bool" where
  "inv = (\<lambda>(d, p). queue_ok (queue (common (kbd d))) \<and> queue_ok (queue (mcommon (mouse d))) \<and>
     linked (count (queue (common (kbd d))) \<noteq> 0) (count (queue (mcommon (mouse d))) \<noteq> 0) (ctl d, p))"

lemma inv_kbd: "inv (d, p) \<longleftrightarrow> queue_ok (queue (mcommon (mouse d))) \<and>
    kh.kbd_synced (count (queue (mcommon (mouse d))) \<noteq> 0) (kbd d, ctl d, p)"
  by (auto simp: inv_def kh.kbd_synced_def kh.synced_def)

lemma inv_mouse: "inv (d, p) \<longleftrightarrow> queue_ok (queue (common (kbd d))) \<and>
    mh.mouse_synced (count (queue (common (kbd d))) \<noteq> 0) (mouse d, ctl d, p)"
  by (auto simp: inv_def mh.mouse_synced_def mh.synced_def)

lemma inv_on_kbd:
  assumes "inv (d, p)"
    and "\<And>mb. kh.kbd_synced mb (kbd d, ctl d, p) \<Longrightarrow>
      kh.kbd_synced mb (f (kbd_update_kbd_irq set_irq) (kbd d, ctl d, p))"
  shows "inv (on_kbd set_irq f (d, p))"
  using assms by (auto simp: inv_kbd on_kbd_def split: prod.splits)

lemma inv_on_mouse:
  assumes "inv (d, p)"
    and "\<And>kb. mh.mouse_synced kb (mouse d, ctl d, p) \<Longrightarrow>
      mh.mouse_synced kb (f (kbd_update_aux_irq set_irq) (mouse d, ctl d, p))"
  shows "inv (on_mouse set_irq f (d, p))"
  using assms by (auto simp: inv_mouse on_mouse_def split: prod.splits)

lemma inv_kbd_queue: "inv (d, p) \<Longrightarrow> inv (kbd_queue set_irq b aux (d, p))"
  by (auto simp: kbd_queue_def intro!: inv_on_kbd inv_on_mouse kh.synced_kbd_queues mh.synced_mouse_queues)

lemma inv_read_data:
  assumes "inv (d, p)" shows "inv (snd (kbd_read_data set_irq (d, p)))"
proof (cases "pending (ctl d) = 2")
  case True
  obtain v s c p' where r: "ps2_read_data (kbd_update_aux_irq set_irq) (mcommon (mouse d), ctl d, p) = (v, s, c, p')"
    by (metis surj_pair)
  have "mh.synced (count (queue (common (kbd d))) \<noteq> 0) (s, c, p')"
    by (rule mh.synced_read [OF _ r]) (use assms in \<open>simp add: inv_mouse mh.mouse_synced_def\<close>)
  with assms r True show ?thesis by (simp add: inv_mouse mh.mouse_synced_def kbd_read_data_def)
next
  case False
  obtain v s c p' where r: "ps2_read_data (kbd_update_kbd_irq set_irq) (common (kbd d), ctl d, p) = (v, s, c, p')"
    by (metis surj_pair)
  have "kh.synced (count (queue (mcommon (mouse d))) \<noteq> 0) (s, c, p')"
    by (rule kh.synced_read [OF _ r]) (use assms in \<open>simp add: inv_kbd kh.kbd_synced_def\<close>)
  with assms r False show ?thesis by (simp add: inv_kbd kh.kbd_synced_def kbd_read_data_def)
qed

lemma inv_registers:
  assumes "inv (d, p)"
  shows "inv (d\<lparr>ctl := (ctl d)\<lparr>kwrite_cmd := x\<rparr>\<rparr>, p)"
    and "inv (d\<lparr>ctl := (ctl d)\<lparr>status := status (ctl d) OR KBD_STAT_SELFTEST\<rparr>\<rparr>, p)"
    and "inv (set_mode (\<lambda>m. m OR KBD_MODE_DISABLE_MOUSE) d, p)"
    and "inv (set_mode (\<lambda>m. m AND NOT KBD_MODE_DISABLE_MOUSE) d, p)"
    and "inv (d, rst p)"
  using assms valid_lines
  by (auto simp: inv_def linked_def wired_def ctl_follows_def kbd_level_def mouse_level_def set_mode_def
      bit_simps ok_rst line_rst)

lemma inv_update_irq:
  assumes "inv (d, p)" "queue (common (kbd d')) = queue (common (kbd d))" "mouse d' = mouse d"
    "\<exists>f. ctl d' = (ctl d)\<lparr>mode := f\<rparr>"
  shows "inv (on_ctl (kbd_update_irq set_irq) (d', p))"
proof -
  let ?kb = "count (queue (common (kbd d))) \<noteq> 0" and ?mb = "count (queue (mcommon (mouse d))) \<noteq> 0"
  have "wired (ctl d', p)" "pending (ctl d') = (if ?kb then 1 else 0) OR (if ?mb then 2 else 0)"
    using assms by (auto simp: inv_def linked_def wired_def ctl_follows_def)
  from linked_update_irq [OF this] assms show ?thesis
    by (auto simp: on_ctl_def inv_def split: prod.splits)
qed

lemma inv_update_mode: "inv (d, p) \<Longrightarrow> inv (on_ctl (kbd_update_irq set_irq) (set_mode f d, p))"
  by (rule inv_update_irq [of d]) (auto simp: set_mode_def)

lemma inv_write_command:
  assumes "inv (d, p)" shows "inv (kbd_write_command set_irq rst val (d, p))"
proof -
  note q = inv_kbd_queue [OF assms] inv_kbd_queue [OF inv_registers(2) [OF assms]]
  show ?thesis
    unfolding kbd_write_command_def case_prod_conv
    using q inv_registers [OF assms] inv_update_mode [OF assms] assms
    by simp
qed

lemma inv_write_data:
  assumes "inv (d, p)" shows "inv (kbd_write_data set_irq rst val (d, p))"
proof -
  have "inv (on_kbd set_irq (\<lambda>upd. ps2_write_keyboard upd (sint val)) (d, p))"
    by (intro inv_on_kbd assms kh.synced_write_keyboard)
  moreover have "inv (on_mouse set_irq (\<lambda>upd. ps2_write_mouse upd (sint val)) (d, p))"
    by (intro inv_on_mouse assms mh.synced_write_mouse)
  moreover have "inv (on_ctl (kbd_update_irq set_irq)
      ((set_mode (\<lambda>_. ucast val) d)\<lparr>kbd := ps2_keyboard_set_translation b (kbd d)\<rparr>, p))" for b
    by (rule inv_update_irq [OF assms]) (auto simp: set_mode_def ps2_keyboard_set_translation_def)
  moreover note assms inv_kbd_queue [OF assms] inv_registers(5) [OF assms]
  ultimately have r: "inv (if kwrite_cmd (ctl d) = 0 then on_kbd set_irq (\<lambda>upd. ps2_write_keyboard upd (sint val)) (d, p)
      else if kwrite_cmd (ctl d) = 0x60 then
        on_ctl (kbd_update_irq set_irq) ((set_mode (\<lambda>_. ucast val) d)
          \<lparr>kbd := ps2_keyboard_set_translation ((ucast val :: u8) AND KBD_MODE_KCC \<noteq> 0) (kbd d)\<rparr>, p)
      else if kwrite_cmd (ctl d) = 0xD2 then kbd_queue set_irq (sint val) False (d, p)
      else if kwrite_cmd (ctl d) = 0xD3 then kbd_queue set_irq (sint val) True (d, p)
      else if kwrite_cmd (ctl d) = 0xD1 then (d, if val AND 1 = 0 then rst p else p)
      else if kwrite_cmd (ctl d) = 0xD4 then on_mouse set_irq (\<lambda>upd. ps2_write_mouse upd (sint val)) (d, p)
      else (d, p))" (is "inv ?r")
    by simp
  obtain d' p' where "?r = (d', p')" by (cases ?r)
  with r show ?thesis
    unfolding kbd_write_data_def Let_def case_prod_conv by (simp only: case_prod_conv inv_registers(1))
qed

lemma inv_step: "inv x \<Longrightarrow> inv (kbc_step set_irq rst op x)"
  by (cases x; cases op)
    (auto simp: inv_write_command inv_write_data inv_read_data
      intro!: inv_on_kbd inv_on_mouse kh.synced_put_keycode kh.synced_kbd_step mh.synced_mouse_event)

lemma inv_run: "inv x \<Longrightarrow> inv (fold (kbc_step set_irq rst) ops x)"
  by (induction ops arbitrary: x) (simp_all add: inv_step)

lemma inv_init: "ok p \<Longrightarrow> \<not> line p k \<Longrightarrow> \<not> line p m \<Longrightarrow> inv (i8042_init k m, p)"
  by (simp add: inv_def linked_def wired_def ctl_follows_def kbd_level_def mouse_level_def i8042_init_def
      kbd_reset_def ps2_kbd_init_def ps2_mouse_init_def ps2_reset_def ps2_zero_def queue_ok_def bit_simps)

end

context kbc_host
begin

lemma pending_kbd_irq:
  assumes "linked False mb (c, p)" "bit (mode c) 0" "\<not> bit (mode c) 4"
    and "kbd_update_kbd_irq set_irq (c, p) True = (c', p')"
  shows "pending_line p' k"
proof -
  let ?c = "c\<lparr>pending := pending c OR 1\<rparr>"
  have 1: "ok p" "irq_kbd c = k" "irq_mouse c = m" "\<not> line p k"
    using assms(1) by (simp_all add: linked_def wired_def kbd_level_def)
  have nz: "pending c OR 1 \<noteq> 2" "pending c OR 1 \<noteq> 0"
    using assms(1) by (auto simp: linked_def ctl_follows_def)
  have "p' = set_irq (set_irq p k True) m False"
    using assms(2-4) nz 1 unfolding kbd_update_kbd_irq_def case_prod_conv kbd_update_irq_eq
    by (auto simp: Let_def and_bits)
  then show ?thesis using 1 valid_lines by (simp add: pending_set ok_set line_set)
qed

lemma inv_level:
  assumes "inv (d, p)"
  shows "line p k = kbd_level (kbd_data d \<noteq> []) (ctl d)"
    and "ctl_follows (kbd_data d \<noteq> []) (mouse_data d \<noteq> []) (ctl d)"
  using assms by (simp_all add: inv_def linked_def kbd_data_def mouse_data_def)

lemma read_kbd_byte:
  assumes "inv (d, p)" "kbd_data d = b # bs"
  shows "\<exists>d' p'. kbd_read_data set_irq (d, p) = (b, d', p') \<and> kbd_data d' = bs \<and> inv (d', p')"
proof -
  have ok: "queue_ok (queue (common (kbd d)))" using assms(1) by (simp add: inv_def)
  have np: "pending (ctl d) \<noteq> 2"
    using inv_level(2) [OF assms(1)] assms(2) by (auto simp: ctl_follows_def)
  obtain s u where r: "ps2_read_data (kbd_update_kbd_irq set_irq) (common (kbd d), ctl d, p) = (b, s, u)"
      "contents (queue s) = bs"
    using ps2_fifo.get_cons [of "(common (kbd d), ctl d, p)" b bs "kbd_update_kbd_irq set_irq"] ok assms(2)
    by (auto simp: kbd_data_def)
  obtain c p' where u: "u = (c, p')" by (cases u)
  let ?d = "d\<lparr>kbd := (kbd d)\<lparr>common := s\<rparr>, ctl := c\<rparr>"
  have "kbd_read_data set_irq (d, p) = (b, ?d, p')" using np r u by (simp add: kbd_read_data_def)
  moreover have "inv (?d, p')" using inv_read_data [OF assms(1)] calculation by simp
  ultimately show ?thesis using r(2) by (auto simp: kbd_data_def)
qed

lemma keypress:
  assumes "inv (d, p)" "kbd_data d = []" "\<not> delay (kbd d)" "key < 96"
    and "bit (mode (ctl d)) 0" "\<not> bit (mode (ctl d)) 4"
  shows "\<exists>d' p'. kbc_step set_irq rst (PutKeycode down key now) (d, p) = (d', p') \<and> inv (d', p') \<and>
    pending_line p' k \<and> kbd_data d' = [of_int (if down then key else key OR 0x80)] \<and> mode (ctl d') = mode (ctl d)"
proof -
  let ?upd = "kbd_update_kbd_irq set_irq" and ?b = "if down then key else key OR 0x80"
  let ?s = "common (kbd d)"
  have c0: "count (queue ?s) = 0" using assms(2) by (simp add: kbd_data_def)
  have l: "linked False (count (queue (mcommon (mouse d))) \<noteq> 0) (ctl d, p)" and ok: "queue_ok (queue ?s)"
    using assms(1) c0 by (simp_all add: inv_def)
  obtain c' p' where u: "?upd (ctl d, p) True = (c', p')" by (metis surj_pair)
  let ?d = "d\<lparr>kbd := (kbd d)\<lparr>common := ?s\<lparr>queue := queue_put (queue ?s) ?b\<rparr>\<rparr>, ctl := c'\<rparr>"
  have step: "kbc_step set_irq rst (PutKeycode down key now) (d, p) = (?d, p')"
    using assms(3,4) c0 u
    by (simp add: on_kbd_def ps2_put_keycode_def kbd_queues_def ps2_queues_def ps2_queue_def)
  have "inv (?d, p')" using inv_step [OF assms(1), of "PutKeycode down key now"] unfolding step .
  moreover have "pending_line p' k" using pending_kbd_irq [OF l assms(5,6) u] .
  moreover have "contents (queue_put (queue ?s) ?b) = [of_int ?b]"
    using contents_put [OF ok, of ?b] c0 by (simp add: contents_def)
  then have "kbd_data ?d = [of_int ?b]" by (simp add: kbd_data_def)
  moreover have "mode (ctl ?d) = mode (ctl d)"
    using u by (auto simp: kbd_update_kbd_irq_def kbd_update_irq_eq Let_def)
  ultimately show ?thesis using step by blast
qed

end

end
