(* ===== verification/PIT.thy ===== *)
theory PIT
  imports Interrupts
begin

text \<open>
  The 8254 interval timer of \<open>source/winspire/i8254.c\<close>.  The three channels are
  an array of the C state, modelled as a function of the index that is read
  through \<open>pit_channel\<close>, which fails outside the array.  Every reading of the
  host clock \<open>get_uticks()\<close> is an argument: a routine that reads the clock more
  than once takes one argument, or one value of a function \<open>t\<close>, per call.  A
  division by a zero count is a \<open>fault\<close>, and that it never happens is proved.
\<close>

section \<open>State\<close>

record PITChannelState =
  count :: u32
  latched_count :: u16
  count_latched :: u8
  status_latched :: u8
  status :: u8
  read_state :: u8
  write_state :: u8
  write_latch :: u8
  rw_mode :: u8
  mode :: u8
  bcd :: u8
  gate :: u8
  count_load_time :: u32
  last_irq_count :: u32
  irq :: int

record PITState =
  channels :: "nat \<Rightarrow> PITChannelState"

definition pit_channel :: "PITState \<Rightarrow> nat \<Rightarrow> PITChannelState result" where
  "pit_channel pit n = (if n < 3 then Inr (channels pit n) else Inl OutOfBounds)"

definition set_channel :: "nat \<Rightarrow> PITChannelState \<Rightarrow> PITState \<Rightarrow> PITState" where
  "set_channel n s pit = pit\<lparr>channels := (channels pit)(n := s)\<rparr>"

abbreviation (input) "RW_STATE_LSB \<equiv> 1 :: u8"
abbreviation (input) "RW_STATE_MSB \<equiv> 2 :: u8"
abbreviation (input) "RW_STATE_WORD0 \<equiv> 3 :: u8"
abbreviation (input) "RW_STATE_WORD1 \<equiv> 4 :: u8"

definition PIT_FREQ :: u64 where
  "PIT_FREQ = 1193182"

section \<open>Operations\<close>

text \<open>
  Timer ticks since the count was loaded:
  \<open>((uint64_t) (now - s->count_load_time)) * PIT_FREQ / 1000000\<close>, stored in a
  \<open>uint32_t\<close>.
\<close>

definition pit_ticks :: "PITChannelState \<Rightarrow> u32 \<Rightarrow> u32" where
  "pit_ticks s now = ucast ((ucast (now - count_load_time s) :: u64) * PIT_FREQ div 1000000)"

text \<open>The \<open>%\<close> operator on \<open>uint32_t\<close>.\<close>

definition umod32 :: "u32 \<Rightarrow> u32 \<Rightarrow> u32 result" where
  "umod32 a b = (if b = 0 then Inl DivByZero else Inr (a mod b))"

definition pit_get_count :: "PITChannelState \<Rightarrow> u32 \<Rightarrow> u32 result" where
  "pit_get_count s now =
     (let d = pit_ticks s now
      in if mode s \<in> {0, 1, 4, 5} then Inr ((count s - d) AND 0xffff)
         else if mode s = 3 then bind_result (umod32 (2 * d) (count s)) (\<lambda>r. Inr (count s - r))
         else bind_result (umod32 d (count s)) (\<lambda>r. Inr (count s - r)))"

definition pit_get_out1 :: "PITChannelState \<Rightarrow> u32 \<Rightarrow> bool result" where
  "pit_get_out1 s current_time =
     (let d = pit_ticks s current_time
      in if mode s = 1 then Inr (d < count s)
         else if mode s = 2 then bind_result (umod32 d (count s)) (\<lambda>r. Inr (r = 0 \<and> d \<noteq> 0))
         else if mode s = 3 then
           bind_result (umod32 d (count s)) (\<lambda>r. Inr (r < drop_bit 1 (count s + 1)))
         else if mode s = 4 \<or> mode s = 5 then Inr (d = count s)
         else Inr (count s \<le> d))"

definition pit_load_count :: "PITChannelState \<Rightarrow> u32 \<Rightarrow> u32 \<Rightarrow> PITChannelState" where
  "pit_load_count s val now =
     (let val = (if val = 0 then 0x10000 else val)
      in s\<lparr>count_load_time := now, last_irq_count := 0, count := val\<rparr>)"

definition pit_latch_count :: "PITChannelState \<Rightarrow> u32 \<Rightarrow> PITChannelState result" where
  "pit_latch_count s now =
     (if count_latched s = 0 then
        bind_result (pit_get_count s now)
          (\<lambda>c. Inr (s\<lparr>latched_count := ucast c, count_latched := rw_mode s\<rparr>))
      else Inr s)"

text \<open>One round of the read-back loop: \<open>t0\<close> and \<open>t1\<close> are its two clock readings.\<close>

definition pit_read_back :: "PITChannelState \<Rightarrow> nat \<Rightarrow> u32 \<Rightarrow> u32 \<Rightarrow> u32 \<Rightarrow> PITChannelState result" where
  "pit_read_back s channel val t0 t1 =
     (if val AND push_bit channel 2 \<noteq> 0 then
        bind_result (if val AND 0x20 = 0 then pit_latch_count s t0 else Inr s)
          (\<lambda>s. if val AND 0x10 = 0 \<and> status_latched s = 0 then
                 bind_result (pit_get_out1 s t1)
                   (\<lambda>out. Inr (s\<lparr>status := push_bit 7 (of_bool out) OR push_bit 4 (rw_mode s) OR
                                          push_bit 1 (mode s) OR bcd s,
                               status_latched := 1\<rparr>))
               else Inr s)
      else Inr s)"

fun pit_read_back_loop :: "nat list \<Rightarrow> PITState \<Rightarrow> u32 \<Rightarrow> (nat \<Rightarrow> u32) \<Rightarrow> PITState result" where
  "pit_read_back_loop [] pit val t = Inr pit"
| "pit_read_back_loop (n # ns) pit val t =
     bind_result (pit_read_back (channels pit n) n val (t (2 * n)) (t (2 * n + 1)))
       (\<lambda>s. pit_read_back_loop ns (set_channel n s pit) val t)"

definition pit_set_control :: "PITChannelState \<Rightarrow> u32 \<Rightarrow> u8 \<Rightarrow> PITChannelState" where
  "pit_set_control s val access =
     (let m = ucast (drop_bit 1 val AND 7) :: u8;
          m = (if m > 5 then m AND 3 else m)
      in s\<lparr>rw_mode := access, read_state := access, write_state := access,
           mode := m, bcd := ucast (val AND 1)\<rparr>)"

definition pit_write_data :: "PITChannelState \<Rightarrow> u32 \<Rightarrow> u32 \<Rightarrow> PITChannelState" where
  "pit_write_data s val now =
     (if write_state s = RW_STATE_MSB then pit_load_count s (push_bit 8 val) now
      else if write_state s = RW_STATE_WORD0 then
        s\<lparr>write_latch := ucast val, write_state := RW_STATE_WORD1\<rparr>
      else if write_state s = RW_STATE_WORD1 then
        (pit_load_count s (ucast (write_latch s) OR push_bit 8 val) now)
          \<lparr>write_state := RW_STATE_WORD0\<rparr>
      else pit_load_count s val now)"

definition i8254_ioport_write :: "PITState \<Rightarrow> u32 \<Rightarrow> u32 \<Rightarrow> (nat \<Rightarrow> u32) \<Rightarrow> PITState result" where
  "i8254_ioport_write pit addr val t =
     (let addr = addr AND 3
      in if addr = 3 then
           (let channel = unat (drop_bit 6 val)
            in if channel = 3 then pit_read_back_loop [0, 1, 2] pit val t
               else
                 bind_result (pit_channel pit channel)
                   (\<lambda>s. let access = ucast (drop_bit 4 val AND 3) :: u8
                        in if access = 0 then
                             bind_result (pit_latch_count s (t 0))
                               (\<lambda>s. Inr (set_channel channel s pit))
                           else Inr (set_channel channel (pit_set_control s val access) pit)))
         else
           bind_result (pit_channel pit (unat addr))
             (\<lambda>s. Inr (set_channel (unat addr) (pit_write_data s val (t 0)) pit)))"

definition pit_read_latched :: "PITChannelState \<Rightarrow> u32 \<times> PITChannelState" where
  "pit_read_latched s =
     (if count_latched s = RW_STATE_MSB then
        (ucast (drop_bit 8 (latched_count s)), s\<lparr>count_latched := 0\<rparr>)
      else if count_latched s = RW_STATE_WORD0 then
        (ucast (latched_count s AND 0xff), s\<lparr>count_latched := RW_STATE_MSB\<rparr>)
      else (ucast (latched_count s AND 0xff), s\<lparr>count_latched := 0\<rparr>))"

definition pit_read_current :: "PITChannelState \<Rightarrow> u32 \<Rightarrow> (u32 \<times> PITChannelState) result" where
  "pit_read_current s now =
     bind_result (pit_get_count s now)
       (\<lambda>c. if read_state s = RW_STATE_MSB then Inr (drop_bit 8 c AND 0xff, s)
            else if read_state s = RW_STATE_WORD0 then
              Inr (c AND 0xff, s\<lparr>read_state := RW_STATE_WORD1\<rparr>)
            else if read_state s = RW_STATE_WORD1 then
              Inr (drop_bit 8 c AND 0xff, s\<lparr>read_state := RW_STATE_WORD0\<rparr>)
            else Inr (c AND 0xff, s))"

definition pit_read_channel :: "PITChannelState \<Rightarrow> u32 \<Rightarrow> (u32 \<times> PITChannelState) result" where
  "pit_read_channel s now =
     (if status_latched s \<noteq> 0 then Inr (ucast (status s), s\<lparr>status_latched := 0\<rparr>)
      else if count_latched s \<noteq> 0 then Inr (pit_read_latched s)
      else pit_read_current s now)"

definition i8254_ioport_read :: "PITState \<Rightarrow> u32 \<Rightarrow> u32 \<Rightarrow> (u32 \<times> PITState) result" where
  "i8254_ioport_read pit addr now =
     (let addr = unat (addr AND 3)
      in bind_result (pit_channel pit addr)
           (\<lambda>s. bind_result (pit_read_channel s now)
              (\<lambda>(ret, s). Inr (ret, set_channel addr s pit))))"

definition pit_reset_channel :: "nat \<Rightarrow> u32 \<Rightarrow> PITChannelState \<Rightarrow> PITChannelState" where
  "pit_reset_channel i now s =
     (pit_load_count (s\<lparr>mode := 3, gate := of_bool (i \<noteq> 2)\<rparr>) 0 now)\<lparr>irq := -1\<rparr>"

definition pit_reset :: "PITState \<Rightarrow> (nat \<Rightarrow> u32) \<Rightarrow> PITState" where
  "pit_reset pit t =
     foldl (\<lambda>pit i. set_channel i (pit_reset_channel i (t i) (channels pit i)) pit) pit [0, 1, 2]"

text \<open>
  \<open>i8254_update_irq\<close> is called once per emulation batch; \<open>p\<close> is the interrupt
  controller, \<open>now\<close> the first and \<open>now2\<close> the second clock reading.
\<close>

definition i8254_update_irq ::
    "('p \<Rightarrow> nat \<Rightarrow> bool \<Rightarrow> 'p) \<Rightarrow> PITState \<Rightarrow> 'p \<Rightarrow> u32 \<Rightarrow> u32 \<Rightarrow> (PITState \<times> 'p) result" where
  "i8254_update_irq set_irq pit p uticks now2 =
     (let s = channels pit 0; d = pit_ticks s uticks
      in if mode s = 2 \<or> mode s = 3 then
           bind_result (umod32 d (count s))
             (\<lambda>r. let due_count = d - r; pending = due_count - last_irq_count s
                  in if pending < count s then Inr (pit, p)
                     else if irq s \<noteq> -1 then
                       (let p = set_irq p (nat (irq s)) True;
                            p = set_irq p (nat (irq s)) False;
                            s = s\<lparr>last_irq_count := due_count\<rparr>;
                            s = (if uticks - count_load_time s > push_bit 31 1
                                 then pit_load_count s (count s) now2 else s)
                        in Inr (set_channel 0 s pit, p))
                     else Inr (pit, p))
         else if mode s \<in> {0, 1, 4, 5} then
           (if last_irq_count s = 0 \<and> count s \<le> d \<and> irq s \<noteq> -1 then
              (let p = set_irq p (nat (irq s)) True;
                   p = set_irq p (nat (irq s)) False
               in Inr (set_channel 0 (s\<lparr>last_irq_count := count s\<rparr>) pit, p))
            else Inr (pit, p))
         else Inr (pit, p))"

definition pit_zero :: PITChannelState where
  "pit_zero = \<lparr>count = 0, latched_count = 0, count_latched = 0, status_latched = 0, status = 0,
     read_state = 0, write_state = 0, write_latch = 0, rw_mode = 0, mode = 0, bcd = 0, gate = 0,
     count_load_time = 0, last_irq_count = 0, irq = 0\<rparr>"

definition i8254_init :: "int \<Rightarrow> (nat \<Rightarrow> u32) \<Rightarrow> PITState" where
  "i8254_init irq_num t =
     (let pit = pit_reset \<lparr>channels = (\<lambda>_. pit_zero)\<rparr> t
      in set_channel 0 ((channels pit 0)\<lparr>irq := irq_num\<rparr>) pit)"

definition i8254_rebase :: "PITState \<Rightarrow> u32 \<Rightarrow> PITState" where
  "i8254_rebase pit now =
     foldl (\<lambda>pit i. set_channel i ((channels pit i)\<lparr>count_load_time := now, last_irq_count := 0\<rparr>) pit)
       pit [0, 1, 2]"

definition pit_get_out :: "PITState \<Rightarrow> nat \<Rightarrow> u32 \<Rightarrow> bool result" where
  "pit_get_out pit channel now = bind_result (pit_channel pit channel) (\<lambda>s. pit_get_out1 s now)"

definition pit_get_gate :: "PITState \<Rightarrow> nat \<Rightarrow> u8 result" where
  "pit_get_gate pit channel = bind_result (pit_channel pit channel) (\<lambda>s. Inr (gate s))"

definition pit_set_gate :: "PITState \<Rightarrow> nat \<Rightarrow> u8 \<Rightarrow> u32 \<Rightarrow> PITState result" where
  "pit_set_gate pit channel val now =
     bind_result (pit_channel pit channel)
       (\<lambda>s. let s = (if mode s \<in> {1, 5, 2, 3} \<and> gate s < val
                     then s\<lparr>count_load_time := now\<rparr> else s)
            in Inr (set_channel channel (s\<lparr>gate := val\<rparr>) pit))"

definition pit_get_initial_count :: "PITState \<Rightarrow> nat \<Rightarrow> u32 result" where
  "pit_get_initial_count pit channel = bind_result (pit_channel pit channel) (\<lambda>s. Inr (count s))"

definition pit_get_mode :: "PITState \<Rightarrow> nat \<Rightarrow> u8 result" where
  "pit_get_mode pit channel = bind_result (pit_channel pit channel) (\<lambda>s. Inr (mode s))"


section \<open>Specification vocabulary\<close>

definition chan_wf :: "PITChannelState \<Rightarrow> bool" where
  "chan_wf s \<longleftrightarrow> count s \<noteq> 0 \<and> count s \<le> 0x10000 \<and> mode s \<le> 5 \<and> rw_mode s \<le> 3 \<and>
     count_latched s \<le> 3 \<and> read_state s \<le> 4 \<and> write_state s \<le> 4"

definition pit_wf :: "PITState \<Rightarrow> bool" where
  "pit_wf pit \<longleftrightarrow> (\<forall>n<3. chan_wf (channels pit n))"

text \<open>An interrupt controller that only records what was driven onto its lines.\<close>

definition record_irq :: "(nat \<times> bool) list \<Rightarrow> nat \<Rightarrow> bool \<Rightarrow> (nat \<times> bool) list" where
  "record_irq log n l = log @ [(n, l)]"

inductive pit_reach :: "PITState \<Rightarrow> bool" where
  start: "pit_reach (i8254_init n t)"
| port_write: "pit_reach pit \<Longrightarrow> val < 0x100 \<Longrightarrow> i8254_ioport_write pit addr val t = Inr pit' \<Longrightarrow> pit_reach pit'"
| port_read: "pit_reach pit \<Longrightarrow> i8254_ioport_read pit addr now = Inr (v, pit') \<Longrightarrow> pit_reach pit'"
| poll_irq: "pit_reach pit \<Longrightarrow> i8254_update_irq record_irq pit log now now2 = Inr (pit', log') \<Longrightarrow> pit_reach pit'"
| set_gate: "pit_reach pit \<Longrightarrow> pit_set_gate pit n g now = Inr pit' \<Longrightarrow> pit_reach pit'"
| rebase: "pit_reach pit \<Longrightarrow> pit_reach (i8254_rebase pit now)"

fun poll_all :: "PITState \<Rightarrow> (nat \<times> bool) list \<Rightarrow> u32 list \<Rightarrow> (PITState \<times> (nat \<times> bool) list) result" where
  "poll_all pit log [] = Inr (pit, log)"
| "poll_all pit log (t # ts) =
     bind_result (i8254_update_irq record_irq pit log t t) (\<lambda>(pit, log). poll_all pit log ts)"

definition pulses :: "nat \<Rightarrow> nat \<Rightarrow> (nat \<times> bool) list" where
  "pulses line n = concat (replicate n [(line, True), (line, False)])"

definition elapsed_ticks :: "PITChannelState \<Rightarrow> u32 \<Rightarrow> nat" where
  "elapsed_ticks s now = unat (now - count_load_time s) * 1193182 div 1000000"

section \<open>Well-formedness\<close>

lemma set_channel_simps [simp]:
  "channels (set_channel n s pit) m = (if m = n then s else channels pit m)"
  by (simp add: set_channel_def)

lemma pit_channel_Inr [simp]: "n < 3 \<Longrightarrow> pit_channel pit n = Inr (channels pit n)"
  by (simp add: pit_channel_def)

lemma pit_wf_set_channel: "pit_wf pit \<Longrightarrow> chan_wf s \<Longrightarrow> pit_wf (set_channel n s pit)"
  by (simp add: pit_wf_def)

lemma umod32_returns [simp]: "b \<noteq> 0 \<Longrightarrow> umod32 a b = Inr (a mod b)"
  by (simp add: umod32_def)

lemma pit_get_count_returns: "chan_wf s \<Longrightarrow> \<exists>c. pit_get_count s now = Inr c"
  by (auto simp: pit_get_count_def chan_wf_def Let_def)

lemma pit_get_out1_returns: "chan_wf s \<Longrightarrow> \<exists>c. pit_get_out1 s now = Inr c"
  by (auto simp: pit_get_out1_def chan_wf_def Let_def)

lemma pit_latch_count_wf:
  assumes "chan_wf s" shows "\<exists>s'. pit_latch_count s now = Inr s' \<and> chan_wf s'"
proof -
  obtain c where "pit_get_count s now = Inr c" using pit_get_count_returns [OF assms] by blast
  with assms show ?thesis by (simp add: pit_latch_count_def chan_wf_def)
qed

lemma pit_read_back_wf:
  assumes "chan_wf s" shows "\<exists>s'. pit_read_back s n val t0 t1 = Inr s' \<and> chan_wf s'"
proof -
  obtain s1 where s1: "(if val AND 0x20 = 0 then pit_latch_count s t0 else Inr s) = Inr s1" "chan_wf s1"
    using assms pit_latch_count_wf [OF assms, of t0] by (metis (full_types))
  obtain b where "pit_get_out1 s1 t1 = Inr b" using pit_get_out1_returns [OF s1(2)] by blast
  with s1 assms show ?thesis by (auto simp: pit_read_back_def chan_wf_def)
qed

lemma pit_read_back_loop_wf:
  "pit_wf pit \<Longrightarrow> \<forall>n \<in> set ns. n < 3 \<Longrightarrow> \<exists>pit'. pit_read_back_loop ns pit val t = Inr pit' \<and> pit_wf pit'"
proof (induction ns arbitrary: pit)
  case (Cons n ns)
  then have "chan_wf (channels pit n)" by (simp add: pit_wf_def)
  then obtain s where "pit_read_back (channels pit n) n val (t (2 * n)) (t (2 * n + 1)) = Inr s" "chan_wf s"
    using pit_read_back_wf by blast
  with Cons show ?case by (simp add: pit_wf_set_channel)
qed simp

lemma pit_mode_bound: "(if m > 5 then m AND 3 else m) \<le> (5 :: u8)"
proof -
  have "m AND 3 \<le> 3" by (rule word_and_le1)
  then have "m AND 3 \<le> 5" by (rule order_trans) simp
  then show ?thesis by auto
qed

lemma ucast_and_3_le: "ucast (x AND 3 :: u32) \<le> (3 :: u8)"
proof -
  have "unat (x AND 3) \<le> 3" using unat_and_le_right [of x 3] by simp
  then show ?thesis by (simp add: word_le_nat_alt unat_ucast_mod)
qed

lemma pit_set_control_wf: "chan_wf s \<Longrightarrow> access \<le> 3 \<Longrightarrow> chan_wf (pit_set_control s val access)"
  using pit_mode_bound [of "ucast (drop_bit 1 val AND 7)"] order_trans [of access 3 4]
  by (simp add: chan_wf_def pit_set_control_def Let_def del: One_nat_def)

lemma pit_load_count_wf: "chan_wf s \<Longrightarrow> val \<le> 0x10000 \<Longrightarrow> chan_wf (pit_load_count s val now)"
  by (simp add: chan_wf_def pit_load_count_def Let_def)

lemma byte_word:
  assumes "(hi :: u32) < 0x100"
  shows "unat (ucast (lo :: u8) OR push_bit 8 hi) = unat lo + 256 * unat hi"
    and "unat (push_bit 8 hi) = 256 * unat hi"
proof -
  have hi: "unat hi < 256" using assms by (simp add: word_less_nat_alt)
  show p: "unat (push_bit 8 hi) = 256 * unat hi"
    using hi by (simp add: push_bit_eq_mult unat_word_ariths)
  have "ucast lo OR push_bit 8 hi = (ucast lo :: u32) + push_bit 8 hi"
    by (rule disjunctive_add_eq_or [symmetric], rule bit_word_eqI) (auto simp: bit_simps dest: bit_imp_le_length)
  then show "unat (ucast lo OR push_bit 8 hi) = unat lo + 256 * unat hi"
    using hi unat_u8_less [of lo] p
    by (simp add: unat_word_ariths unat_ucast_mod)
qed

lemma pit_write_data_wf:
  assumes "chan_wf s" "val < 0x100" shows "chan_wf (pit_write_data s val now)"
proof -
  have v: "unat val < 256" using assms(2) by (simp add: word_less_nat_alt)
  then have "val \<le> 0x10000" "push_bit 8 val \<le> 0x10000" "ucast (write_latch s) OR push_bit 8 val \<le> 0x10000"
    using byte_word [OF assms(2)] unat_u8_less [of "write_latch s"]
    by (simp_all add: word_le_nat_alt)
  with assms(1) show ?thesis
    by (auto simp: pit_write_data_def pit_load_count_def Let_def chan_wf_def)
qed

lemma data_port_index: "(addr :: u32) AND 3 \<noteq> 3 \<Longrightarrow> unat (addr AND 3) < 3"
  using unat_and_le_right [of addr 3] word_unat_eq_iff [of "addr AND 3" 3] by simp

lemma i8254_ioport_write_wf:
  assumes "pit_wf pit" "val < 0x100"
  shows "\<exists>pit'. i8254_ioport_write pit addr val t = Inr pit' \<and> pit_wf pit'"
proof (cases "addr AND 3 = 3")
  case False
  then have n: "unat (addr AND 3) < 3" by (rule data_port_index)
  then have "chan_wf (channels pit (unat (addr AND 3)))" using assms(1) by (simp add: pit_wf_def)
  with n False assms show ?thesis
    by (simp add: i8254_ioport_write_def Let_def pit_wf_set_channel pit_write_data_wf)
next
  case True
  let ?ch = "unat (drop_bit 6 val)"
  have "?ch < 4" using assms(2) by (simp add: drop_bit_eq_div unat_div_distrib word_less_nat_alt less_mult_imp_div_less)
  then consider "?ch = 3" | "?ch < 3" by linarith
  then show ?thesis
  proof cases
    case 1
    with True pit_read_back_loop_wf [OF assms(1), of "[0, 1, 2]" val t] show ?thesis
      by (simp add: i8254_ioport_write_def)
  next
    case 2
    then have wf: "chan_wf (channels pit ?ch)" using assms(1) by (simp add: pit_wf_def)
    then obtain s' where "pit_latch_count (channels pit ?ch) (t 0) = Inr s'" "chan_wf s'"
      using pit_latch_count_wf by blast
    with 2 True wf assms(1) show ?thesis
      by (simp add: i8254_ioport_write_def Let_def pit_wf_set_channel pit_set_control_wf ucast_and_3_le)
  qed
qed

lemma pit_read_latched_wf: "chan_wf s \<Longrightarrow> chan_wf (snd (pit_read_latched s))"
  by (simp add: chan_wf_def pit_read_latched_def)

lemma pit_read_current_wf:
  assumes "chan_wf s" shows "\<exists>v s'. pit_read_current s now = Inr (v, s') \<and> chan_wf s'"
proof -
  obtain c where "pit_get_count s now = Inr c" using pit_get_count_returns [OF assms] by blast
  with assms show ?thesis by (simp add: pit_read_current_def chan_wf_def)
qed

lemma pit_read_channel_wf:
  assumes "chan_wf s" shows "\<exists>v s'. pit_read_channel s now = Inr (v, s') \<and> chan_wf s'"
  using pit_read_latched_wf [OF assms] pit_read_current_wf [OF assms, of now] assms
  by (cases "pit_read_latched s") (auto simp: pit_read_channel_def chan_wf_def)

lemma i8254_ioport_read_wf:
  assumes "pit_wf pit" "addr AND 3 \<noteq> 3"
  shows "\<exists>v pit'. i8254_ioport_read pit addr now = Inr (v, pit') \<and> pit_wf pit'"
proof -
  let ?s = "channels pit (unat (addr AND 3))"
  have n: "unat (addr AND 3) < 3" using assms(2) by (rule data_port_index)
  then obtain v s where "pit_read_channel ?s now = Inr (v, s)" "chan_wf s"
    using assms(1) pit_read_channel_wf [of ?s now] by (auto simp: pit_wf_def)
  with n assms(1) show ?thesis by (simp add: i8254_ioport_read_def pit_wf_set_channel)
qed

lemma i8254_update_irq_wf:
  assumes "pit_wf pit"
  shows "\<exists>pit' p'. i8254_update_irq f pit p now now2 = Inr (pit', p') \<and> pit_wf pit'"
proof -
  have "chan_wf (channels pit 0)" using assms by (simp add: pit_wf_def)
  then have "count (channels pit 0) \<noteq> 0" "chan_wf ((channels pit 0)\<lparr>last_irq_count := x\<rparr>)"
    "chan_wf (pit_load_count ((channels pit 0)\<lparr>last_irq_count := x\<rparr>) (count (channels pit 0)) now2)" for x
    by (auto simp: chan_wf_def pit_load_count_def)
  with assms show ?thesis
    by (simp add: i8254_update_irq_def Let_def pit_wf_set_channel)
qed

lemma pit_init_wf: "pit_wf (i8254_init n t)"
  by (simp add: i8254_init_def pit_reset_def pit_reset_channel_def pit_load_count_def pit_wf_def
      chan_wf_def pit_zero_def)

lemma pit_rebase_wf: "pit_wf pit \<Longrightarrow> pit_wf (i8254_rebase pit now)"
  by (simp add: i8254_rebase_def pit_wf_def chan_wf_def)

lemma pit_set_gate_wf: "pit_wf pit \<Longrightarrow> pit_set_gate pit n g now = Inr pit' \<Longrightarrow> pit_wf pit'"
  by (auto simp: pit_set_gate_def pit_channel_def Let_def pit_wf_def chan_wf_def split: if_splits)

lemma pit_reach_wf: "pit_reach pit \<Longrightarrow> pit_wf pit"
proof (induction rule: pit_reach.induct)
  case (start n t)
  show ?case by (rule pit_init_wf)
next
  case (port_write pit val addr t pit')
  then show ?case using i8254_ioport_write_wf [of pit val addr t] by auto
next
  case (port_read pit addr now v pit')
  then have "addr AND 3 \<noteq> 3" by (auto simp: i8254_ioport_read_def pit_channel_def)
  with port_read show ?case using i8254_ioport_read_wf [of pit addr now] by auto
next
  case (poll_irq pit log now now2 pit' log')
  then show ?case using i8254_update_irq_wf [of pit record_irq log now now2] by auto
qed (auto intro: pit_set_gate_wf pit_rebase_wf)

lemma pit_control_word:
  assumes "n < 3" "m \<le> 5"
  shows "i8254_ioport_write pit 0x43 (of_nat (64 * n + 0x30 + 2 * m)) t =
    Inr (set_channel n ((channels pit n)\<lparr>rw_mode := 3, read_state := 3, write_state := 3,
           mode := of_nat m, bcd := 0\<rparr>) pit)"
proof -
  have "n \<in> {0, 1, 2}" and "m \<in> {0, 1, 2, 3, 4, 5}" using assms by auto
  then show ?thesis
    by (elim insertE emptyE)
      (simp_all add: i8254_ioport_write_def pit_set_control_def)
qed

lemma pit_data_port:
  assumes "n < 3"
  shows "i8254_ioport_write pit (0x40 + of_nat n) val t =
    Inr (set_channel n (pit_write_data (channels pit n) val (t 0)) pit)"
proof -
  have "n \<in> {0, 1, 2}" using assms by auto
  then show ?thesis
    by (elim insertE emptyE) (simp_all add: i8254_ioport_write_def)
qed

section \<open>Tick counting\<close>

lemma word_bytes:
  "unat (ucast ((x :: u16) AND 0xff) :: u32) + 256 * unat (ucast (drop_bit 8 x) :: u32) = unat x"
proof -
  have "x AND 0xff = take_bit 8 x" by (simp add: take_bit_eq_mask mask_eq_exp_minus_1)
  then have "unat (x AND 0xff) = unat x mod 256"
    by (simp only: unsigned_take_bit_eq) (simp add: take_bit_eq_mod)
  moreover have "unat (drop_bit 8 x) = unat x div 256"
    by (simp add: drop_bit_eq_div unat_div_distrib)
  moreover have "unat x < 65536" using unsigned_less [of x] by simp
  ultimately show ?thesis by (simp add: unat_ucast_mod)
qed

lemma pulses_simps [simp]:
  "pulses line 0 = []" "pulses line (Suc n) = (line, True) # (line, False) # pulses line n"
  by (simp_all add: pulses_def)

lemma pulse_record_irq: "pulse record_irq log n = log @ pulses n 1"
  by (simp add: pulse_def record_irq_def)

lemma unat_pit_ticks:
  assumes "unat (now - count_load_time s) \<le> 2 ^ 31"
  shows "unat (pit_ticks s now) = elapsed_ticks s now"
proof -
  let ?d = "unat (now - count_load_time s)"
  have "?d * 1193182 \<le> 2 ^ 31 * 1193182" using assms by (rule mult_le_mono1)
  then have "?d * 1193182 < 2 ^ 64" "?d * 1193182 div 1000000 < 2 ^ 32" by simp_all
  moreover have "unat (ucast (now - count_load_time s) :: u64) = ?d"
    using assms by (simp add: unat_ucast_mod)
  ultimately show ?thesis
    by (simp add: pit_ticks_def elapsed_ticks_def unat_ucast_mod unat_div_distrib unat_word_ariths PIT_FREQ_def)
qed

text \<open>One poll of a periodic channel whose last interrupt was in period k.\<close>

lemma periodic_poll:
  fixes pit :: PITState and s :: PITChannelState and k :: nat
  defines "s \<equiv> channels pit 0"
  assumes "pit_wf pit" "mode s = 2 \<or> mode s = 3" "0 \<le> irq s"
    and "unat (now - count_load_time s) \<le> 2 ^ 31"
    and "unat (last_irq_count s) = k * unat (count s)" "k \<le> elapsed_ticks s now div unat (count s)"
  shows "i8254_update_irq f pit p now now2 =
    (let k' = elapsed_ticks s now div unat (count s)
     in if k' = k then Inr (pit, p)
        else Inr (set_channel 0 (s\<lparr>last_irq_count := of_nat (k' * unat (count s))\<rparr>) pit,
                  pulse f p (nat (irq s))))"
proof -
  define d where "d = pit_ticks s now"
  define c where "c = unat (count s)"
  define k' where "k' = unat d div c"
  have d: "unat d = elapsed_ticks s now" unfolding d_def by (rule unat_pit_ticks) fact
  have c0: "count s \<noteq> 0" "0 < c" using assms(2) by (auto simp: s_def pit_wf_def chan_wf_def c_def word_unat_eq_iff)
  have due: "unat (d - d mod count s) = k' * c"
  proof -
    have "d mod count s \<le> d" by (simp add: word_le_nat_alt unat_mod_distrib c0)
    then have "unat (d - d mod count s) = unat d - unat d mod c"
      by (simp only: unat_sub unat_mod_distrib c_def)
    then show ?thesis by (simp only: k'_def minus_mod_eq_div_mult)
  qed
  have kk: "k \<le> k'" using assms(7) d by (simp add: k'_def c_def)
  then have le: "last_irq_count s \<le> d - d mod count s"
    using due assms(6) by (simp add: word_le_nat_alt c_def)
  have pend: "unat (d - d mod count s - last_irq_count s) = (k' - k) * c"
    using due assms(6) unat_sub [OF le] by (simp add: c_def diff_mult_distrib)
  have less: "d - d mod count s - last_irq_count s < count s \<longleftrightarrow> k' = k"
  proof -
    have "d - d mod count s - last_irq_count s < count s \<longleftrightarrow> (k' - k) * c < c"
      by (simp add: word_less_nat_alt pend c_def)
    also have "\<dots> \<longleftrightarrow> k' = k" using c0 kk by (cases "k' - k") auto
    finally show ?thesis .
  qed
  have eq: "d - d mod count s = of_nat (k' * c)"
    unfolding due [symmetric] by simp
  have nb: "\<not> push_bit 31 1 < now - count_load_time s"
    using assms(5) by (simp add: word_less_nat_alt)
  show ?thesis
    using assms(3,4) less c0 nb eq
    unfolding i8254_update_irq_def s_def [symmetric] Let_def d_def [symmetric]
    by (auto simp: pulse_def k'_def d c_def)
qed


lemma elapsed_ticks_last_irq [simp]: "elapsed_ticks (s\<lparr>last_irq_count := x\<rparr>) = elapsed_ticks s"
  by (simp add: elapsed_ticks_def fun_eq_iff)

lemma periodic_poll_all:
  assumes "pit_wf pit" "mode (channels pit 0) = 2 \<or> mode (channels pit 0) = 3" "0 \<le> irq (channels pit 0)"
    and "\<forall>t \<in> set ts. unat (t - count_load_time (channels pit 0)) \<le> 2 ^ 31"
    and "sorted (map (\<lambda>t. unat (t - count_load_time (channels pit 0))) ts)"
    and "unat (last_irq_count (channels pit 0)) = k * unat (count (channels pit 0))"
    and "\<forall>t \<in> set ts. k \<le> elapsed_ticks (channels pit 0) t div unat (count (channels pit 0))"
  shows "\<exists>pit'. poll_all pit log ts = Inr (pit', log @ pulses (nat (irq (channels pit 0)))
    (card ((\<lambda>t. elapsed_ticks (channels pit 0) t div unat (count (channels pit 0))) ` set ts - {k})))"
  using assms 
proof (induction ts arbitrary: pit k log)
  case Nil
  then show ?case by simp
next
  case (Cons t ts)
  let ?s = "channels pit 0"
  let ?f = "\<lambda>t. elapsed_ticks ?s t div unat (count ?s)"
  have mono: "?f t \<le> ?f u" if "u \<in> set ts" for u
    using that Cons.prems(5) by (auto simp: elapsed_ticks_def intro!: div_le_mono mult_le_mono1)
  note poll = periodic_poll [OF Cons.prems(1) Cons.prems(2) Cons.prems(3), of t k record_irq log t]
  show ?case
  proof (cases "?f t = k")
    case True
    then have "i8254_update_irq record_irq pit log t t = Inr (pit, log)"
      using poll Cons.prems by simp
    moreover have "?f ` set (t # ts) - {k} = ?f ` set ts - {k}" using True by auto
    ultimately show ?thesis using Cons.IH [of pit k log] Cons.prems by simp
  next
    case False
    let ?s' = "?s\<lparr>last_irq_count := of_nat (?f t * unat (count ?s))\<rparr>"
    let ?pit' = "set_channel 0 ?s' pit"
    have step: "i8254_update_irq record_irq pit log t t = Inr (?pit', log @ pulses (nat (irq ?s)) 1)"
      using poll Cons.prems False by (simp add: pulse_record_irq)
    have "?f t * unat (count ?s) \<le> elapsed_ticks ?s t" by simp
    also have "\<dots> < 2 ^ 32" 
      using Cons.prems(4) unat_pit_ticks [of t ?s] unsigned_less [of "pit_ticks ?s t", where 'a = nat] by simp
    finally have last: "unat (last_irq_count ?s') = ?f t * unat (count ?s)"
      by (simp add: unat_of_nat del: of_nat_mult)
    have wf: "pit_wf ?pit'" using Cons.prems(1) by (simp add: pit_wf_def chan_wf_def)
    have "k < ?f t" using False Cons.prems(7) by simp
    then have "?f u \<noteq> k" if "u \<in> set ts" for u using mono [OF that] by simp
    then have sets: "?f ` set (t # ts) - {k} = insert (?f t) (?f ` set ts - {?f t})"
      using False by auto
    have "card (?f ` set (t # ts) - {k}) = Suc (card (?f ` set ts - {?f t}))"
      unfolding sets by (subst card_insert_disjoint) auto
    with Cons.IH [of ?pit' "?f t" "log @ pulses (nat (irq ?s)) 1"] step wf last mono Cons.prems
    show ?thesis by simp
  qed
qed

lemma one_shot_poll_all:
  assumes "pit_wf pit" "mode (channels pit 0) \<in> {0, 1, 4, 5}" "0 \<le> irq (channels pit 0)"
  shows "\<exists>pit'. poll_all pit log ts = Inr (pit', log @ pulses (nat (irq (channels pit 0)))
    (if last_irq_count (channels pit 0) = 0 \<and> (\<exists>t \<in> set ts. count (channels pit 0) \<le> pit_ticks (channels pit 0) t) then 1 else 0))"
  using assms 
proof (induction ts arbitrary: pit log)
  case Nil
  then show ?case by simp
next
  case (Cons t ts)
  let ?s = "channels pit 0"
  let ?s' = "?s\<lparr>last_irq_count := count ?s\<rparr>"
  let ?pit' = "set_channel 0 ?s' pit"
  have nz: "count ?s \<noteq> 0" using Cons.prems(1) by (simp add: pit_wf_def chan_wf_def)
  have wf: "pit_wf ?pit'" using Cons.prems(1) by (simp add: pit_wf_def chan_wf_def)
  have step: "i8254_update_irq record_irq pit log t t =
    (if last_irq_count ?s = 0 \<and> count ?s \<le> pit_ticks ?s t
     then Inr (?pit', log @ pulses (nat (irq ?s)) 1) else Inr (pit, log))"
    using Cons.prems(2,3) by (auto simp: i8254_update_irq_def Let_def record_irq_def)
  show ?case
    using Cons.IH [of ?pit' "log @ pulses (nat (irq ?s)) 1"] Cons.IH [of pit log] step wf nz Cons.prems
    by auto
qed


lemma pit_get_count_periodic:
  assumes "chan_wf s" "mode s = 2 \<or> mode s = 3"
  shows "\<exists>c. pit_get_count s now = Inr c \<and> 1 \<le> unat c \<and> unat c \<le> unat (count s)"
proof -
  have c: "count s \<noteq> 0" using assms(1) by (simp add: chan_wf_def)
  have "1 \<le> unat (count s - x mod count s) \<and> unat (count s - x mod count s) \<le> unat (count s)" for x
  proof -
    have l: "unat (x mod count s) < unat (count s)"
      using c by (simp add: unat_mod_distrib word_unat_eq_iff)
    then have "unat (count s - x mod count s) = unat (count s) - unat (x mod count s)"
      by (intro unat_sub) (simp add: word_le_nat_alt)
    with l show ?thesis by linarith
  qed
  with c assms(2) show ?thesis by (auto simp: pit_get_count_def Let_def)
qed

section \<open>Properties\<close>

text \<open>
  In every reachable state of the timer (initialisation, port accesses with
  byte values, polls, gate changes, rebasing) no operation divides by zero or
  leaves the channel array, with one exception: a read of the control port
  (\<open>addr & 3 = 3\<close>), which indexes the fourth entry of the three-element array.
\<close>

lemma pit_faults_only_on_control_read:
  assumes "pit_reach pit"
  shows "(val < 0x100 \<longrightarrow> returns (i8254_ioport_write pit addr val t)) \<and>
    (returns (i8254_ioport_read pit addr now) \<longleftrightarrow> addr AND 3 \<noteq> 3) \<and>
    returns (i8254_update_irq f pit p now now2) \<and>
    (n < 3 \<longrightarrow> returns (pit_get_out pit n now))"
proof -
  have wf: "pit_wf pit" using assms by (rule pit_reach_wf)
  have "returns (i8254_ioport_write pit addr val t)" if "val < 0x100"
    using i8254_ioport_write_wf [OF wf that, of addr t] by auto
  moreover have "returns (i8254_ioport_read pit addr now) \<longleftrightarrow> addr AND 3 \<noteq> 3"
    using i8254_ioport_read_wf [OF wf, of addr now]
    by (auto simp: i8254_ioport_read_def pit_channel_def)
  moreover have "returns (i8254_update_irq f pit p now now2)"
    using i8254_update_irq_wf [OF wf, of f p now now2] by auto
  moreover have "returns (pit_get_out pit n now)" if "n < 3"
    using that wf pit_get_out1_returns [of "channels pit n" now] by (auto simp: pit_get_out_def pit_wf_def)
  ultimately show ?thesis by blast
qed


text \<open>
  Programming a channel with a control word (access mode low/high byte) and
  two data bytes loads the 16-bit count, 0 standing for 65536, stamps the load
  time with the clock reading of the second byte, and touches no other channel.
\<close>

lemma pit_program_count:
  assumes "n < 3" "m \<le> 5" "lo < 0x100" "hi < 0x100"
  shows "\<exists>p1 p2 p3.
    i8254_ioport_write pit 0x43 (of_nat (64 * n + 0x30 + 2 * m)) t1 = Inr p1 \<and>
    i8254_ioport_write p1 (0x40 + of_nat n) lo t2 = Inr p2 \<and>
    i8254_ioport_write p2 (0x40 + of_nat n) hi t3 = Inr p3 \<and>
    unat (count (channels p3 n)) = (if lo = 0 \<and> hi = 0 then 65536 else unat lo + 256 * unat hi) \<and>
    count_load_time (channels p3 n) = t3 0 \<and> unat (mode (channels p3 n)) = m \<and>
    last_irq_count (channels p3 n) = 0 \<and>
    (\<forall>k. k \<noteq> n \<longrightarrow> channels p3 k = channels pit k)"
proof -
  have lo: "unat (ucast lo :: u8) = unat lo"
    using assms(3) by (simp add: unat_ucast_mod word_less_nat_alt)
  have m: "unat (of_nat m :: u8) = m" using assms(2) by (simp add: unat_of_nat)
  let ?w = "ucast (ucast lo :: u8) OR push_bit 8 hi :: u32"
  have w: "unat ?w = unat lo + 256 * unat hi"
    using byte_word(1) [OF assms(4), of "ucast lo"] lo by simp
  then have w0: "?w = 0 \<longleftrightarrow> lo = 0 \<and> hi = 0"
    by (simp add: word_unat_eq_iff)
  show ?thesis
    unfolding pit_control_word [OF assms(1,2)]
    using w m w0 assms(1)
    by (simp add: pit_data_port pit_write_data_def pit_load_count_def Let_def del: One_nat_def)
qed


text \<open>
  The counter-latch command followed by two reads of the data port returns
  the low and then the high byte of the count at the moment of the command,
  however late the reads come, and leaves the channel unlatched.
\<close>

lemma pit_latch_roundtrip:
  assumes "pit_wf pit" "n < 3" "rw_mode (channels pit n) = 3"
    and "count_latched (channels pit n) = 0" "status_latched (channels pit n) = 0"
  shows "\<exists>c p1 p2 p3 lo hi. pit_get_count (channels pit n) (t 0) = Inr c \<and>
    i8254_ioport_write pit 0x43 (of_nat (64 * n)) t = Inr p1 \<and>
    i8254_ioport_read p1 (0x40 + of_nat n) now1 = Inr (lo, p2) \<and>
    i8254_ioport_read p2 (0x40 + of_nat n) now2 = Inr (hi, p3) \<and>
    unat lo + 256 * unat hi = unat c mod 65536 \<and>
    count_latched (channels p3 n) = 0"
proof -
  have wf: "chan_wf (channels pit n)" using assms(1,2) by (simp add: pit_wf_def)
  then obtain c where c: "pit_get_count (channels pit n) (t 0) = Inr c"
    using pit_get_count_returns by blast
  have n: "n \<in> {0, 1, 2}" using assms(2) by auto
  have "i8254_ioport_write pit 0x43 (of_nat (64 * n)) t =
      Inr (set_channel n ((channels pit n)\<lparr>latched_count := ucast c, count_latched := 3\<rparr>) pit)"
    using n c assms by (elim insertE emptyE) (simp_all add: i8254_ioport_write_def pit_latch_count_def)
  moreover have port: "i8254_ioport_read p (0x40 + of_nat n) now =
     bind_result (pit_read_channel (channels p n) now) (\<lambda>(r, s). Inr (r, set_channel n s p))" for p now
    using n by (elim insertE emptyE) (simp_all add: i8254_ioport_read_def)
  ultimately show ?thesis
    using c assms(5) word_bytes [of "ucast c"]
    by (simp add: pit_read_channel_def pit_read_latched_def unat_ucast_mod)
qed


text \<open>
  C4: Cadence of the system tick.  In mode 2 or 3, polls at non-decreasing times
  at most \<open>2 ^ 31\<close> microseconds after the load raise exactly one pulse on the
  channel's line per distinct elapsed period that a poll sees (period number 0
  excepted), where the period number is the 1.193182 MHz tick count divided by
  the programmed count: no tick is raised twice and none observed is lost.
\<close>

theorem pit_periodic_cadence:
  assumes "pit_wf pit" "mode (channels pit 0) = 2 \<or> mode (channels pit 0) = 3"
    and "0 \<le> irq (channels pit 0)" "last_irq_count (channels pit 0) = 0"
    and "\<forall>t \<in> set ts. unat (t - count_load_time (channels pit 0)) \<le> 2 ^ 31"
    and "sorted (map (\<lambda>t. unat (t - count_load_time (channels pit 0))) ts)"
  shows "\<exists>pit'. poll_all pit [] ts = Inr (pit', pulses (nat (irq (channels pit 0)))
    (card ((\<lambda>t. elapsed_ticks (channels pit 0) t div unat (count (channels pit 0))) ` set ts - {0})))"
  using periodic_poll_all [OF assms(1,2,3,5,6), of 0 "[]"] assms(4) by simp

theorem pit_periodic_cadence_witness:
  "\<exists>pit'. poll_all (i8254_init 0 (\<lambda>_. 5)) [] [10, 60000, 60001, 120000] =
     Inr (pit', pulses 0 2)"
proof -
  let ?ts = "[10, 60000, 60001, 120000] :: u32 list"
  have 0: "channels (i8254_init 0 (\<lambda>_. 5)) 0 =
      pit_zero\<lparr>mode := 3, gate := 1, count_load_time := 5, count := 0x10000\<rparr>"
    by (simp add: i8254_init_def pit_reset_def pit_reset_channel_def pit_load_count_def pit_zero_def)
  have "(\<lambda>t. elapsed_ticks (channels (i8254_init 0 (\<lambda>_. 5)) 0) t div
      unat (count (channels (i8254_init 0 (\<lambda>_. 5)) 0))) ` set ?ts - {0} = {1, 2}"
    by (simp add: 0 pit_zero_def elapsed_ticks_def)
  then have two: "card ((\<lambda>t. elapsed_ticks (channels (i8254_init 0 (\<lambda>_. 5)) 0) t div
      unat (count (channels (i8254_init 0 (\<lambda>_. 5)) 0))) ` set ?ts - {0}) = 2"
    by simp
  show ?thesis
    using pit_periodic_cadence [OF pit_init_wf [of 0 "\<lambda>_. 5"], of ?ts] unfolding two
    by (simp add: 0 pit_zero_def del: pulses_simps poll_all.simps)
qed

text \<open>
  In the one-shot modes 0, 1, 4 and 5 any sequence of polls raises at most
  one pulse per load, and raises it exactly when some poll sees the count expired.
\<close>

lemma pit_one_shot:
  assumes "pit_wf pit" "mode (channels pit 0) \<in> {0, 1, 4, 5}" "0 \<le> irq (channels pit 0)"
  shows "\<exists>pit'. poll_all pit [] ts = Inr (pit', pulses (nat (irq (channels pit 0)))
    (if last_irq_count (channels pit 0) = 0 \<and>
        (\<exists>t \<in> set ts. count (channels pit 0) \<le> pit_ticks (channels pit 0) t) then 1 else 0))"
  using one_shot_poll_all [OF assms, of "[]"] by simp


end
