(* ===== verification/Board.thy ===== *)
theory Board
  imports PIC UART RTC Floppy PCI DMA KBC PIT
begin

text \<open>
  The board of \<open>source/winspire/pc.c\<close>: how the devices are wired to each other.
\<close>

section \<open>Wiring\<close>

text \<open>
  What the board passes as the two callbacks (\<open>pc.c\<close>): the 8259 pair, and a
  request flag that the main loop polls.
\<close>

definition board_irq :: "'o PicState2 result \<times> bool \<Rightarrow> nat \<Rightarrow> bool \<Rightarrow> 'o PicState2 result \<times> bool" where
  "board_irq = (\<lambda>(pic, reset_request) irq level. (set_irq pic irq level, reset_request))"

definition pc_reset_request :: "'o PicState2 result \<times> bool \<Rightarrow> 'o PicState2 result \<times> bool" where
  "pc_reset_request = (\<lambda>(pic, reset_request). (pic, True))"

section \<open>The controller on the board\<close>

interpretation board: kbc_host board_irq "\<lambda>(pic, r). pic_ok pic" pic_irq_valid "\<lambda>(pic, r). pic_line pic"
    "\<lambda>(pic, r). pic_pending pic" pc_reset_request 1 12
  by unfold_locales
    (auto simp: board_irq_def pc_reset_request_def pic_irq.ok_set pic_irq.line_set pic_irq.pending_set pic_irq_valid_def)

interpretation serial: uart_wiring set_irq pic_ok pic_irq_valid pic_line pic_pending 4
  by unfold_locales (simp add: pic_irq_valid_def)

lemma pic_init_lines: "pic_ok (Inr (i8259_init f x))" "\<not> pic_line (Inr (i8259_init f x)) n"
  by (simp_all add: pic_ok_def pic2_wf_init) (simp add: pic_line_def i8259_init_def pic_reset_def pic_zero_def)

lemma board_run_inv:
  "board.inv (fold (kbc_step board_irq pc_reset_request) ops (i8042_init 1 12, Inr (i8259_init f x), False))"
  by (intro board.inv_run board.inv_init) (simp_all add: pic_init_lines)

section \<open>Properties\<close>

text \<open>
  C7: Whatever the guest writes and reads, the keyboard types and the mouse
  does, the status register and the two interrupt lines follow the two queues:
  \<open>OBF\<close> is set exactly when some queue holds data, \<open>MOUSE_OBF\<close> exactly when only
  the mouse's does, IRQ 1 is high exactly when the keyboard's queue holds data and
  the mode enables it, IRQ 12 exactly when only the mouse's does and the mode
  enables it.
\<close>

theorem kbc_lines_follow_queues:
  assumes "fold (kbc_step board_irq pc_reset_request) ops
    (i8042_init 1 12, Inr (i8259_init f x), False) = (d, pic, r)"
  shows "ctl_follows (kbd_data d \<noteq> []) (mouse_data d \<noteq> []) (ctl d) \<and>
    pic_line pic 1 = kbd_level (kbd_data d \<noteq> []) (ctl d) \<and>
    pic_line pic 12 = mouse_level (kbd_data d \<noteq> []) (mouse_data d \<noteq> []) (ctl d)"
  using board_run_inv [of ops f x] assms
  by (simp add: board.inv_def board.linked_def kbd_data_def mouse_data_def del: One_nat_def)

theorem kbc_lines_follow_queues_witness:
  "\<exists>d pic r. fold (kbc_step board_irq pc_reset_request) [PutKeycode True 30 0]
      (i8042_init 1 12, Inr (i8259_init (\<lambda>_. True) False), False) = (d, pic, r) \<and>
    pic_line pic 1 = kbd_level (kbd_data d \<noteq> []) (ctl d)"
proof -
  obtain d pic r where "fold (kbc_step board_irq pc_reset_request) [PutKeycode True 30 0]
      (i8042_init 1 12, Inr (i8259_init (\<lambda>_. True) False), False) = (d, pic, r)"
    by (metis surj_pair)
  with kbc_lines_follow_queues [OF this] show ?thesis by blast
qed

text \<open>
  C8: A key press reaches the CPU: with the keyboard's queue empty, no byte held
  back and the keyboard enabled with its interrupt on, pressing or releasing a plain
  key (code below 96, one byte) in any reachable state leaves IRQ 1 requested at the interrupt controller and the
  scan code in the data port; reading the port returns it and lowers the line.
\<close>

theorem keypress_requests_irq1:
  assumes "fold (kbc_step board_irq pc_reset_request) ops
      (i8042_init 1 12, Inr (i8259_init f x), False) = (d, pic, r)"
    and "kbd_data d = []" "\<not> delay (kbd d)" "k < 96" "bit (KBDState.mode (ctl d)) 0" "\<not> bit (KBDState.mode (ctl d)) 4"
  shows "\<exists>d' pic' r' d'' pic'' r''.
    kbc_step board_irq pc_reset_request (PutKeycode down k now) (d, pic, r) = (d', pic', r') \<and>
    pic_pending pic' 1 \<and> pic_line pic' 1 \<and>
    kbd_read_data board_irq (d', pic', r') =
      (of_int (if down then k else k OR 0x80), d'', pic'', r'') \<and>
    kbd_data d'' = [] \<and> \<not> pic_line pic'' 1"
proof -
  have "board.inv (d, pic, r)" using board_run_inv [of ops f x] assms(1) by simp
  from board.keypress [OF this assms(2-6), of down now] obtain d' pic' r' where
    s: "kbc_step board_irq pc_reset_request (PutKeycode down k now) (d, pic, r) = (d', pic', r')"
      "board.inv (d', pic', r')" "pic_pending pic' 1"
      "kbd_data d' = [of_int (if down then k else k OR 0x80)]" "KBDState.mode (ctl d') = KBDState.mode (ctl d)"
    by (auto simp del: One_nat_def)
  from board.read_kbd_byte [OF s(2,4)] obtain d'' pic'' r'' where
    t: "kbd_read_data board_irq (d', pic', r') = (of_int (if down then k else k OR 0x80), d'', pic'', r'')"
      "kbd_data d'' = []" "board.inv (d'', pic'', r'')"
    by (metis surj_pair)
  have "pic_line pic' 1" "\<not> pic_line pic'' 1"
    using board.inv_level(1) [OF s(2)] board.inv_level(1) [OF t(3)] s(4,5) t(2) assms(5,6)
    by (simp_all add: kbd_level_def del: One_nat_def)
  with s(1,3) t(1,2) show ?thesis by blast
qed

theorem keypress_requests_irq1_witness:
  "\<exists>d' pic' r' d'' pic'' r''.
    kbc_step board_irq pc_reset_request (PutKeycode True 30 0)
      (i8042_init 1 12, Inr (i8259_init (\<lambda>_. True) False), False) = (d', pic', r') \<and>
    pic_pending pic' 1 \<and> kbd_read_data board_irq (d', pic', r') = (30, d'', pic'', r'')"
proof -
  have "kbd_data (i8042_init 1 12) = []" "\<not> delay (kbd (i8042_init 1 12))"
    "bit (KBDState.mode (ctl (i8042_init 1 12))) 0" "\<not> bit (KBDState.mode (ctl (i8042_init 1 12))) 4"
    by (simp_all add: kbd_data_def i8042_init_def ps2_kbd_init_def ps2_reset_def ps2_zero_def contents_def
        kbd_reset_def bit_simps)
  with keypress_requests_irq1 [of "[]" "\<lambda>_. True" False "i8042_init 1 12" "Inr (i8259_init (\<lambda>_. True) False)"
      False 30 True 0]
  show ?thesis by (fastforce simp del: One_nat_def kbc_step.simps)
qed

text \<open>
  The timer tick reaches the interrupt controller: a poll that finds a new
  period of the system timer elapsed leaves IRQ 0 requested, its line low again,
  and the period recorded.
\<close>

lemma tick_requests_irq0:
  assumes "pit_wf pit" "mode (channels pit 0) = 2 \<or> mode (channels pit 0) = 3" "irq (channels pit 0) = 0"
    and "unat (now - count_load_time (channels pit 0)) \<le> 2 ^ 31"
    and "unat (last_irq_count (channels pit 0)) = n * unat (count (channels pit 0))"
    and "n < elapsed_ticks (channels pit 0) now div unat (count (channels pit 0))"
    and "pic_ok p" "\<not> pic_line p 0"
  shows "\<exists>pit' p'. i8254_update_irq set_irq pit p now now2 = Inr (pit', p') \<and>
    pic_ok p' \<and> pic_pending p' 0 \<and> \<not> pic_line p' 0 \<and>
    (\<forall>m. m \<noteq> 0 \<and> pic_irq_valid m \<longrightarrow> pic_pending p' m = pic_pending p m)"
  using periodic_poll [OF assms(1,2) _ assms(4,5), of set_irq p now2] assms(3,6-8)
  by (simp add: pic_irq.pulse_simps pic_irq_valid_def Let_def)


text \<open>
  The serial port's interrupt line is high exactly while an enabled condition is
  present, after any sequence of guest accesses and host polls.
\<close>

lemma uart_line_follows_conditions:
  assumes "fold (uart_step set_irq) ops ((u8250_init 4, h, Inr (i8259_init f x)), []) = ((uart, h', pic), got)"
  shows "pic_ok pic \<and> pic_line pic 4 = (ier uart AND ioready uart \<noteq> 0)"
proof -
  have 0: "serial.uart_driven (u8250_init 4, h, Inr (i8259_init f x))"
    using pic_init_lines [of f x] by (simp add: serial.uart_driven_def u8250_init_def pic_irq_valid_def)
  from serial.uart_driven_run [of "((u8250_init 4, h, Inr (i8259_init f x)), [])" ops] 0 assms show ?thesis
    by (simp add: serial.uart_driven_def)
qed


end
