(* ===== verification/SB16.thy ===== *)
theory SB16
  imports DMA PIC "HOL-Library.Signed_Division"
begin

text \<open>
  The playback side of the Sound Blaster 16 of \<open>source/winspire/sb16.c\<close>: the transfer
  handler that the card registers on one channel of each DMA controller, the copy of
  guest memory into the audio ring, the interrupt at the end of a block and the
  release of the request after a single-cycle block.  It is the only device of the
  program that uses DMA, and the proof that it is one that the controller can rely on
  is the interpretation of \<open>dma_device\<close> below.

  The card changes the controller from inside a transfer, and when its command for a
  16-bit transfer comes while an 8-bit one is still requested it changes the other
  controller: a world holds the card, the other controller, the guest's memory and
  the interrupt controllers.  Not modelled here: the command parser of the DSP, the
  mixer registers other than the interrupt status, and the resampling of the ring for
  the host.
\<close>

section \<open>State\<close>

text \<open>
  The fields of \<open>SB16State\<close> that a transfer reads or writes.  The C \<open>int\<close>s are
  unbounded; \<open>voice\<close> tells whether the pointer is set.
\<close>

record SB16State =
  irq :: nat
  dma :: nat
  hdma :: nat
  dma_auto :: bool
  block_size :: int
  speaker_on :: bool
  use_hdma :: bool
  left_till_irq :: int
  dma_running :: bool
  align :: int
  audio_free :: int
  audio_buf :: "u8 list"
  audio_p :: u32
  audio_q :: u32
  voice :: bool
  active_out :: bool
  mixer_82 :: u8

text \<open>
  \<open>garbage\<close> is what the uninitialised local buffer of \<open>write_audio\<close> holds.
\<close>

record 'o sb_world =
  card :: SB16State
  other :: I8257State
  phys :: "u8 list"
  pic :: "'o PicState2 result"
  garbage :: "u8 list"

definition AUDIO_BUF_LEN :: nat where
  "AUDIO_BUF_LEN = 4096"

definition TMPBUF_LEN :: nat where
  "TMPBUF_LEN = 4096"

section \<open>Operations\<close>

definition speaker :: "bool \<Rightarrow> SB16State \<Rightarrow> SB16State" where
  "speaker on s = s\<lparr>speaker_on := on\<rparr>"

text \<open>
  \<open>control\<close>, called while controller \<open>d\<close> is at hand, the second one if \<open>hi\<close>; the
  handlers are those of the two controllers.
\<close>

definition control ::
    "(bool \<Rightarrow> 'o sb_world handlers) \<Rightarrow> bool \<Rightarrow> bool \<Rightarrow> I8257State \<times> 'o sb_world \<Rightarrow> I8257State \<times> 'o sb_world" where
  "control handler hi hold = (\<lambda>(d, w).
     let s = card w; nchan = (if use_hdma s then hdma s else dma s);
         w = w\<lparr>card := s\<lparr>dma_running := hold\<rparr>\<rparr>;
         DREQ = (if hold then i8257_dma_hold_DREQ else i8257_dma_release_DREQ);
         (d, w) =
           (if use_hdma s = hi then DREQ (handler hi) nchan (d, w)
            else (let (e, v) = DREQ (handler (\<not> hi)) nchan (other w, w\<lparr>other := d\<rparr>)
                  in (other v, v\<lparr>other := e\<rparr>)))
     in (d, w\<lparr>card := (card w)\<lparr>active_out := hold\<rparr>\<rparr>))"

text \<open>The two \<open>memcpy\<close> cases: the first \<open>len\<close> bytes of \<open>tmpbuf\<close> go to index \<open>q\<close> of the ring.\<close>

definition copy_at :: "nat \<Rightarrow> u8 list \<Rightarrow> u8 list \<Rightarrow> u8 list" where
  "copy_at q bs buf = take q buf @ bs @ drop (q + length bs) buf"

definition put_audio :: "u8 list \<Rightarrow> nat \<Rightarrow> SB16State \<Rightarrow> SB16State" where
  "put_audio tmpbuf len s =
     (let q = unat (audio_q s) mod AUDIO_BUF_LEN; r = AUDIO_BUF_LEN - q
      in s\<lparr>audio_buf :=
             (if q + len < AUDIO_BUF_LEN then copy_at q (take len tmpbuf) (audio_buf s)
              else copy_at 0 (take (len - r) (drop r tmpbuf)) (copy_at q (take r tmpbuf) (audio_buf s))),
           audio_q := audio_q s + of_nat len\<rparr>)"

text \<open>
  The loop of \<open>write_audio\<close>.  A negative \<open>to_copy\<close> becomes a huge \<open>size_t\<close> and is cut to
  the length of the buffer.  The room of the ring goes down with every round.
\<close>

definition audio_room :: "SB16State \<Rightarrow> nat" where
  "audio_room s =
     (let len = of_nat AUDIO_BUF_LEN - (audio_q s - audio_p s) in if of_nat AUDIO_BUF_LEN < len then 0 else unat len)"

function write_audio ::
    "I8257State \<Rightarrow> u8 list \<Rightarrow> nat \<Rightarrow> int \<Rightarrow> u8 list \<Rightarrow> int \<Rightarrow> int \<Rightarrow> int \<Rightarrow> SB16State \<Rightarrow> int \<times> SB16State" where
  "write_audio d mem nchan dma_len tmpbuf temp dma_pos net s =
     (if temp = 0 then (net, s)
      else
        (let left = dma_len - dma_pos;
             to_copy = (if left < temp then left else temp);
             n = (if to_copy < 0 \<or> int TMPBUF_LEN < to_copy then TMPBUF_LEN else nat to_copy);
             tmpbuf = i8257_dma_read_memory d mem nchan tmpbuf (of_int dma_pos) n;
             copied = min n (audio_room s)
         in if copied = 0 then (net, s)
            else write_audio d mem nchan dma_len tmpbuf (temp - int copied)
                   ((dma_pos + int copied) smod dma_len) (net + int copied)
                   (put_audio tmpbuf copied s)))"
  by pat_completeness auto

lemma audio_room_eq:
  "audio_room s = (let u = unat (audio_q s - audio_p s) in if u \<le> AUDIO_BUF_LEN then AUDIO_BUF_LEN - u else 0)"
proof -
  define u where "u = audio_q s - audio_p s"
  show ?thesis
  proof (cases "unat u \<le> 4096")
    case True
    then have "unat (4096 - u) = 4096 - unat u" by (simp add: unat_sub word_le_nat_alt)
    with True show ?thesis
      by (simp add: audio_room_def AUDIO_BUF_LEN_def u_def [symmetric] Let_def word_less_nat_alt)
  next
    case False
    have lt: "unat u < 2 ^ 32" using unsigned_less [of u] by simp
    have "unat (4096 - u) = 2 ^ 32 + 4096 - unat u"
      using False lt by (simp add: unat_sub_if_size word_size)
    with False lt show ?thesis
      by (simp add: audio_room_def AUDIO_BUF_LEN_def u_def [symmetric] Let_def word_less_nat_alt)
  qed
qed

lemma put_audio_room:
  assumes "0 < n" "n \<le> audio_room s"
  shows "audio_room (put_audio tmpbuf n s) = audio_room s - n"
proof -
  define u where "u = audio_q s - audio_p s"
  have u: "unat u + n \<le> 4096"
    using assms by (simp add: audio_room_eq AUDIO_BUF_LEN_def u_def [symmetric] Let_def split: if_splits)
  have e: "audio_q s + of_nat n - audio_p s = u + of_nat n" by (simp add: u_def)
  have "unat (u + of_nat n) = unat u + n" using u by (simp add: unat_word_ariths unat_of_nat)
  then show ?thesis
    using u by (simp add: audio_room_eq AUDIO_BUF_LEN_def put_audio_def Let_def e) (simp add: u_def)
qed

termination write_audio
  by (relation "measure (\<lambda>(d, mem, nchan, dma_len, tmpbuf, temp, dma_pos, net, s). audio_room s)")
     (simp_all add: put_audio_room)

declare write_audio.simps [simp del]

text \<open>
  \<open>SB_read_DMA\<close> up to the end of the copy: \<open>None\<close> for its two early returns, which
  leave the position as it is.  The second one has already reset \<open>left_till_irq\<close>.  The
  controllers pass a \<open>dma_len\<close> of at least 1.
\<close>

definition start_block :: "SB16State \<Rightarrow> SB16State" where
  "start_block s = (if left_till_irq s < 0 then s\<lparr>left_till_irq := block_size s\<rparr> else s)"

definition play ::
    "I8257State \<Rightarrow> u8 list \<Rightarrow> u8 list \<Rightarrow> nat \<Rightarrow> int \<Rightarrow> int \<Rightarrow> SB16State \<Rightarrow> (int \<times> SB16State) option" where
  "play d mem tmpbuf nchan dma_pos dma_len s =
     (let free = (if voice s then audio_free s AND NOT (align s) else dma_len);
          till = left_till_irq s;
          copy = (if till \<le> free \<and> \<not> dma_auto s then till else free)
      in if voice s \<and> (free \<le> 0 \<or> dma_len = 0) then None
         else
           (let (written, s) = write_audio d mem nchan dma_len tmpbuf copy dma_pos 0 s
            in Some ((dma_pos + written) smod dma_len, s\<lparr>left_till_irq := till - written\<rparr>)))"

text \<open>
  The loop that starts the next block.  The guard on \<open>block_size\<close> is the early return
  at the head of the handler.
\<close>

function next_block :: "int \<Rightarrow> int \<Rightarrow> int" where
  "next_block sz left = (if 0 < sz \<and> left \<le> 0 then next_block sz (sz + left) else left)"
  by pat_completeness auto

termination next_block
  by (relation "measure (\<lambda>(sz, left). nat (1 - left))") auto

declare next_block.simps [simp del]

definition SB_read_DMA_body ::
    "(bool \<Rightarrow> 'o sb_world handlers) \<Rightarrow> bool \<Rightarrow> 'o sb_world handlers" where
  "SB_read_DMA_body handler hi h nchan dma_pos dma_len = (\<lambda>(d, w).
     if block_size (card w) \<le> 0 then (dma_pos, d, w)
     else
       (let w = w\<lparr>card := start_block (card w)\<rparr>
        in case play d (phys w) (garbage w) nchan dma_pos dma_len (card w) of
             None \<Rightarrow> (dma_pos, d, w)
           | Some (dma_pos, s) \<Rightarrow>
               (let w = w\<lparr>card := s\<rparr>;
                    (d, w) =
                      (if left_till_irq s \<le> 0
                       then (let w = w\<lparr>card := s\<lparr>mixer_82 := mixer_82 s OR (if bit nchan 2 then 2 else 1)\<rparr>,
                                       pic := set_irq (pic w) (irq s) True\<rparr>
                             in if \<not> dma_auto s
                                then (let (d, w) = control handler hi False (d, w)
                                      in (d, w\<lparr>card := speaker False (card w)\<rparr>))
                                else (d, w))
                       else (d, w))
                in (dma_pos, d, w\<lparr>card := (card w)\<lparr>left_till_irq := next_block (block_size (card w)) (left_till_irq (card w))\<rparr>\<rparr>))))"

text \<open>
  The handler releases a request, which runs the controller of the request, which may
  call the handler again.  A controller that is in a run only notes the release, so
  the call inside a call is the deepest one: there are two controllers, and a
  transfer of the second one does not touch the first.  The handler is the body
  unrolled so far; \<open>SB_read_DMA_unrolled\<close> shows that what lies below is never reached.
\<close>

definition SB_read_DMA_over :: "(bool \<Rightarrow> 'o sb_world handlers) \<Rightarrow> bool \<Rightarrow> 'o sb_world handlers" where
  "SB_read_DMA_over below = SB_read_DMA_body (SB_read_DMA_body below)"

definition SB_read_DMA :: "bool \<Rightarrow> 'o sb_world handlers" where
  "SB_read_DMA = SB_read_DMA_over (\<lambda>hi h nchan dma_pos dma_len dw. (dma_pos, dw))"

text \<open>
  The part of \<open>sb16_new\<close> that registers the handler, here with the identifier 0, on a
  channel of each controller.
\<close>

definition sb16_register :: "SB16State \<Rightarrow> I8257State \<times> I8257State \<Rightarrow> I8257State \<times> I8257State" where
  "sb16_register s = (\<lambda>(isa_dma, isa_hdma).
     (i8257_dma_register_channel (dma s) 0 isa_dma, i8257_dma_register_channel (hdma s) 0 isa_hdma))"

section \<open>Specification vocabulary\<close>

text \<open>Controller \<open>hi\<close> carries the current transfer of the card, and that is its only device.\<close>

definition carries :: "bool \<Rightarrow> I8257State \<Rightarrow> SB16State \<Rightarrow> bool" where
  "carries hi d s \<longleftrightarrow> use_hdma s = hi \<and> sole_device ((if hi then hdma s else dma s) mod 4) 0 d"

text \<open>A call of the handler finishes a block of a single-cycle transfer.\<close>

definition block_ends :: "I8257State \<Rightarrow> nat \<Rightarrow> int \<Rightarrow> int \<Rightarrow> 'o sb_world \<Rightarrow> bool" where
  "block_ends d nchan dma_pos dma_len w \<longleftrightarrow> 0 < block_size (card w) \<and>
     (case play d (phys w) (garbage w) nchan dma_pos dma_len (start_block (card w)) of
        None \<Rightarrow> False | Some (n, s) \<Rightarrow> left_till_irq s \<le> 0 \<and> \<not> dma_auto s)"

text \<open>What a call reports and does to the world when the controller at hand is in a run.\<close>

definition sb_result :: "I8257State \<Rightarrow> nat \<Rightarrow> int \<Rightarrow> int \<Rightarrow> 'o sb_world \<Rightarrow> int \<times> 'o sb_world" where
  "sb_result d nchan dma_pos dma_len w =
     (let h = \<lambda>_ _ _ pos _ dx. (pos, dx);
          (n, e, v) = SB_read_DMA_body h (use_hdma (card w)) 0 nchan dma_pos dma_len (d\<lparr>running := True\<rparr>, w)
      in (n, v))"

section \<open>Lemmas\<close>

lemma write_audio_keeps:
  "write_audio d mem c len tmp temp pos net s = (n, s') \<Longrightarrow>
   use_hdma s' = use_hdma s \<and> dma s' = dma s \<and> hdma s' = hdma s \<and> dma_auto s' = dma_auto s"
  by (induction d mem c len tmp temp pos net s rule: write_audio.induct)
     (subst (asm) (2) write_audio.simps, auto simp: Let_def put_audio_def split: if_splits)

lemma play_keeps:
  "play d mem tmp c pos len s = Some (n, s') \<Longrightarrow>
   use_hdma s' = use_hdma s \<and> dma s' = dma s \<and> hdma s' = hdma s \<and> dma_auto s' = dma_auto s"
  by (auto simp: play_def Let_def dest: write_audio_keeps split: if_splits prod.splits)

lemma read_memory_cong:
  "regs d (c mod 4) = regs d' (c mod 4) \<Longrightarrow>
   i8257_dma_read_memory d mem c buf at len = i8257_dma_read_memory d' mem c buf at len"
  by (simp add: i8257_dma_read_memory_def)

lemma write_audio_cong:
  "regs d (c mod 4) = regs d' (c mod 4) \<Longrightarrow>
   write_audio d mem c len tmp temp pos net s = write_audio d' mem c len tmp temp pos net s"
proof (induction d mem c len tmp temp pos net s rule: write_audio.induct)
  case (1 d mem nchan dma_len tmpbuf temp dma_pos net s)
  define n where "n = (if (if dma_len - dma_pos < temp then dma_len - dma_pos else temp) < 0 \<or>
      int TMPBUF_LEN < (if dma_len - dma_pos < temp then dma_len - dma_pos else temp) then TMPBUF_LEN
    else nat (if dma_len - dma_pos < temp then dma_len - dma_pos else temp))"
  define m where "m = i8257_dma_read_memory d mem nchan tmpbuf (of_int dma_pos) n"
  have m: "m = i8257_dma_read_memory d' mem nchan tmpbuf (of_int dma_pos) n"
    by (simp add: m_def read_memory_cong [OF 1(2)])
  have ih: "temp \<noteq> 0 \<Longrightarrow> min n (audio_room s) \<noteq> 0 \<Longrightarrow>
      write_audio d mem nchan dma_len m (temp - int (min n (audio_room s)))
        ((dma_pos + int (min n (audio_room s))) smod dma_len) (net + int (min n (audio_room s)))
        (put_audio m (min n (audio_room s)) s) =
      write_audio d' mem nchan dma_len m (temp - int (min n (audio_room s)))
        ((dma_pos + int (min n (audio_room s))) smod dma_len) (net + int (min n (audio_room s)))
        (put_audio m (min n (audio_room s)) s)"
    using 1(1) [OF _ refl refl n_def m_def refl _ 1(2)] .
  show ?case
    unfolding write_audio.simps [of d mem nchan dma_len tmpbuf temp dma_pos net s]
      write_audio.simps [of d' mem nchan dma_len tmpbuf temp dma_pos net s] Let_def n_def [symmetric]
      m_def [symmetric] m [symmetric]
    using ih by (cases "temp = 0"; cases "min n (audio_room s) = 0") (simp_all only: if_True if_False simp_thms)
qed

lemma play_cong:
  "regs d (c mod 4) = regs d' (c mod 4) \<Longrightarrow> play d mem tmp c pos len s = play d' mem tmp c pos len s"
  by (simp add: play_def Let_def write_audio_cong [of d c d'])

text \<open>A call while the controller of the current transfer runs.\<close>

lemma control_match:
  "running d \<Longrightarrow> use_hdma (card w) = hi \<Longrightarrow>
   control handler hi False (d, w) =
     (drop_request ((if hi then hdma (card w) else dma (card w)) mod 4) d,
      w\<lparr>card := (card w)\<lparr>dma_running := False, active_out := False\<rparr>\<rparr>)"
  by (simp add: control_def Let_def release_running)

lemma start_block_keeps [simp]:
  "use_hdma (start_block s) = use_hdma s" "dma (start_block s) = dma s" "hdma (start_block s) = hdma s"
  "dma_auto (start_block s) = dma_auto s"
  by (simp_all add: start_block_def)

lemma body_match:
  assumes "running d" "use_hdma (card w) = hi"
  shows "SB_read_DMA_body handler hi h c pos len (d, w) =
    (let (n, v) = sb_result d c pos len w
     in (n, if block_ends d c pos len w
            then drop_request ((if hi then hdma (card w) else dma (card w)) mod 4) d else d, v))"
proof (cases "play d (phys w) (garbage w) c pos len (start_block (card w))")
  case None
  then show ?thesis
    using assms play_cong [of d c "d\<lparr>running := True\<rparr>"]
    by (simp add: SB_read_DMA_body_def sb_result_def block_ends_def Let_def)
next
  case (Some p)
  obtain n s where p: "p = (n, s)" by (cases p)
  have k: "use_hdma s = hi" "hdma s = hdma (card w)" "dma s = dma (card w)"
    using play_keeps [OF Some [unfolded p]] assms(2) by simp_all
  show ?thesis
    using assms Some p k play_cong [of d c "d\<lparr>running := True\<rparr>"]
    by (simp add: SB_read_DMA_body_def sb_result_def block_ends_def Let_def control_match)
qed

lemma sb_result_keeps:
  "sb_result d c pos len w = (n, v) \<Longrightarrow> use_hdma (card v) = use_hdma (card w)"
  by (auto simp: sb_result_def SB_read_DMA_body_def control_match speaker_def Let_def
      dest!: play_keeps split: if_splits option.splits prod.splits)

lemma result_cong:
  assumes "regs d (c mod 4) = regs d' (c mod 4)"
  shows "sb_result d c pos len w = sb_result d' c pos len w" "block_ends d c pos len w = block_ends d' c pos len w"
proof -
  have "play (d\<lparr>running := True\<rparr>) = play d" for d
    by (rule ext)+ (rule play_cong, simp)
  then show "sb_result d c pos len w = sb_result d' c pos len w"
    using play_cong [OF assms]
    by (cases "play d' (phys w) (garbage w) c pos len (start_block (card w))")
       (auto simp: sb_result_def SB_read_DMA_body_def control_match Let_def dest!: play_keeps)
  show "block_ends d c pos len w = block_ends d' c pos len w"
    using play_cong [OF assms] by (simp add: block_ends_def)
qed

text \<open>The handler below the second call is never reached.\<close>

lemma body_match_below:
  assumes "running d" "use_hdma (card w) = hi"
  shows "SB_read_DMA_body f hi h c pos len (d, w) = SB_read_DMA_body g hi h c pos len (d, w)"
  by (simp only: body_match [OF assms])

lemma channel_run_match:
  assumes "running d" "use_hdma (card w) = hi"
  shows "i8257_channel_run (SB_read_DMA_body f hi) i (d, w) = i8257_channel_run (SB_read_DMA_body g hi) i (d, w)"
    and "i8257_channel_run (SB_read_DMA_body f hi) i (d, w) = (d', w') \<Longrightarrow> running d' \<and> use_hdma (card w') = hi"
proof -
  show "i8257_channel_run (SB_read_DMA_body f hi) i (d, w) = i8257_channel_run (SB_read_DMA_body g hi) i (d, w)"
    unfolding i8257_channel_run_def case_prod_conv Let_def body_match_below [OF assms, where f = f and g = g] ..
  show "i8257_channel_run (SB_read_DMA_body f hi) i (d, w) = (d', w') \<Longrightarrow> running d' \<and> use_hdma (card w') = hi"
    using assms
    by (auto simp: i8257_channel_run_def Let_def body_match [OF assms] dest: sb_result_keeps
        split: option.splits prod.splits if_splits)
qed

lemma run_loop_match:
  "running d \<Longrightarrow> use_hdma (card w) = hi \<Longrightarrow>
   dma_run_loop (SB_read_DMA_body f hi) is r (d, w) = dma_run_loop (SB_read_DMA_body g hi) is r (d, w)"
proof (induction "is" arbitrary: r d w)
  case (Cons i "is")
  obtain d' w' where 1: "i8257_channel_run (SB_read_DMA_body f hi) i (d, w) = (d', w')" by (metis surj_pair)
  have 2: "i8257_channel_run (SB_read_DMA_body g hi) i (d, w) = (d', w')"
    using 1 channel_run_match(1) [OF Cons.prems, of f i g] by simp
  have k: "running d'" "use_hdma (card w') = hi" using channel_run_match(2) [OF Cons.prems 1] by simp_all
  show ?case
    by (simp only: dma_run_loop.simps 1 2 fst_conv Cons.IH [OF k] Cons.IH [OF Cons.prems])
qed simp

lemma release_match:
  assumes "use_hdma (card w) = hi"
  shows "i8257_dma_release_DREQ (SB_read_DMA_body f hi) c (d, w) = i8257_dma_release_DREQ (SB_read_DMA_body g hi) c (d, w)"
proof -
  have "dma_run_loop (SB_read_DMA_body f hi) is r (d\<lparr>running := True\<rparr>, w) =
      dma_run_loop (SB_read_DMA_body g hi) is r (d\<lparr>running := True\<rparr>, w)" for "is" r d
    by (rule run_loop_match [OF _ assms]) simp
  then show ?thesis
    unfolding i8257_dma_release_DREQ_def i8257_dma_run_def case_prod_conv Let_def by (simp only:)
qed

lemma SB_read_DMA_unrolled:
  assumes "running d"
  shows "SB_read_DMA_over below hi h c pos len (d, w) = SB_read_DMA_over below' hi h c pos len (d, w)"
proof (cases "use_hdma (card w) = hi")
  case True
  then show ?thesis unfolding SB_read_DMA_over_def by (rule body_match_below [OF assms])
next
  case False
  have ctl: "control (SB_read_DMA_body below) hi False (d, v) = control (SB_read_DMA_body below') hi False (d, v)"
    if "use_hdma (card v) \<noteq> hi" for v
    using that by (simp add: control_def Let_def release_match [of _ "\<not> hi" below _ _ below'])
  show ?thesis
    using False ctl
    by (cases "play d (phys w) (garbage w) c pos len (start_block (card w))")
       (auto simp: SB_read_DMA_over_def SB_read_DMA_body_def [of "SB_read_DMA_body _"] Let_def dest!: play_keeps)
qed

section \<open>The card as a device of the controller\<close>

definition sb_channel :: "bool \<Rightarrow> SB16State \<Rightarrow> nat" where
  "sb_channel hi s = (if hi then hdma s else dma s) mod 4"

definition sb_core :: "nat \<Rightarrow> int \<Rightarrow> int \<Rightarrow> I8257Regs \<Rightarrow> 'o sb_world \<Rightarrow> int \<times> bool \<times> 'o sb_world" where
  "sb_core c pos len r w =
     (let d = (i8257_new 0)\<lparr>regs := \<lambda>_. r\<rparr>
      in (fst (sb_result d c pos len w), block_ends d c pos len w, snd (sb_result d c pos len w)))"

lemma sb_core_eq:
  "c mod 4 = k \<Longrightarrow> sb_core c pos len (regs d k) w =
     (fst (sb_result d c pos len w), block_ends d c pos len w, snd (sb_result d c pos len w))"
  by (simp add: sb_core_def Let_def result_cong [of "(i8257_new 0)\<lparr>regs := \<lambda>_. regs d k\<rparr>" c d])

lemma SB_read_DMA_match:
  "running d \<Longrightarrow> use_hdma (card w) = hi \<Longrightarrow>
   SB_read_DMA hi h c pos len (d, w) =
    (fst (sb_result d c pos len w), if block_ends d c pos len w then drop_request (sb_channel hi (card w)) d else d,
     snd (sb_result d c pos len w))"
  by (simp add: SB_read_DMA_def SB_read_DMA_over_def body_match sb_channel_def split: prod.split)

interpretation sb16: dma_device "SB_read_DMA hi" "k mod 4"
    "\<lambda>w. use_hdma (card w) = hi \<and> sb_channel hi (card w) = k mod 4" sb_core
  for hi k
  by unfold_locales (auto simp: SB_read_DMA_match sb_core_eq)

text \<open>A copy that neither the block, the local buffer nor the ring cuts.\<close>

lemma write_audio_whole:
  assumes "0 < t" "int t \<le> len - pos" "t \<le> TMPBUF_LEN" "t \<le> audio_room s"
  shows "write_audio d mem c len tmp (int t) pos net s =
    (net + int t, put_audio (i8257_dma_read_memory d mem c tmp (of_int pos) t) t s)"
  using assms by (subst write_audio.simps, subst write_audio.simps) (simp add: Let_def min_absorb1)

text \<open>
  The position that a call reports after copying is below the length of the block, so
  the controller never sees the terminal count of a channel that the card plays.
\<close>

lemma play_below_length:
  assumes "0 < len" "play d mem tmp c pos len s = Some (n, s')"
  shows "n < len"
proof -
  have "x smod len < len" for x :: int
  proof (cases "0 < x")
    case True
    then show ?thesis using assms(1) by (simp add: signed_modulo_int_def)
  next
    case False
    then have "x smod len = - (- x mod len)" by (cases "x = 0") (use assms(1) in \<open>simp_all add: signed_modulo_int_def\<close>)
    moreover have "0 \<le> - x mod len" using assms(1) by (rule pos_mod_sign)
    ultimately show ?thesis using assms(1) by linarith
  qed
  with assms(2) show ?thesis by (auto simp: play_def Let_def split: if_splits prod.splits)
qed

section \<open>Properties\<close>

text \<open>
  C13: Let the card's current transfer use controller \<open>hi\<close>, where the card is the only
  device, as the program sets it up.  One run of that controller serves exactly the
  channels that are requested and not masked.  For the card's channel the handler is
  called exactly once, with the channel's position and length, the position becomes
  what it reports, and the world is what that call leaves; the request bit goes away
  exactly when the call ends a single-cycle block.  The bit for the terminal count of
  a channel is set exactly when it was set before or the channel was served and its
  position equals its length.  Every other register, mask and request is unchanged,
  the guard is released, and the run is rescheduled exactly when it was before or some
  channel was served.
\<close>

theorem dma_run_serves_requests:
  assumes "carries hi d (card w)" "\<not> running d" "i8257_dma_run (SB_read_DMA hi) (d, w) = (d', w')"
  shows "let k = sb_channel hi (card w); c = k + 4 * dshift d;
      (n, e, v) = SB_read_DMA hi 0 c (now_count (regs d k)) (chan_len d k) (d\<lparr>running := True\<rparr>, w)
    in served k n (block_ends d c (now_count (regs d k)) (chan_len d k) w) {..<4} d d' \<and> \<not> running d' \<and>
       (dma_bh_scheduled d' \<longleftrightarrow> dma_bh_scheduled d \<or> (\<exists>i<4. chan_active d i)) \<and>
       w' = (if chan_active d k then v else w)"
proof -
  define k where "k = sb_channel hi (card w)"
  define c where "c = k + 4 * dshift d"
  let ?p = "now_count (regs d k)" and ?l = "chan_len d k"
  have u: "use_hdma (card w) = hi" and sole: "sole_device k 0 d"
    using assms(1) by (simp_all add: carries_def k_def sb_channel_def)
  have k: "k mod 4 = k" "c mod 4 = k" using sole by (simp_all add: sole_device_def c_def)
  have call: "SB_read_DMA hi 0 c ?p ?l (d\<lparr>running := True\<rparr>, w) =
      (fst (sb_result d c ?p ?l w), if block_ends d c ?p ?l w then drop_request k (d\<lparr>running := True\<rparr>)
       else d\<lparr>running := True\<rparr>, snd (sb_result d c ?p ?l w))"
    using SB_read_DMA_match [OF _ u, of "d\<lparr>running := True\<rparr>"]
    by (simp add: result_cong [of "d\<lparr>running := True\<rparr>" c d] k_def)
  show ?thesis
    using sb16.run_serves [of k 0 d w hi, unfolded k(1), OF sole assms(2) _ sb_core_eq [OF k(2), of ?p ?l d w, unfolded c_def] assms(3)]
    by (simp add: k_def [symmetric] c_def [symmetric] Let_def call u)
qed

text \<open>
  A card as \<open>sb16_new\<close> sets it up, in a single-cycle transfer of two bytes on channel 1
  of the first controller, whose block is four bytes long.
\<close>

definition playing_card :: SB16State where
  "playing_card =
     \<lparr>irq = 5, dma = 1, hdma = 5, dma_auto = False, block_size = 2, speaker_on = True, use_hdma = False,
      left_till_irq = 2, dma_running = True, align = 0, audio_free = 100, audio_buf = replicate AUDIO_BUF_LEN 0,
      audio_p = 0, audio_q = 0, voice = True, active_out = True, mixer_82 = 0\<rparr>"

definition playing_world :: "unit sb_world" where
  "playing_world =
     \<lparr>card = playing_card, other = snd (sb16_register playing_card (i8257_new 0, i8257_new 1)),
      phys = [1, 2, 3, 4], pic = Inr (i8259_init (\<lambda>_. ()) ()), garbage = replicate TMPBUF_LEN 0\<rparr>"

definition playing_controller :: I8257State where
  "playing_controller =
     set_regs 1 (\<lambda>r. r\<lparr>base_count := 3, dmode := 0x48\<rparr>)
       ((fst (sb16_register playing_card (i8257_new 0, i8257_new 1)))\<lparr>dstatus := 0x20\<rparr>)"

theorem dma_run_serves_requests_witness:
  "\<exists>d' w'. i8257_dma_run (SB_read_DMA False) (playing_controller, playing_world) = (d', w') \<and>
    now_count (regs d' 1) = 2 \<and> \<not> bit (dstatus d') 5 \<and> \<not> bit (dstatus d') 1 \<and> dma_bh_scheduled d'"
proof -
  let ?d = playing_controller and ?w = playing_world
  note defs = playing_controller_def playing_card_def sb16_register_def i8257_dma_register_channel_def i8257_new_def
  have c: "card ?w = playing_card" "sb_channel False playing_card = 1" "dshift ?d = 0" "now_count (regs ?d 1) = 0"
    "chan_len ?d 1 = 4" "chan_active ?d 1" "\<not> running ?d" "\<not> bit (dstatus ?d) 1"
    by (simp_all add: playing_world_def sb_channel_def chan_len_def chan_active_bit defs bit_simps)
  have carries: "carries False ?d (card ?w)"
    by (auto simp: c(1) carries_def sole_device_def defs set_regs_def)
  have room: "audio_room playing_card = 4096" by (simp add: audio_room_eq playing_card_def AUDIO_BUF_LEN_def)
  have "\<exists>s. play ?d (phys ?w) (garbage ?w) 1 0 4 (start_block playing_card) = Some (2, s) \<and>
      left_till_irq s = 0 \<and> \<not> dma_auto s"
    using write_audio_whole [of 2 4 0 playing_card ?d "phys ?w" 1 "garbage ?w" 0] room
    by (simp add: play_def start_block_def playing_card_def TMPBUF_LEN_def put_audio_def Let_def signed_modulo_int_def)
  then obtain s where s: "play ?d (phys ?w) (garbage ?w) 1 0 4 (start_block playing_card) = Some (2, s)"
    "left_till_irq s = 0" "\<not> dma_auto s" by blast
  have ends: "block_ends ?d 1 0 4 ?w" using s by (simp add: block_ends_def c(1)) (simp add: playing_card_def)
  have p: "play (?d\<lparr>running := True\<rparr>) = play ?d" by (rule ext)+ (rule play_cong, simp)
  have u: "\<not> use_hdma playing_card" "0 < block_size playing_card" by (simp_all add: playing_card_def)
  have "fst (SB_read_DMA False 0 1 0 4 (?d\<lparr>running := True\<rparr>, ?w)) = 2"
    using s u by (simp add: SB_read_DMA_match c(1) sb_result_def SB_read_DMA_body_def p Let_def split: prod.split)
  then obtain e v where call: "SB_read_DMA False 0 1 0 4 (?d\<lparr>running := True\<rparr>, ?w) = (2, e, v)"
    by (metis prod.collapse)
  obtain d' w' where run: "i8257_dma_run (SB_read_DMA False) (?d, ?w) = (d', w')" by (metis surj_pair)
  have "served 1 2 True {..<4} ?d d' \<and> dma_bh_scheduled d'"
    using dma_run_serves_requests [OF carries c(7) run] c ends call by (simp add: Let_def) (auto intro: exI [of _ 1])
  then have s: "served 1 2 True {..<4} ?d d'" and bh: "dma_bh_scheduled d'" by simp_all
  have now: "regs d' = (regs ?d)(1 := (regs ?d 1)\<lparr>now_count := 2\<rparr>)"
    using s c(6) unfolding served_def by simp
  have "\<forall>i<4. bit (dstatus d') (i + 4) \<longleftrightarrow>
      bit (dstatus ?d) (i + 4) \<and> \<not> (i = 1 \<and> 1 \<in> {..<4 :: nat} \<and> chan_active ?d 1 \<and> True)"
    and "\<forall>i<4. bit (dstatus d') i \<longleftrightarrow>
      bit (dstatus ?d) i \<or> i \<in> {..<4 :: nat} \<and> chan_active ?d i \<and> now_count (regs d' i) = chan_len ?d i"
    using s unfolding served_def by blast+
  from this(1) [rule_format, of 1] this(2) [rule_format, of 1]
  have "\<not> bit (dstatus d') 5" "\<not> bit (dstatus d') 1" using c(5,6,8) now by simp_all
  then show ?thesis using run now bh by simp
qed

end
