(* ===== verification/Sectors.thy ===== *)
theory Sectors
  imports Prelude
begin

text \<open>
  Sectors of 512 bytes: a disk as a function from sector numbers to their bytes, the change that a write of
  consecutive sectors makes to it, and files as byte lists.
\<close>

definition sector_at :: "u8 list \<Rightarrow> nat \<Rightarrow> u8 list" where
  "sector_at d j = take 512 (drop (512 * j) d)"

definition overlay :: "(nat \<Rightarrow> u8 list) \<Rightarrow> nat \<Rightarrow> nat \<Rightarrow> u8 list \<Rightarrow> nat \<Rightarrow> u8 list" where
  "overlay D s n d = (\<lambda>i. if s \<le> i \<and> i < s + n then sector_at d (i - s) else D i)"

definition file_write :: "u8 list \<Rightarrow> nat \<Rightarrow> u8 list \<Rightarrow> u8 list" where
  "file_write f pos bs = take pos (f @ replicate (pos - length f) 0) @ bs @ drop (pos + length bs) f"

lemma overlay_0 [simp]: "overlay D s 0 d = D"
  by (rule ext) (auto simp: overlay_def)

lemma sector_at_concat: "\<forall>d \<in> set ds. length d = 512 \<Longrightarrow> j < length ds \<Longrightarrow> sector_at (concat ds) j = ds ! j"
proof (induction ds arbitrary: j)
  case (Cons d ds)
  then show ?case by (cases j) (simp_all add: sector_at_def)
qed simp

lemma length_concat_sectors: "\<forall>d \<in> set ds. length d = 512 \<Longrightarrow> length (concat ds) = 512 * length ds"
  by (induction ds) auto

lemma overlay_Cons:
  assumes "length d = 512"
  shows "overlay (\<lambda>i. if i = s then d else D i) (Suc s) n e i = overlay D s (Suc n) (d @ e) i"
proof -
  have "sector_at (d @ e) (i - s) = sector_at e (i - Suc s)" if "Suc s \<le> i"
  proof -
    have "i - s = Suc (i - Suc s)" using that by simp
    then show ?thesis using assms by (simp add: sector_at_def)
  qed
  moreover have "sector_at (d @ e) 0 = d" using assms by (simp add: sector_at_def)
  ultimately show ?thesis by (cases "i = s") (auto simp: overlay_def)
qed

lemma overlay_cong: "D i = E i \<Longrightarrow> overlay D s n d i = overlay E s n d i"
  by (simp add: overlay_def)

lemma length_file_write: "p + length b \<le> length f \<Longrightarrow> length (file_write f p b) = length f"
  by (simp add: file_write_def)

lemma file_write_Nil: "p \<le> length f \<Longrightarrow> file_write f p [] = f"
  by (simp add: file_write_def)

lemma file_write_append:
  "p + length a + length b \<le> length f \<Longrightarrow>
   file_write (file_write f p a) (p + length a) b = file_write f p (a @ b)"
  by (simp add: file_write_def add.assoc add.commute [of "length b"])

lemma sector_at_file_write:
  assumes "512 * s + 512 * n \<le> length f" "length d = 512 * n" "i < length f div 512"
  shows "sector_at (file_write f (512 * s) d) i = overlay (sector_at f) s n d i"
proof -
  have i: "512 * i + 512 \<le> length f" using assms(3) by linarith
  consider "i < s" | "s \<le> i" "i < s + n" | "s + n \<le> i" by linarith
  then show ?thesis
  proof cases
    case 1
    then have "512 * i + 512 \<le> 512 * s" by simp
    then show ?thesis using 1 assms by (simp add: overlay_def sector_at_def file_write_def take_drop min_def)
  next
    case 2
    then have "512 * i = 512 * s + 512 * (i - s)" "512 * (i - s) + 512 \<le> 512 * n" by simp_all
    then show ?thesis using 2 assms by (simp add: overlay_def sector_at_def file_write_def)
  next
    case 3
    then have "512 * i = 512 * s + (512 * n + (512 * i - (512 * s + 512 * n)))" by simp
    moreover have "512 * s + 512 * n + (512 * i - (512 * s + 512 * n)) = 512 * i" using 3 by simp
    ultimately have "drop (512 * i) (file_write f (512 * s) d) = drop (512 * i) f"
      using assms 3 by (simp add: file_write_def)
    then show ?thesis using 3 by (simp add: overlay_def sector_at_def)
  qed
qed

end
