(* ===== verification/NetBlock.thy ===== *)
theory NetBlock
  imports Sectors
begin

text \<open>
  The disk server that streams a raw disk image to the calculator
  (\<open>source/server/netblock_server.c\<close>): its command line, the 32-byte request
  and reply headers, the exact receive and send loops, the accesses to the
  image, the request loop of one client and the sequence of clients.

  The Windows calls are resolved by the record \<open>host\<close>: the segments that
  \<open>recv\<close> delivers, the number of bytes that \<open>send\<close>, \<open>ReadFile\<close> and
  \<open>WriteFile\<close> take in one call, the outcome of the flush calls, of \<open>malloc\<close>
  and of \<open>time\<close>.  Every theorem holds for all of them, so short reads, partial
  sends and failures in the middle of a request are covered.  The log output
  and the socket options of \<open>setup_client_socket\<close> are not modelled; the
  counters that the log prints are.
\<close>

section \<open>Headers\<close>

abbreviation (input) "SECTOR_SIZE \<equiv> (512 :: u32)"
abbreviation (input) "NETBLK_VERSION \<equiv> (1 :: u16)"
abbreviation (input) "NETBLK_OP_HELLO \<equiv> (1 :: u32)"
abbreviation (input) "NETBLK_OP_READ \<equiv> (2 :: u32)"
abbreviation (input) "NETBLK_OP_WRITE \<equiv> (3 :: u32)"
abbreviation (input) "NETBLK_OP_FLUSH \<equiv> (4 :: u32)"
abbreviation (input) "NETBLK_OP_PING \<equiv> (5 :: u32)"
abbreviation (input) "NETBLK_OP_TIME \<equiv> (8 :: u32)"
abbreviation (input) "NETBLK_STATUS_OK \<equiv> (0 :: u32)"
abbreviation (input) "NETBLK_STATUS_BAD_VERSION \<equiv> (2 :: u32)"
abbreviation (input) "NETBLK_STATUS_RANGE \<equiv> (3 :: u32)"
abbreviation (input) "NETBLK_STATUS_WRITE \<equiv> (4 :: u32)"
abbreviation (input) "NETBLK_STATUS_BAD_OP \<equiv> (5 :: u32)"
abbreviation (input) "NETBLK_PROTOCOL_MAX_SECTORS \<equiv> (1024 :: u32)"
abbreviation (input) "NETBLK_PROTOCOL_MAX_PAYLOAD \<equiv> NETBLK_PROTOCOL_MAX_SECTORS * SECTOR_SIZE"
abbreviation (input) "NETBLK_IO_CHUNK_BYTES \<equiv> (65536 :: nat)"

record NetBlockHeader =
  magic :: "u8 list"
  version :: u16
  op :: u16
  lba :: u64
  count :: u32
  bytes :: u32
  status :: u32
  flags :: u32

text \<open>
  The program moves the structure itself over the wire, so the wire format is
  its layout in memory: little-endian fields in the order of the declaration,
  with no padding.
\<close>

definition le_bytes :: "nat \<Rightarrow> 'a::len word \<Rightarrow> u8 list" where
  "le_bytes n w = map (\<lambda>i. ucast (drop_bit (8 * i) w)) [0..<n]"

primrec le_word :: "u8 list \<Rightarrow> 'a::len word" where
  "le_word [] = 0"
| "le_word (b # bs) = ucast b OR push_bit 8 (le_word bs)"

definition encode_header :: "NetBlockHeader \<Rightarrow> u8 list" where
  "encode_header h = magic h @ le_bytes 2 (version h) @ le_bytes 2 (op h) @ le_bytes 8 (lba h) @
     le_bytes 4 (count h) @ le_bytes 4 (bytes h) @ le_bytes 4 (status h) @ le_bytes 4 (flags h)"

definition decode_header :: "u8 list \<Rightarrow> NetBlockHeader" where
  "decode_header bs = \<lparr>
     magic = take 4 bs,
     version = le_word (take 2 (drop 4 bs)),
     op = le_word (take 2 (drop 6 bs)),
     lba = le_word (take 8 (drop 8 bs)),
     count = le_word (take 4 (drop 16 bs)),
     bytes = le_word (take 4 (drop 20 bs)),
     status = le_word (take 4 (drop 24 bs)),
     flags = le_word (take 4 (drop 28 bs))\<rparr>"

text \<open>The bytes \<open>W\<close>, \<open>R\<close>, \<open>B\<close>, \<open>P\<close>.\<close>

definition wrbp :: "u8 list" where
  "wrbp = [0x57, 0x52, 0x42, 0x50]"

definition init_header :: "u32 \<Rightarrow> u64 \<Rightarrow> u32 \<Rightarrow> u32 \<Rightarrow> u32 \<Rightarrow> u32 \<Rightarrow> NetBlockHeader" where
  "init_header op' lba' count' bytes' status' flags' = \<lparr>
     magic = wrbp, version = NETBLK_VERSION, op = ucast op', lba = lba', count = count',
     bytes = bytes', status = status', flags = flags'\<rparr>"

section \<open>Configuration\<close>

record ServerConfig =
  image_path :: "string option"
  listen_addr :: string
  port :: u16
  max_sectors :: u32
  progress_every :: u32
  socket_buffer_kb :: u32
  recv_timeout_ms :: u32
  send_timeout_ms :: u32
  keepalive_time_ms :: u32
  keepalive_interval_ms :: u32
  read_only :: bool
  strict_flush :: bool
  no_keepalive :: bool

text \<open>
  \<open>strtoul\<close> in base ten, with the 32-bit \<open>unsigned long\<close> of Windows: white
  space, one sign and the digits; a value above \<open>ULONG_MAX\<close> sets \<open>errno\<close> and a
  minus sign negates the value in the unsigned type.  The result is the value,
  the rest of the string, \<open>None\<close> where no digit was found (\<open>end == s\<close>), and
  whether \<open>errno\<close> was set.
\<close>

definition isspace :: "char \<Rightarrow> bool" where
  "isspace c = (c \<in> {CHR '' '', CHR 0x09, CHR 0x0A, CHR 0x0B, CHR 0x0C, CHR 0x0D})"

definition isdigit :: "char \<Rightarrow> bool" where
  "isdigit c = (48 \<le> (of_char c :: nat) \<and> (of_char c :: nat) \<le> 57)"

definition decimal :: "string \<Rightarrow> nat" where
  "decimal ds = foldl (\<lambda>v c. 10 * v + (of_char c - 48)) 0 ds"

definition strtoul :: "string \<Rightarrow> (u32 \<times> string) option \<times> bool" where
  "strtoul s =
     (let s1 = dropWhile isspace s;
          neg = (case s1 of [] \<Rightarrow> False | c # _ \<Rightarrow> c = CHR ''-'');
          s2 = (case s1 of [] \<Rightarrow> [] | c # cs \<Rightarrow> if c = CHR ''-'' \<or> c = CHR ''+'' then cs else s1);
          ds = takeWhile isdigit s2; rest = dropWhile isdigit s2;
          v = decimal ds
      in if ds = [] then (None, False)
         else if 2 ^ 32 \<le> v then (Some (0xffffffff, rest), True)
         else (Some (if neg then - of_nat v else of_nat v, rest), False))"

text \<open>\<open>None\<close> is the return value \<open>-1\<close>, with the destination left alone.\<close>

definition parse_u32 :: "string \<Rightarrow> u32 \<Rightarrow> u32 \<Rightarrow> u32 option" where
  "parse_u32 s mn mx =
     (case strtoul s of
        (None, _) \<Rightarrow> None
      | (Some (v, rest), errno) \<Rightarrow>
          if errno \<or> rest \<noteq> [] \<or> v < mn \<or> mx < v then None else Some v)"

definition default_config :: ServerConfig where
  "default_config = \<lparr>
     image_path = None, listen_addr = ''192.168.7.1'', port = 3860, max_sectors = 1024,
     progress_every = 256, socket_buffer_kb = 1024, recv_timeout_ms = 0, send_timeout_ms = 0,
     keepalive_time_ms = 10000, keepalive_interval_ms = 2000,
     read_only = False, strict_flush = False, no_keepalive = True\<rparr>"

text \<open>The options that take a number, with the bounds and the field of each.\<close>

definition number_option :: "string \<Rightarrow> (u32 \<times> u32 \<times> (u32 \<Rightarrow> ServerConfig \<Rightarrow> ServerConfig)) option" where
  "number_option a =
     (if a = ''--port'' then Some (1, 65535, \<lambda>v c. c\<lparr>port := ucast v\<rparr>)
      else if a = ''--max-sectors'' then Some (1, 1024, \<lambda>v c. c\<lparr>max_sectors := v\<rparr>)
      else if a = ''--progress-every'' then Some (1, 1000000, \<lambda>v c. c\<lparr>progress_every := v\<rparr>)
      else if a = ''--socket-buffer-kb'' then Some (16, 8192, \<lambda>v c. c\<lparr>socket_buffer_kb := v\<rparr>)
      else if a = ''--recv-timeout-ms'' then Some (0, 3600000, \<lambda>v c. c\<lparr>recv_timeout_ms := v\<rparr>)
      else if a = ''--send-timeout-ms'' then Some (0, 3600000, \<lambda>v c. c\<lparr>send_timeout_ms := v\<rparr>)
      else if a = ''--keepalive-time-ms'' then Some (1000, 3600000, \<lambda>v c. c\<lparr>keepalive_time_ms := v\<rparr>)
      else if a = ''--keepalive-interval-ms'' then Some (500, 3600000, \<lambda>v c. c\<lparr>keepalive_interval_ms := v\<rparr>)
      else None)"

text \<open>
  \<open>parse_args\<close> returns 0, \<open>-1\<close> or, for a request for help, 1 together with the
  configuration; the list holds the arguments after the program name.
\<close>

function parse_args_loop :: "ServerConfig \<Rightarrow> string list \<Rightarrow> int \<times> ServerConfig" where
  "parse_args_loop c [] = (if image_path c = None \<or> image_path c = Some [] then (-1, c) else (0, c))"
| "parse_args_loop c (a # as) =
     (if a = ''--image'' \<and> as \<noteq> [] then parse_args_loop (c\<lparr>image_path := Some (hd as)\<rparr>) (tl as)
      else if a = ''--listen'' \<and> as \<noteq> [] then parse_args_loop (c\<lparr>listen_addr := hd as\<rparr>) (tl as)
      else if number_option a \<noteq> None \<and> as \<noteq> [] then
        (case number_option a of None \<Rightarrow> (-1, c) | Some (mn, mx, upd) \<Rightarrow>
           case parse_u32 (hd as) mn mx of
             None \<Rightarrow> (-1, c) | Some v \<Rightarrow> parse_args_loop (upd v c) (tl as))
      else if a = ''--readonly'' \<or> a = ''--read-only'' then parse_args_loop (c\<lparr>read_only := True\<rparr>) as
      else if a = ''--strict-flush'' then parse_args_loop (c\<lparr>strict_flush := True\<rparr>) as
      else if a = ''--keepalive'' then parse_args_loop (c\<lparr>no_keepalive := False\<rparr>) as
      else if a = ''--no-keepalive'' then parse_args_loop (c\<lparr>no_keepalive := True\<rparr>) as
      else if a = ''--help'' \<or> a = ''-h'' then (1, c)
      else if image_path c = None \<and> (a = [] \<or> hd a \<noteq> CHR ''-'') then
        parse_args_loop (c\<lparr>image_path := Some a\<rparr>) as
      else (-1, c))"
  by pat_completeness auto
termination
  by (relation "measure (\<lambda>(c, as). length as)") (auto simp: length_tl less_Suc_eq_le)

definition parse_args :: "string list \<Rightarrow> int \<times> ServerConfig" where
  "parse_args args = parse_args_loop default_config args"

section \<open>The connection and the image\<close>

record host =
  incoming :: "u8 list list"
  windows :: "nat list"
  sent :: "u8 list"
  transfers :: "nat list"
  flush_results :: "bool list"
  wall_times :: "int list"
  malloc_ok :: bool

text \<open>
  One call of \<open>recv\<close> delivers at most \<open>chunk\<close> bytes of the next segment; an
  empty segment or the end of the list is a closed or failed connection.  One
  call of \<open>send\<close> takes at most the next window of bytes, and takes none when
  the connection has failed; \<open>use_window\<close> is the number of bytes of such a call
  and the windows that are left.
\<close>

definition recv :: "host \<Rightarrow> nat \<Rightarrow> (u8 list \<times> host) option" where
  "recv h chunk =
     (case incoming h of
        [] \<Rightarrow> None
      | seg # rest \<Rightarrow>
          (let n = min chunk (length seg)
           in if n = 0 then None
              else Some (take n seg, h\<lparr>incoming := if n < length seg then drop n seg # rest else rest\<rparr>)))"

definition use_window :: "nat list \<Rightarrow> nat \<Rightarrow> nat \<times> nat list" where
  "use_window ws n =
     (case ws of
        [] \<Rightarrow> (0, [])
      | w # rest \<Rightarrow>
          if w = 0 then (0, ws)
          else let k = min n w in (k, if k < w then (w - k) # rest else rest))"

definition send :: "host \<Rightarrow> u8 list \<Rightarrow> (nat \<times> host) option" where
  "send h chunk =
     (let (n, ws) = use_window (windows h) (length chunk)
      in if n = 0 then None else Some (n, h\<lparr>sent := sent h @ take n chunk, windows := ws\<rparr>))"

function recv_all :: "host \<Rightarrow> nat \<Rightarrow> u8 list option \<times> host" where
  "recv_all h len =
     (if len = 0 then (Some [], h)
      else case recv h (if NETBLK_IO_CHUNK_BYTES < len then NETBLK_IO_CHUNK_BYTES else len) of
        None \<Rightarrow> (None, h)
      | Some (p, h1) \<Rightarrow>
          (case recv_all h1 (len - length p) of
             (None, h2) \<Rightarrow> (None, h2)
           | (Some r, h2) \<Rightarrow> (Some (p @ r), h2)))"
  by pat_completeness auto
termination
  by (relation "measure snd") (auto simp: recv_def Let_def split: list.splits if_splits)

function send_all :: "host \<Rightarrow> u8 list \<Rightarrow> bool \<times> host" where
  "send_all h buf =
     (if buf = [] then (True, h)
      else case send h (if NETBLK_IO_CHUNK_BYTES < length buf then take NETBLK_IO_CHUNK_BYTES buf else buf) of
        None \<Rightarrow> (False, h)
      | Some (n, h1) \<Rightarrow> send_all h1 (drop n buf))"
  by pat_completeness auto
termination
  by (relation "measure (\<lambda>(h, buf). length buf)") (auto simp: send_def split: prod.splits if_splits)

declare recv_all.simps [simp del] send_all.simps [simp del]

text \<open>
  A receive into the transfer buffer of \<open>cap\<close> bytes; asking for more than it
  holds counts as an access outside it.
\<close>

definition recv_buf :: "host \<Rightarrow> nat \<Rightarrow> nat \<Rightarrow> (u8 list option \<times> host) result" where
  "recv_buf h cap len = (if cap < len then Inl OutOfBounds else Inr (recv_all h len))"

function recv_discard :: "host \<Rightarrow> nat \<Rightarrow> nat \<Rightarrow> (bool \<times> host) result" where
  "recv_discard h scratch_bytes n =
     (if n = 0 then Inr (True, h)
      else let chunk = (if n < scratch_bytes then n else scratch_bytes)
           in if chunk = 0 then Inr (False, h)
              else bind_result (recv_buf h scratch_bytes chunk) (\<lambda>(r, h1).
                case r of None \<Rightarrow> Inr (False, h1)
                | Some _ \<Rightarrow> recv_discard h1 scratch_bytes (n - chunk)))"
  by pat_completeness auto
termination
  by (relation "measure (\<lambda>(h, s, n). n)") (auto split: if_splits)

declare recv_discard.simps [simp del]

definition send_header :: "host \<Rightarrow> u32 \<Rightarrow> u64 \<Rightarrow> u32 \<Rightarrow> u32 \<Rightarrow> u32 \<Rightarrow> u32 \<Rightarrow> bool \<times> host" where
  "send_header h op' lba' count' bytes' status' flags' =
     send_all h (encode_header (init_header op' lba' count' bytes' status' flags'))"

text \<open>
  The image is the contents of the file; \<open>image_view\<close> tells whether it is
  mapped into memory or accessed with file calls.
\<close>

record ServerState =
  image_file :: "u8 list"
  image_view :: bool
  image_bytes :: u64
  sector_count :: u64
  cfg :: ServerConfig

text \<open>
  \<open>SetFilePointerEx\<close> fails on a negative position.  A call of \<open>ReadFile\<close> or
  \<open>WriteFile\<close> moves at most the next number of \<open>transfers\<close>; moving nothing is
  the failure branch of both loops.
\<close>

function read_file_loop :: "host \<Rightarrow> u8 list \<Rightarrow> nat \<Rightarrow> u8 list option \<times> host" where
  "read_file_loop h file want =
     (if want = 0 then (Some [], h)
      else let (n, ts) = use_window (transfers h) want; got = take n file; h1 = h\<lparr>transfers := ts\<rparr>
           in if got = [] then (None, h1)
              else case read_file_loop h1 (drop (length got) file) (want - length got) of
                (None, h2) \<Rightarrow> (None, h2)
              | (Some r, h2) \<Rightarrow> (Some (got @ r), h2))"
  by pat_completeness auto
termination
  by (relation "measure (\<lambda>(h, f, n). n)") auto

definition read_file_exact :: "ServerState \<Rightarrow> host \<Rightarrow> u64 \<Rightarrow> nat \<Rightarrow> u8 list option \<times> host" where
  "read_file_exact st h offset n =
     (if sint offset < 0 then (None, h) else read_file_loop h (drop (unat offset) (image_file st)) n)"

function write_file_loop :: "host \<Rightarrow> u8 list \<Rightarrow> nat \<Rightarrow> u8 list \<Rightarrow> bool \<times> u8 list \<times> host" where
  "write_file_loop h file pos buf =
     (if buf = [] then (True, file, h)
      else let (wrote, ts) = use_window (transfers h) (length buf); h1 = h\<lparr>transfers := ts\<rparr>
           in if wrote = 0 then (False, file, h1)
              else write_file_loop h1 (file_write file pos (take wrote buf)) (pos + wrote) (drop wrote buf))"
  by pat_completeness auto
termination
  by (relation "measure (\<lambda>(h, f, p, b). length b)") auto

declare read_file_loop.simps [simp del] write_file_loop.simps [simp del]

definition write_file_exact :: "ServerState \<Rightarrow> host \<Rightarrow> u64 \<Rightarrow> u8 list \<Rightarrow> bool \<times> ServerState \<times> host" where
  "write_file_exact st h offset buf =
     (if sint offset < 0 then (False, st, h)
      else case write_file_loop h (image_file st) (unat offset) buf of
        (ok, f, h1) \<Rightarrow> (ok, st\<lparr>image_file := f\<rparr>, h1))"

definition send_image_exact :: "ServerState \<Rightarrow> host \<Rightarrow> nat \<Rightarrow> u64 \<Rightarrow> u32 \<Rightarrow> (bool \<times> host) result" where
  "send_image_exact st h cap offset n =
     (if image_view st then
        if length (image_file st) < unat offset + unat n then Inl OutOfBounds
        else Inr (send_all h (take (unat n) (drop (unat offset) (image_file st))))
      else if cap < unat n then Inl OutOfBounds
      else case read_file_exact st h offset (unat n) of
        (None, h1) \<Rightarrow> Inr (False, h1)
      | (Some d, h1) \<Rightarrow> Inr (send_all h1 d))"

definition write_image_exact :: "ServerState \<Rightarrow> host \<Rightarrow> u64 \<Rightarrow> u8 list \<Rightarrow> (bool \<times> ServerState \<times> host) result" where
  "write_image_exact st h offset buf =
     (if image_view st then
        if length (image_file st) < unat offset + length buf then Inl OutOfBounds
        else Inr (True, st\<lparr>image_file := file_write (image_file st) (unat offset) buf\<rparr>, h)
      else Inr (write_file_exact st h offset buf))"

function recv_image_write ::
  "ServerState \<Rightarrow> host \<Rightarrow> u64 \<Rightarrow> nat \<Rightarrow> nat \<Rightarrow> (bool \<times> ServerState \<times> host) result" where
  "recv_image_write st h offset n scratch_bytes =
     (if n = 0 then Inr (True, st, h)
      else let chunk = (if n < scratch_bytes then n else scratch_bytes)
           in if chunk = 0 then Inr (False, st, h)
              else bind_result (recv_buf h scratch_bytes chunk) (\<lambda>(r, h1).
                case r of None \<Rightarrow> Inr (False, st, h1)
                | Some scratch \<Rightarrow>
                    bind_result (write_image_exact st h1 offset scratch) (\<lambda>(ok, st1, h2).
                      if \<not> ok then Inr (False, st1, h2)
                      else recv_image_write st1 h2 (offset + of_nat chunk) (n - chunk) scratch_bytes)))"
  by pat_completeness auto
termination
  by (relation "measure (\<lambda>(st, h, off, n, s). n)") (auto split: if_splits)

declare recv_image_write.simps [simp del]

definition flush_call :: "host \<Rightarrow> bool \<times> host" where
  "flush_call h =
     (case flush_results h of [] \<Rightarrow> (False, h) | r # rs \<Rightarrow> (r, h\<lparr>flush_results := rs\<rparr>))"

definition flush_image :: "ServerState \<Rightarrow> host \<Rightarrow> bool \<times> host" where
  "flush_image st h =
     (let (viewed, h1) = (if image_view st then flush_call h else (True, h))
      in if \<not> viewed then (False, h1) else flush_call h1)"

section \<open>One client\<close>

record session =
  hello_count :: u64
  read_count :: u64
  write_count :: u64
  flush_count :: u64
  ping_count :: u64
  read_sectors :: u64
  write_sectors :: u64

text \<open>
  What the body of the request loop does next: \<open>Continue\<close> with the next
  request, or \<open>Leave\<close> the loop with the return code.
\<close>

datatype flow = Continue | Leave int

type_synonym served = "(flow \<times> ServerState \<times> session \<times> host) result"

text \<open>
  The transfer counters are printed for the first requests and then at every
  multiple of \<open>progress_every\<close>, by a C remainder.
\<close>

definition log_progress :: "u64 \<Rightarrow> u64 \<Rightarrow> u32 \<Rightarrow> unit result" where
  "log_progress n first every =
     (if n \<le> first then Inr () else if every = 0 then Inl DivByZero else Inr ())"

definition max_bytes :: "ServerState \<Rightarrow> u32" where
  "max_bytes st = max_sectors (cfg st) * SECTOR_SIZE"

definition time_call :: "host \<Rightarrow> int \<times> host" where
  "time_call h = (case wall_times h of [] \<Rightarrow> (-1, h) | t # ts \<Rightarrow> (t, h\<lparr>wall_times := ts\<rparr>))"

definition op_time :: "ServerState \<Rightarrow> session \<Rightarrow> host \<Rightarrow> served" where
  "op_time st s h =
     (let (wall_time, h1) = time_call h
      in if wall_time < 0 then
           Inr (Continue, st, s, snd (send_header h1 NETBLK_OP_TIME 0 0 0 NETBLK_STATUS_BAD_OP 0))
         else let (ok, h2) = send_header h1 NETBLK_OP_TIME (of_int wall_time) 0 0 NETBLK_STATUS_OK 0
              in Inr (Leave (if ok then 0 else -1), st, s, h2))"

definition op_hello :: "ServerState \<Rightarrow> session \<Rightarrow> host \<Rightarrow> served" where
  "op_hello st s h =
     (let s1 = s\<lparr>hello_count := hello_count s + 1\<rparr>;
          (ok, h1) = send_header h NETBLK_OP_HELLO (sector_count st) SECTOR_SIZE
            (max_sectors (cfg st)) 0 (if read_only (cfg st) then 0 else 1)
      in Inr (if ok then Continue else Leave (-1), st, s1, h1))"

definition op_read :: "ServerState \<Rightarrow> session \<Rightarrow> host \<Rightarrow> NetBlockHeader \<Rightarrow> served" where
  "op_read st s h r =
     (let end_lba = lba r + ucast (count r)
      in if count r = 0 \<or> max_sectors (cfg st) < count r \<or> end_lba < lba r \<or> sector_count st < end_lba then
           Inr (Continue, st, s, snd (send_header h NETBLK_OP_READ 0 0 0 NETBLK_STATUS_RANGE 0))
         else let need = count r * SECTOR_SIZE;
                  (ok, h1) = send_header h NETBLK_OP_READ (lba r) (count r) need 0 0
              in if \<not> ok then Inr (Leave (-1), st, s, h1)
                 else bind_result
                   (send_image_exact st h1 (unat (max_bytes st)) (lba r * ucast SECTOR_SIZE) need) (\<lambda>(ok2, h2).
                   if \<not> ok2 then Inr (Leave (-1), st, s, h2)
                   else Inr (Continue, st,
                     s\<lparr>read_count := read_count s + 1, read_sectors := read_sectors s + ucast (count r)\<rparr>, h2)))"

definition op_write :: "ServerState \<Rightarrow> session \<Rightarrow> host \<Rightarrow> NetBlockHeader \<Rightarrow> served" where
  "op_write st s h r =
     (let need = count r * SECTOR_SIZE; end_lba = lba r + ucast (count r)
      in if read_only (cfg st) \<or> count r = 0 \<or> NETBLK_PROTOCOL_MAX_SECTORS < count r \<or> bytes r \<noteq> need \<or>
            end_lba < lba r \<or> sector_count st < end_lba then
           if bytes r \<noteq> 0 \<and> bytes r \<le> NETBLK_PROTOCOL_MAX_PAYLOAD then
             bind_result (recv_discard h (unat (max_bytes st)) (unat (bytes r))) (\<lambda>(ok, h1).
               if \<not> ok then Inr (Leave (-1), st, s, h1)
               else Inr (Continue, st, s, snd (send_header h1 NETBLK_OP_WRITE 0 0 0 NETBLK_STATUS_WRITE 0)))
           else if bytes r \<noteq> 0 then Inr (Leave (-1), st, s, h)
           else Inr (Continue, st, s, snd (send_header h NETBLK_OP_WRITE 0 0 0 NETBLK_STATUS_WRITE 0))
         else bind_result
           (recv_image_write st h (lba r * ucast SECTOR_SIZE) (unat need) (unat (max_bytes st))) (\<lambda>(ok, st1, h1).
           if \<not> ok then Inr (Leave (-1), st1, s, snd (send_header h1 NETBLK_OP_WRITE 0 0 0 NETBLK_STATUS_WRITE 0))
           else let (ok2, h2) = send_header h1 NETBLK_OP_WRITE (lba r) (count r) 0 0 0;
                    s1 = s\<lparr>write_count := write_count s + 1,
                           write_sectors := write_sectors s + ucast (count r)\<rparr>
                in if \<not> ok2 then Inr (Leave (-1), st1, s, h2)
                   else bind_result (log_progress (write_count s1) 16 (progress_every (cfg st))) (\<lambda>_.
                     Inr (Continue, st1, s1, h2))))"

definition op_flush :: "ServerState \<Rightarrow> session \<Rightarrow> host \<Rightarrow> served" where
  "op_flush st s h =
     (let (failed, h1) = (if \<not> read_only (cfg st) \<and> strict_flush (cfg st)
                          then (case flush_image st h of (ok, h1) \<Rightarrow> (\<not> ok, h1)) else (False, h));
          (ok, h2) = send_header h1 NETBLK_OP_FLUSH 0 0 0 (if failed then NETBLK_STATUS_WRITE else NETBLK_STATUS_OK) 0;
          s1 = s\<lparr>flush_count := flush_count s + 1\<rparr>
      in if \<not> ok then Inr (Leave (-1), st, s, h2)
         else bind_result (log_progress (flush_count s1) 8 (progress_every (cfg st))) (\<lambda>_.
           Inr (Continue, st, s1, h2)))"

definition op_ping :: "ServerState \<Rightarrow> session \<Rightarrow> host \<Rightarrow> NetBlockHeader \<Rightarrow> served" where
  "op_ping st s h r =
     (if max_bytes st < bytes r then Inr (Leave (-1), st, s, h)
      else bind_result (if bytes r \<noteq> 0 then recv_buf h (unat (max_bytes st)) (unat (bytes r)) else Inr (Some [], h))
        (\<lambda>(p, h1).
          if p = None then Inr (Leave (-1), st, s, h1)
          else let (ok, h2) = send_header h1 NETBLK_OP_PING 0 0 0 0 0;
                   s1 = s\<lparr>ping_count := ping_count s + 1\<rparr>
               in if \<not> ok then Inr (Leave (-1), st, s, h2)
                  else bind_result (log_progress (ping_count s1) 8 (progress_every (cfg st))) (\<lambda>_.
                    Inr (Continue, st, s1, h2))))"

definition op_unknown :: "ServerState \<Rightarrow> session \<Rightarrow> host \<Rightarrow> NetBlockHeader \<Rightarrow> served" where
  "op_unknown st s h r =
     (if max_bytes st < bytes r then Inr (Leave (-1), st, s, h)
      else bind_result (if bytes r \<noteq> 0 then recv_buf h (unat (max_bytes st)) (unat (bytes r)) else Inr (Some [], h))
        (\<lambda>(p, h1).
          if p = None then Inr (Leave (-1), st, s, h1)
          else let (ok, h2) = send_header h1 (ucast (op r)) 0 0 0 NETBLK_STATUS_BAD_OP 0
               in Inr (if ok then Continue else Leave (-1), st, s, h2)))"

text \<open>The body of the loop for a header that has been received.\<close>

definition handle_request :: "ServerState \<Rightarrow> session \<Rightarrow> host \<Rightarrow> NetBlockHeader \<Rightarrow> served" where
  "handle_request st s h r =
     (if magic r \<noteq> wrbp then Inr (Leave (-1), st, s, h)
      else if version r \<noteq> NETBLK_VERSION then
        Inr (Continue, st, s, snd (send_header h (ucast (op r)) 0 0 0 NETBLK_STATUS_BAD_VERSION 0))
      else if ucast (op r) = NETBLK_OP_TIME then op_time st s h
      else if ucast (op r) = NETBLK_OP_HELLO then op_hello st s h
      else if ucast (op r) = NETBLK_OP_READ then op_read st s h r
      else if ucast (op r) = NETBLK_OP_WRITE then op_write st s h r
      else if ucast (op r) = NETBLK_OP_FLUSH then op_flush st s h
      else if ucast (op r) = NETBLK_OP_PING then op_ping st s h r
      else op_unknown st s h r)"

text \<open>
  The request loop ends because every iteration takes a header from what the
  client still sends: \<open>readable\<close> is what the receive calls can still deliver,
  \<open>room\<close> the number of bytes that the send calls still take.
\<close>

definition deliverable :: "u8 list list \<Rightarrow> u8 list" where
  "deliverable segs = concat (takeWhile (\<lambda>s. s \<noteq> []) segs)"

definition readable :: "host \<Rightarrow> u8 list" where
  "readable h = deliverable (incoming h)"

definition room :: "nat list \<Rightarrow> nat" where
  "room ws = sum_list (takeWhile (\<lambda>w. w \<noteq> 0) ws)"

lemma use_window_le: "use_window ws n = (k, ws1) \<Longrightarrow> k \<le> n \<and> room ws1 \<le> room ws"
  by (cases ws) (auto simp: use_window_def room_def Let_def split: if_splits)

lemma use_window_0: "use_window ws n = (0, ws1) \<Longrightarrow> 0 < n \<Longrightarrow> room ws = 0 \<and> room ws1 = 0"
  by (cases ws) (auto simp: use_window_def room_def Let_def split: if_splits)

lemma use_window_pos: "use_window ws n = (k, ws1) \<Longrightarrow> 0 < k \<Longrightarrow> room ws = k + room ws1"
  by (auto simp: use_window_def room_def Let_def split: list.splits if_splits)

lemma recv_None: "0 < n \<Longrightarrow> recv h n = None \<longleftrightarrow> readable h = []"
proof (cases "incoming h")
  case (Cons seg rest)
  assume "0 < n"
  with Cons show ?thesis by (cases seg) (simp_all add: recv_def readable_def deliverable_def Let_def)
qed (simp add: recv_def readable_def deliverable_def)

lemma recv_Some:
  assumes "recv h n = Some (p, h1)"
  shows "\<exists>inc. h1 = h\<lparr>incoming := inc\<rparr>" "readable h = p @ readable h1" "0 < length p" "length p \<le> n"
  using assms by (auto simp: recv_def readable_def deliverable_def Let_def split: list.splits if_splits)

lemma recv_all_spec:
  "\<exists>inc. recv_all h n =
     (if n \<le> length (readable h) then Some (take n (readable h)) else None, h\<lparr>incoming := inc\<rparr>) \<and>
     deliverable inc = drop n (readable h)"
proof (induction h n rule: recv_all.induct)
  case (1 h n)
  show ?case
  proof (cases "n = 0")
    case True
    then show ?thesis by (auto simp: recv_all.simps readable_def intro: exI [of _ "incoming h"])
  next
    case False
    let ?c = "if NETBLK_IO_CHUNK_BYTES < n then NETBLK_IO_CHUNK_BYTES else n"
    show ?thesis
    proof (cases "recv h ?c")
      case None
      then have "readable h = []" using recv_None [of ?c h] False by simp
      with None False show ?thesis
        by (auto simp: recv_all.simps readable_def intro: exI [of _ "incoming h"])
    next
      case (Some x)
      obtain p h2 where x: "x = (p, h2)" by (cases x)
      note R = recv_Some [OF Some [unfolded x]]
      have "length p \<le> n" using R(4) by (auto split: if_splits)
      moreover obtain inc where "recv_all h2 (n - length p) =
          (if n - length p \<le> length (readable h2) then Some (take (n - length p) (readable h2)) else None,
           h2\<lparr>incoming := inc\<rparr>)" "deliverable inc = drop (n - length p) (readable h2)"
        using "1.IH" [OF False Some x [symmetric]] by blast
      ultimately show ?thesis
        using R(1,2) False Some x by (auto simp: recv_all.simps intro: exI [of _ inc])
    qed
  qed
qed

lemma recv_allE:
  obtains inc where "recv_all h n =
     (if n \<le> length (readable h) then Some (take n (readable h)) else None, h\<lparr>incoming := inc\<rparr>)"
     "deliverable inc = drop n (readable h)"
  using recv_all_spec by blast

lemma readable_incoming [simp]: "readable (h\<lparr>incoming := inc\<rparr>) = deliverable inc"
  by (simp add: readable_def)

lemma readable_other [simp]:
  "readable (h\<lparr>transfers := ts\<rparr>) = readable h" "readable (h\<lparr>sent := bs\<rparr>) = readable h"
  "readable (h\<lparr>windows := ws\<rparr>) = readable h" "readable (h\<lparr>flush_results := fs\<rparr>) = readable h"
  "readable (h\<lparr>wall_times := ws'\<rparr>) = readable h"
  by (simp_all add: readable_def)

lemma send_all_spec:
  "\<exists>ws. send_all h buf =
     (length buf \<le> room (windows h), h\<lparr>sent := sent h @ take (room (windows h)) buf, windows := ws\<rparr>) \<and>
     room ws = room (windows h) - length buf"
proof (induction h buf rule: send_all.induct)
  case (1 h buf)
  let ?c = "if NETBLK_IO_CHUNK_BYTES < length buf then take NETBLK_IO_CHUNK_BYTES buf else buf"
  obtain n w where W: "use_window (windows h) (length ?c) = (n, w)" by (metis surj_pair)
  consider "buf = []" | "buf \<noteq> []" "n = 0" | "buf \<noteq> []" "0 < n" by auto
  then show ?case
  proof cases
    case 1
    then show ?thesis by (auto simp: send_all.simps intro: exI [of _ "windows h"])
  next
    case 2
    then have "room (windows h) = 0" using use_window_0 [of _ _ w] W by auto
    with 2 W show ?thesis
      by (auto simp: send_all.simps send_def intro: exI [of _ "windows h"])
  next
    case 3
    let ?h = "h\<lparr>sent := sent h @ take n buf, windows := w\<rparr>"
    have n: "n \<le> length ?c" using use_window_le [OF W] by simp
    then have "n \<le> length buf" "take n ?c = take n buf" by (auto split: if_splits)
    then have s: "send h ?c = Some (n, ?h)" using 3 W by (simp add: send_def)
    obtain ws where "send_all ?h (drop n buf) =
        (length (drop n buf) \<le> room w, ?h\<lparr>sent := sent ?h @ take (room w) (drop n buf), windows := ws\<rparr>)"
        "room ws = room w - length (drop n buf)"
      using "1.IH" [OF 3(1) s refl] by auto
    then show ?thesis
      using 3 s \<open>n \<le> length buf\<close> use_window_pos [OF W]
      by (auto simp: send_all.simps [of h] take_add intro!: exI [of _ ws])
  qed
qed

lemma send_allE:
  obtains ws where "send_all h buf =
     (length buf \<le> room (windows h), h\<lparr>sent := sent h @ take (room (windows h)) buf, windows := ws\<rparr>)"
     "room ws = room (windows h) - length buf"
  using send_all_spec by blast

lemma readable_send_all: "send_all h buf = (ok, h1) \<Longrightarrow> readable h1 = readable h"
  by (rule send_allE [of h buf]) (auto simp: readable_def)

lemma readable_send_header: "readable (snd (send_header h a b c d e f)) = readable h"
  by (simp add: send_header_def readable_send_all [OF surjective_pairing])

lemma recv_buf_le: "n \<le> cap \<Longrightarrow> recv_buf h cap n = Inr (recv_all h n)"
  by (simp add: recv_buf_def)

lemma recv_discard_spec:
  "0 < k \<Longrightarrow> \<exists>inc. recv_discard h k n = Inr (n \<le> length (readable h), h\<lparr>incoming := inc\<rparr>) \<and>
     deliverable inc = drop n (readable h)"
proof (induction n arbitrary: h rule: less_induct)
  case (less n)
  show ?case
  proof (cases "n = 0")
    case True
    then show ?thesis by (auto simp: recv_discard.simps readable_def intro: exI [of _ "incoming h"])
  next
    case False
    define c where "c = (if n < k then n else k)"
    have c: "0 < c" "c \<le> k" "c \<le> n" using False less.prems by (auto simp: c_def)
    obtain inc where R: "recv_all h c =
        (if c \<le> length (readable h) then Some (take c (readable h)) else None, h\<lparr>incoming := inc\<rparr>)"
      "deliverable inc = drop c (readable h)"
      by (rule recv_allE)
    have step: "recv_discard h k n = (if c \<le> length (readable h) then
        recv_discard (h\<lparr>incoming := inc\<rparr>) k (n - c) else Inr (False, h\<lparr>incoming := inc\<rparr>))"
      using False c R(1) by (subst recv_discard.simps) (simp add: c_def [symmetric] recv_buf_le)
    show ?thesis
    proof (cases "c \<le> length (readable h)")
      case True
      obtain inc2 where "recv_discard (h\<lparr>incoming := inc\<rparr>) k (n - c) =
          Inr (n - c \<le> length (drop c (readable h)), h\<lparr>incoming := inc2\<rparr>)"
          "deliverable inc2 = drop (n - c) (drop c (readable h))"
        using less.IH [of "n - c" "h\<lparr>incoming := inc\<rparr>"] c less.prems R(2) by auto
      then show ?thesis using step True c by auto
    next
      case False
      then show ?thesis using step c R(2) by auto
    qed
  qed
qed

lemma read_file_loop_spec:
  "\<exists>ts. read_file_loop h f n =
     (if n \<le> room (transfers h) \<and> n \<le> length f then Some (take n f) else None, h\<lparr>transfers := ts\<rparr>) \<and>
     (n \<le> length f \<longrightarrow> room ts = room (transfers h) - n)"
proof (induction h f n rule: read_file_loop.induct)
  case (1 h f n)
  obtain k w where W: "use_window (transfers h) n = (k, w)" by (metis surj_pair)
  consider "n = 0" | "n \<noteq> 0" "take k f = []" | "n \<noteq> 0" "take k f \<noteq> []" by blast
  then show ?case
  proof cases
    case 1
    then show ?thesis by (auto simp: read_file_loop.simps intro: exI [of _ "transfers h"])
  next
    case 2
    then have "f = [] \<or> room (transfers h) = 0 \<and> room w = 0" using use_window_0 [of _ _ w] W by auto
    with 2 W show ?thesis by (auto simp: read_file_loop.simps intro: exI [of _ w])
  next
    case 3
    let ?g = "take k f"
    have k: "k \<le> n" "0 < k" using use_window_le [OF W] 3 by (auto intro: gr0I)
    obtain ts where "read_file_loop (h\<lparr>transfers := w\<rparr>) (drop (length ?g) f) (n - length ?g) =
        (if n - length ?g \<le> room w \<and> n - length ?g \<le> length (drop (length ?g) f)
         then Some (take (n - length ?g) (drop (length ?g) f)) else None, h\<lparr>transfers := ts\<rparr>)"
        "n - length ?g \<le> length (drop (length ?g) f) \<longrightarrow> room ts = room w - (n - length ?g)"
      using "1.IH" [OF 3(1) W [symmetric] refl refl refl 3(2)] by auto
    then show ?thesis
      using 3 k W use_window_pos [OF W k(2)]
      by (cases "k \<le> length f")
         (auto simp: read_file_loop.simps [of h] min_def take_add [symmetric] intro!: exI [of _ ts])
  qed
qed

lemma write_file_loop_spec:
  "p + length b \<le> length f \<Longrightarrow> \<exists>ts. write_file_loop h f p b =
     (length b \<le> room (transfers h), file_write f p (take (room (transfers h)) b), h\<lparr>transfers := ts\<rparr>) \<and>
     room ts = room (transfers h) - length b"
proof (induction h f p b rule: write_file_loop.induct)
  case (1 h f p b)
  obtain k w where W: "use_window (transfers h) (length b) = (k, w)" by (metis surj_pair)
  consider "b = []" | "b \<noteq> []" "k = 0" | "b \<noteq> []" "0 < k" by auto
  then show ?case
  proof cases
    case 1
    then show ?thesis using "1.prems"
      by (auto simp: write_file_loop.simps file_write_Nil intro: exI [of _ "transfers h"])
  next
    case 2
    then have "room (transfers h) = 0" "room w = 0" using use_window_0 [of _ _ w] W by auto
    with 2 W "1.prems" show ?thesis
      by (auto simp: write_file_loop.simps file_write_Nil intro: exI [of _ w])
  next
    case 3
    have k: "k \<le> length b" using use_window_le [OF W] by simp
    let ?f = "file_write f p (take k b)"
    have len: "length ?f = length f" using k "1.prems" by (simp add: length_file_write)
    obtain ts where "write_file_loop (h\<lparr>transfers := w\<rparr>) ?f (p + k) (drop k b) =
        (length (drop k b) \<le> room w, file_write ?f (p + k) (take (room w) (drop k b)), h\<lparr>transfers := ts\<rparr>)"
        "room ts = room w - length (drop k b)"
      using "1.IH" [OF 3(1) W [symmetric] refl] 3 k "1.prems" len by auto
    moreover have "file_write ?f (p + k) (take (room w) (drop k b)) = file_write f p (take (k + room w) b)"
      using file_write_append [of p "take k b" "take (room w) (drop k b)" f] k "1.prems"
      by (simp add: take_add min_absorb2)
    ultimately show ?thesis
      using 3 k W use_window_pos [OF W]
      by (auto simp: write_file_loop.simps [of h] intro!: exI [of _ ts])
  qed
qed

lemma sint_u64: "unat (x :: u64) < 2 ^ 63 \<Longrightarrow> 0 \<le> sint x"
proof -
  assume "unat x < 2 ^ 63"
  then have "uint x < 2 ^ 63" by (simp add: uint_nat del: of_nat_unat)
  then have "\<not> bit (uint x) 63" by (simp add: bit_iff_odd)
  then show ?thesis by (simp add: sint_uint signed_take_bit_nonnegative_iff)
qed

text \<open>
  Receiving sectors into the image: a prefix \<open>d\<close> of the client's bytes reaches
  the image, all of them exactly when the call succeeds, and it succeeds when
  the client sends them and the file takes them.
\<close>

definition stored :: "bool \<Rightarrow> host \<Rightarrow> nat \<Rightarrow> bool \<Rightarrow> u8 list \<Rightarrow> u8 list list \<Rightarrow> nat list \<Rightarrow> bool" where
  "stored view h n ok d inc ts \<longleftrightarrow>
     (\<exists>r\<le>n. d = take r (readable h)) \<and>
     (ok \<longrightarrow> d = take n (readable h) \<and> n \<le> length (readable h) \<and> deliverable inc = drop n (readable h)) \<and>
     length (deliverable inc) \<le> length (readable h) \<and>
     (n \<le> length (readable h) \<and> (view \<or> n \<le> room (transfers h)) \<longrightarrow> ok) \<and>
     (ok \<and> \<not> view \<longrightarrow> room ts = room (transfers h) - n)"

lemma stored_length: "stored view h n ok d inc ts \<Longrightarrow> length d \<le> n"
  by (auto simp: stored_def)

lemma stored_mono: "stored view h c False d inc ts \<Longrightarrow> c \<le> n \<Longrightarrow> stored view h n False d inc ts"
  unfolding stored_def by (auto intro: order_trans)

lemma stored_trans:
  assumes 1: "stored view h c True d inc ts"
    and 2: "stored view (h\<lparr>incoming := inc, transfers := ts\<rparr>) (n - c) ok d2 inc2 ts2" and c: "c \<le> n"
  shows "stored view h n ok (d @ d2) inc2 ts2"
proof -
  let ?R = "readable h"
  have d: "d = take c ?R" "c \<le> length ?R" "deliverable inc = drop c ?R"
      "\<not> view \<longrightarrow> room ts = room (transfers h) - c"
    using 1 by (auto simp: stored_def)
  obtain r where r: "r \<le> n - c" "d2 = take r (drop c ?R)" using 2 d by (auto simp: stored_def)
  have J: "ok \<longrightarrow> d2 = take (n - c) (drop c ?R) \<and> n - c \<le> length ?R - c \<and> deliverable inc2 = drop n ?R"
      "length (deliverable inc2) \<le> length ?R - c"
      "n - c \<le> length ?R - c \<and> (view \<or> n - c \<le> room ts) \<longrightarrow> ok"
      "ok \<and> \<not> view \<longrightarrow> room ts2 = room ts - (n - c)"
    using 2 d c by (auto simp: stored_def)
  show ?thesis
    unfolding stored_def
  proof (intro conjI)
    show "\<exists>r\<le>n. d @ d2 = take r ?R"
      using r c by (intro exI [of _ "c + r"]) (simp add: d take_add)
    show "ok \<longrightarrow> d @ d2 = take n ?R \<and> n \<le> length ?R \<and> deliverable inc2 = drop n ?R"
      using J(1) d c by (metis le_add_diff_inverse le_diff_conv2 le_diff_iff take_add)
    show "length (deliverable inc2) \<le> length ?R" using J(2) by linarith
    show "n \<le> length ?R \<and> (view \<or> n \<le> room (transfers h)) \<longrightarrow> ok" using J(3) d(4) c by auto
    show "ok \<and> \<not> view \<longrightarrow> room ts2 = room (transfers h) - n" using J(4) d(4) c by auto
  qed
qed

lemma write_image_exact_spec:
  assumes "unat off + length b \<le> length (image_file st)" "length (image_file st) < 2 ^ 63"
  shows "\<exists>ok r ts. write_image_exact st h off b =
     Inr (ok, st\<lparr>image_file := file_write (image_file st) (unat off) (take r b)\<rparr>, h\<lparr>transfers := ts\<rparr>) \<and>
     (ok \<longrightarrow> take r b = b) \<and> (image_view st \<or> length b \<le> room (transfers h) \<longrightarrow> ok) \<and>
     (ok \<and> \<not> image_view st \<longrightarrow> room ts = room (transfers h) - length b)"
proof (cases "image_view st")
  case True
  then show ?thesis
    using assms
    by (intro exI [of _ True] exI [of _ "length b"] exI [of _ "transfers h"])
       (simp add: write_image_exact_def)
next
  case False
  obtain ts where "write_file_loop h (image_file st) (unat off) b =
     (length b \<le> room (transfers h), file_write (image_file st) (unat off) (take (room (transfers h)) b), h\<lparr>transfers := ts\<rparr>)"
     "room ts = room (transfers h) - length b"
    using write_file_loop_spec assms(1) by blast
  moreover have "\<not> sint off < 0"
    using sint_u64 [of off] assms by simp
  ultimately show ?thesis
    using False
    by (intro exI [of _ "length b \<le> room (transfers h)"] exI [of _ "room (transfers h)"] exI [of _ ts])
       (auto simp: write_image_exact_def write_file_exact_def)
qed

lemma recv_chunk_spec:
  assumes "0 < c" "c \<le> k" "unat off + c \<le> length (image_file st)" "length (image_file st) < 2 ^ 63"
  shows "\<exists>ok d inc ts. bind_result (recv_buf h k c) (\<lambda>(r, h1). case r of None \<Rightarrow> Inr (False, st, h1)
      | Some scratch \<Rightarrow> bind_result (write_image_exact st h1 off scratch) (\<lambda>(ok, st1, h2).
          if \<not> ok then Inr (False, st1, h2) else f st1 h2)) =
     (if ok then f (st\<lparr>image_file := file_write (image_file st) (unat off) d\<rparr>) (h\<lparr>incoming := inc, transfers := ts\<rparr>)
      else Inr (False, st\<lparr>image_file := file_write (image_file st) (unat off) d\<rparr>, h\<lparr>incoming := inc, transfers := ts\<rparr>)) \<and>
     stored (image_view st) h c ok d inc ts"
proof -
  obtain inc where R: "recv_all h c =
      (if c \<le> length (readable h) then Some (take c (readable h)) else None, h\<lparr>incoming := inc\<rparr>)"
    "deliverable inc = drop c (readable h)"
    by (rule recv_allE)
  show ?thesis
  proof (cases "c \<le> length (readable h)")
    case False
    then show ?thesis
      using assms R
      by (intro exI [of _ False] exI [of _ "[]"] exI [of _ inc] exI [of _ "transfers h"])
         (auto simp: recv_buf_le file_write_Nil stored_def)
  next
    case True
    let ?p = "take c (readable h)"
    obtain ok r ts where W: "write_image_exact st (h\<lparr>incoming := inc\<rparr>) off ?p =
          Inr (ok, st\<lparr>image_file := file_write (image_file st) (unat off) (take r ?p)\<rparr>, h\<lparr>incoming := inc, transfers := ts\<rparr>)"
      "ok \<longrightarrow> take r ?p = ?p" "image_view st \<or> c \<le> room (transfers h) \<longrightarrow> ok"
      "ok \<and> \<not> image_view st \<longrightarrow> room ts = room (transfers h) - c"
      using write_image_exact_spec [of off ?p st "h\<lparr>incoming := inc\<rparr>"] True assms by (auto simp: min_absorb2)
    have "stored (image_view st) h c ok (take r ?p) inc ts"
      unfolding stored_def using W(2-4) R(2) True by (auto intro: exI [of _ "min r c"])
    then show ?thesis
      using W(1) R(1) True assms
      by (intro exI [of _ ok] exI [of _ "take r ?p"] exI [of _ inc] exI [of _ ts]) (simp add: recv_buf_le)
  qed
qed

lemma recv_image_write_spec:
  "\<lbrakk>0 < k; unat off + n \<le> length (image_file st); length (image_file st) < 2 ^ 63\<rbrakk> \<Longrightarrow>
   \<exists>ok d inc ts. recv_image_write st h off n k =
     Inr (ok, st\<lparr>image_file := file_write (image_file st) (unat off) d\<rparr>, h\<lparr>incoming := inc, transfers := ts\<rparr>) \<and>
     stored (image_view st) h n ok d inc ts"
proof (induction n arbitrary: st h off rule: less_induct)
  case (less n)
  show ?case
  proof (cases "n = 0")
    case True
    then show ?thesis
      using less.prems
      by (intro exI [of _ True] exI [of _ "[]"] exI [of _ "incoming h"] exI [of _ "transfers h"])
         (simp add: recv_image_write.simps file_write_Nil readable_def stored_def)
  next
    case False
    define c where "c = (if n < k then n else k)"
    have c: "0 < c" "c \<le> k" "c \<le> n" using False less.prems by (auto simp: c_def)
    let ?g = "\<lambda>st1 h2. recv_image_write st1 h2 (off + of_nat c) (n - c) k"
    let ?st = "\<lambda>d. st\<lparr>image_file := file_write (image_file st) (unat off) d\<rparr>"
    let ?h = "\<lambda>inc ts. h\<lparr>incoming := inc, transfers := ts\<rparr>"
    have step: "recv_image_write st h off n k = bind_result (recv_buf h k c) (\<lambda>(r, h1).
        case r of None \<Rightarrow> Inr (False, st, h1)
        | Some scratch \<Rightarrow> bind_result (write_image_exact st h1 off scratch) (\<lambda>(ok, st1, h2).
            if \<not> ok then Inr (False, st1, h2) else ?g st1 h2))"
      using False c by (subst recv_image_write.simps) (simp add: c_def [symmetric])
    have bound: "unat off + c \<le> length (image_file st)" using c less.prems by simp
    from recv_chunk_spec [OF c(1,2) bound less.prems(3), where f = ?g and h = h, folded step]
    obtain ok d inc ts where S: "recv_image_write st h off n k =
        (if ok then ?g (?st d) (?h inc ts) else Inr (False, ?st d, ?h inc ts))"
      "stored (image_view st) h c ok d inc ts"
      by (elim exE conjE) (rule that)
    show ?thesis
    proof (cases ok)
      case False
      with S have "recv_image_write st h off n k = Inr (False, ?st d, ?h inc ts)"
        "stored (image_view st) h n False d inc ts"
        using stored_mono [OF _ c(3)] by simp_all
      then show ?thesis by blast
    next
      case True
      have off: "unat (off + of_nat c) = unat off + c"
        using c less.prems by (simp add: unat_word_ariths unat_of_nat)
      have d: "length d = c" using S(2) True by (simp add: stored_def)
      obtain ok2 d2 inc2 ts2 where "?g (?st d) (?h inc ts) =
          Inr (ok2, ?st d\<lparr>image_file := file_write (image_file (?st d)) (unat off + c) d2\<rparr>, ?h inc2 ts2)"
        and T: "stored (image_view st) (?h inc ts) (n - c) ok2 d2 inc2 ts2"
        using less.IH [of "n - c" "off + of_nat c" "?st d" "?h inc ts"] c less.prems d
        by (auto simp: off length_file_write)
      moreover have "file_write (image_file (?st d)) (unat off + c) d2 = file_write (image_file st) (unat off) (d @ d2)"
        using file_write_append [of "unat off" d d2 "image_file st"] stored_length [OF T] d c less.prems by simp
      ultimately have "recv_image_write st h off n k = Inr (ok2, ?st (d @ d2), ?h inc2 ts2)"
        using S(1) True by simp
      moreover have "stored (image_view st) h n ok2 (d @ d2) inc2 ts2"
        using S(2) True stored_trans [OF _ T c(3)] by simp
      ultimately show ?thesis by blast
    qed
  qed
qed

text \<open>No request adds to what the client still sends.\<close>

lemma write_file_loop_readable: "readable (snd (snd (write_file_loop h f p b))) = readable h"
proof (induction h f p b rule: write_file_loop.induct)
  case (1 h f p b)
  obtain k w where W: "use_window (transfers h) (length b) = (k, w)" by (metis surj_pair)
  show ?case
  proof (cases "b = [] \<or> k = 0")
    case True
    with W show ?thesis by (auto simp: write_file_loop.simps)
  next
    case False
    then show ?thesis
      using "1.IH" [of "(k, w)" k w "h\<lparr>transfers := w\<rparr>"] W by (simp add: write_file_loop.simps [of h])
  qed
qed

lemma write_image_exact_readable:
  "write_image_exact st h off b = Inr (ok, st1, h1) \<Longrightarrow> readable h1 = readable h"
  using write_file_loop_readable [of h "image_file st" "unat off" b]
  by (auto simp: write_image_exact_def write_file_exact_def split: if_splits prod.splits)

lemma recv_buf_readable:
  assumes "recv_buf h cap n = Inr (r, h1)"
  shows "length (readable h1) \<le> length (readable h)"
  by (rule recv_allE [of h n]) (use assms in \<open>auto simp: recv_buf_def split: if_splits\<close>)

lemma recv_image_write_readable:
  "recv_image_write st h off n k = Inr (ok, st1, h1) \<Longrightarrow> length (readable h1) \<le> length (readable h)"
proof (induction st h off n k arbitrary: ok st1 h1 rule: recv_image_write.induct)
  case (1 st h off n k)
  let ?c = "if n < k then n else k"
  show ?case
  proof (cases "n = 0 \<or> k = 0")
    case True
    with "1.prems" show ?thesis by (auto simp: recv_image_write.simps split: if_splits)
  next
    case False
    obtain r h2 where "recv_all h ?c = (r, h2)" by (cases "recv_all h ?c")
    moreover have "?c \<le> k" by simp
    ultimately have R: "recv_buf h k ?c = Inr (r, h2)" by (simp only: recv_buf_le)
    have step: "recv_image_write st h off n k = (case r of None \<Rightarrow> Inr (False, st, h2)
        | Some scratch \<Rightarrow> bind_result (write_image_exact st h2 off scratch) (\<lambda>(ok, st1, h2).
            if \<not> ok then Inr (False, st1, h2) else recv_image_write st1 h2 (off + of_nat ?c) (n - ?c) k))"
      using False R by (subst recv_image_write.simps) (simp add: Let_def cong: if_cong)
    show ?thesis
    proof (cases r)
      case None
      with step "1.prems" recv_buf_readable [OF R] show ?thesis by simp
    next
      case (Some scratch)
      then obtain ok2 st2 h3 where W: "write_image_exact st h2 off scratch = Inr (ok2, st2, h3)"
        using step "1.prems" by (cases "write_image_exact st h2 off scratch") auto
      have "length (readable h1) \<le> length (readable h3)"
      proof (cases ok2)
        case True
        have "recv_image_write st2 h3 (off + of_nat ?c) (n - ?c) k = Inr (ok, st1, h1)"
          using step "1.prems" Some W True by simp
        then show ?thesis
          using "1.IH" [OF _ refl _ Some, of ok2] False True by simp
      qed (use step "1.prems" Some W in simp)
      then show ?thesis
        using recv_buf_readable [OF R] write_image_exact_readable [OF W] by simp
    qed
  qed
qed

lemma recv_discard_readable:
  assumes "recv_discard h k n = Inr (ok, h1)"
  shows "length (readable h1) \<le> length (readable h)"
proof (cases "k = 0")
  case True
  with assms show ?thesis by (auto simp: recv_discard.simps split: if_splits)
next
  case False
  with assms recv_discard_spec [of k h n] show ?thesis by auto
qed

lemma send_image_exact_readable:
  assumes "send_image_exact st h cap off n = Inr (ok, h1)"
  shows "readable h1 = readable h"
proof -
  obtain ts r where "read_file_exact st h off (unat n) = (r, h\<lparr>transfers := ts\<rparr>)"
    using read_file_loop_spec [of h "drop (unat off) (image_file st)" "unat n"]
    by (cases "sint off < 0") (auto simp: read_file_exact_def intro: that [of _ "transfers h"])
  with assms show ?thesis
    by (auto simp: send_image_exact_def split: if_splits option.splits dest: readable_send_all)
qed

lemma send_header_readable: "send_header h a b c d e f = (ok, h1) \<Longrightarrow> readable h1 = readable h"
  by (simp add: send_header_def readable_send_all)

lemma flush_image_readable: "readable (snd (flush_image st h)) = readable h"
  by (simp add: flush_image_def flush_call_def split: list.split prod.split)

lemma time_call_readable: "time_call h = (t, h1) \<Longrightarrow> readable h1 = readable h"
  by (auto simp: time_call_def split: list.splits)

lemmas readable_frames = send_header_readable send_image_exact_readable

lemma op_read_readable:
  "op_read st s h r = Inr (c, st1, s1, h1) \<Longrightarrow> readable h1 = readable h"
  by (auto simp: op_read_def Let_def readable_send_header bind_result_eq_Inr
      split: if_splits prod.splits dest!: readable_frames)

lemma op_write_readable:
  "op_write st s h r = Inr (c, st1, s1, h1) \<Longrightarrow> length (readable h1) \<le> length (readable h)"
  by (auto simp: op_write_def Let_def readable_send_header bind_result_eq_Inr
      split: if_splits prod.splits dest!: send_header_readable recv_image_write_readable recv_discard_readable)

lemma op_flush_readable:
  "op_flush st s h = Inr (c, st1, s1, h1) \<Longrightarrow> readable h1 = readable h"
  using flush_image_readable [of st h]
  by (auto simp: op_flush_def Let_def bind_result_eq_Inr split: if_splits prod.splits dest!: send_header_readable)

lemma op_payload_readable:
  "op_ping st s h r = Inr (c, st1, s1, h1) \<Longrightarrow> length (readable h1) \<le> length (readable h)"
  "op_unknown st s h r = Inr (c, st1, s1, h1) \<Longrightarrow> length (readable h1) \<le> length (readable h)"
  by (auto simp: op_ping_def op_unknown_def Let_def bind_result_eq_Inr
      split: if_splits prod.splits dest!: send_header_readable recv_buf_readable)

lemma handle_request_readable:
  "handle_request st s h r = Inr (c, st1, s1, h1) \<Longrightarrow> length (readable h1) \<le> length (readable h)"
  by (auto simp: handle_request_def op_time_def op_hello_def Let_def readable_send_header
      split: if_splits prod.splits
      dest!: send_header_readable time_call_readable op_read_readable op_write_readable op_flush_readable
        op_payload_readable)

text \<open>
  The request loop, with the header received into the structure \<open>h\<close>, and the
  final flush of \<open>handle_client\<close>; the result is the return code.
\<close>

function handle_client_loop :: "ServerState \<Rightarrow> session \<Rightarrow> host \<Rightarrow> (int \<times> ServerState \<times> session \<times> host) result" where
  "handle_client_loop st s h =
     (case recv_all h 32 of
        (None, h1) \<Rightarrow> Inr (0, st, s, h1)
      | (Some raw, h1) \<Rightarrow>
          (case handle_request st s h1 (decode_header raw) of
             Inl e \<Rightarrow> Inl e
           | Inr (Leave rc, st2, s2, h2) \<Rightarrow> Inr (rc, st2, s2, h2)
           | Inr (Continue, st2, s2, h2) \<Rightarrow> handle_client_loop st2 s2 h2))"
  by pat_completeness auto
termination
proof (relation "measure (\<lambda>(st, s, h). length (readable h))")
  fix st s h r h1 raw x y c z st2 w s2 h2
  assume "(r, h1) = recv_all h 32" "r = Some raw"
    "handle_request st s h1 (decode_header raw) = Inr y" "(c, z) = y" "(st2, w) = z" "(s2, h2) = w" "c = Continue"
  then have "length (readable h2) \<le> length (readable h1)" "recv_all h 32 = (Some raw, h1)"
    using handle_request_readable [of st s h1 "decode_header raw"] by auto
  then show "((st2, s2, h2), st, s, h) \<in> measure (\<lambda>(st, s, h). length (readable h))"
    by (rule_tac recv_allE [of h 32]) (auto split: if_splits)
qed simp

declare handle_client_loop.simps [simp del]

definition new_session :: session where
  "new_session = \<lparr>hello_count = 0, read_count = 0, write_count = 0, flush_count = 0, ping_count = 0,
     read_sectors = 0, write_sectors = 0\<rparr>"

definition handle_client :: "ServerState \<Rightarrow> host \<Rightarrow> (int \<times> ServerState \<times> host) result" where
  "handle_client st h =
     (if \<not> malloc_ok h then Inr (-1, st, h)
      else bind_result (handle_client_loop st new_session h) (\<lambda>(rc, st1, s1, h1).
        Inr (rc, st1, if \<not> read_only (cfg st1) \<and> write_count s1 \<noteq> 0 then snd (flush_image st1 h1) else h1)))"

section \<open>Start of the server and the sequence of clients\<close>

text \<open>
  \<open>main\<close> up to the sockets: the exit code, or the state that serves the image.
  \<open>file\<close> is the file that \<open>CreateFileA\<close> opens, \<open>None\<close> where that fails;
  \<open>mapped\<close> tells whether the view could be created.
\<close>

definition server_start :: "string list \<Rightarrow> u8 list option \<Rightarrow> bool \<Rightarrow> int + ServerState" where
  "server_start args file mapped =
     (case parse_args args of (arg_rc, c) \<Rightarrow>
        if arg_rc \<noteq> 0 then Inl (if 0 < arg_rc then 0 else 2)
        else case file of None \<Rightarrow> Inl 1
        | Some f \<Rightarrow>
            if f = [] then Inl 1
            else Inr \<lparr>image_file = f, image_view = mapped, image_bytes = of_nat (length f),
                      sector_count = of_nat (length f) div 512, cfg = c\<rparr>)"

text \<open>The accept loop: the clients are served one after the other on the same state.\<close>

fun serve :: "ServerState \<Rightarrow> host list \<Rightarrow> (ServerState \<times> host list) result" where
  "serve st [] = Inr (st, [])"
| "serve st (h # hs) =
     bind_result (handle_client st h) (\<lambda>(rc, st1, h1).
       bind_result (serve st1 hs) (\<lambda>(st2, served). Inr (st2, h1 # served)))"

section \<open>Headers on the wire\<close>

lemma length_le_bytes [simp]: "length (le_bytes n w) = n"
  by (simp add: le_bytes_def)

lemma bit_le_word: "bit (le_word bs :: 'a::len word) n \<longleftrightarrow>
    n < LENGTH('a) \<and> n < 8 * length bs \<and> bit (bs ! (n div 8)) (n mod 8)"
proof (induction bs arbitrary: n)
  case (Cons b bs)
  show ?case
  proof (cases "n < 8")
    case True
    then show ?thesis by (auto simp: bit_simps)
  next
    case False
    moreover from False have "n div 8 = Suc ((n - 8) div 8)" "(n - 8) mod 8 = n mod 8"
      by (simp_all add: le_div_geq le_mod_geq)
    moreover have "\<not> bit b n" using False by (auto dest: bit_imp_le_length)
    ultimately show ?thesis using Cons [of "n - 8"] by (auto simp: bit_simps dest: bit_imp_le_length)
  qed
qed simp

lemma le_word_bytes:
  assumes "LENGTH('a) = 8 * n"
  shows "le_word (le_bytes n (w :: 'a::len word)) = w"
proof (rule bit_word_eqI)
  fix i assume i: "i < LENGTH('a)"
  then have "i div 8 < n" using assms by linarith
  with i assms show "bit (le_word (le_bytes n w) :: 'a word) i \<longleftrightarrow> bit w i"
    by (simp add: bit_le_word le_bytes_def bit_simps)
qed

lemma le_bytes_word: "LENGTH('a) = 8 * length bs \<Longrightarrow> le_bytes (length bs) (le_word bs :: 'a::len word) = bs"
  by (rule nth_equalityI) (auto intro!: bit_word_eqI simp: bit_le_word le_bytes_def bit_simps)

lemma wire_size: "length (magic h) = 4 \<Longrightarrow> length (encode_header h) = 32"
  by (simp add: encode_header_def)

lemma decode_encode: "length (magic h) = 4 \<Longrightarrow> decode_header (encode_header h) = h"
  by (simp add: decode_header_def encode_header_def le_word_bytes)

lemma le_bytes_at:
  "\<lbrakk>LENGTH('a) = 8 * n; m + n \<le> length bs\<rbrakk> \<Longrightarrow>
   le_bytes n (le_word (take n (drop m bs)) :: 'a::len word) = take n (drop m bs)"
  using le_bytes_word [of "take n (drop m bs)", where 'a = 'a] by simp

lemma encode_decode: "length bs = 32 \<Longrightarrow> encode_header (decode_header bs) = bs"
proof -
  assume len: "length bs = 32"
  have glue: "m + n = k \<Longrightarrow> take n (drop m bs) @ drop k bs = drop m bs" for m n k
    by (metis append_take_drop_id drop_drop add.commute)
  have "le_bytes 4 (le_word (drop 28 bs) :: u32) = drop 28 bs"
    using le_bytes_word [of "drop 28 bs", where 'a = 32] len by simp
  with len show ?thesis
    by (simp add: decode_header_def encode_header_def le_bytes_at glue [of 0, simplified] glue)
qed

section \<open>Requests stay inside the image\<close>

text \<open>A host that takes and delivers enough, for the concrete sessions below.\<close>

definition demo_host :: "u8 list list \<Rightarrow> host" where
  "demo_host segs = \<lparr>incoming = segs, windows = [10000], sent = [], transfers = [10000], flush_results = [],
     wall_times = [], malloc_ok = True\<rparr>"

definition server_wf :: "ServerState \<Rightarrow> bool" where
  "server_wf st \<longleftrightarrow> length (image_file st) < 2 ^ 63 \<and>
     sector_count st = of_nat (length (image_file st)) div 512 \<and>
     1 \<le> max_sectors (cfg st) \<and> max_sectors (cfg st) \<le> 1024 \<and> progress_every (cfg st) \<noteq> 0"

text \<open>What every request keeps: the size of the image, and its contents on a read-only server.\<close>

definition keeps :: "ServerState \<Rightarrow> ServerState \<Rightarrow> bool" where
  "keeps st st1 \<longleftrightarrow> (\<exists>f. st1 = st\<lparr>image_file := f\<rparr> \<and> length f = length (image_file st) \<and>
     (read_only (cfg st) \<longrightarrow> f = image_file st))"

lemma keeps_refl: "keeps st st"
  by (auto simp: keeps_def intro: exI [of _ "image_file st"])

lemma keeps_trans: "keeps st st1 \<Longrightarrow> keeps st1 st2 \<Longrightarrow> keeps st st2"
  unfolding keeps_def by (elim exE conjE) (intro exI conjI, simp, auto)

lemma keeps_wf: "keeps st st1 \<Longrightarrow> server_wf st \<Longrightarrow> server_wf st1"
  by (auto simp: keeps_def server_wf_def)

lemma unat_max_bytes:
  assumes "server_wf st"
  shows "unat (max_bytes st) = unat (max_sectors (cfg st)) * 512" "0 < unat (max_bytes st)"
proof -
  have m: "unat (max_sectors (cfg st)) \<le> 1024" "1 \<le> unat (max_sectors (cfg st))"
    using assms by (simp_all add: server_wf_def word_le_nat_alt)
  then show "unat (max_bytes st) = unat (max_sectors (cfg st)) * 512"
    by (simp add: max_bytes_def unat_word_ariths)
  with m show "0 < unat (max_bytes st)" by simp
qed

lemma unat_sectors: "c \<le> 1024 \<Longrightarrow> unat ((c :: u32) * 512) = unat c * 512"
  by (simp add: unat_word_ariths word_le_nat_alt)

lemma sector_range:
  assumes wf: "server_wf st" and c: "c \<le> (1024 :: u32)"
    and e: "\<not> l + ucast c < l" "\<not> sector_count st < l + ucast c"
  shows "unat (l * 512) = unat l * 512" "unat l * 512 + unat (c * 512) \<le> length (image_file st)"
proof -
  have u: "unat (ucast c :: u64) = unat c" by (simp add: unat_ucast_mod take_bit_eq_mod) (use unsigned_less [of c, where 'a = nat] in simp)
  have "unat (l + ucast c) = unat l + unat c"
    using e(1) u by (metis no_olen_add_nat not_less unat_add_lem)
  then have "unat l + unat c \<le> unat (sector_count st)"
    using e(2) by (simp add: word_le_nat_alt not_less)
  also have "unat (sector_count st) = length (image_file st) div 512"
    using wf by (simp add: server_wf_def unat_div unat_of_nat)
  finally have le: "unat l + unat c \<le> length (image_file st) div 512" .
  then have le2: "unat l * 512 + unat c * 512 \<le> length (image_file st)" by linarith
  then have "unat l * 512 < 2 ^ 64" using wf by (simp add: server_wf_def)
  then show "unat (l * 512) = unat l * 512" by (simp add: unat_word_ariths)
  show "unat l * 512 + unat (c * 512) \<le> length (image_file st)"
    using le2 c by (simp add: unat_sectors)
qed

lemma log_progress_ok: "server_wf st \<Longrightarrow> log_progress n k (progress_every (cfg st)) = Inr ()"
  by (simp add: log_progress_def server_wf_def)

definition safe :: "ServerState \<Rightarrow> served \<Rightarrow> bool" where
  "safe st r \<longleftrightarrow> (\<exists>c st1 s h. r = Inr (c, st1, s, h) \<and> keeps st st1)"

lemma safe_Inr: "safe st (Inr (c, st1, s, h)) \<longleftrightarrow> keeps st st1"
  by (simp add: safe_def)

lemma send_image_exact_ok:
  assumes wf: "server_wf st" and c: "c \<le> max_sectors (cfg st)"
    and e: "\<not> l + ucast c < l" "\<not> sector_count st < l + ucast c"
  shows "\<exists>ok h1. send_image_exact st h (unat (max_bytes st)) (l * 512) (c * 512) = Inr (ok, h1)"
proof -
  have "c \<le> 1024" using wf c by (auto simp: server_wf_def)
  moreover have "unat (c * 512) \<le> unat (max_bytes st)"
    using c unat_max_bytes(1) [OF wf] unat_sectors [OF \<open>c \<le> 1024\<close>] by (simp add: word_le_nat_alt)
  ultimately show ?thesis
    using sector_range [OF wf _ e]
    by (auto simp: send_image_exact_def split: prod.split option.split)
qed

lemma op_read_safe: "server_wf st \<Longrightarrow> safe st (op_read st s h r)"
proof -
  assume wf: "server_wf st"
  obtain ok h1 where H: "send_header h NETBLK_OP_READ (lba r) (count r) (count r * 512) 0 0 = (ok, h1)"
    by (metis surj_pair)
  show ?thesis
    using send_image_exact_ok [OF wf, of "count r" "lba r" h1] H
    by (auto simp: op_read_def Let_def safe_Inr keeps_refl not_less)
qed

lemma op_write_safe: "server_wf st \<Longrightarrow> safe st (op_write st s h r)"
proof -
  assume wf: "server_wf st"
  let ?bad = "read_only (cfg st) \<or> count r = 0 \<or> 1024 < count r \<or> bytes r \<noteq> count r * 512 \<or>
     lba r + ucast (count r) < lba r \<or> sector_count st < lba r + ucast (count r)"
  show ?thesis
  proof (cases ?bad)
    case True
    obtain ok h1 where "recv_discard h (unat (max_bytes st)) (unat (bytes r)) = Inr (ok, h1)"
      using recv_discard_spec [OF unat_max_bytes(2) [OF wf]] by blast
    with True show ?thesis by (auto simp: op_write_def Let_def safe_Inr keeps_refl)
  next
    case False
    then have c: "count r \<le> 1024" and e: "\<not> lba r + ucast (count r) < lba r"
      "\<not> sector_count st < lba r + ucast (count r)" by auto
    note R = sector_range [OF wf c e]
    have len: "length (image_file st) < 2 ^ 63" using wf by (simp add: server_wf_def)
    obtain ok d inc ts where W: "recv_image_write st h (lba r * 512) (unat (count r * 512)) (unat (max_bytes st)) =
        Inr (ok, st\<lparr>image_file := file_write (image_file st) (unat (lba r * 512)) d\<rparr>, h\<lparr>incoming := inc, transfers := ts\<rparr>)"
      and S: "stored (image_view st) h (unat (count r * 512)) ok d inc ts"
      using recv_image_write_spec [OF unat_max_bytes(2) [OF wf] _ len, of "lba r * 512" "unat (count r * 512)" h] R
      by auto
    have "keeps st (st\<lparr>image_file := file_write (image_file st) (unat (lba r * 512)) d\<rparr>)"
      using stored_length [OF S] R False by (auto simp: keeps_def length_file_write)
    with False W show ?thesis
      by (auto simp: op_write_def Let_def safe_Inr log_progress_ok [OF wf] split: prod.split)
  qed
qed

lemma recv_buf_payload:
  "\<not> m < n \<Longrightarrow> recv_buf h (unat (m :: u32)) (unat n) = Inr (recv_all h (unat n))"
  by (simp add: recv_buf_le not_less word_le_nat_alt)

lemma handle_request_safe: "server_wf st \<Longrightarrow> safe st (handle_request st s h r)"
proof -
  assume wf: "server_wf st"
  have "safe st (op_ping st s h r)" "safe st (op_unknown st s h r)"
    by (auto simp: op_ping_def op_unknown_def Let_def safe_Inr keeps_refl recv_buf_payload
        log_progress_ok [OF wf] split: prod.split)
  moreover have "safe st (op_flush st s h)" "safe st (op_hello st s h)" "safe st (op_time st s h)"
    by (auto simp: op_flush_def op_hello_def op_time_def Let_def safe_Inr keeps_refl
        log_progress_ok [OF wf] split: prod.split)
  ultimately show ?thesis
    by (simp add: handle_request_def safe_Inr keeps_refl op_read_safe [OF wf] op_write_safe [OF wf])
qed

lemma handle_client_loop_safe:
  "server_wf st \<Longrightarrow> \<exists>rc st1 s1 h1. handle_client_loop st s h = Inr (rc, st1, s1, h1) \<and> keeps st st1"
proof (induction st s h rule: handle_client_loop.induct)
  case (1 st s h)
  obtain r h1 where R: "recv_all h 32 = (r, h1)" by (metis surj_pair)
  show ?case
  proof (cases r)
    case None
    with R show ?thesis by (simp add: handle_client_loop.simps keeps_refl)
  next
    case (Some raw)
    obtain c st2 s2 h2 where H: "handle_request st s h1 (decode_header raw) = Inr (c, st2, s2, h2)" "keeps st st2"
      using handle_request_safe [OF "1.prems", of s h1 "decode_header raw"] unfolding safe_def by blast
    show ?thesis
    proof (cases c)
      case Continue
      obtain rc st3 s3 h3 where I: "handle_client_loop st2 s2 h2 = Inr (rc, st3, s3, h3)" "keeps st2 st3"
        using "1.IH" [OF R [symmetric] Some H(1) refl Continue refl refl] keeps_wf [OF H(2) "1.prems"] by blast
      then show ?thesis
        using R Some H Continue keeps_trans [OF H(2) I(2)] by (simp add: handle_client_loop.simps [of st])
    qed (use R Some H in \<open>simp add: handle_client_loop.simps\<close>)
  qed
qed

lemma handle_client_safe:
  assumes "server_wf st"
  obtains rc st1 h1 where "handle_client st h = Inr (rc, st1, h1)" "keeps st st1"
  using handle_client_loop_safe [OF assms, of new_session h] keeps_refl [of st]
  by (cases "malloc_ok h") (auto simp: handle_client_def)

lemma serve_safe: "server_wf st \<Longrightarrow> \<exists>st1 served. serve st hs = Inr (st1, served) \<and> keeps st st1"
proof (induction hs arbitrary: st)
  case (Cons h hs)
  obtain rc st1 h1 where H: "handle_client st h = Inr (rc, st1, h1)" "keeps st st1"
    using handle_client_safe [OF Cons.prems] .
  obtain st2 served where "serve st1 hs = Inr (st2, served)" "keeps st1 st2"
    using Cons.IH [OF keeps_wf [OF H(2) Cons.prems]] by blast
  with H show ?case by (auto intro: keeps_trans)
qed (simp add: keeps_refl)

section \<open>The command line\<close>

lemma parse_u32_bounds: "parse_u32 s mn mx = Some v \<Longrightarrow> mn \<le> v \<and> v \<le> mx"
  by (auto simp: parse_u32_def split: prod.splits option.splits if_splits)

definition config_ok :: "ServerConfig \<Rightarrow> bool" where
  "config_ok c \<longleftrightarrow> 1 \<le> max_sectors c \<and> max_sectors c \<le> 1024 \<and> 1 \<le> progress_every c"

lemma number_option_ok:
  "\<lbrakk>number_option a = Some (mn, mx, upd); parse_u32 b mn mx = Some v; config_ok c\<rbrakk> \<Longrightarrow> config_ok (upd v c)"
  by (auto simp: number_option_def config_ok_def dest: parse_u32_bounds split: if_splits)

definition parsed_ok :: "int \<times> ServerConfig \<Rightarrow> bool" where
  "parsed_ok p \<longleftrightarrow> config_ok (snd p) \<and> (fst p = 0 \<longrightarrow> (\<exists>i. image_path (snd p) = Some i \<and> i \<noteq> []))"

lemma parsed_if: "\<lbrakk>P \<Longrightarrow> parsed_ok x; \<not> P \<Longrightarrow> parsed_ok y\<rbrakk> \<Longrightarrow> parsed_ok (if P then x else y)"
  by simp

lemma parse_args_loop_ok: "config_ok c \<Longrightarrow> parsed_ok (parse_args_loop c as)"
proof (induction c as rule: parse_args_loop.induct)
  case (1 c)
  then show ?case by (auto simp: parsed_ok_def)
next
  case (2 c a as)
  have up: "config_ok (c\<lparr>image_path := p\<rparr>)" "config_ok (c\<lparr>listen_addr := l\<rparr>)" "config_ok (c\<lparr>read_only := b\<rparr>)"
    "config_ok (c\<lparr>strict_flush := b\<rparr>)" "config_ok (c\<lparr>no_keepalive := b\<rparr>)" "parsed_ok (-1, c)" "parsed_ok (1, c)" for p l b
    using "2.prems"(1) by (simp_all add: config_ok_def parsed_ok_def)
  have num: "parsed_ok (case number_option a of None \<Rightarrow> (-1, c) | Some (mn, mx, upd) \<Rightarrow>
      case parse_u32 (hd as) mn mx of None \<Rightarrow> (-1, c) | Some v \<Rightarrow> parse_args_loop (upd v c) (tl as))"
    if "\<not> (a = ''--image'' \<and> as \<noteq> [])" "\<not> (a = ''--listen'' \<and> as \<noteq> [])" "number_option a \<noteq> None \<and> as \<noteq> []"
    using "2.IH"(3) [OF that] "2.prems" by (auto simp: up number_option_ok split: option.split prod.split)
  show ?case
    unfolding parse_args_loop.simps
    by (intro parsed_if num "2.IH" up; assumption)
qed

section \<open>Single requests\<close>

text \<open>The number of sectors \<open>c\<close> at sector \<open>l\<close> is inside the image.\<close>

definition in_image :: "ServerState \<Rightarrow> u64 \<Rightarrow> u32 \<Rightarrow> bool" where
  "in_image st l c \<longleftrightarrow> c \<noteq> 0 \<and> \<not> l + ucast c < l \<and> \<not> sector_count st < l + ucast c"

lemma init_header_simps [simp]:
  "magic (init_header a b c d e f) = wrbp" "version (init_header a b c d e f) = 1"
  "op (init_header a b c d e f) = ucast a" "lba (init_header a b c d e f) = b"
  "count (init_header a b c d e f) = c" "bytes (init_header a b c d e f) = d"
  "length (encode_header (init_header a b c d e f)) = 32"
  by (simp_all add: init_header_def wire_size wrbp_def)

lemma send_header_room:
  assumes "32 \<le> room (windows h)"
  obtains ws where "send_header h a b c d e f =
      (True, h\<lparr>sent := sent h @ encode_header (init_header a b c d e f), windows := ws\<rparr>)"
    "room ws = room (windows h) - 32"
  by (rule send_allE [of h "encode_header (init_header a b c d e f)"])
     (use assms that in \<open>simp add: send_header_def\<close>)

lemma handle_client_loop_request:
  assumes "readable h = encode_header r @ rest" "length (magic r) = 4"
  obtains inc where "deliverable inc = rest" "handle_client_loop st s h =
     (case handle_request st s (h\<lparr>incoming := inc\<rparr>) r of
        Inl e \<Rightarrow> Inl e
      | Inr (Leave rc, st2, s2, h2) \<Rightarrow> Inr (rc, st2, s2, h2)
      | Inr (Continue, st2, s2, h2) \<Rightarrow> handle_client_loop st2 s2 h2)"
  by (rule recv_allE [of h 32])
     (use assms that in \<open>auto simp: handle_client_loop.simps [of st s h] wire_size decode_encode\<close>)

lemma handle_client_loop_end:
  assumes "readable h = []"
  obtains inc where "handle_client_loop st s h = Inr (0, st, s, h\<lparr>incoming := inc\<rparr>)"
  by (rule recv_allE [of h 32]) (use assms that in \<open>auto simp: handle_client_loop.simps [of st s h]\<close>)

lemma op_write_stores:
  assumes wf: "server_wf st" "\<not> read_only (cfg st)" and c: "c \<le> 1024" "in_image st l c"
    and d: "readable h = d @ rest" "length d = unat c * 512"
    and io: "image_view st \<or> length d \<le> room (transfers h)" and room: "32 \<le> room (windows h)"
  obtains inc ts ws where
    "op_write st s h (init_header 3 l c (c * 512) e f) = Inr (Continue,
       st\<lparr>image_file := file_write (image_file st) (unat l * 512) d\<rparr>,
       s\<lparr>write_count := write_count s + 1, write_sectors := write_sectors s + ucast c\<rparr>,
       h\<lparr>incoming := inc, transfers := ts,
         sent := sent h @ encode_header (init_header 3 l c 0 0 0), windows := ws\<rparr>)"
    "deliverable inc = rest" "room ws = room (windows h) - 32"
    "\<not> image_view st \<longrightarrow> room ts = room (transfers h) - length d"
proof -
  have e: "\<not> l + ucast c < l" "\<not> sector_count st < l + ucast c" "c \<noteq> 0" using c by (auto simp: in_image_def)
  note R = sector_range [OF wf(1) c(1) e(1,2)]
  have n: "unat (c * 512) = length d" using d c by (simp add: unat_sectors)
  have len: "length (image_file st) < 2 ^ 63" using wf by (simp add: server_wf_def)
  obtain ok d' inc ts where W: "recv_image_write st h (l * 512) (unat (c * 512)) (unat (max_bytes st)) =
      Inr (ok, st\<lparr>image_file := file_write (image_file st) (unat (l * 512)) d'\<rparr>, h\<lparr>incoming := inc, transfers := ts\<rparr>)"
    and S: "stored (image_view st) h (unat (c * 512)) ok d' inc ts"
    using recv_image_write_spec [OF unat_max_bytes(2) [OF wf(1)] _ len, of "l * 512" "unat (c * 512)" h] R
    by auto
  have S': ok "d' = d" "deliverable inc = rest" "\<not> image_view st \<longrightarrow> room ts = room (transfers h) - length d"
    using S d io by (auto simp: stored_def n)
  obtain ws where "send_header (h\<lparr>incoming := inc, transfers := ts\<rparr>) 3 l c 0 0 0 =
      (True, h\<lparr>incoming := inc, transfers := ts, sent := sent h @ encode_header (init_header 3 l c 0 0 0), windows := ws\<rparr>)"
    "room ws = room (windows h) - 32"
    by (rule send_header_room [of "h\<lparr>incoming := inc, transfers := ts\<rparr>"]) (use room in auto)
  with W S' R c e wf show ?thesis
    by (intro that [where inc = inc and ts = ts and ws = ws])
       (simp_all add: op_write_def Let_def log_progress_ok leD)
qed

lemma send_image_exact_data:
  assumes wf: "server_wf st" and c: "c \<le> max_sectors (cfg st)"
    and e: "\<not> l + ucast c < l" "\<not> sector_count st < l + ucast c"
    and d: "d = take (unat c * 512) (drop (unat l * 512) (image_file st))"
    and io: "image_view st \<or> length d \<le> room (transfers h)"
  obtains ts where "send_image_exact st h (unat (max_bytes st)) (l * 512) (c * 512) =
    Inr (send_all (h\<lparr>transfers := ts\<rparr>) d)"
proof -
  have c': "c \<le> 1024" using wf c by (auto simp: server_wf_def)
  note R = sector_range [OF wf c' e] and n = unat_sectors [OF c']
  have fits: "unat (c * 512) \<le> unat (max_bytes st)"
    using c unat_max_bytes(1) [OF wf] n by (simp add: word_le_nat_alt)
  show ?thesis
  proof (cases "image_view st")
    case True
    with R n d show ?thesis
      by (intro that [of "transfers h"]) (simp add: send_image_exact_def)
  next
    case False
    have inside: "unat c * 512 \<le> length (image_file st) - unat l * 512" using R n by simp
    have "0 \<le> sint (l * 512)"
      using sint_u64 [of "l * 512"] R wf by (simp add: server_wf_def)
    moreover obtain ts where "read_file_loop h (drop (unat l * 512) (image_file st)) (unat c * 512) =
        (Some d, h\<lparr>transfers := ts\<rparr>)"
      using read_file_loop_spec [of h "drop (unat l * 512) (image_file st)" "unat c * 512"] inside d io False
      by auto
    ultimately show ?thesis
      using False R n fits by (intro that [of ts]) (simp add: send_image_exact_def read_file_exact_def)
  qed
qed

lemma op_read_sends:
  assumes wf: "server_wf st" and c: "c \<le> max_sectors (cfg st)" "in_image st l c"
    and d: "d = take (unat c * 512) (drop (unat l * 512) (image_file st))"
    and io: "image_view st \<or> length d \<le> room (transfers h)" and room: "32 + length d \<le> room (windows h)"
  obtains ts ws where
    "op_read st s h (init_header 2 l c b e f) = Inr (Continue, st,
       s\<lparr>read_count := read_count s + 1, read_sectors := read_sectors s + ucast c\<rparr>,
       h\<lparr>sent := sent h @ encode_header (init_header 2 l c (c * 512) 0 0) @ d, windows := ws, transfers := ts\<rparr>)"
    "room ws = room (windows h) - 32 - length d"
proof -
  have e: "\<not> l + ucast c < l" "\<not> sector_count st < l + ucast c" "c \<noteq> 0" using c by (auto simp: in_image_def)
  have c': "c \<le> 1024" using wf c by (auto simp: server_wf_def)
  note R = sector_range [OF wf c' e(1,2)]
  have n: "unat (c * 512) = unat c * 512" by (rule unat_sectors [OF c'])
  have len: "length d = unat c * 512" using d R n by simp
  obtain ws1 where H: "send_header h 2 l c (c * 512) 0 0 =
      (True, h\<lparr>sent := sent h @ encode_header (init_header 2 l c (c * 512) 0 0), windows := ws1\<rparr>)"
    and ws1: "room ws1 = room (windows h) - 32"
    by (rule send_header_room [of h]) (use room in auto)
  let ?h = "h\<lparr>sent := sent h @ encode_header (init_header 2 l c (c * 512) 0 0), windows := ws1\<rparr>"
  obtain ts where I: "send_image_exact st ?h (unat (max_bytes st)) (l * 512) (c * 512) =
      Inr (send_all (?h\<lparr>transfers := ts\<rparr>) d)"
    by (rule send_image_exact_data [OF wf c(1) e(1,2) d, where h = ?h]) (use io in auto)
  have fits: "length d \<le> room ws1" using room ws1 by simp
  obtain ws where "send_all (?h\<lparr>transfers := ts\<rparr>) d = (True, ?h\<lparr>transfers := ts, sent := sent ?h @ d, windows := ws\<rparr>)"
    "room ws = room (windows h) - 32 - length d"
    by (rule send_allE [of "?h\<lparr>transfers := ts\<rparr>" d], rule that) (use fits ws1 in simp_all)
  with H I c e show ?thesis
    by (intro that [where ts = ts and ws = ws]) (simp_all add: op_read_def Let_def leD)
qed

text \<open>A request that is served takes its bytes from the stream and adds its reply.\<close>

lemma loop_write:
  assumes "server_wf st" "\<not> read_only (cfg st)" "c \<le> 1024" "in_image st l c" "length d = unat c * 512"
    and req: "readable h = encode_header (init_header 3 l c (c * 512) e f) @ d @ rest"
    and "image_view st \<or> length d \<le> room (transfers h)" "32 \<le> room (windows h)"
  obtains s1 inc ts ws where "handle_client_loop st s h =
    handle_client_loop (st\<lparr>image_file := file_write (image_file st) (unat l * 512) d\<rparr>) s1
      (h\<lparr>incoming := inc, transfers := ts, sent := sent h @ encode_header (init_header 3 l c 0 0 0), windows := ws\<rparr>)"
    "deliverable inc = rest" "room ws = room (windows h) - 32"
    "\<not> image_view st \<longrightarrow> room ts = room (transfers h) - length d" "write_count s1 = write_count s + 1"
proof -
  obtain inc where I: "deliverable inc = d @ rest" "handle_client_loop st s h =
     (case handle_request st s (h\<lparr>incoming := inc\<rparr>) (init_header 3 l c (c * 512) e f) of
        Inl e \<Rightarrow> Inl e | Inr (Leave rc, st2, s2, h2) \<Rightarrow> Inr (rc, st2, s2, h2)
      | Inr (Continue, st2, s2, h2) \<Rightarrow> handle_client_loop st2 s2 h2)"
    by (rule handle_client_loop_request [OF req]) (auto simp: wrbp_def)
  show ?thesis
    by (rule op_write_stores [OF assms(1-4), where h = "h\<lparr>incoming := inc\<rparr>" and d = d and s = s
          and rest = rest and e = e and f = f])
       (use I assms that in \<open>auto simp: handle_request_def\<close>)
qed

lemma loop_read:
  assumes "server_wf st" "c \<le> max_sectors (cfg st)" "in_image st l c"
    and d: "d = take (unat c * 512) (drop (unat l * 512) (image_file st))"
    and req: "readable h = encode_header (init_header 2 l c b e f) @ rest"
    and "image_view st \<or> length d \<le> room (transfers h)" "32 + length d \<le> room (windows h)"
  obtains s1 inc ts ws where "handle_client_loop st s h = handle_client_loop st s1
      (h\<lparr>incoming := inc, sent := sent h @ encode_header (init_header 2 l c (c * 512) 0 0) @ d,
         windows := ws, transfers := ts\<rparr>)"
    "deliverable inc = rest" "write_count s1 = write_count s"
proof -
  obtain inc where I: "deliverable inc = rest" "handle_client_loop st s h =
     (case handle_request st s (h\<lparr>incoming := inc\<rparr>) (init_header 2 l c b e f) of
        Inl e \<Rightarrow> Inl e | Inr (Leave rc, st2, s2, h2) \<Rightarrow> Inr (rc, st2, s2, h2)
      | Inr (Continue, st2, s2, h2) \<Rightarrow> handle_client_loop st2 s2 h2)"
    by (rule handle_client_loop_request [OF req]) (auto simp: wrbp_def)
  obtain ts ws where R: "op_read st s (h\<lparr>incoming := inc\<rparr>) (init_header 2 l c b e f) = Inr (Continue, st,
       s\<lparr>read_count := read_count s + 1, read_sectors := read_sectors s + ucast c\<rparr>,
       h\<lparr>incoming := inc, sent := sent h @ encode_header (init_header 2 l c (c * 512) 0 0) @ d,
         windows := ws, transfers := ts\<rparr>)"
    by (rule op_read_sends [OF assms(1-4), where h = "h\<lparr>incoming := inc\<rparr>" and s = s and b = b and e = e and f = f])
       (use assms in auto)
  show ?thesis
    by (rule that [where inc = inc and ts = ts and ws = ws
          and ?s1.0 = "s\<lparr>read_count := read_count s + 1, read_sectors := read_sectors s + ucast c\<rparr>"])
       (use I R in \<open>auto simp: handle_request_def\<close>)
qed

lemma sent_flush_image: "sent (snd (flush_image st h)) = sent h"
  by (simp add: flush_image_def flush_call_def split: list.split prod.split)

lemma config_ok_default: "config_ok default_config"
  by (simp add: config_ok_def default_config_def)

lemma server_start_wf:
  assumes "server_start args (Some f) mapped = Inr st" "length f < 2 ^ 63"
  shows "server_wf st" "image_file st = f"
proof -
  obtain rc c where P: "parse_args args = (rc, c)" by (metis surj_pair)
  have "config_ok c" using parse_args_loop_ok [OF config_ok_default, of args] P
    by (simp add: parse_args_def parsed_ok_def)
  then show "server_wf st" "image_file st = f"
    using assms P by (auto simp: server_start_def server_wf_def config_ok_def split: if_splits)
qed

lemma file_write_read:
  "p + length d \<le> length f \<Longrightarrow> take (length d) (drop p (file_write f p d)) = d"
  by (simp add: file_write_def)

lemma demo_start: "\<exists>st. server_start [''disk.img''] (Some (replicate 1024 0)) True = Inr st \<and>
    \<not> read_only (cfg st) \<and> max_sectors (cfg st) = 1024 \<and> image_view st \<and> sector_count st = 2"
  by (simp add: server_start_def parse_args_def default_config_def number_option_def)

section \<open>Properties\<close>

text \<open>
  The request and reply headers survive the wire.  Encoding gives the 32
  bytes of the protocol and decoding returns the same header; conversely every
  32 bytes that arrive are the encoding of the header they decode to, so no two
  requests are confused.
\<close>

lemma header_roundtrip:
  "(\<forall>h. length (magic h) = 4 \<longrightarrow> length (encode_header h) = 32 \<and> decode_header (encode_header h) = h) \<and>
   (\<forall>raw. length raw = 32 \<longrightarrow> encode_header (decode_header raw) = raw)"
  by (simp add: wire_size decode_encode encode_decode)


text \<open>
  C14: a server started from any command line on any image returns from every
  sequence of clients, whatever bytes they send in whatever pieces and whichever
  receive, send, file, flush or allocation call fails: no access leaves the
  image, its mapping or the transfer buffer and no remainder by zero is taken,
  the size of the image never changes, and a read-only server never changes its
  contents.
\<close>

theorem server_safe:
  assumes "server_start args (Some f) mapped = Inr st" "length f < 2 ^ 63"
  shows "\<exists>st1 served. serve st clients = Inr (st1, served) \<and> length (image_file st1) = length f \<and>
     (read_only (cfg st) \<longrightarrow> image_file st1 = f)"
proof -
  note wf = server_start_wf [OF assms]
  obtain st1 served where "serve st clients = Inr (st1, served)" "keeps st st1"
    using serve_safe [OF wf(1)] by blast
  then show ?thesis using wf(2) by (auto simp: keeps_def)
qed

theorem server_safe_witness:
  "\<exists>st st1 served. server_start [''disk.img''] (Some (replicate 1024 0)) True = Inr st \<and>
     serve st [demo_host [[1, 2, 3]], demo_host []] = Inr (st1, served) \<and> length (image_file st1) = 1024"
proof -
  obtain st where "server_start [''disk.img''] (Some (replicate 1024 0)) True = Inr st" using demo_start by blast
  then show ?thesis
    using server_safe [of "[''disk.img'']" "replicate 1024 0" True st "[demo_host [[1, 2, 3]], demo_host []]"] by auto
qed

text \<open>
  C15: sectors written by a client are read back unchanged.  A client of a
  writable server sends a write of \<open>c\<close> sectors inside the image, the data, and
  a read of the same sectors, cut into any segments.  When the connection and
  the file take all bytes the session ends with code 0, the replies are the
  acknowledgement of the write and the read reply followed by exactly the data,
  and the image differs from the old one only in these sectors.
\<close>

theorem write_read:
  assumes start: "server_start args (Some f) mapped = Inr st" "length f < 2 ^ 63"
    and c: "c \<le> max_sectors (cfg st)" "in_image st l c" "length d = unat c * 512"
    and rw: "\<not> read_only (cfg st)" and mem: "malloc_ok h"
    and req: "readable h = encode_header (init_header 3 l c (c * 512) e1 e2) @ d @
      encode_header (init_header 2 l c b e3 e4)"
    and io: "image_view st \<or> 2 * length d \<le> room (transfers h)" "64 + length d \<le> room (windows h)"
  shows "\<exists>st1 h1. handle_client st h = Inr (0, st1, h1) \<and>
     sent h1 = sent h @ encode_header (init_header 3 l c 0 0 0) @
       encode_header (init_header 2 l c (c * 512) 0 0) @ d \<and>
     image_file st1 = take (unat l * 512) f @ d @ drop (unat l * 512 + length d) f"
proof -
  note wf = server_start_wf [OF start]
  have c': "c \<le> 1024" using wf(1) c(1) by (auto simp: server_wf_def)
  have e: "\<not> l + ucast c < l" "\<not> sector_count st < l + ucast c" using c by (auto simp: in_image_def)
  have fit: "unat l * 512 + length d \<le> length f"
    using sector_range(2) [OF wf(1) c' e] unat_sectors [OF c'] wf(2) c(3) by simp
  let ?st = "st\<lparr>image_file := file_write f (unat l * 512) d\<rparr>"
  let ?w = "encode_header (init_header 3 l c 0 0 0)" and ?r = "encode_header (init_header 2 l c b e3 e4)"
  let ?h = "\<lambda>inc ts ws. h\<lparr>incoming := inc, transfers := ts, sent := sent h @ ?w, windows := ws\<rparr>"
  obtain s1 inc ts ws where W:
    "handle_client_loop st new_session h = handle_client_loop ?st s1 (?h inc ts ws)"
    "deliverable inc = ?r" "room ws = room (windows h) - 32"
    "\<not> image_view st \<longrightarrow> room ts = room (transfers h) - length d"
    by (rule loop_write [OF wf(1) rw c' c(2) c(3) req, of new_session]) (use io wf(2) in auto)
  have wf': "server_wf ?st" using wf fit by (simp add: server_wf_def length_file_write)
  have d: "d = take (unat c * 512) (drop (unat l * 512) (image_file ?st))"
    using file_write_read [OF fit] c(3) by simp
  obtain s2 inc2 ts2 ws2 where R:
    "handle_client_loop ?st s1 (?h inc ts ws) = handle_client_loop ?st s2 ((?h inc ts ws)\<lparr>incoming := inc2,
       sent := sent h @ ?w @ encode_header (init_header 2 l c (c * 512) 0 0) @ d, windows := ws2, transfers := ts2\<rparr>)"
    "deliverable inc2 = []"
    by (rule loop_read [OF wf' _ _ d, where h = "?h inc ts ws" and s = s1 and rest = "[]"])
       (use W io c in \<open>auto simp: in_image_def\<close>)
  let ?h2 = "(?h inc ts ws)\<lparr>incoming := inc2,
       sent := sent h @ ?w @ encode_header (init_header 2 l c (c * 512) 0 0) @ d, windows := ws2, transfers := ts2\<rparr>"
  have "readable ?h2 = []" by (simp add: R(2))
  then obtain inc3 where "handle_client_loop ?st s2 ?h2 = Inr (0, ?st, s2, ?h2\<lparr>incoming := inc3\<rparr>)"
    by (rule handle_client_loop_end)
  then show ?thesis
    using W(1) R(1) mem fit by (simp add: handle_client_def sent_flush_image file_write_def)
qed

theorem write_read_witness:
  "\<exists>st st1 h1. server_start [''disk.img''] (Some (replicate 1024 0)) True = Inr st \<and>
     handle_client st (demo_host [encode_header (init_header 3 1 1 512 0 0), replicate 512 7,
       encode_header (init_header 2 1 1 0 0 0)]) = Inr (0, st1, h1) \<and>
     sent h1 = encode_header (init_header 3 1 1 0 0 0) @ encode_header (init_header 2 1 1 512 0 0) @ replicate 512 7 \<and>
     image_file st1 = replicate 512 0 @ replicate 512 7"
proof -
  obtain st where st: "server_start [''disk.img''] (Some (replicate 1024 0)) True = Inr st" "\<not> read_only (cfg st)"
    "max_sectors (cfg st) = 1024" "image_view st" "sector_count st = 2" using demo_start by blast
  let ?w = "encode_header (init_header 3 1 1 512 0 0)" and ?r = "encode_header (init_header 2 1 1 0 0 0)"
  have "length ?w = 32" "length ?r = 32" by simp_all
  then have "?w \<noteq> []" "?r \<noteq> []" by (metis length_0_conv zero_neq_numeral)+
  then have "readable (demo_host [?w, replicate 512 7, ?r]) = ?w @ replicate 512 7 @ ?r"
    by (simp add: readable_def deliverable_def demo_host_def)
  then show ?thesis
    using write_read [OF st(1), of 1 1 "replicate 512 7" "demo_host [?w, replicate 512 7, ?r]" 0 0 0 0 0] st
    by (simp add: in_image_def demo_host_def room_def)
qed

text \<open>
  C16: a write that the server refuses (read-only server, no sectors, too many
  sectors, a byte count that does not match, sectors outside the image or a
  range that wraps around) does not lose the request boundary.  As long as the
  announced payload is at most the protocol maximum, the server consumes exactly
  the payload, answers with the write error and goes on with the bytes that
  follow as if the refused request had not been sent; the image and the session
  counters are unchanged.
\<close>

theorem refused_write_in_sync:
  assumes start: "server_start args (Some f) mapped = Inr st" "length f < 2 ^ 63"
    and refused: "read_only (cfg st) \<or> 1024 < c \<or> b \<noteq> c * 512 \<or> \<not> in_image st l c"
    and payload: "b \<le> 1024 * 512" "length d = unat b"
    and req: "readable h = encode_header (init_header 3 l c b e1 e2) @ d @ rest"
    and room: "32 \<le> room (windows h)"
  shows "\<exists>h1. handle_client_loop st s h = handle_client_loop st s h1 \<and> readable h1 = rest \<and>
     sent h1 = sent h @ encode_header (init_header 3 0 0 0 4 0)"
proof -
  note wf = server_start_wf(1) [OF start]
  obtain inc where I: "deliverable inc = d @ rest" "handle_client_loop st s h =
     (case handle_request st s (h\<lparr>incoming := inc\<rparr>) (init_header 3 l c b e1 e2) of
        Inl e \<Rightarrow> Inl e | Inr (Leave rc, st2, s2, h2) \<Rightarrow> Inr (rc, st2, s2, h2)
      | Inr (Continue, st2, s2, h2) \<Rightarrow> handle_client_loop st2 s2 h2)"
    by (rule handle_client_loop_request [OF req]) (auto simp: wrbp_def)
  obtain inc2 where D: "recv_discard (h\<lparr>incoming := inc\<rparr>) (unat (max_bytes st)) (unat b) = Inr (True, h\<lparr>incoming := inc2\<rparr>)"
    "deliverable inc2 = rest"
    using recv_discard_spec [OF unat_max_bytes(2) [OF wf], of "h\<lparr>incoming := inc\<rparr>" "unat b"] I payload by auto
  define h0 where "h0 = h\<lparr>incoming := if b = 0 then inc else inc2\<rparr>"
  have h0: "readable h0 = rest" "sent h0 = sent h" using D I payload by (auto simp: h0_def)
  have "op_write st s (h\<lparr>incoming := inc\<rparr>) (init_header 3 l c b e1 e2) =
      Inr (Continue, st, s, snd (send_header h0 3 0 0 0 4 0))"
    using refused payload D by (auto simp: op_write_def Let_def in_image_def h0_def)
  moreover obtain ws where "send_header h0 3 0 0 0 4 0 =
      (True, h0\<lparr>sent := sent h0 @ encode_header (init_header 3 0 0 0 4 0), windows := ws\<rparr>)"
    by (rule send_header_room [of h0]) (use room in \<open>auto simp: h0_def\<close>)
  ultimately show ?thesis
    using I h0 by (intro exI [of _ "h0\<lparr>sent := sent h0 @ encode_header (init_header 3 0 0 0 4 0), windows := ws\<rparr>"])
      (simp add: handle_request_def)
qed

theorem refused_write_in_sync_witness:
  "\<exists>st h1. server_start [''disk.img''] (Some (replicate 1024 0)) True = Inr st \<and>
     handle_client_loop st new_session (demo_host [encode_header (init_header 3 2 1 512 0 0), replicate 512 7]) =
       handle_client_loop st new_session h1 \<and> readable h1 = [] \<and>
     sent h1 = encode_header (init_header 3 0 0 0 4 0)"
proof -
  obtain st where st: "server_start [''disk.img''] (Some (replicate 1024 0)) True = Inr st" "sector_count st = 2"
    using demo_start by blast
  let ?w = "encode_header (init_header 3 2 1 512 0 0)"
  have "length ?w = 32" by simp
  then have "?w \<noteq> []" by (metis length_0_conv zero_neq_numeral)
  then have req: "readable (demo_host [?w, replicate 512 7]) = ?w @ replicate 512 7 @ []"
    by (simp add: readable_def deliverable_def demo_host_def)
  show ?thesis
    using refused_write_in_sync [OF st(1) _ _ _ _ req, of new_session] st
    by (simp add: in_image_def demo_host_def room_def)
qed

end
