(* ===== verification/NetDisk.thy ===== *)
theory NetDisk
  imports NetBlock
begin

text \<open>
  The client of the disk server in the emulator (\<open>ide.c\<close>, \<open>netblk_*\<close>): requests over a
  socket, sixteen read windows with prefetch, the write buffer that joins adjacent writes
  and the write-back table.  The sizes are those of \<open>release_config.h\<close>, which the build
  script of the emulator that has this client includes (\<open>build_server.sh\<close>); without it
  \<open>ide.c\<close> falls back to eight windows of 512 sectors.  The socket is a parameter: a state \<open>link\<close> with the calls
  \<open>send\<close> and \<open>recv\<close>, which fail (\<open>None\<close>) or move at least one byte.  Buffers hold whole
  sectors; an access outside one is \<open>OutOfBounds\<close>.  The clock readings of the waiting
  time, which only the heartbeat reports, and the diagnostic output are left out.
\<close>

section \<open>Requests\<close>

abbreviation (input) "NETBLK_READ_CACHE_SECTORS \<equiv> (128 :: nat)"
abbreviation (input) "NETBLK_READ_CACHE_WINDOWS \<equiv> (16 :: nat)"
abbreviation (input) "NETBLK_WRITE_BUFFER_SECTORS \<equiv> (1024 :: nat)"
abbreviation (input) "NETBLK_WRITEBACK_SECTORS \<equiv> (2048 :: nat)"
abbreviation (input) "NETBLK_MAX_SECTORS \<equiv> (1024 :: int)"

record 'n socket =
  net_send :: "'n \<Rightarrow> u8 list \<Rightarrow> (nat \<times> 'n) option"
  net_recv :: "'n \<Rightarrow> nat \<Rightarrow> (u8 list \<times> 'n) option"

function netblk_send_all :: "'n socket \<Rightarrow> 'n \<Rightarrow> u8 list \<Rightarrow> bool \<times> 'n" where
  "netblk_send_all so fd buf =
     (if buf = [] then (True, fd)
      else case net_send so fd (take NETBLK_IO_CHUNK_BYTES buf) of
        None \<Rightarrow> (False, fd)
      | Some (n, fd1) \<Rightarrow> if n = 0 then (False, fd1) else netblk_send_all so fd1 (drop n buf))"
  by pat_completeness auto
termination
  by (relation "measure (\<lambda>(so, fd, buf). length buf)") auto

function netblk_recv_all :: "'n socket \<Rightarrow> 'n \<Rightarrow> nat \<Rightarrow> u8 list option \<times> 'n" where
  "netblk_recv_all so fd len =
     (if len = 0 then (Some [], fd)
      else case net_recv so fd (min len NETBLK_IO_CHUNK_BYTES) of
        None \<Rightarrow> (None, fd)
      | Some (p, fd1) \<Rightarrow>
          if p = [] then (None, fd1)
          else (case netblk_recv_all so fd1 (len - length p) of
                  (None, fd2) \<Rightarrow> (None, fd2)
                | (Some r, fd2) \<Rightarrow> (Some (p @ r), fd2)))"
  by pat_completeness auto
termination
  by (relation "measure (\<lambda>(so, fd, len). len)") auto

declare netblk_send_all.simps [simp del] netblk_recv_all.simps [simp del]

definition netblk_header_init :: "u32 \<Rightarrow> u64 \<Rightarrow> u32 \<Rightarrow> u32 \<Rightarrow> u32 \<Rightarrow> NetBlockHeader" where
  "netblk_header_init op' lba' count' bytes' flags' = \<lparr>
     magic = wrbp, version = NETBLK_VERSION, op = ucast op', lba = lba', count = count', bytes = bytes', status = 0, flags = flags'\<rparr>"

definition netblk_header_ok :: "NetBlockHeader \<Rightarrow> u32 \<Rightarrow> bool" where
  "netblk_header_ok h op' \<longleftrightarrow> magic h = wrbp \<and> version h = NETBLK_VERSION \<and> ucast (op h) = op' \<and> status h = NETBLK_STATUS_OK"

text \<open>\<open>profile\<close> is the environment variable \<open>WINSPIRE_PROFILE\<close>.\<close>

definition netblk_profile :: "string option \<Rightarrow> u32" where
  "netblk_profile profile =
     (case profile of None \<Rightarrow> 0
      | Some p \<Rightarrow> if p = ''win9x'' then 1 else if p = ''win2000'' then 2 else if p = ''xpe'' then 3 else 0)"

text \<open>
  One request and its reply: the header of the reply and the \<open>in_len\<close> bytes that follow it;
  \<open>flags'\<close> is the profile for the first request and 0 otherwise.
\<close>

definition netblk_request ::
  "'n socket \<Rightarrow> 'n \<Rightarrow> u32 \<Rightarrow> u32 \<Rightarrow> u64 \<Rightarrow> u32 \<Rightarrow> u8 list \<Rightarrow> nat \<Rightarrow> (NetBlockHeader \<times> u8 list) option \<times> 'n" where
  "netblk_request so fd flags' op' lba' count' out in_len =
     (case netblk_send_all so fd (encode_header (netblk_header_init op' lba' count' (of_nat (length out)) flags')) of
        (False, fd) \<Rightarrow> (None, fd)
      | (True, fd) \<Rightarrow>
     (case (if out = [] then (True, fd) else netblk_send_all so fd out) of
        (False, fd) \<Rightarrow> (None, fd)
      | (True, fd) \<Rightarrow>
     (case netblk_recv_all so fd 32 of
        (None, fd) \<Rightarrow> (None, fd)
      | (Some raw, fd) \<Rightarrow>
          let resp = decode_header raw
          in if \<not> netblk_header_ok resp op' then (None, fd)
             else if in_len \<noteq> 0 \<and> unat (bytes resp) \<noteq> in_len then (None, fd)
             else if in_len = 0 then (Some (resp, []), fd)
             else (case netblk_recv_all so fd in_len of
                     (None, fd) \<Rightarrow> (None, fd)
                   | (Some d, fd) \<Rightarrow> (Some (resp, d), fd)))))"

section \<open>The device\<close>

text \<open>A read window: \<open>wcount\<close> sectors from \<open>wsector\<close>; and an entry of the write-back table.\<close>

record window =
  wdata :: "u8 list"
  wsector :: u64
  wcount :: nat

record dirty_entry =
  dsector :: u64
  ddirty :: bool
  ddata :: "u8 list"

record 'n BlockDeviceNet =
  fd :: 'n
  bn_read_only :: bool
  writable :: bool
  bn_max_sectors :: int
  prefetch_sectors :: int
  nb_sectors :: u64
  read_cache :: "window list"
  read_cache_next :: nat
  write_buffer :: "u8 list"
  write_sector :: u64
  bn_write_sectors :: nat
  writeback :: "dirty_entry list"
  writeback_alloc :: bool
  writeback_enabled :: bool
  pcmalloc_ok :: bool
  cache_hits :: u64
  cache_misses :: u64
  stored_sectors :: u64
  writeback_flushes :: u32

definition window_end :: "window \<Rightarrow> u64" where
  "window_end w = wsector w + of_nat (wcount w)"

definition netblk_invalidate :: "u64 \<Rightarrow> int \<Rightarrow> 'n BlockDeviceNet \<Rightarrow> 'n BlockDeviceNet" where
  "netblk_invalidate s n bn =
     (if n \<le> 0 then bn
      else let write_end = s + of_int n
           in bn\<lparr>read_cache := map (\<lambda>w. if wcount w \<noteq> 0 \<and> s < window_end w \<and> wsector w < write_end
                                        then w\<lparr>wcount := 0\<rparr> else w) (read_cache bn)\<rparr>)"

definition window_has :: "u64 \<Rightarrow> window \<Rightarrow> bool" where
  "window_has s w \<longleftrightarrow> wcount w \<noteq> 0 \<and> wsector w \<le> s \<and> s < window_end w"

definition netblk_find_cache :: "'n BlockDeviceNet \<Rightarrow> u64 \<Rightarrow> window option" where
  "netblk_find_cache bn s = find (window_has s) (read_cache bn)"

definition netblk_next_cached :: "'n BlockDeviceNet \<Rightarrow> u64 \<Rightarrow> u64 \<Rightarrow> u64" where
  "netblk_next_cached bn s request_end =
     fold (\<lambda>w nxt. if wcount w \<noteq> 0 \<and> s < wsector w \<and> wsector w < nxt then wsector w else nxt) (read_cache bn) request_end"

definition is_dirty :: "u64 \<Rightarrow> dirty_entry \<Rightarrow> bool" where
  "is_dirty s e \<longleftrightarrow> ddirty e \<and> dsector e = s"

fun find_index :: "('a \<Rightarrow> bool) \<Rightarrow> 'a list \<Rightarrow> nat option" where
  "find_index P [] = None"
| "find_index P (x # xs) = (if P x then Some 0 else map_option Suc (find_index P xs))"

definition netblk_writeback_find :: "dirty_entry list \<Rightarrow> u64 \<Rightarrow> nat option" where
  "netblk_writeback_find es s = find_index (is_dirty s) es"

section \<open>Writing back\<close>

definition net_write :: "'n socket \<Rightarrow> u64 \<Rightarrow> nat \<Rightarrow> u8 list \<Rightarrow> 'n BlockDeviceNet \<Rightarrow> bool \<times> 'n BlockDeviceNet" where
  "net_write so s n d bn =
     (case netblk_request so (fd bn) 0 NETBLK_OP_WRITE s (of_nat n) d 0 of
        (r, f) \<Rightarrow> (r \<noteq> None, bn\<lparr>fd := f\<rparr>))"

definition netblk_flush_writes :: "'n socket \<Rightarrow> 'n BlockDeviceNet \<Rightarrow> bool \<times> 'n BlockDeviceNet" where
  "netblk_flush_writes so bn =
     (if bn_write_sectors bn = 0 then (True, bn)
      else case net_write so (write_sector bn) (bn_write_sectors bn) (write_buffer bn) bn of
        (ok, bn) \<Rightarrow> (ok, if ok then bn\<lparr>bn_write_sectors := 0, write_buffer := []\<rparr> else bn))"

text \<open>
  The smallest dirty sector; the run of dirty sectors from it, whose data goes to the write
  buffer and whose dirty marks are cleared before the request is sent.
\<close>

definition best_dirty :: "dirty_entry list \<Rightarrow> u64 option" where
  "best_dirty es =
     fold (\<lambda>e best. if ddirty e \<and> dsector e < (case best of None \<Rightarrow> - 1 | Some b \<Rightarrow> b) then Some (dsector e) else best) es None"

fun gather_run :: "nat \<Rightarrow> u64 \<Rightarrow> dirty_entry list \<Rightarrow> u8 list list \<times> dirty_entry list" where
  "gather_run 0 s es = ([], es)"
| "gather_run (Suc room') s es =
     (case netblk_writeback_find es s of
        None \<Rightarrow> ([], es)
      | Some i \<Rightarrow>
          (case gather_run room' (s + 1) (es[i := (es ! i)\<lparr>ddirty := False\<rparr>]) of
             (ds, es1) \<Rightarrow> (ddata (es ! i) # ds, es1)))"

definition dirty_count :: "dirty_entry list \<Rightarrow> nat" where
  "dirty_count es = length (filter ddirty es)"

lemma find_index_Some: "find_index P xs = Some i \<Longrightarrow> i < length xs \<and> P (xs ! i)"
  by (induction xs arbitrary: i) (auto split: if_splits)

lemma dirty_count_clear: "i < length es \<Longrightarrow> ddirty (es ! i) \<Longrightarrow> dirty_count (es[i := (es ! i)\<lparr>ddirty := False\<rparr>]) < dirty_count es"
proof (induction es arbitrary: i)
  case (Cons e es)
  then show ?case by (cases i) (auto simp: dirty_count_def)
qed simp

lemma gather_run_count:
  "gather_run k s es = (ds, es1) \<Longrightarrow> dirty_count es1 \<le> dirty_count es \<and> (ds \<noteq> [] \<longrightarrow> dirty_count es1 < dirty_count es)"
proof (induction k s es arbitrary: ds es1 rule: gather_run.induct)
  case (2 k s es)
  show ?case
  proof (cases "netblk_writeback_find es s")
    case (Some i)
    then have "i < length es" "ddirty (es ! i)" by (auto simp: netblk_writeback_find_def is_dirty_def dest: find_index_Some)
    then have "dirty_count (es[i := (es ! i)\<lparr>ddirty := False\<rparr>]) < dirty_count es" by (rule dirty_count_clear)
    then show ?thesis using 2 Some by (fastforce split: prod.splits)
  qed (use 2 in simp)
qed simp

function drain_loop :: "'n socket \<Rightarrow> 'n BlockDeviceNet \<Rightarrow> bool \<times> 'n BlockDeviceNet" where
  "drain_loop so bn =
     (case best_dirty (writeback bn) of
        None \<Rightarrow> (True, bn)
      | Some s \<Rightarrow>
          (case gather_run NETBLK_WRITE_BUFFER_SECTORS s (writeback bn) of
             (ds, es) \<Rightarrow>
               if ds = [] then (False, bn\<lparr>writeback := es\<rparr>)
               else (case net_write so s (length ds) (concat ds) (bn\<lparr>writeback := es\<rparr>) of
                       (False, bn1) \<Rightarrow> (False, bn1)
                     | (True, bn1) \<Rightarrow> drain_loop so (bn1\<lparr>writeback_flushes := writeback_flushes bn1 + 1\<rparr>))))"
  by pat_completeness auto
termination
  by (relation "measure (\<lambda>(so, bn). dirty_count (writeback bn))")
     (auto simp: net_write_def split: prod.splits dest: gather_run_count [OF sym])

declare drain_loop.simps [simp del]

definition netblk_drain_writes :: "'n socket \<Rightarrow> 'n BlockDeviceNet \<Rightarrow> bool \<times> 'n BlockDeviceNet" where
  "netblk_drain_writes so bn =
     (if \<not> writeback_alloc bn \<or> writeback bn = [] then netblk_flush_writes so bn
      else case netblk_flush_writes so bn of
        (False, bn) \<Rightarrow> (False, bn)
      | (True, bn) \<Rightarrow>
          (case drain_loop so bn of
             (False, bn) \<Rightarrow> (False, bn)
           | (True, bn) \<Rightarrow> (True, bn\<lparr>writeback := []\<rparr>)))"

definition netblk_flush :: "'n socket \<Rightarrow> 'n BlockDeviceNet \<Rightarrow> bool \<times> 'n BlockDeviceNet" where
  "netblk_flush so bn =
     (if bn_read_only bn \<or> \<not> writable bn then (True, bn)
      else case netblk_drain_writes so bn of
        (False, bn) \<Rightarrow> (False, bn)
      | (True, bn) \<Rightarrow>
          (case netblk_request so (fd bn) 0 NETBLK_OP_FLUSH 0 0 [] 0 of (r, f) \<Rightarrow> (r \<noteq> None, bn\<lparr>fd := f\<rparr>)))"

definition netblk_alloc_writes :: "'n BlockDeviceNet \<Rightarrow> bool \<times> 'n BlockDeviceNet" where
  "netblk_alloc_writes bn =
     (if \<not> writeback_enabled bn then (False, bn)
      else if writeback_alloc bn then (True, bn)
      else if pcmalloc_ok bn then (True, bn\<lparr>writeback_alloc := True\<rparr>)
      else (False, bn))"

text \<open>\<open>None\<close> where the drain of a full table failed, the return value -1.\<close>

fun store_loop :: "'n socket \<Rightarrow> u64 \<Rightarrow> u8 list list \<Rightarrow> 'n BlockDeviceNet \<Rightarrow> (unit option \<times> 'n BlockDeviceNet) result" where
  "store_loop so s [] bn = Inr (Some (), bn)"
| "store_loop so s (d # ds) bn =
     (let put = (\<lambda>i bn. store_loop so (s + 1) ds
            (bn\<lparr>writeback := (writeback bn)[i := \<lparr>dsector = dsector (writeback bn ! i), ddirty = True, ddata = d\<rparr>],
                stored_sectors := stored_sectors bn + 1\<rparr>));
          fresh = (\<lambda>bn. if NETBLK_WRITEBACK_SECTORS \<le> length (writeback bn) then Inl OutOfBounds
            else put (length (writeback bn)) (bn\<lparr>writeback := writeback bn @ [\<lparr>dsector = s, ddirty = False, ddata = []\<rparr>]\<rparr>))
      in case netblk_writeback_find (writeback bn) s of
           Some i \<Rightarrow> put i bn
         | None \<Rightarrow>
             if NETBLK_WRITEBACK_SECTORS \<le> length (writeback bn)
             then (case netblk_drain_writes so bn of
                     (False, bn) \<Rightarrow> Inr (None, bn)
                   | (True, bn) \<Rightarrow> fresh bn)
             else fresh bn)"

text \<open>The sectors of a buffer.\<close>

definition sectors_of :: "nat \<Rightarrow> u8 list \<Rightarrow> u8 list list" where
  "sectors_of n buf = map (\<lambda>i. take 512 (drop (512 * i) buf)) [0..<n]"

text \<open>The result is the return value: 0, 1 or -1.\<close>

definition netblk_store_write :: "'n socket \<Rightarrow> u64 \<Rightarrow> u8 list \<Rightarrow> int \<Rightarrow> 'n BlockDeviceNet \<Rightarrow> (int \<times> 'n BlockDeviceNet) result" where
  "netblk_store_write so s buf n bn =
     (if \<not> writeback_enabled bn \<or> n \<le> 0 then Inr (0, bn)
      else case netblk_alloc_writes bn of
        (False, bn) \<Rightarrow> Inr (0, bn)
      | (True, bn) \<Rightarrow> bind_result (store_loop so s (sectors_of (nat n) buf) bn) (\<lambda>(r, bn).
          Inr (if r = None then -1 else 1, bn)))"

definition netblk_write_overlaps :: "u64 \<Rightarrow> int \<Rightarrow> 'n BlockDeviceNet \<Rightarrow> bool" where
  "netblk_write_overlaps s n bn =
     (if n \<le> 0 then False
      else let read_end = s + of_int n
           in bn_write_sectors bn \<noteq> 0 \<and> s < write_sector bn + of_nat (bn_write_sectors bn) \<and> write_sector bn < read_end \<or>
              writeback_enabled bn \<and> writeback_alloc bn \<and>
                list_ex (\<lambda>e. ddirty e \<and> s \<le> dsector e \<and> dsector e < read_end) (writeback bn))"

section \<open>Reading and writing\<close>

definition out_of_disk :: "u64 \<Rightarrow> int \<Rightarrow> 'n BlockDeviceNet \<Rightarrow> bool" where
  "out_of_disk s n bn \<longleftrightarrow> n < 0 \<or> bn_max_sectors bn < n \<or> nb_sectors bn < s \<or> nb_sectors bn - s < of_int n"

text \<open>The window that a miss at \<open>cur\<close> fetches: its first sector and its number of sectors.\<close>

definition fetch_range :: "'n BlockDeviceNet \<Rightarrow> u64 \<Rightarrow> u64 \<Rightarrow> u64 \<times> int" where
  "fetch_range bn cur request_end =
     (let next_cached = netblk_next_cached bn cur request_end;
          missing = int (unat (next_cached - cur));
          fetch0 = (if missing \<le> 0 then 1 else missing);
          prefetch = (next_cached = request_end \<and> fetch0 < prefetch_sectors bn);
          fetch1 = (if prefetch then prefetch_sectors bn else fetch0);
          start = (if prefetch \<and> 1 < prefetch_sectors bn
                   then (cur div of_int (prefetch_sectors bn)) * of_int (prefetch_sectors bn) else cur);
          fetch2 = (if bn_max_sectors bn < fetch1 then bn_max_sectors bn else fetch1);
          fetch3 = (if int NETBLK_READ_CACHE_SECTORS < fetch2 then int NETBLK_READ_CACHE_SECTORS else fetch2);
          fetch4 = (if nb_sectors bn - start < of_int fetch3 then int (unat (nb_sectors bn - start)) else fetch3)
      in if start + of_int fetch4 \<le> cur then (cur, if 0 < missing then missing else 1) else (start, fetch4))"

text \<open>A miss: the return value of the request, with the window stored in the next slot.\<close>

definition fetch_window :: "'n socket \<Rightarrow> u64 \<Rightarrow> u64 \<Rightarrow> 'n BlockDeviceNet \<Rightarrow> (bool \<times> 'n BlockDeviceNet) result" where
  "fetch_window so cur request_end bn =
     (let (start, n) = fetch_range bn cur request_end; slot = read_cache_next bn
      in if length (read_cache bn) \<le> slot then Inl OutOfBounds
         else if n \<le> 0 then Inr (False, bn)
         else if int NETBLK_READ_CACHE_SECTORS < n then Inl OutOfBounds
         else case netblk_request so (fd bn) 0 NETBLK_OP_READ start (of_int n) [] (nat n * 512) of
           (None, f) \<Rightarrow> Inr (False, bn\<lparr>fd := f, read_cache := (read_cache bn)[slot := (read_cache bn ! slot)\<lparr>wcount := 0\<rparr>]\<rparr>)
         | (Some (_, d), f) \<Rightarrow>
             Inr (True, bn\<lparr>fd := f, cache_misses := cache_misses bn + of_int n,
               read_cache := (read_cache bn)[slot := \<lparr>wdata = d, wsector = start, wcount = nat n\<rparr>],
               read_cache_next := (slot + 1) mod NETBLK_READ_CACHE_WINDOWS\<rparr>))"


lemma find_SomeI: "x \<in> set xs \<Longrightarrow> P x \<Longrightarrow> \<exists>y. find P xs = Some y"
  by (induction xs) auto

lemma align_le: "(cur div a) * a \<le> (cur :: u64)"
proof -
  have "unat ((cur div a) * a) = unat cur div unat a * unat a"
  proof -
    have "unat cur div unat a * unat a \<le> unat cur" by simp
    also have "\<dots> < 2 ^ 64" using unsigned_less [of cur] by simp
    finally have "unat cur div unat a * unat a < 2 ^ 64" .
    moreover have "unat cur div unat a < 2 ^ 64"
    proof (rule le_less_trans [OF div_le_dividend])
      have "unat cur < 2 ^ LENGTH(64)" by (rule unsigned_less)
      then show "unat cur < 2 ^ 64" by simp
    qed
    ultimately show ?thesis by (simp add: unat_word_ariths unat_div)
  qed
  then show ?thesis by (simp add: word_le_nat_alt)
qed

lemma next_cached_bounds:
  assumes "cur < (e :: u64)"
  shows "cur < netblk_next_cached bn cur e" "netblk_next_cached bn cur e \<le> e"
proof -
  have "cur < fold (\<lambda>w nxt. if wcount w \<noteq> 0 \<and> cur < wsector w \<and> wsector w < nxt then wsector w else nxt) ws n \<and>
      fold (\<lambda>w nxt. if wcount w \<noteq> 0 \<and> cur < wsector w \<and> wsector w < nxt then wsector w else nxt) ws n \<le> e"
    if "cur < n" "n \<le> e" for ws n
    using that
  proof (induction ws arbitrary: n)
    case (Cons w ws)
    have "wsector w \<le> e" if "wsector w < n" using that Cons.prems(2) by order
    then show ?case using Cons.IH [of "wsector w"] Cons.IH [of n] Cons.prems by simp
  qed simp
  then show "cur < netblk_next_cached bn cur e" "netblk_next_cached bn cur e \<le> e"
    using assms by (auto simp: netblk_next_cached_def)
qed

lemma fetch_range_covers:
  assumes "cur < (e :: u64)" "fetch_range bn cur e = (start, n)"
  shows "start \<le> cur" "cur < start + of_int n"
proof -
  let ?nc = "netblk_next_cached bn cur e"
  have nc: "cur < ?nc" by (rule next_cached_bounds [OF assms(1)])
  have "?nc - cur \<noteq> 0" using nc by auto
  then have "0 < unat (?nc - cur)" by (simp only: unat_gt_0 not_False_eq_True)
  then have m: "0 < int (unat (?nc - cur))" by (simp only: of_nat_0_less_iff)
  have c: "cur + of_int (int (unat (?nc - cur))) = ?nc" by simp
  have e: "start = cur \<and> n = int (unat (?nc - cur)) \<or> \<not> start + of_int n \<le> cur \<and> (\<exists>a. start = cur div a * a \<or> start = cur)"
    using assms(2) m by (auto simp: fetch_range_def Let_def split: if_splits)
  then show "start \<le> cur" using align_le by auto
  show "cur < start + of_int n" using e nc c by (auto simp: not_le)
qed

lemma fetch_window_hits:
  assumes "cur < e" "fetch_window so cur e bn = Inr (True, bn1)"
  shows "netblk_find_cache bn1 cur \<noteq> None"
proof -
  obtain start n where r: "fetch_range bn cur e = (start, n)" by force
  let ?s = "read_cache_next bn"
  obtain d where b: "?s < length (read_cache bn)" "0 < n"
      "read_cache bn1 = (read_cache bn)[?s := \<lparr>wdata = d, wsector = start, wcount = nat n\<rparr>]"
    using assms(2) r by (auto simp: fetch_window_def Let_def split: if_splits option.splits prod.splits)
  have "\<lparr>wdata = d, wsector = start, wcount = nat n\<rparr> \<in> set (read_cache bn1)"
    unfolding b(3) by (rule set_update_memI [OF b(1)])
  moreover have "window_has cur \<lparr>wdata = d, wsector = start, wcount = nat n\<rparr>"
    using fetch_range_covers [OF assms(1) r] b(2) by (simp add: window_has_def window_end_def)
  ultimately show ?thesis using find_SomeI [of _ "read_cache bn1" "window_has cur"] by (auto simp: netblk_find_cache_def)
qed

text \<open>The sectors that a hit copies: up to the end of the window or of the request.\<close>

definition hit_sectors :: "window \<Rightarrow> u64 \<Rightarrow> u64 \<Rightarrow> u64" where
  "hit_sectors w cur request_end = (if window_end w < request_end then window_end w else request_end) - cur"

lemma hit_sectors_bounds:
  assumes "window_has cur w" "cur < e"
  shows "0 < hit_sectors w cur e" "unat (cur + hit_sectors w cur e) = unat cur + unat (hit_sectors w cur e)"
    "unat cur + unat (hit_sectors w cur e) \<le> unat e"
proof -
  define t where "t = (if window_end w < e then window_end w else e)"
  have t: "cur < t" "t \<le> e" using assms by (auto simp: t_def window_has_def)
  then have u: "unat (t - cur) = unat t - unat cur" by (simp add: unat_sub_if' word_less_nat_alt)
  show "0 < hit_sectors w cur e" using t u by (simp add: hit_sectors_def flip: t_def) (simp add: word_less_nat_alt)
  show "unat (cur + hit_sectors w cur e) = unat cur + unat (hit_sectors w cur e)"
    using t u by (simp add: hit_sectors_def flip: t_def) (simp add: word_less_nat_alt)
  show "unat cur + unat (hit_sectors w cur e) \<le> unat e"
    using t u by (simp add: hit_sectors_def flip: t_def) (simp add: word_less_nat_alt word_le_nat_alt)
qed

function read_loop :: "'n socket \<Rightarrow> u64 \<Rightarrow> u64 \<Rightarrow> 'n BlockDeviceNet \<Rightarrow> (u8 list option \<times> 'n BlockDeviceNet) result" where
  "read_loop so cur request_end bn =
     (if \<not> cur < request_end then Inr (Some [], bn)
      else case netblk_find_cache bn cur of
        Some w \<Rightarrow>
          (let n = hit_sectors w cur request_end; off = 512 * unat (cur - wsector w)
           in if length (wdata w) < off + 512 * unat n then Inl OutOfBounds
              else bind_result (read_loop so (cur + n) request_end (bn\<lparr>cache_hits := cache_hits bn + n\<rparr>)) (\<lambda>(r, bn).
                Inr (map_option (\<lambda>d. take (512 * unat n) (drop off (wdata w)) @ d) r, bn)))
      | None \<Rightarrow>
          (case fetch_window so cur request_end bn of
             Inl e \<Rightarrow> Inl e
           | Inr (False, bn) \<Rightarrow> Inr (None, bn)
           | Inr (True, bn) \<Rightarrow> read_loop so cur request_end bn))"
  by pat_completeness auto
termination
proof (relation "measure (\<lambda>(so, cur, e, bn). 2 * (unat e - unat cur) + (if netblk_find_cache bn cur = None then 1 else 0))")
  fix so :: "'n socket" and cur e bn w n off
  assume a: "\<not> \<not> cur < e" "netblk_find_cache bn cur = Some w" "n = hit_sectors w cur e"
  then have "window_has cur w" by (auto simp: netblk_find_cache_def find_Some_iff)
  note h = hit_sectors_bounds [OF this, of e]
  have "0 < unat n" using h(1) a by (simp add: word_less_nat_alt)
  then show "((so, cur + n, e, bn\<lparr>cache_hits := cache_hits bn + n\<rparr>), so, cur, e, bn)
      \<in> measure (\<lambda>(so, cur, e, bn). 2 * (unat e - unat cur) + (if netblk_find_cache bn cur = None then 1 else 0))"
    using a h(2,3) by (auto simp: netblk_find_cache_def)
next
  fix so :: "'n socket" and cur e and bn :: "'n BlockDeviceNet" and b ok and bn1 :: "'n BlockDeviceNet"
  assume "\<not> \<not> cur < e" "netblk_find_cache bn cur = None" "fetch_window so cur e bn = Inr b" "(ok, bn1) = b" "ok = True"
  then have "netblk_find_cache bn1 cur \<noteq> None" using fetch_window_hits [of cur e so bn bn1] by auto
  then show "((so, cur, e, bn1), so, cur, e, bn)
      \<in> measure (\<lambda>(so, cur, e, bn). 2 * (unat e - unat cur) + (if netblk_find_cache bn cur = None then 1 else 0))"
    using \<open>netblk_find_cache bn cur = None\<close> by simp
qed (rule wf_measure)

declare read_loop.simps [simp del]

text \<open>The result is the data, \<open>None\<close> for the return value -1.\<close>

definition netblk_read_async :: "'n socket \<Rightarrow> u64 \<Rightarrow> int \<Rightarrow> 'n BlockDeviceNet \<Rightarrow> (u8 list option \<times> 'n BlockDeviceNet) result" where
  "netblk_read_async so s n bn =
     (if out_of_disk s n bn then Inr (None, bn)
      else case (if netblk_write_overlaps s n bn then netblk_drain_writes so bn else (True, bn)) of
        (False, bn) \<Rightarrow> Inr (None, bn)
      | (True, bn) \<Rightarrow> read_loop so s (s + of_int n) bn)"

text \<open>The end of \<open>netblk_write_async\<close>: the sectors join those of the write buffer, which is sent when it is full.\<close>

definition buffer_write :: "'n socket \<Rightarrow> u64 \<Rightarrow> u8 list \<Rightarrow> int \<Rightarrow> 'n BlockDeviceNet \<Rightarrow> (bool \<times> 'n BlockDeviceNet) result" where
  "buffer_write so s buf n bn =
     (case (if bn_write_sectors bn \<noteq> 0 \<and>
               (write_sector bn + of_nat (bn_write_sectors bn) \<noteq> s \<or>
                NETBLK_WRITE_BUFFER_SECTORS < bn_write_sectors bn + nat n)
            then netblk_flush_writes so bn else (True, bn)) of
        (False, bn) \<Rightarrow> Inr (False, bn)
      | (True, bn) \<Rightarrow>
          let bn = (if bn_write_sectors bn = 0 then bn\<lparr>write_sector := s\<rparr> else bn)
          in if NETBLK_WRITE_BUFFER_SECTORS < bn_write_sectors bn + nat n then Inl OutOfBounds
             else let bn = bn\<lparr>write_buffer := write_buffer bn @ take (512 * nat n) buf,
                              bn_write_sectors := bn_write_sectors bn + nat n\<rparr>
                  in if NETBLK_WRITE_BUFFER_SECTORS \<le> bn_write_sectors bn then Inr (netblk_flush_writes so bn)
                     else Inr (True, bn))"

text \<open>A store into the write-back table counts as done also where it returns -1.\<close>

definition netblk_write_async :: "'n socket \<Rightarrow> u64 \<Rightarrow> u8 list \<Rightarrow> int \<Rightarrow> 'n BlockDeviceNet \<Rightarrow> (bool \<times> 'n BlockDeviceNet) result" where
  "netblk_write_async so s buf n bn =
     (if bn_read_only bn \<or> \<not> writable bn \<or> out_of_disk s n bn then Inr (False, bn)
      else let bn = netblk_invalidate s n bn
           in bind_result (if n \<le> int NETBLK_WRITEBACK_SECTORS then netblk_store_write so s buf n bn else Inr (0, bn)) (\<lambda>(r, bn).
              if r \<noteq> 0 then Inr (True, bn)
              else if int NETBLK_WRITE_BUFFER_SECTORS < n
              then (case netblk_drain_writes so bn of
                      (False, bn) \<Rightarrow> Inr (False, bn)
                    | (True, bn) \<Rightarrow> Inr (net_write so s (nat n) (take (512 * nat n) buf) bn))
              else buffer_write so s buf n bn))"

section \<open>Opening the device\<close>

text \<open>
  \<open>netblk_parse_endpoint\<close>: the read-only mark, the host and the port as text; \<open>strrchr\<close> finds the last colon.
\<close>

definition last_colon :: "string \<Rightarrow> (string \<times> string) option" where
  "last_colon p =
     (if CHR '':'' \<in> set p
      then Some (rev (tl (dropWhile (\<lambda>c. c \<noteq> CHR '':'') (rev p))), rev (takeWhile (\<lambda>c. c \<noteq> CHR '':'') (rev p)))
      else None)"

definition netblk_parse_endpoint :: "string \<Rightarrow> nat \<Rightarrow> nat \<Rightarrow> (bool \<times> string \<times> string) option" where
  "netblk_parse_endpoint spec host_len port_len =
     (let parse = (\<lambda>ro p.
        (case last_colon p of
           Some (h, q) \<Rightarrow>
             if h = [] \<or> q = [] \<or> host_len \<le> length h \<or> port_len \<le> length q then None else Some (ro, h, q)
         | None \<Rightarrow> if p = [] \<or> host_len \<le> length p then None else Some (ro, p, ''3860'')))
      in if take 6 spec = ''netro:'' then parse True (drop 6 spec)
         else if take 4 spec = ''net:'' then parse False (drop 4 spec)
         else None)"

text \<open>
  The settings of \<open>block_device_init_net\<close> after the reply to the first request:
  \<open>writeback_env\<close> and \<open>prefetch_env\<close> are the values of the environment variables as
  numbers, where they are set (and, for the second, not empty).
\<close>

definition netblk_setup :: "'n \<Rightarrow> bool \<Rightarrow> NetBlockHeader \<Rightarrow> int option \<Rightarrow> int option \<Rightarrow> bool \<Rightarrow> 'n BlockDeviceNet" where
  "netblk_setup f ro hello writeback_env prefetch_env alloc =
     (let max0 = (if bytes hello \<noteq> 0 then sint (bytes hello) else NETBLK_MAX_SECTORS);
          max1 = (if NETBLK_MAX_SECTORS < max0 then NETBLK_MAX_SECTORS else max0);
          max2 = (if max1 < 1 then 1 else max1);
          pre0 = (case prefetch_env of Some r \<Rightarrow> if 0 < r then r else 64 | None \<Rightarrow> 64);
          pre1 = (if max2 < pre0 then max2 else pre0);
          pre2 = (if int NETBLK_READ_CACHE_SECTORS < pre1 then int NETBLK_READ_CACHE_SECTORS else pre1);
          pre3 = (if pre2 < 1 then 1 else pre2)
      in \<lparr>fd = f, bn_read_only = ro, writable = (flags hello AND 1 \<noteq> 0), bn_max_sectors = max2, prefetch_sectors = pre3,
          nb_sectors = lba hello,
          read_cache = replicate NETBLK_READ_CACHE_WINDOWS \<lparr>wdata = [], wsector = 0, wcount = 0\<rparr>, read_cache_next = 0,
          write_buffer = [], write_sector = 0, bn_write_sectors = 0,
          writeback = [], writeback_alloc = False, writeback_enabled = (case writeback_env of None \<Rightarrow> True | Some v \<Rightarrow> v \<noteq> 0),
          pcmalloc_ok = alloc, cache_hits = 0, cache_misses = 0, stored_sectors = 0, writeback_flushes = 0\<rparr>)"

text \<open>
  The first request on a connected socket, the heartbeat whose result is ignored, and the
  settings; \<open>None\<close> where the handshake fails.  The 72 bytes of the heartbeat are counters.
\<close>

definition netblk_ping :: "'n socket \<Rightarrow> 'n \<Rightarrow> u8 list \<Rightarrow> bool \<times> 'n" where
  "netblk_ping so f telemetry =
     (case netblk_send_all so f (encode_header (netblk_header_init NETBLK_OP_PING 0 0 (of_nat (length telemetry)) 0)) of
        (False, f) \<Rightarrow> (False, f)
      | (True, f) \<Rightarrow>
     (case netblk_send_all so f telemetry of
        (False, f) \<Rightarrow> (False, f)
      | (True, f) \<Rightarrow>
     (case netblk_recv_all so f 32 of
        (None, f) \<Rightarrow> (False, f)
      | (Some raw, f) \<Rightarrow> (netblk_header_ok (decode_header raw) NETBLK_OP_PING, f))))"

definition netblk_open :: "'n socket \<Rightarrow> 'n \<Rightarrow> bool \<Rightarrow> string option \<Rightarrow> int option \<Rightarrow> int option \<Rightarrow> bool \<Rightarrow> u8 list \<Rightarrow> 'n BlockDeviceNet option" where
  "netblk_open so f ro profile writeback_env prefetch_env alloc telemetry =
     (case netblk_request so f (netblk_profile profile) NETBLK_OP_HELLO 0 0 [] 0 of
        (None, f) \<Rightarrow> None
      | (Some (hello, _), f) \<Rightarrow>
          if count hello \<noteq> SECTOR_SIZE \<or> lba hello = 0 then None
          else (case netblk_ping so f telemetry of
                  (_, f) \<Rightarrow> Some (netblk_setup f ro hello writeback_env prefetch_env alloc)))"

section \<open>Specification vocabulary\<close>

text \<open>The settings that \<open>netblk_setup\<close> establishes.\<close>

definition settings_ok :: "'n BlockDeviceNet \<Rightarrow> bool" where
  "settings_ok bn \<longleftrightarrow> 1 \<le> bn_max_sectors bn \<and> bn_max_sectors bn \<le> 1024 \<and> 1 \<le> prefetch_sectors bn \<and>
     prefetch_sectors bn \<le> bn_max_sectors bn \<and> prefetch_sectors bn \<le> 128"

text \<open>The write-back table as a map from sectors to data.\<close>

definition dirty_map :: "dirty_entry list \<Rightarrow> nat \<Rightarrow> u8 list option" where
  "dirty_map es i = map_option ddata (find (is_dirty (of_nat i)) es)"

fun uniq :: "dirty_entry list \<Rightarrow> bool" where
  "uniq [] = True"
| "uniq (e # es) \<longleftrightarrow> uniq es \<and> (ddirty e \<longrightarrow> (\<forall>x \<in> set es. ddirty x \<longrightarrow> dsector x \<noteq> dsector e))"

definition table_ok :: "nat \<Rightarrow> dirty_entry list \<Rightarrow> bool" where
  "table_ok N es \<longleftrightarrow> uniq es \<and> (\<forall>e \<in> set es. ddirty e \<longrightarrow> unat (dsector e) < N \<and> length (ddata e) = 512)"

text \<open>A run that is gathered is the data of consecutive dirty sectors, which are clean afterwards.\<close>

definition run_of :: "nat \<Rightarrow> dirty_entry list \<Rightarrow> u8 list list \<Rightarrow> dirty_entry list \<Rightarrow> bool" where
  "run_of s es ds es1 \<longleftrightarrow> (\<forall>k < 2 ^ 55. if s \<le> k \<and> k < s + length ds then dirty_map es k = Some (ds ! (k - s)) \<and> dirty_map es1 k = None
                                     else dirty_map es1 k = dirty_map es k)"

text \<open>The well-formed device over a disk of \<open>N\<close> sectors.\<close>

definition cache_ok :: "nat \<Rightarrow> window list \<Rightarrow> bool" where
  "cache_ok N ws \<longleftrightarrow> length ws = 16 \<and>
     (\<forall>w \<in> set ws. wcount w \<noteq> 0 \<longrightarrow> unat (wsector w) + wcount w \<le> N \<and> length (wdata w) = 512 * wcount w)"

definition buffer_ok :: "nat \<Rightarrow> u64 \<Rightarrow> nat \<Rightarrow> u8 list \<Rightarrow> bool" where
  "buffer_ok N s n buf \<longleftrightarrow> n \<le> 1024 \<and> length buf = 512 * n \<and> (n \<noteq> 0 \<longrightarrow> unat s + n \<le> N)"

definition shape :: "nat \<Rightarrow> 'n BlockDeviceNet \<Rightarrow> bool" where
  "shape N bn \<longleftrightarrow> N < 2 ^ 55 \<and> nb_sectors bn = of_nat N \<and> settings_ok bn \<and> cache_ok N (read_cache bn) \<and> read_cache_next bn < 16 \<and>
     buffer_ok N (write_sector bn) (bn_write_sectors bn) (write_buffer bn) \<and>
     table_ok N (writeback bn) \<and> length (writeback bn) \<le> 2048 \<and>
     (writeback_alloc bn \<longrightarrow> writeback_enabled bn \<and> pcmalloc_ok bn) \<and> (\<not> writeback_alloc bn \<longrightarrow> writeback bn = []) \<and>
     (writeback_enabled bn \<and> pcmalloc_ok bn \<longrightarrow> bn_write_sectors bn = 0)"

text \<open>Of a well-formed device, draining changes the connection, the pending writes and a counter.\<close>

definition frame :: "'n BlockDeviceNet \<Rightarrow> 'n BlockDeviceNet \<Rightarrow> bool" where
  "frame bn bn1 \<longleftrightarrow> bn_read_only bn1 = bn_read_only bn \<and> writable bn1 = writable bn \<and> bn_max_sectors bn1 = bn_max_sectors bn \<and>
     prefetch_sectors bn1 = prefetch_sectors bn \<and> nb_sectors bn1 = nb_sectors bn \<and>
     writeback_enabled bn1 = writeback_enabled bn \<and> pcmalloc_ok bn1 = pcmalloc_ok bn"

definition drained :: "nat \<Rightarrow> 'n BlockDeviceNet \<Rightarrow> 'n BlockDeviceNet \<Rightarrow> bool" where
  "drained N bn bn1 \<longleftrightarrow> shape N bn1 \<and> frame bn bn1 \<and> read_cache bn1 = read_cache bn \<and> read_cache_next bn1 = read_cache_next bn \<and>
     write_sector bn1 = write_sector bn \<and> writeback_alloc bn1 = writeback_alloc bn"

text \<open>One store: into the entry of the sector, or into a new one.\<close>

definition put_entry :: "u64 \<Rightarrow> u8 list \<Rightarrow> 'n BlockDeviceNet \<Rightarrow> 'n BlockDeviceNet" where
  "put_entry s d bn =
     (case netblk_writeback_find (writeback bn) s of
        Some i \<Rightarrow> bn\<lparr>writeback := (writeback bn)[i := \<lparr>dsector = dsector (writeback bn ! i), ddirty = True, ddata = d\<rparr>],
                     stored_sectors := stored_sectors bn + 1\<rparr>
      | None \<Rightarrow> bn\<lparr>writeback := writeback bn @ [\<lparr>dsector = s, ddirty = True, ddata = d\<rparr>], stored_sectors := stored_sectors bn + 1\<rparr>)"

definition has_room :: "u64 \<Rightarrow> 'n BlockDeviceNet \<Rightarrow> bool" where
  "has_room s bn \<longleftrightarrow> netblk_writeback_find (writeback bn) s \<noteq> None \<or> length (writeback bn) < 2048"

text \<open>Of a well-formed device, a write keeps the windows.\<close>

definition rewritten :: "nat \<Rightarrow> 'n BlockDeviceNet \<Rightarrow> 'n BlockDeviceNet \<Rightarrow> bool" where
  "rewritten N bn bn1 \<longleftrightarrow> shape N bn1 \<and> frame bn bn1 \<and> read_cache bn1 = read_cache bn \<and> read_cache_next bn1 = read_cache_next bn"

text \<open>The write buffer takes the sectors of a write; \<open>append_buffer\<close> is that last part of \<open>netblk_write_async\<close>.\<close>

definition append_buffer :: "u64 \<Rightarrow> u8 list \<Rightarrow> int \<Rightarrow> 'n BlockDeviceNet \<Rightarrow> 'n BlockDeviceNet" where
  "append_buffer s buf n bn =
     (let bn = (if bn_write_sectors bn = 0 then bn\<lparr>write_sector := s\<rparr> else bn)
      in bn\<lparr>write_buffer := write_buffer bn @ take (512 * nat n) buf, bn_write_sectors := bn_write_sectors bn + nat n\<rparr>)"

definition fits_buffer :: "u64 \<Rightarrow> int \<Rightarrow> 'n BlockDeviceNet \<Rightarrow> bool" where
  "fits_buffer s n bn \<longleftrightarrow> bn_write_sectors bn = 0 \<or> write_sector bn + of_nat (bn_write_sectors bn) = s \<and> bn_write_sectors bn + nat n \<le> 1024"

definition buffered_write :: "'n socket \<Rightarrow> u64 \<Rightarrow> u8 list \<Rightarrow> int \<Rightarrow> 'n BlockDeviceNet \<Rightarrow> bool \<times> 'n BlockDeviceNet" where
  "buffered_write so s buf n bn =
     (let put = (\<lambda>bn. let bn = append_buffer s buf n bn
                      in if 1024 \<le> bn_write_sectors bn then netblk_flush_writes so bn else (True, bn))
      in if fits_buffer s n bn then put bn
         else case netblk_flush_writes so bn of (False, bn) \<Rightarrow> (False, bn) | (True, bn) \<Rightarrow> put bn)"

text \<open>A socket that never delivers more bytes than asked for.\<close>

definition sane :: "'n socket \<Rightarrow> bool" where
  "sane so \<longleftrightarrow> (\<forall>f n p f1. net_recv so f n = Some (p, f1) \<longrightarrow> length p \<le> n)"

text \<open>A read changes the connection, the windows and the counters.\<close>

definition looked :: "nat \<Rightarrow> 'n BlockDeviceNet \<Rightarrow> 'n BlockDeviceNet \<Rightarrow> bool" where
  "looked N bn bn1 \<longleftrightarrow> shape N bn1 \<and> frame bn bn1 \<and> write_buffer bn1 = write_buffer bn \<and> write_sector bn1 = write_sector bn \<and>
     bn_write_sectors bn1 = bn_write_sectors bn \<and> writeback bn1 = writeback bn"

section \<open>Every operation keeps the device well formed\<close>

lemma unat_of_int_small: "0 \<le> n \<Longrightarrow> n \<le> 1024 \<Longrightarrow> unat (of_int n :: u64) = nat n"
proof -
  assume "0 \<le> n" "n \<le> 1024"
  then obtain k where "n = int k" "k \<le> 1024" using nonneg_int_cases by (metis of_nat_le_iff of_nat_numeral)
  then show ?thesis by (simp add: unat_of_nat)
qed

lemma unat_align:
  fixes cur :: u64
  assumes "0 < p" "p \<le> 1024"
  shows "unat ((cur div of_int p) * of_int p) = unat cur div nat p * nat p"
proof -
  have p: "unat (of_int p :: u64) = nat p" using assms by (intro unat_of_int_small) auto
  have c: "unat cur < 2 ^ LENGTH(64)" by (rule unsigned_less)
  have "unat cur div nat p * nat p \<le> unat cur" by simp
  also have "\<dots> < 2 ^ 64" using c by simp
  finally have "unat cur div nat p * nat p < 2 ^ 64" .
  moreover have "unat cur div nat p < 2 ^ 64" using le_less_trans [OF div_le_dividend] c by simp
  ultimately show ?thesis by (simp add: unat_word_ariths unat_div p)
qed

lemma unat_minus: "(a :: u64) \<le> b \<Longrightarrow> unat (b - a) = unat b - unat a"
  by (simp add: unat_sub_if' word_le_nat_alt)

text \<open>What a miss fetches covers the sector missed, fits a window and ends inside the disk.\<close>

lemma fetch_range_ok:
  assumes "settings_ok bn" "cur < e" "e \<le> nb_sectors bn" "fetch_range bn cur e = (start, n)"
  shows "1 \<le> n \<and> n \<le> bn_max_sectors bn \<and> n \<le> 128 \<and> unat start \<le> unat cur \<and> int (unat cur) < int (unat start) + n \<and>
    int (unat start) + n \<le> int (unat (nb_sectors bn)) \<and> (prefetch_sectors bn = 1 \<longrightarrow> start = cur \<and> int (unat cur) + n \<le> int (unat e))"
  supply of_nat_unat [simp del]
proof -
  define nc where "nc = netblk_next_cached bn cur e"
  have nc: "cur < nc" "nc \<le> e" using next_cached_bounds [OF assms(2), of bn] by (simp_all add: nc_def)
  let ?M = "int (unat nc) - int (unat cur)" and ?P = "prefetch_sectors bn" and ?X = "bn_max_sectors bn"
  have lt: "unat cur < unat nc" "unat nc \<le> unat e" "unat e \<le> unat (nb_sectors bn)"
    using nc assms(3) by (simp_all add: word_less_nat_alt word_le_nat_alt)
  have m: "int (unat (nc - cur)) = ?M" using nc(1) lt by (simp add: unat_minus order_less_imp_le)
  have S: "1 \<le> ?X" "?X \<le> 1024" "1 \<le> ?P" "?P \<le> ?X" "?P \<le> 128" using assms(1) by (simp_all add: settings_ok_def)
  have le: "start' + of_int k \<le> cur \<longleftrightarrow> int (unat start') + k \<le> int (unat cur)"
    if "0 \<le> k" "k \<le> 1024" "int (unat start') + k < 2 ^ 64" for start' k
  proof -
    have "int (unat start' + nat k) < int (2 ^ 64)" using that(1,3) by simp
    then have "unat start' + nat k < 2 ^ 64" by (simp only: of_nat_less_iff)
    then have "unat (start' + of_int k) = unat start' + nat k"
      using unat_of_int_small [OF that(1,2)] by (simp add: unat_word_ariths)
    then have "start' + of_int k \<le> cur \<longleftrightarrow> unat start' + nat k \<le> unat cur" by (simp only: word_le_nat_alt)
    then show ?thesis using that(1) by linarith
  qed
  have N: "int (unat (nb_sectors bn)) < 2 ^ 64"
  proof -
    have "unat (nb_sectors bn) < 2 ^ LENGTH(64)" by (rule unsigned_less)
    then have "int (unat (nb_sectors bn)) < int (2 ^ LENGTH(64))" by (simp only: of_nat_less_iff)
    then show ?thesis by (simp only: of_nat_power of_nat_numeral len_num0 len_num1 len_bit0) simp
  qed
  show ?thesis
  proof (cases "nc = e \<and> ?M < ?P")
    case True
    define st where "st = (if 1 < ?P then (cur div of_int ?P) * of_int ?P else cur)"
    have st: "unat st \<le> unat cur" "int (unat cur) < int (unat st) + ?P"
    proof -
      have "unat cur div nat ?P * nat ?P \<le> unat cur" "unat cur < unat cur div nat ?P * nat ?P + nat ?P"
        using S dividend_less_div_times [of "nat ?P" "unat cur"] by auto
      then have "unat cur div nat ?P * nat ?P \<le> unat cur" "int (unat cur) < int (unat cur div nat ?P * nat ?P + nat ?P)"
        by (simp_all only: of_nat_less_iff)
      then show "unat st \<le> unat cur" "int (unat cur) < int (unat st) + ?P" using S by (auto simp: st_def unat_align)
    qed
    define k where "k = (if nb_sectors bn - st < of_int ?P then int (unat (nb_sectors bn - st)) else ?P)"
    have nst: "unat (nb_sectors bn - st) = unat (nb_sectors bn) - unat st"
      using st lt by (intro unat_minus) (simp add: word_le_nat_alt)
    have k: "k = min ?P (int (unat (nb_sectors bn)) - int (unat st))"
      using S st lt by (auto simp: k_def word_less_nat_alt nst unat_of_int_small)
    have "\<not> st + of_int k \<le> cur" using k st lt N S by (subst le) auto
    then have q: "(st + of_int k \<le> cur) = False" by simp
    have b: "(?M \<le> 0) = False" "(nc = e \<and> ?M < ?P) = True" "(?X < ?P) = False" "(int 128 < ?P) = False" "(True \<and> 1 < ?P) = (1 < ?P)"
      using True lt S by auto
    have "fetch_range bn cur e = (st, k)"
      unfolding fetch_range_def Let_def nc_def [symmetric] m b if_False if_True st_def [symmetric] k_def [symmetric] q ..
    then show ?thesis using assms(4) k st lt S True by auto
  next
    case False
    define k where "k = min (min ?M ?X) 128"
    have nk: "nb_sectors bn - cur < of_int k \<longleftrightarrow> False"
    proof -
      have "unat (nb_sectors bn - cur) = unat (nb_sectors bn) - unat cur" using lt by (intro unat_minus) (simp add: word_le_nat_alt)
      then show ?thesis using lt S by (auto simp: word_less_nat_alt unat_of_int_small k_def)
    qed
    have k: "1 \<le> k" "k \<le> ?M" "k \<le> ?X" "k \<le> 128" using lt S by (auto simp: k_def)
    have q: "(cur + of_int k \<le> cur) = False" using k lt N S by (subst le) auto
    have c: "(if int 128 < (if ?X < ?M then ?X else ?M) then int 128 else if ?X < ?M then ?X else ?M) = k" by (auto simp: k_def)
    have b: "(?M \<le> 0) = False" "(nc = e \<and> ?M < ?P) = False" "(False \<and> 1 < ?P) = False" using False lt by auto
    have "fetch_range bn cur e = (cur, k)"
      unfolding fetch_range_def Let_def nc_def [symmetric] m b if_False if_True c nk q ..
    then show ?thesis using assms(4) k lt by auto
  qed
qed

lemma dirty_map_Nil [simp]: "dirty_map [] i = None"
  by (simp add: dirty_map_def)

lemma dirty_map_Cons: "dirty_map (e # es) i = (if is_dirty (of_nat i) e then Some (ddata e) else dirty_map es i)"
  by (simp add: dirty_map_def)

lemma dirty_map_None: "dirty_map es i = None \<longleftrightarrow> (\<forall>e \<in> set es. \<not> is_dirty (of_nat i) e)"
  by (induction es) (simp_all add: dirty_map_Cons)

lemma dirty_map_Some: "dirty_map es i = Some d \<Longrightarrow> \<exists>e \<in> set es. is_dirty (of_nat i) e \<and> ddata e = d"
  by (induction es) (auto simp: dirty_map_Cons split: if_splits)

lemma unat_sector [simp]: "i < 2 ^ 55 \<Longrightarrow> unat (of_nat i :: u64) = i"
  by (simp add: unat_of_nat)

lemma of_nat_sector: "i < 2 ^ 55 \<Longrightarrow> of_nat i = s \<longleftrightarrow> i = unat s" for s :: u64
  by (auto simp: word_unat_eq_iff)

lemma find_index_None: "find_index P xs = None \<longleftrightarrow> (\<forall>x \<in> set xs. \<not> P x)"
  by (induction xs) auto

lemma is_dirty_upd: "is_dirty s (e\<lparr>ddirty := False\<rparr>) = False"
  by (simp add: is_dirty_def)

text \<open>Clearing a dirty mark takes the sector out of the map, storing data puts it in.\<close>

lemma table_clear:
  assumes "uniq es" "find_index (is_dirty s) es = Some i" "unat s < 2 ^ 55"
  shows "uniq (es[i := (es ! i)\<lparr>ddirty := False\<rparr>])" "dirty_map es (unat s) = Some (ddata (es ! i))"
    "\<And>k. k < 2 ^ 55 \<Longrightarrow> dirty_map (es[i := (es ! i)\<lparr>ddirty := False\<rparr>]) k = (if k = unat s then None else dirty_map es k)"
  using assms(1,2)
proof (induction es arbitrary: i)
  case (Cons e es)
  have d: "is_dirty (of_nat k) e \<longleftrightarrow> ddirty e \<and> k = unat (dsector e)" if "k < 2 ^ 55" for k
    using of_nat_sector [OF that, of "dsector e"] by (auto simp: is_dirty_def)
  {
    case 1
    then show ?case using Cons.IH(1) by (auto simp: is_dirty_def split: if_splits elim!: set_update_subset_insert [THEN subsetD, elim_format])
  next
    case 2
    then show ?case using Cons.IH(2) by (auto simp: dirty_map_Cons is_dirty_def split: if_splits)
  next
    case (3 k)
    show ?case
    proof (cases "is_dirty s e")
      case True
      then have "dirty_map es (unat s) = None" using 3 by (auto simp: dirty_map_None is_dirty_def)
      moreover have "is_dirty (of_nat k) e \<longleftrightarrow> k = unat s" using True d [OF 3(1)] by (auto simp: is_dirty_def)
      ultimately show ?thesis using 3 True by (auto simp: dirty_map_Cons is_dirty_upd)
    next
      case False
      then obtain j where j: "find_index (is_dirty s) es = Some j" "i = Suc j" using 3 by (auto split: if_splits)
      have "\<not> is_dirty (of_nat (unat s)) e" using False by simp
      then show ?thesis using Cons.IH(3) [of k j] 3 j by (auto simp: dirty_map_Cons)
    qed
  }
qed simp_all

lemma table_store_old:
  assumes "uniq es" "find_index (is_dirty s) es = Some i" "unat s < 2 ^ 55"
  shows "uniq (es[i := \<lparr>dsector = dsector (es ! i), ddirty = True, ddata = d\<rparr>])"
    "\<And>k. k < 2 ^ 55 \<Longrightarrow> dirty_map (es[i := \<lparr>dsector = dsector (es ! i), ddirty = True, ddata = d\<rparr>]) k = (if k = unat s then Some d else dirty_map es k)"
  using assms(1,2)
proof (induction es arbitrary: i)
  case (Cons e es)
  have q: "is_dirty (of_nat k) (x\<lparr>ddirty := True, ddata := z\<rparr>) \<longleftrightarrow> k = unat (dsector x)" if "k < 2 ^ 55" for k x z
    using of_nat_sector [OF that, of "dsector x"] by (auto simp: is_dirty_def)
  {
    case 1
    show ?case
    proof (cases "is_dirty s e")
      case False
      then obtain j where j: "find_index (is_dirty s) es = Some j" "i = Suc j" using 1 by (auto split: if_splits)
      note b = find_index_Some [OF j(1)]
      have "ddirty e \<longrightarrow> (\<forall>x \<in> set (es[j := \<lparr>dsector = dsector (es ! j), ddirty = True, ddata = d\<rparr>]). ddirty x \<longrightarrow> dsector x \<noteq> dsector e)"
        using 1 b by (auto simp: is_dirty_def dest!: set_update_subset_insert [THEN subsetD])
      then show ?thesis using Cons.IH(1) [OF _ j(1)] 1 j by simp
    qed (use 1 in \<open>auto simp: is_dirty_def\<close>)
  next
    case (2 k)
    show ?case
    proof (cases "is_dirty s e")
      case True
      then show ?thesis using 2 of_nat_sector [OF 2(1), of s] by (auto simp: dirty_map_Cons is_dirty_def)
    next
      case False
      then obtain j where j: "find_index (is_dirty s) es = Some j" "i = Suc j" using 2 by (auto split: if_splits)
      have "\<not> is_dirty (of_nat (unat s)) e" using False by simp
      then show ?thesis using Cons.IH(2) [of k j] 2 j by (auto simp: dirty_map_Cons)
    qed
  }
qed simp_all

lemma table_store_new:
  assumes "uniq es" "find_index (is_dirty s) es = None" "unat s < 2 ^ 55"
  shows "uniq (es @ [\<lparr>dsector = s, ddirty = True, ddata = d\<rparr>])"
    "\<And>k. k < 2 ^ 55 \<Longrightarrow> dirty_map (es @ [\<lparr>dsector = s, ddirty = True, ddata = d\<rparr>]) k = (if k = unat s then Some d else dirty_map es k)"
  using assms(1,2)
proof (induction es)
  case Nil
  {
    case 1 show ?case by simp
  next
    case (2 k) then show ?case using of_nat_sector [OF 2(1), of s] by (auto simp: dirty_map_Cons is_dirty_def)
  }
next
  case (Cons e es)
  {
    case 1 then show ?case using Cons.IH(1) by (auto simp: is_dirty_def split: if_splits)
  next
    case (2 k)
    moreover have "\<not> is_dirty (of_nat (unat s)) e" using 2 by (auto split: if_splits)
    ultimately show ?case using Cons.IH(2) by (auto simp: dirty_map_Cons split: if_splits)
  }
qed

lemma table_ok_update:
  "table_ok N es \<Longrightarrow> uniq (es[i := e]) \<Longrightarrow> (ddirty e \<longrightarrow> unat (dsector e) < N \<and> length (ddata e) = 512) \<Longrightarrow> table_ok N (es[i := e])"
  by (auto simp: table_ok_def dest!: set_update_subset_insert [THEN subsetD])

lemma table_ok_map: "table_ok N es \<Longrightarrow> N < 2 ^ 55 \<Longrightarrow> k < 2 ^ 55 \<Longrightarrow> dirty_map es k = Some d \<Longrightarrow> k < N \<and> length d = 512"
  by (auto simp: table_ok_def is_dirty_def dest!: dirty_map_Some)

lemma run_of_Cons:
  assumes "\<And>k. k < 2 ^ 55 \<Longrightarrow> dirty_map es1 k = (if k = s then None else dirty_map es k)" "dirty_map es s = Some d" "run_of (Suc s) es1 ds es2"
  shows "run_of s es (d # ds) es2"
  unfolding run_of_def
proof (intro allI impI)
  fix k :: nat assume k: "k < 2 ^ 55"
  note a = assms(1) [OF k] assms(2) assms(3) [unfolded run_of_def, rule_format, OF k]
  consider "k = s" | "s < k" "k < Suc s + length ds" | "k < s" | "Suc s + length ds \<le> k" by linarith
  then show "if s \<le> k \<and> k < s + length (d # ds) then dirty_map es k = Some ((d # ds) ! (k - s)) \<and> dirty_map es2 k = None
       else dirty_map es2 k = dirty_map es k"
    by cases (use a in \<open>auto simp: nth_Cons' split: if_splits\<close>)
qed

lemma gather_run_ok:
  assumes "table_ok N es" "N < 2 ^ 55" "unat s \<le> N" "gather_run r s es = (ds, es1)"
  shows "table_ok N es1 \<and> length es1 = length es \<and> length ds \<le> r \<and> (\<forall>d \<in> set ds. length d = 512) \<and>
    unat s + length ds \<le> N \<and> run_of (unat s) es ds es1"
  using assms
proof (induction r s es arbitrary: ds es1 rule: gather_run.induct)
  case (1 s es)
  then show ?case by (auto simp: run_of_def)
next
  case (2 r s es)
  show ?case
  proof (cases "netblk_writeback_find es s")
    case None
    then show ?thesis using 2 by (auto simp: run_of_def)
  next
    case (Some i)
    define e2 where "e2 = es[i := (es ! i)\<lparr>ddirty := False\<rparr>]"
    note f = Some [unfolded netblk_writeback_find_def]
    have u: "uniq es" using 2(2) by (simp add: table_ok_def)
    have s55: "unat s < 2 ^ 55" using 2(3,4) by linarith
    note c = table_clear [OF u f s55, folded e2_def]
    have t2: "table_ok N e2" using 2(2) c(1) by (auto simp: e2_def intro!: table_ok_update)
    have d: "unat s < N" "length (ddata (es ! i)) = 512" using table_ok_map [OF 2(2,3) s55 c(2)] by auto
    have s1: "unat (s + 1) = Suc (unat s)"
    proof -
      have "unat s + 1 < 2 ^ 64" using s55 by simp
      then show ?thesis by (simp add: unat_word_ariths)
    qed
    obtain ds' where r: "gather_run r (s + 1) e2 = (ds', es1)" "ds = ddata (es ! i) # ds'"
      using 2(5) Some by (auto simp: e2_def split: prod.splits)
    have "unat (s + 1) \<le> N" using s1 d by simp
    note ih = 2(1) [OF Some, folded e2_def, OF t2 2(3) this r(1)]
    show ?thesis using ih run_of_Cons [OF c(3) c(2)] d r(2) s1 by (simp add: e2_def)
  qed
qed

lemma gather_run_first:
  assumes "gather_run (Suc r) s es = (ds, es1)" "\<exists>e \<in> set es. is_dirty s e"
  shows "ds \<noteq> []"
proof -
  have "find_index (is_dirty s) es \<noteq> None" using assms(2) by (simp add: find_index_None)
  then show ?thesis using assms(1) by (auto simp: netblk_writeback_find_def split: prod.splits)
qed

lemma best_dirty_fold:
  assumes "\<forall>e \<in> set es. ddirty e \<longrightarrow> dsector e \<noteq> - 1"
  shows "case fold (\<lambda>e best. if ddirty e \<and> dsector e < (case best of None \<Rightarrow> - 1 | Some b \<Rightarrow> b) then Some (dsector e) else best) es b of
      None \<Rightarrow> b = None \<and> (\<forall>e \<in> set es. \<not> ddirty e)
    | Some s \<Rightarrow> b = Some s \<or> (\<exists>e \<in> set es. is_dirty s e)"
  using assms
proof (induction es arbitrary: b)
  case Nil
  then show ?case by (cases b) auto
next
  case (Cons e es)
  have m: "dsector e < - 1 \<longleftrightarrow> dsector e \<noteq> - 1" using word_order.not_eq_extremum [of "dsector e"] by auto
  show ?case using Cons.IH [of "if ddirty e \<and> dsector e < (case b of None \<Rightarrow> - 1 | Some x \<Rightarrow> x) then Some (dsector e) else b"] Cons.prems m
    by (auto simp: is_dirty_def split: option.splits if_splits)
qed

lemma best_dirty_ok:
  assumes "table_ok N es" "N < 2 ^ 55"
  shows "case best_dirty es of None \<Rightarrow> \<forall>k. dirty_map es k = None | Some s \<Rightarrow> unat s < N \<and> (\<exists>e \<in> set es. is_dirty s e)"
proof -
  have "dsector e \<noteq> - 1" if "e \<in> set es" "ddirty e" for e
  proof
    assume "dsector e = - 1"
    then have "unat (- 1 :: u64) < N" using that assms(1) by (force simp: table_ok_def)
    then show False using assms(2) by (simp add: unsigned_minus_1_eq_mask mask_eq_exp_minus_1)
  qed
  then have h: "\<forall>e \<in> set es. ddirty e \<longrightarrow> dsector e \<noteq> - 1" by blast
  note best_dirty_fold [OF h, of None, folded best_dirty_def]
  then show ?thesis using assms(1) by (auto simp: dirty_map_None is_dirty_def table_ok_def split: option.splits)
qed

lemma settings_ok_upd [simp]:
  "settings_ok (bn\<lparr>fd := f\<rparr>) = settings_ok bn" "settings_ok (bn\<lparr>read_cache := ws\<rparr>) = settings_ok bn"
  "settings_ok (bn\<lparr>read_cache_next := k\<rparr>) = settings_ok bn" "settings_ok (bn\<lparr>write_buffer := b\<rparr>) = settings_ok bn"
  "settings_ok (bn\<lparr>write_sector := s\<rparr>) = settings_ok bn" "settings_ok (bn\<lparr>bn_write_sectors := m\<rparr>) = settings_ok bn"
  "settings_ok (bn\<lparr>writeback := es\<rparr>) = settings_ok bn" "settings_ok (bn\<lparr>writeback_alloc := a\<rparr>) = settings_ok bn"
  "settings_ok (bn\<lparr>cache_hits := c\<rparr>) = settings_ok bn" "settings_ok (bn\<lparr>cache_misses := c\<rparr>) = settings_ok bn"
  "settings_ok (bn\<lparr>stored_sectors := c\<rparr>) = settings_ok bn" "settings_ok (bn\<lparr>writeback_flushes := c2\<rparr>) = settings_ok bn"
  by (simp_all add: settings_ok_def)

lemma table_ok_Nil [simp]: "table_ok N []"
  by (simp add: table_ok_def)

lemma drained_shape: "drained N bn bn1 \<Longrightarrow> shape N bn1"
  by (simp add: drained_def)

lemma drained_refl: "shape N bn \<Longrightarrow> drained N bn bn"
  by (simp add: drained_def frame_def)

lemma drained_trans: "drained N bn bn1 \<Longrightarrow> drained N bn1 bn2 \<Longrightarrow> drained N bn bn2"
  by (simp add: drained_def frame_def)

lemma shape_fd [simp]: "shape N (bn\<lparr>fd := f\<rparr>) = shape N bn"
  by (simp add: shape_def)

lemma shape_empty: "shape N bn \<Longrightarrow> shape N (bn\<lparr>writeback := []\<rparr>)"
  by (simp add: shape_def)

lemma drained_fd: "drained N bn bn1 \<Longrightarrow> drained N bn (bn1\<lparr>fd := f\<rparr>)"
  by (simp add: drained_def frame_def)

lemma flush_writes_drained:
  assumes "shape N bn"
  shows "drained N bn (snd (netblk_flush_writes so bn))"
proof -
  have "drained N bn (bn\<lparr>fd := f, bn_write_sectors := 0, write_buffer := []\<rparr>)" for f
    using assms by (simp add: drained_def frame_def shape_def buffer_ok_def)
  then show ?thesis using drained_refl [OF assms] drained_fd [OF drained_refl [OF assms]]
    by (auto simp: netblk_flush_writes_def net_write_def split: prod.splits)
qed

lemma drain_loop_drained: "shape N bn \<Longrightarrow> drained N bn (snd (drain_loop so bn))"
proof (induction so bn rule: drain_loop.induct)
  case (1 so bn)
  have t: "table_ok N (writeback bn)" "N < 2 ^ 55" using 1(2) by (simp_all add: shape_def)
  show ?case
  proof (cases "best_dirty (writeback bn)")
    case None
    then show ?thesis using 1(2) by (simp add: drain_loop.simps [of so bn] drained_refl)
  next
    case (Some s)
    obtain ds es where g: "gather_run 1024 s (writeback bn) = (ds, es)" by force
    have "unat s \<le> N" using best_dirty_ok [OF t] Some by simp
    note ok = gather_run_ok [OF t this g]
    have d: "drained N bn (bn\<lparr>writeback := es\<rparr>)" "drained N bn (bn\<lparr>writeback := es, fd := f\<rparr>)"
      "drained N bn (bn\<lparr>writeback := es, fd := f, writeback_flushes := k\<rparr>)" for f k
      using 1(2) ok by (auto simp: drained_def frame_def shape_def)
    obtain r f where w: "net_write so s (length ds) (concat ds) (bn\<lparr>writeback := es\<rparr>) = (r, bn\<lparr>writeback := es, fd := f\<rparr>)"
      by (cases "netblk_request so (fd bn) 0 3 s (of_nat (length ds)) (concat ds) 0") (simp add: net_write_def)
    show ?thesis
    proof (cases "ds = [] \<or> \<not> r")
      case True
      then show ?thesis using Some g w d
        by (auto simp: drain_loop.simps [of so bn])
    next
      case False
      let ?b = "bn\<lparr>writeback := es, fd := f\<rparr>"
      have "drained N (?b\<lparr>writeback_flushes := writeback_flushes ?b + 1\<rparr>) (snd (drain_loop so (?b\<lparr>writeback_flushes := writeback_flushes ?b + 1\<rparr>)))"
        by (rule 1(1) [OF Some g [symmetric] _ w [symmetric]]) (use False drained_shape [OF d(3)] in simp_all)
      moreover have "drained N bn (?b\<lparr>writeback_flushes := writeback_flushes ?b + 1\<rparr>)" using d by simp
      ultimately have "drained N bn (snd (drain_loop so (?b\<lparr>writeback_flushes := writeback_flushes ?b + 1\<rparr>)))" by (rule drained_trans [rotated])
      then show ?thesis using Some g w False by (simp add: drain_loop.simps [of so bn])
    qed
  qed
qed

lemma drained_empty: "drained N bn bn1 \<Longrightarrow> drained N bn (bn1\<lparr>writeback := []\<rparr>)"
  by (simp add: drained_def frame_def shape_empty)

lemma drain_writes_drained:
  assumes "shape N bn"
  shows "drained N bn (snd (netblk_drain_writes so bn))"
proof -
  obtain r b1 where f: "netblk_flush_writes so bn = (r, b1)" by force
  note d1 = flush_writes_drained [OF assms, of so, unfolded f snd_conv]
  obtain r2 b2 where l: "drain_loop so b1 = (r2, b2)" by force
  have d2: "drained N bn b2" using drained_trans [OF d1 drain_loop_drained [OF drained_shape [OF d1], of so]] l by simp
  then show ?thesis using d1 drained_empty [OF d2] f l by (auto simp: netblk_drain_writes_def split: bool.splits)
qed

lemma flush_drained:
  assumes "shape N bn"
  shows "drained N bn (snd (netblk_flush so bn))"
proof -
  obtain r b1 where f: "netblk_drain_writes so bn = (r, b1)" by force
  note d1 = drain_writes_drained [OF assms, of so, unfolded f snd_conv]
  show ?thesis using drained_refl [OF assms] d1 drained_fd [OF d1] f by (auto simp: netblk_flush_def split: bool.splits prod.splits)
qed

text \<open>A drain that succeeds leaves no entry in the table.\<close>

lemma drain_writes_empty:
  assumes "shape N bn" "netblk_drain_writes so bn = (True, bn1)"
  shows "writeback bn1 = []"
proof -
  have "writeback (snd (netblk_flush_writes so bn)) = writeback bn"
    by (auto simp: netblk_flush_writes_def net_write_def split: prod.splits)
  moreover have "\<not> writeback_alloc bn \<longrightarrow> writeback bn = []" using assms(1) by (simp add: shape_def)
  ultimately show ?thesis using assms(2) by (auto simp: netblk_drain_writes_def split: if_splits prod.splits bool.splits)
qed

lemma range_ok:
  assumes "shape N bn" "\<not> out_of_disk s n bn"
  shows "0 \<le> n" "n \<le> bn_max_sectors bn" "n \<le> 1024" "unat s + nat n \<le> N" "unat (s + of_int n) = unat s + nat n"
proof -
  have N: "N < 2 ^ 55" "unat (nb_sectors bn) = N" "bn_max_sectors bn \<le> 1024" using assms(1) by (simp_all add: shape_def settings_ok_def)
  have o: "0 \<le> n" "n \<le> bn_max_sectors bn" "s \<le> nb_sectors bn" "of_int n \<le> nb_sectors bn - s" using assms(2) by (auto simp: out_of_disk_def)
  then show "0 \<le> n" "n \<le> bn_max_sectors bn" "n \<le> 1024" using N by auto
  then have n: "unat (of_int n :: u64) = nat n" by (intro unat_of_int_small)
  have "nat n \<le> unat (nb_sectors bn - s)" using o(4) n by (simp add: word_le_nat_alt)
  then show l: "unat s + nat n \<le> N" using o(3) N by (simp add: unat_minus word_le_nat_alt)
  then have "unat s + nat n < 2 ^ 64" using N by simp
  then show "unat (s + of_int n) = unat s + nat n" using n by (simp add: unat_word_ariths)
qed

text \<open>The table after a sector is stored.\<close>

lemma find_index_bound: "netblk_writeback_find es s = Some i \<Longrightarrow> i < length es \<and> is_dirty s (es ! i)"
  unfolding netblk_writeback_find_def by (rule find_index_Some)

lemma shape_store_old:
  assumes "shape N bn" "netblk_writeback_find (writeback bn) s = Some i" "length d = 512"
  shows "shape N (bn\<lparr>writeback := (writeback bn)[i := \<lparr>dsector = dsector (writeback bn ! i), ddirty = True, ddata = d\<rparr>], stored_sectors := k\<rparr>)"
proof -
  let ?es = "writeback bn"
  have t: "table_ok N ?es" "N < 2 ^ 55" "writeback_alloc bn" using assms by (auto simp: shape_def netblk_writeback_find_def)
  have b: "i < length ?es" "ddirty (?es ! i)" "dsector (?es ! i) = s" using find_index_bound [OF assms(2)] by (auto simp: is_dirty_def)
  then have s: "unat s < N" using t(1) nth_mem [OF b(1)] by (auto simp: table_ok_def)
  have "uniq (?es[i := \<lparr>dsector = dsector (?es ! i), ddirty = True, ddata = d\<rparr>])"
    using table_store_old(1) [OF _ assms(2) [unfolded netblk_writeback_find_def]] t s by (auto simp: table_ok_def)
  then have "table_ok N (?es[i := \<lparr>dsector = dsector (?es ! i), ddirty = True, ddata = d\<rparr>])"
    using t(1) s b assms(3) by (intro table_ok_update) auto
  then show ?thesis using assms(1) t(3) by (auto simp: shape_def)
qed

lemma shape_store_new:
  assumes "shape N bn" "netblk_writeback_find (writeback bn) s = None" "length (writeback bn) < 2048" "writeback_alloc bn" "unat s < N" "length d = 512"
  shows "shape N (bn\<lparr>writeback := writeback bn @ [\<lparr>dsector = s, ddirty = True, ddata = d\<rparr>], stored_sectors := k\<rparr>)"
proof -
  have t: "table_ok N (writeback bn)" "N < 2 ^ 55" using assms(1) by (simp_all add: shape_def)
  have "uniq (writeback bn @ [\<lparr>dsector = s, ddirty = True, ddata = d\<rparr>])"
    using table_store_new(1) [OF _ assms(2) [unfolded netblk_writeback_find_def]] t assms(5) by (auto simp: table_ok_def)
  then have "table_ok N (writeback bn @ [\<lparr>dsector = s, ddirty = True, ddata = d\<rparr>])" using t(1) assms(5,6) by (auto simp: table_ok_def)
  then show ?thesis using assms by (auto simp: shape_def)
qed

lemma put_entry_drained:
  assumes "shape N bn" "has_room s bn" "writeback_alloc bn" "unat s < N" "length d = 512"
  shows "drained N bn (put_entry s d bn)"
  using assms shape_store_old [OF assms(1), of s _ d] shape_store_new [OF assms(1), of s d]
  by (auto simp: put_entry_def has_room_def drained_def frame_def split: option.splits)

lemma store_loop_Cons:
  assumes "shape N bn"
  shows "store_loop so s (d # ds) bn =
    (if has_room s bn then store_loop so (s + 1) ds (put_entry s d bn)
     else case netblk_drain_writes so bn of
       (False, bn1) \<Rightarrow> Inr (None, bn1)
     | (True, bn1) \<Rightarrow> store_loop so (s + 1) ds (put_entry s d bn1))"
proof -
  have "writeback bn1 = []" if "netblk_drain_writes so bn = (True, bn1)" for bn1 using drain_writes_empty [OF assms that] .
  then show ?thesis
    by (auto simp: has_room_def put_entry_def Let_def netblk_writeback_find_def split: option.splits prod.splits bool.splits)
qed

lemma unat_Suc_sector: "unat s < N \<Longrightarrow> N < 2 ^ 55 \<Longrightarrow> unat (s + 1) = Suc (unat s)" for s :: u64
proof -
  assume "unat s < N" "N < 2 ^ 55"
  then have "unat s + 1 < 2 ^ 64" by simp
  then show ?thesis by (simp add: unat_word_ariths)
qed

lemma store_loop_drained:
  assumes "shape N bn" "writeback_alloc bn" "\<forall>d \<in> set ds. length d = 512" "unat s + length ds \<le> N"
  shows "\<exists>r bn1. store_loop so s ds bn = Inr (r, bn1) \<and> drained N bn bn1"
  using assms
proof (induction ds arbitrary: s bn)
  case Nil
  then show ?case by (simp add: drained_refl)
next
  case (Cons d ds)
  have s: "unat (s + 1) = Suc (unat s)" "unat s < N" using unat_Suc_sector [of s N] Cons.prems(1,4) by (simp_all add: shape_def)
  have step: "\<exists>r bn1. store_loop so (s + 1) ds (put_entry s d b) = Inr (r, bn1) \<and> drained N bn bn1" if b: "drained N bn b" "has_room s b" for b
  proof -
    have "drained N b (put_entry s d b)" using b Cons.prems s by (intro put_entry_drained) (auto simp: drained_def)
    then have p: "drained N bn (put_entry s d b)" using b(1) by (rule drained_trans [rotated])
    then have "\<exists>r bn1. store_loop so (s + 1) ds (put_entry s d b) = Inr (r, bn1) \<and> drained N (put_entry s d b) bn1"
      using Cons.prems s by (intro Cons.IH) (auto simp: drained_def)
    then show ?thesis using drained_trans [OF p] by blast
  qed
  obtain r b1 where dw: "netblk_drain_writes so bn = (r, b1)" by force
  note d1 = drain_writes_drained [OF Cons.prems(1), of so, unfolded dw snd_conv]
  have e: "r \<Longrightarrow> has_room s b1" using drain_writes_empty [OF Cons.prems(1)] dw by (simp add: has_room_def)
  show ?case unfolding store_loop_Cons [OF Cons.prems(1)]
    using step [OF drained_refl [OF Cons.prems(1)]] step [OF d1] e d1 dw by (auto split: bool.splits)
qed

lemma sectors_of_ok: "512 * n \<le> length buf \<Longrightarrow> length (sectors_of n buf) = n \<and> (\<forall>d \<in> set (sectors_of n buf). length d = 512)"
  by (auto simp: sectors_of_def)

lemma drained_rewritten: "drained N bn bn1 \<Longrightarrow> rewritten N bn bn1"
  by (simp add: drained_def rewritten_def)

lemma rewritten_trans: "rewritten N bn bn1 \<Longrightarrow> rewritten N bn1 bn2 \<Longrightarrow> rewritten N bn bn2"
  by (simp add: rewritten_def frame_def)

lemma store_write_ok:
  assumes "shape N bn" "unat s + nat n \<le> N" "512 * nat n \<le> length buf"
  shows "\<exists>r bn1. netblk_store_write so s buf n bn = Inr (r, bn1) \<and> rewritten N bn bn1 \<and>
    (r = 0 \<longrightarrow> bn1 = bn \<and> (n \<le> 0 \<or> \<not> (writeback_enabled bn \<and> pcmalloc_ok bn)))"
proof -
  have refl: "rewritten N bn bn" using assms(1) by (simp add: rewritten_def frame_def)
  show ?thesis
  proof (cases "writeback_enabled bn \<and> 0 < n \<and> pcmalloc_ok bn")
    case True
    let ?b = "bn\<lparr>writeback_alloc := True\<rparr>"
    have b: "shape N ?b" "writeback_alloc ?b" using assms(1) True by (auto simp: shape_def)
    have "rewritten N bn ?b" using assms(1) b(1) by (simp add: rewritten_def frame_def)
    moreover obtain r bn1 where "store_loop so s (sectors_of (nat n) buf) ?b = Inr (r, bn1)" "drained N ?b bn1"
      using store_loop_drained [OF b, of "sectors_of (nat n) buf" s so] sectors_of_ok [OF assms(3)] assms(2) by auto
    moreover have "netblk_alloc_writes bn = (True, ?b)" using True by (simp add: netblk_alloc_writes_def)
    ultimately show ?thesis using True drained_rewritten rewritten_trans by (fastforce simp: netblk_store_write_def)
  next
    case False
    have "\<not> pcmalloc_ok bn \<Longrightarrow> \<not> writeback_alloc bn" using assms(1) by (auto simp: shape_def)
    then have "netblk_store_write so s buf n bn = Inr (0, bn)"
      using False by (auto simp: netblk_store_write_def netblk_alloc_writes_def)
    then show ?thesis using False refl by auto
  qed
qed

lemma invalidate_shape: "shape N bn \<Longrightarrow> shape N (netblk_invalidate s n bn) \<and> frame bn (netblk_invalidate s n bn)"
  by (auto simp: netblk_invalidate_def shape_def cache_ok_def frame_def Let_def)

lemma flush_writes_count: "netblk_flush_writes so bn = (True, bn1) \<Longrightarrow> bn_write_sectors bn1 = 0"
  by (auto simp: netblk_flush_writes_def net_write_def split: if_splits prod.splits)

lemma append_buffer_count [simp]: "bn_write_sectors (append_buffer s buf n bn) = bn_write_sectors bn + nat n"
  by (simp add: append_buffer_def Let_def)

lemma buffer_write_eq:
  assumes "n \<le> 1024"
  shows "buffer_write so s buf n bn = Inr (buffered_write so s buf n bn)"
proof -
  obtain r b1 where f: "netblk_flush_writes so bn = (r, b1)" by force
  show ?thesis
  proof (cases "fits_buffer s n bn")
    case True
    then show ?thesis using assms by (auto simp: buffer_write_def fits_buffer_def buffered_write_def append_buffer_def Let_def)
  next
    case False
    then show ?thesis using assms f flush_writes_count [of so bn b1]
      by (auto simp: buffer_write_def fits_buffer_def buffered_write_def append_buffer_def Let_def split: bool.splits)
  qed
qed

lemma write_async_eq:
  assumes "shape N bn" "\<not> out_of_disk s n bn" "\<not> bn_read_only bn" "writable bn"
  shows "netblk_write_async so s buf n bn =
    bind_result (netblk_store_write so s buf n (netblk_invalidate s n bn)) (\<lambda>(r, bn).
      if r \<noteq> 0 then Inr (True, bn) else Inr (buffered_write so s buf n bn))"
proof -
  have n: "n \<le> 1024" using range_ok [OF assms(1,2)] by simp
  then have "n \<le> int 2048" "\<not> int 1024 < n" by simp_all
  then show ?thesis using assms(2-4) by (cases "netblk_store_write so s buf n (netblk_invalidate s n bn)")
    (auto simp: netblk_write_async_def Let_def buffer_write_eq [OF n])
qed

lemma append_buffer_shape:
  assumes "shape N bn" "fits_buffer s n bn" "n = 0 \<or> \<not> (writeback_enabled bn \<and> pcmalloc_ok bn)" "0 \<le> n" "n \<le> 1024" "unat s + nat n \<le> N" "512 * nat n \<le> length buf"
  shows "rewritten N bn (append_buffer s buf n bn)"
proof -
  have "unat s = unat (write_sector bn) + bn_write_sectors bn" if "bn_write_sectors bn \<noteq> 0"
  proof -
    have b: "unat (write_sector bn) + bn_write_sectors bn \<le> N" "N < 2 ^ 55" "bn_write_sectors bn \<le> 1024"
      using assms(1) that by (auto simp: shape_def buffer_ok_def)
    have "unat (write_sector bn + of_nat (bn_write_sectors bn)) = unat (write_sector bn) + bn_write_sectors bn"
      using b by (simp add: unat_word_ariths unat_of_nat)
    then show ?thesis using assms(2) that by (auto simp: fits_buffer_def)
  qed
  then have "buffer_ok N (if bn_write_sectors bn = 0 then s else write_sector bn) (bn_write_sectors bn + nat n) (write_buffer bn @ take (512 * nat n) buf)"
    using assms by (auto simp: buffer_ok_def shape_def fits_buffer_def)
  then show ?thesis using assms(1,3) by (auto simp: shape_def rewritten_def frame_def append_buffer_def Let_def)
qed

lemma buffered_write_shape:
  assumes "shape N bn" "n = 0 \<or> \<not> (writeback_enabled bn \<and> pcmalloc_ok bn)" "0 \<le> n" "n \<le> 1024" "unat s + nat n \<le> N" "512 * nat n \<le> length buf"
  shows "rewritten N bn (snd (buffered_write so s buf n bn))"
proof -
  have app: "rewritten N bn (snd (let bn = append_buffer s buf n b in if 1024 \<le> bn_write_sectors bn then netblk_flush_writes so bn else (True, bn)))"
    if "rewritten N bn b" "fits_buffer s n b" for b
  proof -
    have a: "rewritten N b (append_buffer s buf n b)" using that assms by (intro append_buffer_shape) (auto simp: rewritten_def frame_def)
    then have "rewritten N b (snd (netblk_flush_writes so (append_buffer s buf n b)))"
      using rewritten_trans [OF a] drained_rewritten [OF flush_writes_drained, of N "append_buffer s buf n b" so] by (simp add: rewritten_def)
    then show ?thesis using a that(1) rewritten_trans by (auto simp: Let_def)
  qed
  obtain r b1 where f: "netblk_flush_writes so bn = (r, b1)" by force
  have b1: "rewritten N bn b1" using drained_rewritten [OF flush_writes_drained [OF assms(1), of so]] f by simp
  have "r \<Longrightarrow> fits_buffer s n b1" using flush_writes_count [of so bn b1] f by (auto simp: fits_buffer_def)
  then show ?thesis using app [of bn] app [of b1] b1 f drained_rewritten [OF drained_refl [OF assms(1)]]
    by (auto simp: buffered_write_def Let_def split: bool.splits)
qed

lemma write_async_ok:
  assumes "shape N bn" "512 * nat n \<le> length buf"
  shows "\<exists>r bn1. netblk_write_async so s buf n bn = Inr (r, bn1) \<and> shape N bn1 \<and> frame bn bn1"
proof (cases "bn_read_only bn \<or> \<not> writable bn \<or> out_of_disk s n bn")
  case True
  then show ?thesis using assms by (auto simp: netblk_write_async_def frame_def)
next
  case False
  note R = range_ok [OF assms(1), of s n]
  let ?b = "netblk_invalidate s n bn"
  have b: "shape N ?b" "frame bn ?b" using invalidate_shape [OF assms(1)] by simp_all
  obtain r b1 where s: "netblk_store_write so s buf n ?b = Inr (r, b1)" "rewritten N ?b b1"
      "r = 0 \<longrightarrow> b1 = ?b \<and> (n \<le> 0 \<or> \<not> (writeback_enabled ?b \<and> pcmalloc_ok ?b))"
    using store_write_ok [OF b(1) R(4) assms(2), of so] False by auto
  have "rewritten N b1 (snd (buffered_write so s buf n b1))" if "r = 0"
    using s that R False b assms by (intro buffered_write_shape) (auto simp: rewritten_def frame_def)
  then show ?thesis using write_async_eq [OF assms(1), of s n so buf] False s b
    by (cases "buffered_write so s buf n b1") (auto simp: rewritten_def frame_def)
qed

lemma recv_all_length: "sane so \<Longrightarrow> netblk_recv_all so f n = (Some d, f1) \<Longrightarrow> length d = n"
proof (induction so f n arbitrary: d f1 rule: netblk_recv_all.induct)
  case (1 so f n)
  show ?case
  proof (cases "n = 0")
    case False
    obtain p g where p: "net_recv so f (min n NETBLK_IO_CHUNK_BYTES) = Some (p, g)" "p \<noteq> []"
      using 1(3) False by (auto simp: netblk_recv_all.simps [of so f n] split: option.splits if_splits)
    obtain r h where r: "netblk_recv_all so g (n - length p) = (Some r, h)" "d = p @ r"
      using 1(3) False p by (auto simp: netblk_recv_all.simps [of so f n] split: option.splits prod.splits)
    have "length p \<le> n" using 1(2) p(1) unfolding sane_def by (metis min.boundedE)
    moreover have "length r = n - length p" using 1(1) [OF False p(1) refl p(2) 1(2) r(1)] .
    ultimately show ?thesis using r(2) by simp
  qed (use 1 in \<open>simp add: netblk_recv_all.simps [of so f 0]\<close>)
qed

lemma request_length:
  assumes "sane so" "netblk_request so f fl op' s c out n = (Some (h, d), f1)"
  shows "length d = n"
  using assms(2) recv_all_length [OF assms(1)]
  by (auto simp: netblk_request_def Let_def split: prod.splits bool.splits option.splits if_splits)

lemma shape_reads:
  "shape N bn \<Longrightarrow> cache_ok N ws \<Longrightarrow> k < 16 \<Longrightarrow> shape N (bn\<lparr>fd := f, cache_misses := m, read_cache := ws, read_cache_next := k\<rparr>)"
  "shape N bn \<Longrightarrow> cache_ok N ws \<Longrightarrow> shape N (bn\<lparr>fd := f, read_cache := ws\<rparr>)"
  "shape N (bn\<lparr>cache_hits := h\<rparr>) = shape N bn"
  by (simp_all add: shape_def)

lemma cache_ok_update:
  "cache_ok N ws \<Longrightarrow> (wcount w \<noteq> 0 \<longrightarrow> unat (wsector w) + wcount w \<le> N \<and> length (wdata w) = 512 * wcount w) \<Longrightarrow> cache_ok N (ws[i := w])"
  by (auto simp: cache_ok_def dest!: set_update_subset_insert [THEN subsetD])

lemma looked_trans: "looked N bn bn1 \<Longrightarrow> looked N bn1 bn2 \<Longrightarrow> looked N bn bn2"
  by (simp add: looked_def frame_def)

lemma fetch_window_ok:
  assumes "sane so" "shape N bn" "cur < e" "e \<le> nb_sectors bn"
  shows "\<exists>ok bn1. fetch_window so cur e bn = Inr (ok, bn1) \<and> looked N bn bn1"
proof -
  obtain start n where r: "fetch_range bn cur e = (start, n)" by force
  have s: "settings_ok bn" "cache_ok N (read_cache bn)" "read_cache_next bn < 16" "unat (nb_sectors bn) = N"
    using assms(2) by (simp_all add: shape_def)
  note F = fetch_range_ok [OF s(1) assms(3,4) r]
  have F2: "1 \<le> n" "n \<le> 128" "unat start + nat n \<le> N" using F s(4) by linarith+
  obtain q f where q: "netblk_request so (fd bn) 0 2 start (of_int n) [] (nat n * 512) = (q, f)" by force
  let ?slot = "read_cache_next bn"
  have len: "length (read_cache bn) = 16" using s(2) by (simp add: cache_ok_def)
  note eq = fetch_window_def r Let_def prod.case
  show ?thesis
  proof (cases q)
    case None
    have "cache_ok N ((read_cache bn)[?slot := (read_cache bn ! ?slot)\<lparr>wcount := 0\<rparr>])" using s(2) by (rule cache_ok_update) simp
    then have "looked N bn (bn\<lparr>fd := f, read_cache := (read_cache bn)[?slot := (read_cache bn ! ?slot)\<lparr>wcount := 0\<rparr>]\<rparr>)"
      using shape_reads(2) [OF assms(2)] by (simp add: looked_def frame_def)
    then show ?thesis using None F2 s len q by (intro exI [of _ False]) (simp add: eq)
  next
    case (Some a)
    obtain h d where a: "a = (h, d)" by force
    have "length d = nat n * 512" using request_length [OF assms(1)] q Some a by simp
    then have "cache_ok N ((read_cache bn)[?slot := \<lparr>wdata = d, wsector = start, wcount = nat n\<rparr>])"
      using s(2) F2 by (intro cache_ok_update) auto
    then have "looked N bn (bn\<lparr>fd := f, cache_misses := cache_misses bn + of_int n,
        read_cache := (read_cache bn)[?slot := \<lparr>wdata = d, wsector = start, wcount = nat n\<rparr>], read_cache_next := (?slot + 1) mod 16\<rparr>)"
      using shape_reads(1) [OF assms(2)] by (simp add: looked_def frame_def)
    then show ?thesis using Some a F2 s len q by (intro exI [of _ True]) (simp add: eq)
  qed
qed

lemma hit_inside:
  assumes "shape N bn" "netblk_find_cache bn cur = Some w" "cur < e"
  shows "unat (cur - wsector w) = unat cur - unat (wsector w)" "unat (wsector w) \<le> unat cur"
    "unat (wsector w) + wcount w \<le> N" "unat cur + unat (hit_sectors w cur e) \<le> unat (wsector w) + wcount w"
    "length (wdata w) = 512 * wcount w" "w \<in> set (read_cache bn)" "wcount w \<noteq> 0"
proof -
  have w: "w \<in> set (read_cache bn)" "window_has cur w" using assms(2) by (auto simp: netblk_find_cache_def find_Some_iff)
  then have c: "wcount w \<noteq> 0" "wsector w \<le> cur" "cur < window_end w" by (auto simp: window_has_def)
  have ok: "unat (wsector w) + wcount w \<le> N" "length (wdata w) = 512 * wcount w" "N < 2 ^ 55"
    using assms(1) w(1) c(1) by (auto simp: shape_def cache_ok_def)
  have we: "unat (window_end w) = unat (wsector w) + wcount w"
    using ok by (simp add: window_end_def unat_word_ariths unat_of_nat)
  show "unat (cur - wsector w) = unat cur - unat (wsector w)" using c(2) by (rule unat_minus)
  show "unat (wsector w) \<le> unat cur" using c(2) by (simp add: word_le_nat_alt)
  have "cur \<le> e" "cur \<le> window_end w" using assms(3) c(3) by simp_all
  then have "unat (hit_sectors w cur e) = unat (if window_end w < e then window_end w else e) - unat cur"
    by (auto simp: hit_sectors_def unat_minus)
  moreover have "unat (if window_end w < e then window_end w else e) \<le> unat (window_end w)"
    "unat cur \<le> unat (if window_end w < e then window_end w else e)"
    using \<open>cur \<le> e\<close> \<open>cur \<le> window_end w\<close> by (auto simp: word_le_nat_alt not_less)
  ultimately show "unat cur + unat (hit_sectors w cur e) \<le> unat (wsector w) + wcount w" using we by simp
  show "unat (wsector w) + wcount w \<le> N" "length (wdata w) = 512 * wcount w" "w \<in> set (read_cache bn)" "wcount w \<noteq> 0"
    using ok w c by simp_all
qed

lemma read_loop_ok:
  assumes "sane so" "shape N bn" "e \<le> nb_sectors bn"
  shows "\<exists>r bn1. read_loop so cur e bn = Inr (r, bn1) \<and> looked N bn bn1 \<and> (\<forall>d. r = Some d \<longrightarrow> length d = 512 * (unat e - unat cur))"
  using assms
proof (induction so cur e bn rule: read_loop.induct)
  case (1 so cur e bn)
  have id: "looked N bn bn" using 1(4) by (simp add: looked_def frame_def)
  show ?case
  proof (cases "cur < e")
    case False
    then show ?thesis using id by (simp add: read_loop.simps [of so cur e bn] word_le_nat_alt not_less)
  next
    case True
    show ?thesis
    proof (cases "netblk_find_cache bn cur")
      case None
      obtain ok b where f: "fetch_window so cur e bn = Inr (ok, b)" "looked N bn b" using fetch_window_ok [OF 1(3,4) True 1(5)] by blast
      have ih: "\<exists>r bn1. read_loop so cur e b = Inr (r, bn1) \<and> looked N b bn1 \<and> (\<forall>d. r = Some d \<longrightarrow> length d = 512 * (unat e - unat cur))" if ok
        using 1(1) [of "(ok, b)" ok b] True None f that 1(3,5) by (simp add: looked_def frame_def)
      show ?thesis using f ih looked_trans [OF f(2)] True None by (cases ok) (fastforce simp: read_loop.simps [of so cur e bn])+
    next
      case (Some w)
      define n where "n = hit_sectors w cur e"
      have "window_has cur w" using Some by (auto simp: netblk_find_cache_def find_Some_iff)
      note hb = hit_sectors_bounds [OF this True, folded n_def]
      note hi = hit_inside [OF 1(4) Some True, folded n_def]
      let ?b = "bn\<lparr>cache_hits := cache_hits bn + n\<rparr>"
      have b: "shape N ?b" "looked N bn ?b" using 1(4) by (simp_all add: shape_reads looked_def frame_def)
      have l: "\<not> length (wdata w) < 512 * unat (cur - wsector w) + 512 * unat n" using hi by simp
      obtain r bn1 where ih: "read_loop so (cur + n) e ?b = Inr (r, bn1)" "looked N ?b bn1"
          "\<forall>d. r = Some d \<longrightarrow> length d = 512 * (unat e - unat (cur + n))"
        using 1(2) [OF _ Some n_def refl] True l 1(3,5) b by auto
      have "length (take (512 * unat n) (drop (512 * unat (cur - wsector w)) (wdata w))) = 512 * unat n" using hi by simp
      then show ?thesis using ih looked_trans [OF b(2)] l True Some hb
        by (auto simp: read_loop.simps [of so cur e bn] Let_def n_def [symmetric])
    qed
  qed
qed

lemma read_async_ok:
  assumes "sane so" "shape N bn"
  shows "\<exists>r bn1. netblk_read_async so s n bn = Inr (r, bn1) \<and> shape N bn1 \<and> frame bn bn1 \<and> (\<forall>d. r = Some d \<longrightarrow> length d = 512 * nat n)"
proof (cases "out_of_disk s n bn")
  case True
  then show ?thesis using assms(2) by (simp add: netblk_read_async_def frame_def)
next
  case False
  note R = range_ok [OF assms(2) False]
  obtain ok b where d: "(if netblk_write_overlaps s n bn then netblk_drain_writes so bn else (True, bn)) = (ok, b)" by force
  have b: "drained N bn b" using drain_writes_drained [OF assms(2), of so] drained_refl [OF assms(2)] d by (auto split: if_splits)
  have "unat (s + of_int n) \<le> N" "unat (nb_sectors b) = N" using R b by (auto simp: drained_def shape_def)
  then have "s + of_int n \<le> nb_sectors b" by (simp add: word_le_nat_alt)
  then obtain r bn1 where "read_loop so s (s + of_int n) b = Inr (r, bn1)" "looked N b bn1"
      "\<forall>d. r = Some d \<longrightarrow> length d = 512 * (unat (s + of_int n) - unat s)"
    using read_loop_ok [OF assms(1), of N b "s + of_int n" s] b by (auto simp: drained_def)
  then show ?thesis using d False b R by (cases ok) (auto simp: netblk_read_async_def drained_def looked_def frame_def)
qed

end
