(* ===== verification/NetLink.thy ===== *)
theory NetLink
  imports NetDisk
begin

text \<open>
  The network disk over a link: what the client of \<open>ide.c\<close> relies on is the interface \<open>disk_link\<close>,
  inside which its windows, buffers and tables are shown to be invisible; the link that joins it to the
  server of \<open>netblock_server.c\<close> provides the interface.  The properties compare sequences of operations
  on the device with a flat disk.
\<close>

section \<open>Specification vocabulary\<close>

text \<open>
  The contents of the disk as the device knows them: the write-back table, else the write buffer,
  else the server's disk.
\<close>

definition patched :: "(nat \<Rightarrow> u8 list option) \<Rightarrow> (nat \<Rightarrow> u8 list) \<Rightarrow> nat \<Rightarrow> u8 list" where
  "patched m D i = (case m i of Some d \<Rightarrow> d | None \<Rightarrow> D i)"

definition view :: "('n \<Rightarrow> nat \<Rightarrow> u8 list) \<Rightarrow> 'n BlockDeviceNet \<Rightarrow> nat \<Rightarrow> u8 list" where
  "view disk bn =
     patched (dirty_map (writeback bn)) (overlay (disk (fd bn)) (unat (write_sector bn)) (bn_write_sectors bn) (write_buffer bn))"

definition coherent :: "('n \<Rightarrow> nat \<Rightarrow> u8 list) \<Rightarrow> 'n BlockDeviceNet \<Rightarrow> bool" where
  "coherent disk bn \<longleftrightarrow> (\<forall>w \<in> set (read_cache bn). \<forall>j < wcount w. sector_at (wdata w) j = view disk bn (unat (wsector w) + j))"

definition clean :: "('n \<Rightarrow> nat \<Rightarrow> u8 list) \<Rightarrow> nat \<Rightarrow> nat \<Rightarrow> nat \<Rightarrow> 'n BlockDeviceNet \<Rightarrow> bool" where
  "clean disk N lo hi bn \<longleftrightarrow> (\<forall>i < N. prefetch_sectors bn \<noteq> 1 \<or> lo \<le> i \<and> i < hi \<longrightarrow> view disk bn i = disk (fd bn) i)"

text \<open>
  Sequences of operations on the device, with the results (the data of a read, \<open>None\<close> for the return
  value -1), and the same on a flat disk of \<open>N\<close> sectors.
\<close>

datatype disk_op = Get u64 int | Put u64 int "u8 list" | Sync

fun device_op :: "'n socket \<Rightarrow> disk_op \<Rightarrow> 'n BlockDeviceNet \<Rightarrow> (u8 list option \<times> 'n BlockDeviceNet) result" where
  "device_op so (Get s n) bn = netblk_read_async so s n bn"
| "device_op so (Put s n buf) bn = bind_result (netblk_write_async so s buf n bn) (\<lambda>(ok, bn). Inr (if ok then Some [] else None, bn))"
| "device_op so Sync bn = (case netblk_flush so bn of (ok, bn) \<Rightarrow> Inr (if ok then Some [] else None, bn))"

fun device_run :: "'n socket \<Rightarrow> disk_op list \<Rightarrow> 'n BlockDeviceNet \<Rightarrow> (u8 list option list \<times> 'n BlockDeviceNet) result" where
  "device_run so [] bn = Inr ([], bn)"
| "device_run so (x # xs) bn =
     bind_result (device_op so x bn) (\<lambda>(r, bn). bind_result (device_run so xs bn) (\<lambda>(rs, bn). Inr (r # rs, bn)))"

definition flat_out :: "nat \<Rightarrow> int \<Rightarrow> u64 \<Rightarrow> int \<Rightarrow> bool" where
  "flat_out N M s n \<longleftrightarrow> n < 0 \<or> M < n \<or> N < unat s + nat n"

fun flat_op :: "nat \<Rightarrow> int \<Rightarrow> disk_op \<Rightarrow> (nat \<Rightarrow> u8 list) \<Rightarrow> u8 list option \<times> (nat \<Rightarrow> u8 list)" where
  "flat_op N M (Get s n) D = (if flat_out N M s n then None else Some (concat (map D [unat s..<unat s + nat n])), D)"
| "flat_op N M (Put s n buf) D = (if flat_out N M s n then (None, D) else (Some [], overlay D (unat s) (nat n) buf))"
| "flat_op N M Sync D = (Some [], D)"

fun flat_run :: "nat \<Rightarrow> int \<Rightarrow> disk_op list \<Rightarrow> (nat \<Rightarrow> u8 list) \<Rightarrow> u8 list option list \<times> (nat \<Rightarrow> u8 list)" where
  "flat_run N M [] D = ([], D)"
| "flat_run N M (x # xs) D = (let (r, D1) = flat_op N M x D; (rs, D2) = flat_run N M xs D1 in (r # rs, D2))"

text \<open>The caller's buffer holds the sectors of a write.\<close>

fun op_ok :: "disk_op \<Rightarrow> bool" where
  "op_ok (Put s n buf) \<longleftrightarrow> 512 * nat n \<le> length buf"
| "op_ok _ \<longleftrightarrow> True"

text \<open>A well-formed, coherent and writable device on a good link.\<close>

definition linked :: "('n \<Rightarrow> nat \<Rightarrow> u8 list) \<Rightarrow> ('n \<Rightarrow> bool) \<Rightarrow> nat \<Rightarrow> int \<Rightarrow> 'n BlockDeviceNet \<Rightarrow> bool" where
  "linked disk good N M bn \<longleftrightarrow> good (fd bn) \<and> shape N bn \<and> coherent disk bn \<and> bn_max_sectors bn \<le> M \<and> \<not> bn_read_only bn \<and> writable bn"

text \<open>
  The link to the server of \<open>netblock_server.c\<close>: the bytes on their way in both directions; the server runs when the
  client waits for bytes, on a host whose calls succeed.
\<close>

record wire =
  wire_server :: ServerState
  wire_session :: session
  to_server :: "u8 list"
  to_client :: "u8 list"

definition link_host :: "u8 list \<Rightarrow> host" where
  "link_host rx = \<lparr>incoming = [rx], windows = [1000000], sent = [], transfers = [1000000], flush_results = [True, True],
     wall_times = [], malloc_ok = True\<rparr>"

definition wire_serve :: "wire \<Rightarrow> wire option" where
  "wire_serve w =
     (case recv_all (link_host (to_server w)) 32 of
        (None, h) \<Rightarrow> None
      | (Some raw, h) \<Rightarrow>
          (case handle_request (wire_server w) (wire_session w) h (decode_header raw) of
             Inr (Continue, st, s, h) \<Rightarrow> Some \<lparr>wire_server = st, wire_session = s, to_server = readable h, to_client = sent h\<rparr>
           | _ \<Rightarrow> None))"

definition wire_socket :: "wire socket" where
  "wire_socket = \<lparr>
     net_send = (\<lambda>w buf. Some (length buf, w\<lparr>to_server := to_server w @ buf\<rparr>)),
     net_recv = (\<lambda>w n. case (if to_client w = [] then wire_serve w else Some w) of
        None \<Rightarrow> None
      | Some w1 \<Rightarrow> if to_client w1 = [] then None else Some (take n (to_client w1), w1\<lparr>to_client := drop n (to_client w1)\<rparr>))\<rparr>"

definition wire_disk :: "wire \<Rightarrow> nat \<Rightarrow> u8 list" where
  "wire_disk w i = sector_at (image_file (wire_server w)) i"

definition wire_good :: "nat \<Rightarrow> int \<Rightarrow> wire \<Rightarrow> bool" where
  "wire_good N M w \<longleftrightarrow> server_wf (wire_server w) \<and> \<not> read_only (cfg (wire_server w)) \<and> N = length (image_file (wire_server w)) div 512 \<and>
     M = int (unat (max_sectors (cfg (wire_server w)))) \<and> to_server w = [] \<and> to_client w = []"

text \<open>The wire of a server that has just accepted the client.\<close>

definition new_wire :: "ServerState \<Rightarrow> wire" where
  "new_wire st = \<lparr>wire_server = st, wire_session = new_session, to_server = [], to_client = []\<rparr>"

text \<open>A device that has just been opened, over two sectors, with the default settings.\<close>

abbreviation (input) "no_window \<equiv> \<lparr>wdata = [], wsector = 0, wcount = 0\<rparr>"

section \<open>The device over a link\<close>

text \<open>What the device relies on from the link: requests on a good link succeed and act on \<open>N\<close> sectors.\<close>

locale disk_link =
  fixes so :: "'n socket" and disk :: "'n \<Rightarrow> nat \<Rightarrow> u8 list" and good :: "'n \<Rightarrow> bool" and N :: nat and M :: int
  assumes read_law: "good f \<Longrightarrow> 0 < n \<Longrightarrow> int n \<le> M \<Longrightarrow> unat s + n \<le> N \<Longrightarrow>
      \<exists>h f1. netblk_request so f 0 2 s (of_nat n) [] (n * 512) = (Some (h, concat (map (disk f) [unat s..<unat s + n])), f1) \<and>
        good f1 \<and> (\<forall>i < N. disk f1 i = disk f i)"
    and write_law: "good f \<Longrightarrow> 0 < n \<Longrightarrow> n \<le> 1024 \<Longrightarrow> unat s + n \<le> N \<Longrightarrow> length d = 512 * n \<Longrightarrow>
      \<exists>r f1. netblk_request so f 0 3 s (of_nat n) d 0 = (Some r, f1) \<and> good f1 \<and> (\<forall>i < N. disk f1 i = overlay (disk f) (unat s) n d i)"
    and flush_law: "good f \<Longrightarrow>
      \<exists>r f1. netblk_request so f 0 4 0 0 [] 0 = (Some r, f1) \<and> good f1 \<and> (\<forall>i < N. disk f1 i = disk f i)"
    and sector_law: "good f \<Longrightarrow> i < N \<Longrightarrow> length (disk f i) = 512"
    and sane_law: "sane so"

lemma overlay_run:
  assumes "run_of s es ds es1" "\<forall>d \<in> set ds. length d = 512" "i < 2 ^ 55"
  shows "patched (dirty_map es1) (overlay D s (length ds) (concat ds)) i = patched (dirty_map es) D i"
proof (cases "s \<le> i \<and> i < s + length ds")
  case True
  then have "dirty_map es i = Some (ds ! (i - s))" "dirty_map es1 i = None" using assms(1,3) by (auto simp: run_of_def)
  moreover have "sector_at (concat ds) (i - s) = ds ! (i - s)" using True assms(2) by (intro sector_at_concat) auto
  ultimately show ?thesis using True by (simp add: overlay_def patched_def)
next
  case False
  then have "dirty_map es1 i = dirty_map es i" using assms(1,3) by (auto simp: run_of_def)
  then show ?thesis using False by (cases "dirty_map es i") (auto simp: overlay_def patched_def)
qed

context disk_link
begin

lemma net_write_disk:
  assumes "good (fd bn)" "0 < n" "n \<le> 1024" "unat s + n \<le> N" "length d = 512 * n"
  obtains f where "net_write so s n d bn = (True, bn\<lparr>fd := f\<rparr>)" "good f" "\<And>i. i < N \<Longrightarrow> disk f i = overlay (disk (fd bn)) (unat s) n d i"
  using write_law [OF assms] that by (auto simp: net_write_def)

lemma flush_writes_disk:
  assumes "good (fd bn)" "shape N bn"
  obtains f where "netblk_flush_writes so bn = (True, bn\<lparr>fd := f, bn_write_sectors := 0, write_buffer := []\<rparr>)" "good f"
    "\<And>i. i < N \<Longrightarrow> disk f i = overlay (disk (fd bn)) (unat (write_sector bn)) (bn_write_sectors bn) (write_buffer bn) i"
proof (cases "bn_write_sectors bn = 0")
  case True
  then have "write_buffer bn = []" using assms(2) by (simp add: shape_def buffer_ok_def)
  then have "bn = bn\<lparr>fd := fd bn, bn_write_sectors := 0, write_buffer := []\<rparr>" using True by simp
  then have "netblk_flush_writes so bn = (True, bn\<lparr>fd := fd bn, bn_write_sectors := 0, write_buffer := []\<rparr>)"
    using True by (simp only: netblk_flush_writes_def if_True simp_thms)
  then show ?thesis by (rule that) (use assms(1) True in simp_all)
next
  case False
  then have b: "0 < bn_write_sectors bn" "bn_write_sectors bn \<le> 1024" "unat (write_sector bn) + bn_write_sectors bn \<le> N"
      "length (write_buffer bn) = 512 * bn_write_sectors bn" using assms(2) by (auto simp: shape_def buffer_ok_def)
  show ?thesis by (rule net_write_disk [OF assms(1) b], rule that) (use False in \<open>simp_all add: netblk_flush_writes_def\<close>)
qed

lemma drain_loop_disk:
  assumes "good (fd bn)" "shape N bn"
  shows "\<exists>b. drain_loop so bn = (True, b) \<and> good (fd b) \<and> bn_write_sectors b = bn_write_sectors bn \<and>
     (\<forall>i < N. disk (fd b) i = patched (dirty_map (writeback bn)) (disk (fd bn)) i)"
proof -
  have "so' = so \<Longrightarrow> good (fd bn) \<Longrightarrow> shape N bn \<Longrightarrow> ?thesis" for so'
  proof (induction so' bn rule: drain_loop.induct)
    case (1 so' bn)
    have t: "table_ok N (writeback bn)" "N < 2 ^ 55" using 1(4) by (simp_all add: shape_def)
    show ?case
    proof (cases "best_dirty (writeback bn)")
      case None
      then show ?thesis using best_dirty_ok [OF t] 1(3) by (simp add: drain_loop.simps [of so bn] patched_def)
    next
      case (Some s)
      obtain ds es where g: "gather_run 1024 s (writeback bn) = (ds, es)" by force
      have s: "unat s \<le> N" "\<exists>e \<in> set (writeback bn). is_dirty s e" using best_dirty_ok [OF t] Some by simp_all
      note ok = gather_run_ok [OF t s(1) g]
      have "gather_run (Suc 1023) s (writeback bn) = (ds, es)" using g by simp
      then have ds: "ds \<noteq> []" using s(2) by (rule gather_run_first)
      let ?b = "bn\<lparr>writeback := es\<rparr>"
      have len: "length (concat ds) = 512 * length ds" using ok by (intro length_concat_sectors) blast
      have pre: "good (fd ?b)" "0 < length ds" "length ds \<le> 1024" "unat s + length ds \<le> N" using 1(3) ds ok by auto
      obtain f where w: "net_write so s (length ds) (concat ds) ?b = (True, ?b\<lparr>fd := f\<rparr>)" "good f"
          "\<And>i. i < N \<Longrightarrow> disk f i = overlay (disk (fd ?b)) (unat s) (length ds) (concat ds) i"
        by (rule net_write_disk [OF pre len], rule that)
      let ?c = "?b\<lparr>fd := f, writeback_flushes := writeback_flushes bn + 1\<rparr>"
      have sh: "shape N ?c" using 1(4) ok by (auto simp: shape_def)
      have w': "(True, ?b\<lparr>fd := f\<rparr>) = net_write so' s (length ds) (concat ds) ?b" using w(1) 1(2) by simp
      have ih: "\<exists>b. drain_loop so ?c = (True, b) \<and> good (fd b) \<and> bn_write_sectors b = bn_write_sectors ?c \<and>
          (\<forall>i < N. disk (fd b) i = patched (dirty_map (writeback ?c)) (disk (fd ?c)) i)"
        using 1(1) [OF Some g [symmetric] ds w'] 1(2) w(2) sh by simp
      have r: "run_of (unat s) (writeback bn) ds es" "\<forall>d \<in> set ds. length d = 512" using ok by blast+
      have eq: "patched (dirty_map es) (disk f) i = patched (dirty_map (writeback bn)) (disk (fd bn)) i"
        if "i < N" for i
        using overlay_run [OF r, of i "disk (fd bn)"] that t(2) w(3) [OF that] by (simp add: patched_def split: option.splits)
      show ?thesis using ih Some g ds w(1) by (auto simp: drain_loop.simps [of so bn] eq)
    qed
  qed
  then show ?thesis using assms by blast
qed

lemma drain_writes_disk:
  assumes "good (fd bn)" "shape N bn"
  shows "\<exists>b. netblk_drain_writes so bn = (True, b) \<and> good (fd b) \<and> bn_write_sectors b = 0 \<and> writeback b = [] \<and>
    (\<forall>i < N. disk (fd b) i = view disk bn i)"
proof -
  obtain f where f: "netblk_flush_writes so bn = (True, bn\<lparr>fd := f, bn_write_sectors := 0, write_buffer := []\<rparr>)" "good f"
      "\<And>i. i < N \<Longrightarrow> disk f i = overlay (disk (fd bn)) (unat (write_sector bn)) (bn_write_sectors bn) (write_buffer bn) i"
    by (rule flush_writes_disk [OF assms]) blast
  let ?b = "bn\<lparr>fd := f, bn_write_sectors := 0, write_buffer := []\<rparr>"
  have sh: "shape N ?b" using drained_shape [OF flush_writes_drained [OF assms(2), of so]] f(1) by simp
  have gb: "good (fd ?b)" using f(2) by simp
  obtain b where b: "drain_loop so ?b = (True, b)" "good (fd b)" "bn_write_sectors b = 0"
      "\<forall>i < N. disk (fd b) i = patched (dirty_map (writeback bn)) (disk f) i"
    using drain_loop_disk [OF gb sh] by auto
  have a: "\<not> writeback_alloc bn \<longrightarrow> writeback bn = []" using assms(2) by (simp add: shape_def)
  show ?thesis
  proof (cases "writeback bn = []")
    case True
    then show ?thesis using f by (auto simp: netblk_drain_writes_def view_def patched_def)
  next
    case False
    then show ?thesis using f b a by (auto simp: netblk_drain_writes_def view_def patched_def split: option.splits)
  qed
qed

end

lemma put_entry_map:
  assumes "shape N bn" "has_room s bn" "unat s < N" "k < 2 ^ 55"
  shows "dirty_map (writeback (put_entry s d bn)) k = (if k = unat s then Some d else dirty_map (writeback bn) k)"
proof -
  have u: "uniq (writeback bn)" "unat s < 2 ^ 55" using assms(1,3) by (auto simp: shape_def table_ok_def)
  show ?thesis
  proof (cases "netblk_writeback_find (writeback bn) s")
    case None
    then show ?thesis using table_store_new(2) [OF u(1) _ u(2) assms(4), of d] by (simp add: put_entry_def netblk_writeback_find_def)
  next
    case (Some i)
    then show ?thesis using table_store_old(2) [OF u(1) _ u(2) assms(4), of i d] by (simp add: put_entry_def netblk_writeback_find_def)
  qed
qed

lemma put_entry_other [simp]:
  "fd (put_entry s d bn) = fd bn" "bn_write_sectors (put_entry s d bn) = bn_write_sectors bn"
  "write_sector (put_entry s d bn) = write_sector bn" "write_buffer (put_entry s d bn) = write_buffer bn"
  "writeback_alloc (put_entry s d bn) = writeback_alloc bn"
  by (simp_all add: put_entry_def split: option.splits)

lemma put_entry_view:
  assumes "shape N bn" "has_room s bn" "unat s < N" "i < N"
  shows "view disk (put_entry s d bn) i = (if i = unat s then d else view disk bn i)"
proof -
  have "i < 2 ^ 55" using assms(1,4) by (simp add: shape_def)
  then show ?thesis using put_entry_map [OF assms(1-3)] by (simp add: view_def patched_def)
qed

lemma overlay_sectors: "512 * n \<le> length buf \<Longrightarrow> overlay D s n (concat (sectors_of n buf)) i = overlay D s n buf i"
proof -
  assume b: "512 * n \<le> length buf"
  note k = sectors_of_ok [OF b]
  have "sector_at (concat (sectors_of n buf)) j = sector_at buf j" if "j < n" for j
  proof -
    have "sector_at (concat (sectors_of n buf)) j = sectors_of n buf ! j" using k that by (intro sector_at_concat) auto
    also have "\<dots> = sector_at buf j" using that by (simp add: sectors_of_def sector_at_def)
    finally show ?thesis .
  qed
  then show ?thesis unfolding overlay_def by auto
qed

lemma clean_view: "bn_write_sectors b = 0 \<Longrightarrow> writeback b = [] \<Longrightarrow> view disk b i = disk (fd b) i"
  by (simp add: view_def patched_def)

context disk_link
begin

lemma store_loop_disk:
  assumes "good (fd bn)" "shape N bn" "writeback_alloc bn" "\<forall>d \<in> set ds. length d = 512" "unat s + length ds \<le> N"
  shows "\<exists>b. store_loop so s ds bn = Inr (Some (), b) \<and> good (fd b) \<and>
    (\<forall>i < N. view disk b i = overlay (view disk bn) (unat s) (length ds) (concat ds) i)"
  using assms
proof (induction ds arbitrary: s bn)
  case Nil
  then show ?case by simp
next
  case (Cons d ds)
  have s: "unat (s + 1) = Suc (unat s)" "unat s < N" using unat_Suc_sector [of s N] Cons.prems(2,5) by (simp_all add: shape_def)
  have step: "\<exists>b1. store_loop so (s + 1) ds (put_entry s d b) = Inr (Some (), b1) \<and> good (fd b1) \<and>
      (\<forall>i < N. view disk b1 i = overlay (view disk bn) (unat s) (length (d # ds)) (concat (d # ds)) i)"
    if b: "shape N b" "writeback_alloc b" "good (fd b)" "has_room s b" "\<forall>i < N. view disk b i = view disk bn i" for b
  proof -
    let ?p = "put_entry s d b"
    have "shape N ?p" using put_entry_drained [OF b(1,4,2) s(2)] Cons.prems(4) by (simp add: drained_def)
    then obtain b1 where b1: "store_loop so (s + 1) ds ?p = Inr (Some (), b1)" "good (fd b1)"
        "\<forall>i < N. view disk b1 i = overlay (view disk ?p) (Suc (unat s)) (length ds) (concat ds) i"
      using Cons.IH [of ?p "s + 1"] b s Cons.prems by auto
    have "view disk b1 i = overlay (view disk bn) (unat s) (length (d # ds)) (concat (d # ds)) i" if "i < N" for i
    proof -
      have "view disk b1 i = overlay (\<lambda>i. if i = unat s then d else view disk bn i) (Suc (unat s)) (length ds) (concat ds) i"
        using b1(3) that put_entry_view [OF b(1,4) s(2) that, of disk d] b(5) by (auto simp: overlay_def)
      then show ?thesis using overlay_Cons [of d] Cons.prems(4) by simp
    qed
    then show ?thesis using b1 by blast
  qed
  obtain b where d: "netblk_drain_writes so bn = (True, b)" "good (fd b)" "bn_write_sectors b = 0" "writeback b = []"
      "\<forall>i < N. disk (fd b) i = view disk bn i" using drain_writes_disk [OF Cons.prems(1,2)] by blast
  have "drained N bn b" using drain_writes_drained [OF Cons.prems(2), of so] d(1) by simp
  then have b: "shape N b" "writeback_alloc b" using Cons.prems(3) by (simp_all add: drained_def)
  have "has_room s b" "\<forall>i < N. view disk b i = view disk bn i" using d by (simp_all add: has_room_def clean_view)
  then show ?case unfolding store_loop_Cons [OF Cons.prems(2)]
    using step [OF Cons.prems(2,3,1)] step [OF b d(2)] d(1) by auto
qed

lemma append_buffer_view:
  assumes "shape N bn" "fits_buffer s n bn" "n = 0 \<or> \<not> (writeback_enabled bn \<and> pcmalloc_ok bn)" "0 \<le> n" "512 * nat n \<le> length buf"
  shows "view disk (append_buffer s buf n bn) i = overlay (view disk bn) (unat s) (nat n) buf i"
proof -
  let ?k = "bn_write_sectors bn" and ?s = "unat (write_sector bn)"
  have b: "length (write_buffer bn) = 512 * ?k" using assms(1) by (simp add: shape_def buffer_ok_def)
  have tab: "n \<noteq> 0 \<Longrightarrow> writeback bn = []" using assms(1,3) by (auto simp: shape_def)
  have s: "unat s = ?s + ?k" if "?k \<noteq> 0"
  proof -
    have b: "?s + ?k \<le> N" "N < 2 ^ 55" "?k \<le> 1024" using assms(1) that by (auto simp: shape_def buffer_ok_def)
    have "unat (write_sector bn + of_nat ?k) = ?s + ?k" using b by (simp add: unat_word_ariths unat_of_nat)
    then show ?thesis using assms(2) that by (auto simp: fits_buffer_def)
  qed
  have lo: "sector_at (write_buffer bn @ take (512 * nat n) buf) j = sector_at (write_buffer bn) j" if "j < ?k" for j
    using that b by (simp add: sector_at_def)
  have hi: "sector_at (write_buffer bn @ take (512 * nat n) buf) (?k + j) = sector_at buf j" if "j < nat n" for j
    using that b assms(5) by (simp add: sector_at_def take_drop min_def)
  show ?thesis
  proof (cases "n = 0")
    case True
    then show ?thesis by (simp add: view_def append_buffer_def Let_def)
  next
    case False
    have v: "view disk bn = overlay (disk (fd bn)) ?s ?k (write_buffer bn)" using tab [OF False] by (auto simp: view_def patched_def)
    have w: "view disk (append_buffer s buf n bn) =
        overlay (disk (fd bn)) (if ?k = 0 then unat s else ?s) (?k + nat n) (write_buffer bn @ take (512 * nat n) buf)"
      using tab [OF False] by (auto simp: view_def patched_def append_buffer_def Let_def)
    show ?thesis
    proof (cases "?k = 0")
      case True
      then show ?thesis using hi [of "i - unat s"] by (auto simp: v w overlay_def)
    next
      case k: False
      consider "i < ?s" | "?s \<le> i" "i < ?s + ?k" | "?s + ?k \<le> i" "i < ?s + ?k + nat n" | "?s + ?k + nat n \<le> i" by linarith
      then show ?thesis
      proof cases
        case 2
        then show ?thesis using lo [of "i - ?s"] k s by (simp add: v w overlay_def)
      next
        case 3
        then have "i - ?s = ?k + (i - (?s + ?k))" "i - (?s + ?k) < nat n" by simp_all
        then show ?thesis using hi [of "i - (?s + ?k)"] k s 3 by (simp add: v w overlay_def)
      qed (use k s in \<open>simp_all add: v w overlay_def\<close>)
    qed
  qed
qed

lemma flush_writes_view:
  assumes "good (fd bn)" "shape N bn"
  shows "\<exists>b. netblk_flush_writes so bn = (True, b) \<and> good (fd b) \<and> bn_write_sectors b = 0 \<and> (\<forall>i < N. view disk b i = view disk bn i)"
  by (rule flush_writes_disk [OF assms]) (auto simp: view_def patched_def split: option.splits)

lemma buffered_write_disk:
  assumes "good (fd bn)" "shape N bn" "n = 0 \<or> \<not> (writeback_enabled bn \<and> pcmalloc_ok bn)" "0 \<le> n" "n \<le> 1024" "unat s + nat n \<le> N" "512 * nat n \<le> length buf"
  shows "\<exists>b. buffered_write so s buf n bn = (True, b) \<and> good (fd b) \<and> (\<forall>i < N. view disk b i = overlay (view disk bn) (unat s) (nat n) buf i)"
proof -
  have app: "\<exists>b1. (let bn = append_buffer s buf n b in if 1024 \<le> bn_write_sectors bn then netblk_flush_writes so bn else (True, bn)) = (True, b1) \<and>
      good (fd b1) \<and> (\<forall>i < N. view disk b1 i = overlay (view disk bn) (unat s) (nat n) buf i)"
    if b: "rewritten N bn b" "good (fd b)" "fits_buffer s n b" "\<forall>i < N. view disk b i = view disk bn i" for b
  proof -
    let ?a = "append_buffer s buf n b"
    have sh: "shape N b" "n = 0 \<or> \<not> (writeback_enabled b \<and> pcmalloc_ok b)" using b(1) assms(3) by (auto simp: rewritten_def frame_def)
    have a: "shape N ?a" using append_buffer_shape [OF sh(1) b(3) sh(2) assms(4-7)] by (simp add: rewritten_def)
    have v: "view disk ?a i = overlay (view disk bn) (unat s) (nat n) buf i" if "i < N" for i
      using append_buffer_view [OF sh(1) b(3) sh(2) assms(4,7), of i] b(4) that by (simp add: overlay_def)
    have g: "good (fd ?a)" using b(2) by (simp add: append_buffer_def Let_def)
    show ?thesis using flush_writes_view [OF g a] v g by (auto simp: Let_def)
  qed
  obtain b where b: "netblk_flush_writes so bn = (True, b)" "good (fd b)" "bn_write_sectors b = 0" "\<forall>i < N. view disk b i = view disk bn i"
    using flush_writes_view [OF assms(1,2)] by blast
  have "rewritten N bn b" using drained_rewritten [OF flush_writes_drained [OF assms(2), of so]] b by simp
  then show ?thesis using app [of bn] app [of b] b assms(1) drained_rewritten [OF drained_refl [OF assms(2)]]
    by (auto simp: buffered_write_def Let_def fits_buffer_def)
qed

end

lemma concat_slice:
  assumes "\<forall>i. a \<le> i \<and> i < a + n \<longrightarrow> sector_at d (i - b) = D i" "b \<le> a" "512 * (a - b + n) \<le> length d"
  shows "take (512 * n) (drop (512 * (a - b)) d) = concat (map D [a..<a + n])"
  using assms
proof (induction n arbitrary: a)
  case (Suc n)
  have "Suc a - b = Suc (a - b)" using Suc.prems(2) by simp
  then have "take (512 * n) (drop (512 * (Suc a - b)) d) = concat (map D [Suc a..<Suc a + n])" using Suc.prems by (intro Suc.IH) auto
  moreover have "sector_at d (a - b) = D a" using Suc.prems(1) by auto
  moreover have "take (512 * Suc n) (drop (512 * (a - b)) d) = sector_at d (a - b) @ take (512 * n) (drop (512 * (Suc a - b)) d)"
    using \<open>Suc a - b = Suc (a - b)\<close> take_add [of 512 "512 * n" "drop (512 * (a - b)) d"] by (simp add: sector_at_def add.commute)
  moreover have "[a..<a + Suc n] = a # [Suc a..<Suc a + n]" by (simp add: upt_conv_Cons)
  ultimately show ?case by simp
qed simp

text \<open>What an overlap test that fails says: the device and the server agree on the range.\<close>

lemma no_overlap_view:
  assumes "shape N bn" "\<not> netblk_write_overlaps s n bn" "unat (s + of_int n) = unat s + nat n" "0 \<le> n" "unat s \<le> i" "i < unat s + nat n" "i < N"
  shows "view disk bn i = disk (fd bn) i"
proof -
  let ?k = "bn_write_sectors bn" and ?s = "unat (write_sector bn)"
  have N: "i < 2 ^ 55" "\<not> writeback_alloc bn \<longrightarrow> writeback bn = []" "writeback_alloc bn \<longrightarrow> writeback_enabled bn" using assms(1,7) by (auto simp: shape_def)
  have n: "0 < n" using assms(4-6) by linarith
  have o: "?k \<noteq> 0 \<Longrightarrow> \<not> (s < write_sector bn + of_nat ?k \<and> write_sector bn < s + of_int n)"
    "writeback_alloc bn \<Longrightarrow> \<forall>e \<in> set (writeback bn). \<not> (ddirty e \<and> s \<le> dsector e \<and> dsector e < s + of_int n)"
    using assms(2) n N by (auto simp: netblk_write_overlaps_def Let_def list_ex_iff)
  have "dirty_map (writeback bn) i = None"
  proof (cases "writeback_alloc bn")
    case True
    have "\<not> is_dirty (of_nat i) e" if "e \<in> set (writeback bn)" for e
    proof
      assume "is_dirty (of_nat i) e"
      then have d: "ddirty e" "dsector e = of_nat i" by (simp_all add: is_dirty_def)
      then have "unat (dsector e) = i" using N by simp
      then show False using o(2) [OF True] that d(1) assms(3,5,6) by (auto simp: word_le_nat_alt word_less_nat_alt)
    qed
    then show ?thesis by (simp add: dirty_map_None)
  qed (use N in simp)
  moreover have "\<not> (?s \<le> i \<and> i < ?s + ?k)"
  proof
    assume a: "?s \<le> i \<and> i < ?s + ?k"
    then have k: "?k \<noteq> 0" by auto
    then have b: "?s + ?k \<le> N" "N < 2 ^ 55" "?k \<le> 1024" using assms(1) by (auto simp: shape_def buffer_ok_def)
    have "unat (write_sector bn + of_nat ?k) = ?s + ?k" using b by (simp add: unat_word_ariths unat_of_nat)
    then show False using o(1) [OF k] a assms(3,5,6) by (simp add: word_less_nat_alt)
  qed
  ultimately show ?thesis by (auto simp: view_def patched_def overlay_def)
qed

lemma invalidate_other [simp]:
  "fd (netblk_invalidate s n bn) = fd bn" "view disk (netblk_invalidate s n bn) = view disk bn"
  by (simp_all add: netblk_invalidate_def view_def Let_def)

text \<open>After an invalidation the windows agree with every disk that differs only in the range.\<close>

lemma invalidate_coherent:
  assumes "shape N bn" "coherent disk bn" "unat (s + of_int n) = unat s + nat n" "w \<in> set (read_cache (netblk_invalidate s n bn))" "j < wcount w"
  shows "sector_at (wdata w) j = view disk bn (unat (wsector w) + j) \<and>
    \<not> (unat s \<le> unat (wsector w) + j \<and> unat (wsector w) + j < unat s + nat n) \<and> unat (wsector w) + j < N"
proof -
  have c: "cache_ok N (read_cache bn)" "N < 2 ^ 55" using assms(1) by (simp_all add: shape_def)
  have w: "w \<in> set (read_cache bn)" "n \<le> 0 \<or> \<not> (s < window_end w \<and> wsector w < s + of_int n)"
    using assms(4,5) by (auto simp: netblk_invalidate_def Let_def split: if_splits)
  have k: "unat (wsector w) + wcount w \<le> N" using c w(1) assms(5) by (auto simp: cache_ok_def)
  then have we: "unat (window_end w) = unat (wsector w) + wcount w" using c(2) by (simp add: window_end_def unat_word_ariths unat_of_nat)
  have "\<not> (unat s \<le> unat (wsector w) + j \<and> unat (wsector w) + j < unat s + nat n)"
  proof
    assume a: "unat s \<le> unat (wsector w) + j \<and> unat (wsector w) + j < unat s + nat n"
    then have "s < window_end w" "wsector w < s + of_int n" using we assms(3,5) by (simp_all add: word_less_nat_alt)
    moreover have "\<not> n \<le> 0" using a by auto
    ultimately show False using w(2) by blast
  qed
  moreover have "sector_at (wdata w) j = view disk bn (unat (wsector w) + j)" using assms(2,5) w(1) by (simp add: coherent_def)
  ultimately show ?thesis using k assms(5) by simp
qed

context disk_link
begin

lemma store_write_disk:
  assumes "good (fd bn)" "shape N bn" "unat s + nat n \<le> N" "512 * nat n \<le> length buf" "writeback_enabled bn" "0 < n" "pcmalloc_ok bn"
  shows "\<exists>b. netblk_store_write so s buf n bn = Inr (1, b) \<and> good (fd b) \<and> (\<forall>i < N. view disk b i = overlay (view disk bn) (unat s) (nat n) buf i)"
proof -
  let ?b = "bn\<lparr>writeback_alloc := True\<rparr>" and ?ds = "sectors_of (nat n) buf"
  note k = sectors_of_ok [OF assms(4)]
  have b: "shape N ?b" "good (fd ?b)" "writeback_alloc ?b" using assms by (auto simp: shape_def)
  have v: "view disk ?b = view disk bn" by (simp add: view_def)
  obtain b1 where b1: "store_loop so s ?ds ?b = Inr (Some (), b1)" "good (fd b1)"
      "\<forall>i < N. view disk b1 i = overlay (view disk ?b) (unat s) (length ?ds) (concat ?ds) i"
    using store_loop_disk [OF b(2,1,3), of ?ds s] k assms(3) by auto
  have "netblk_alloc_writes bn = (True, ?b)" using assms by (simp add: netblk_alloc_writes_def)
  then have "netblk_store_write so s buf n bn = Inr (1, b1)" using assms b1(1) by (simp add: netblk_store_write_def)
  moreover have "\<forall>i < N. view disk b1 i = overlay (view disk bn) (unat s) (nat n) buf i"
    using b1(3) k overlay_sectors [OF assms(4)] unfolding v by simp
  ultimately show ?thesis using b1(2) by blast
qed

lemma write_async_view:
  assumes "good (fd bn)" "shape N bn" "\<not> bn_read_only bn" "writable bn" "\<not> out_of_disk s n bn" "512 * nat n \<le> length buf"
  shows "\<exists>b. netblk_write_async so s buf n bn = Inr (True, b) \<and> good (fd b) \<and> rewritten N (netblk_invalidate s n bn) b \<and>
    (\<forall>i < N. view disk b i = overlay (view disk bn) (unat s) (nat n) buf i)"
proof -
  note R = range_ok [OF assms(2,5)]
  let ?v = "netblk_invalidate s n bn"
  have v: "shape N ?v" "frame bn ?v" using invalidate_shape [OF assms(2)] by simp_all
  show ?thesis
  proof (cases "writeback_enabled bn \<and> 0 < n \<and> pcmalloc_ok bn")
    case True
    then have t: "writeback_enabled ?v" "0 < n" "pcmalloc_ok ?v" using v by (simp_all add: frame_def)
    have g: "good (fd ?v)" using assms(1) by simp
    obtain b where b: "netblk_store_write so s buf n ?v = Inr (1, b)" "good (fd b)"
        "\<forall>i < N. view disk b i = overlay (view disk bn) (unat s) (nat n) buf i"
      using store_write_disk [OF g v(1) R(4) assms(6) t] by auto
    have "rewritten N ?v b" using store_write_ok [OF v(1) R(4) assms(6), of so] b(1) by auto
    then show ?thesis using write_async_eq [OF assms(2,5,3,4), of so buf] b by simp
  next
    case False
    have f: "n = 0 \<or> \<not> (writeback_enabled ?v \<and> pcmalloc_ok ?v)" using False v R(1) by (auto simp: frame_def)
    have g: "good (fd ?v)" using assms(1) by simp
    have s: "netblk_store_write so s buf n ?v = Inr (0, ?v)"
    proof -
      have "\<not> pcmalloc_ok ?v \<Longrightarrow> \<not> writeback_alloc ?v" using v(1) by (auto simp: shape_def)
      then show ?thesis using f by (auto simp: netblk_store_write_def netblk_alloc_writes_def)
    qed
    obtain b where b: "buffered_write so s buf n ?v = (True, b)" "good (fd b)"
        "\<forall>i < N. view disk b i = overlay (view disk bn) (unat s) (nat n) buf i"
      using buffered_write_disk [OF g v(1) f R(1,3,4) assms(6)] by auto
    have "rewritten N ?v b" using buffered_write_shape [OF v(1) f R(1,3,4) assms(6), of so] b(1) by simp
    then show ?thesis using write_async_eq [OF assms(2,5,3,4), of so buf] b s by simp
  qed
qed

lemma write_async_disk:
  assumes "good (fd bn)" "shape N bn" "coherent disk bn" "\<not> bn_read_only bn" "writable bn" "\<not> out_of_disk s n bn" "512 * nat n \<le> length buf"
  shows "\<exists>b. netblk_write_async so s buf n bn = Inr (True, b) \<and> good (fd b) \<and> coherent disk b \<and>
    (\<forall>i < N. view disk b i = overlay (view disk bn) (unat s) (nat n) buf i)"
proof -
  note R = range_ok [OF assms(2,6)]
  let ?v = "netblk_invalidate s n bn"
  obtain b where b: "netblk_write_async so s buf n bn = Inr (True, b)" "good (fd b)" "rewritten N ?v b"
      "\<forall>i < N. view disk b i = overlay (view disk bn) (unat s) (nat n) buf i"
    using write_async_view [OF assms(1,2,4-7)] by blast
  have "coherent disk b" unfolding coherent_def
  proof (intro ballI allI impI)
    fix w j assume w: "w \<in> set (read_cache b)" "j < wcount w"
    then have "w \<in> set (read_cache ?v)" using b(3) by (simp add: rewritten_def)
    note c = invalidate_coherent [OF assms(2,3) R(5) this w(2)]
    then have "overlay (view disk bn) (unat s) (nat n) buf (unat (wsector w) + j) = view disk bn (unat (wsector w) + j)" by (auto simp: overlay_def)
    then show "sector_at (wdata w) j = view disk b (unat (wsector w) + j)" using c b(4) by simp
  qed
  then show ?thesis using b by blast
qed

end

lemma looked_view:
  assumes "looked N bn b" "\<forall>i < N. disk (fd b) i = disk (fd bn) i" "i < N"
  shows "view disk b i = view disk bn i"
  using assms by (auto simp: looked_def view_def patched_def overlay_def split: option.splits)

lemma looked_clean:
  assumes "looked N bn b" "\<forall>i < N. disk (fd b) i = disk (fd bn) i" "clean disk N lo hi bn"
  shows "clean disk N lo hi b"
  using assms looked_view [OF assms(1,2)] by (simp add: clean_def looked_def frame_def)

context disk_link
begin

lemma fetch_window_disk:
  assumes "good (fd bn)" "shape N bn" "coherent disk bn" "bn_max_sectors bn \<le> M" "cur < e" "e \<le> nb_sectors bn" "clean disk N (unat cur) (unat e) bn"
  shows "\<exists>b. fetch_window so cur e bn = Inr (True, b) \<and> good (fd b) \<and> coherent disk b \<and> looked N bn b \<and> (\<forall>i < N. disk (fd b) i = disk (fd bn) i)"
proof -
  obtain start n where r: "fetch_range bn cur e = (start, n)" by force
  have s: "settings_ok bn" "cache_ok N (read_cache bn)" "read_cache_next bn < 16" "unat (nb_sectors bn) = N" "length (read_cache bn) = 16"
    using assms(2) by (simp_all add: shape_def cache_ok_def)
  note F = fetch_range_ok [OF s(1) assms(5,6) r]
  have F2: "1 \<le> n" "n \<le> 128" "unat start + nat n \<le> N" "0 < nat n" "int (nat n) \<le> M" using F s(4) assms(4) by linarith+
  have F3: "prefetch_sectors bn = 1 \<Longrightarrow> start = cur \<and> unat cur + nat n \<le> unat e"
  proof -
    assume "prefetch_sectors bn = 1"
    then have "start = cur" "int (unat cur) + n \<le> int (unat e)" using F by blast+
    moreover from this(2) have "unat cur + nat n \<le> unat e" using F2(1) by linarith
    ultimately show ?thesis by simp
  qed
  let ?d = "concat (map (disk (fd bn)) [unat start..<unat start + nat n])" and ?slot = "read_cache_next bn"
  obtain h f where q: "netblk_request so (fd bn) 0 2 start (of_nat (nat n)) [] (nat n * 512) = (Some (h, ?d), f)"
      "good f" "\<forall>i < N. disk f i = disk (fd bn) i" using read_law [OF assms(1) F2(4,5,3)] by blast
  have q1: "netblk_request so (fd bn) 0 2 start (of_int n) [] (nat n * 512) = (Some (h, ?d), f)"
  proof -
    have "(of_int n :: u32) = of_nat (nat n)" using F2(1) by (metis int_nat_eq of_int_of_nat_eq order_trans zero_le_one)
    then show ?thesis using q(1) by simp
  qed
  let ?b = "bn\<lparr>fd := f, cache_misses := cache_misses bn + of_int n,
        read_cache := (read_cache bn)[?slot := \<lparr>wdata = ?d, wsector = start, wcount = nat n\<rparr>], read_cache_next := (?slot + 1) mod 16\<rparr>"
  have e: "fetch_window so cur e bn = Inr (True, ?b)" using q1 F2(1,2) s by (simp add: fetch_window_def r Let_def)
  then have l: "looked N bn ?b" using fetch_window_ok [OF sane_law assms(2,5,6)] by auto
  have dk: "\<forall>i < N. disk (fd ?b) i = disk (fd bn) i" using q(3) by simp
  have new: "sector_at ?d j = view disk bn (unat start + j)" if "j < nat n" for j
  proof -
    have "\<forall>x \<in> set (map (disk (fd bn)) [unat start..<unat start + nat n]). length x = 512" using sector_law [OF assms(1)] F2(3) by auto
    then have "sector_at ?d j = disk (fd bn) (unat start + j)"
      using sector_at_concat [of "map (disk (fd bn)) [unat start..<unat start + nat n]" j] that by simp
    moreover have "view disk bn (unat start + j) = disk (fd bn) (unat start + j)"
      using assms(7) F2(3) F3 that by (cases "prefetch_sectors bn = 1") (auto simp: clean_def)
    ultimately show ?thesis by simp
  qed
  have "coherent disk ?b" unfolding coherent_def
  proof (intro ballI allI impI)
    fix w j assume w: "w \<in> set (read_cache ?b)" "j < wcount w"
    then have "w = \<lparr>wdata = ?d, wsector = start, wcount = nat n\<rparr> \<or> w \<in> set (read_cache bn)"
      by (auto dest!: set_update_subset_insert [THEN subsetD])
    then have "sector_at (wdata w) j = view disk bn (unat (wsector w) + j)" using w(2) new assms(3) by (auto simp: coherent_def)
    moreover have "unat (wsector w) + j < N" using drained_shape [OF drained_refl] l w by (auto simp: looked_def shape_def cache_ok_def)
    ultimately show "sector_at (wdata w) j = view disk ?b (unat (wsector w) + j)" using looked_view [OF l dk] by simp
  qed
  then show ?thesis using e l dk q(2) by auto
qed

lemma read_loop_disk:
  assumes "good (fd bn)" "shape N bn" "coherent disk bn" "bn_max_sectors bn \<le> M" "cur \<le> e" "e \<le> nb_sectors bn" "clean disk N (unat cur) (unat e) bn"
  shows "\<exists>b. read_loop so cur e bn = Inr (Some (concat (map (view disk bn) [unat cur..<unat e])), b) \<and> good (fd b) \<and> coherent disk b \<and>
    (\<forall>i < N. view disk b i = view disk bn i)"
proof -
  have "so' = so \<Longrightarrow> good (fd bn) \<Longrightarrow> shape N bn \<Longrightarrow> coherent disk bn \<Longrightarrow> bn_max_sectors bn \<le> M \<Longrightarrow> cur \<le> e \<Longrightarrow> e \<le> nb_sectors bn \<Longrightarrow>
      clean disk N (unat cur) (unat e) bn \<Longrightarrow> ?thesis" for so'
  proof (induction so' cur e bn rule: read_loop.induct)
    case (1 so' cur e bn)
    note so = 1(3) and good = 1(4) and sh = 1(5) and co = 1(6) and mx = 1(7) and le = 1(8) and nb = 1(9) and cl = 1(10)
    have N: "unat (nb_sectors bn) = N" "N < 2 ^ 55" using sh by (simp_all add: shape_def)
    show ?case
    proof (cases "cur < e")
      case False
      then have "cur = e" using le by simp
      then show ?thesis using good co by (simp add: read_loop.simps [of so e e bn])
    next
      case True
      show ?thesis
      proof (cases "netblk_find_cache bn cur")
        case None
        obtain b where b: "fetch_window so cur e bn = Inr (True, b)" "good (fd b)" "coherent disk b" "looked N bn b"
            "\<forall>i < N. disk (fd b) i = disk (fd bn) i" using fetch_window_disk [OF good sh co mx True nb cl] by blast
        have v: "view disk b i = view disk bn i" if "i < N" for i using looked_view [OF b(4,5) that] .
        have m: "map (view disk b) [unat cur..<unat e] = map (view disk bn) [unat cur..<unat e]"
          using v nb N by (auto simp: word_le_nat_alt)
        have "\<exists>c. read_loop so cur e b = Inr (Some (concat (map (view disk b) [unat cur..<unat e])), c) \<and> good (fd c) \<and> coherent disk c \<and>
            (\<forall>i < N. view disk c i = view disk b i)"
          using 1(1) [of "(True, b)" True b] True None b so mx le nb looked_clean [OF b(4,5) cl] by (simp add: looked_def frame_def)
        then show ?thesis unfolding m using True None b v by (auto simp: read_loop.simps [of so cur e bn])
      next
        case (Some w)
        define n where "n = hit_sectors w cur e"
        have "window_has cur w" using Some by (auto simp: netblk_find_cache_def find_Some_iff)
        note hb = hit_sectors_bounds [OF this True, folded n_def]
        note hi = hit_inside [OF sh Some True, folded n_def]
        let ?b = "bn\<lparr>cache_hits := cache_hits bn + n\<rparr>"
        have v: "view disk ?b = view disk bn" by (simp add: view_def)
        have b: "shape N ?b" "good (fd ?b)" "coherent disk ?b" "clean disk N (unat (cur + n)) (unat e) ?b"
          using sh good co cl hb by (auto simp: shape_reads coherent_def clean_def v)
        have l: "\<not> length (wdata w) < 512 * unat (cur - wsector w) + 512 * unat n" using hi by simp
        have le2: "cur + n \<le> e" using hb by (simp add: word_le_nat_alt)
        obtain c where c: "read_loop so (cur + n) e ?b = Inr (Some (concat (map (view disk bn) [unat (cur + n)..<unat e])), c)"
            "good (fd c)" "coherent disk c" "\<forall>i < N. view disk c i = view disk bn i"
          using 1(2) [OF _ Some n_def refl] True l so b mx le2 nb v by auto
        have "take (512 * unat n) (drop (512 * (unat cur - unat (wsector w))) (wdata w)) = concat (map (view disk bn) [unat cur..<unat cur + unat n])"
        proof (rule concat_slice)
          show "\<forall>i. unat cur \<le> i \<and> i < unat cur + unat n \<longrightarrow> sector_at (wdata w) (i - unat (wsector w)) = view disk bn i"
          proof (intro allI impI)
            fix i assume i: "unat cur \<le> i \<and> i < unat cur + unat n"
            then have "i - unat (wsector w) < wcount w" "unat (wsector w) + (i - unat (wsector w)) = i" using hi by linarith+
            then show "sector_at (wdata w) (i - unat (wsector w)) = view disk bn i" using co hi(6) unfolding coherent_def by metis
          qed
        qed (use hi in auto)
        moreover have "[unat cur..<unat e] = [unat cur..<unat cur + unat n] @ [unat (cur + n)..<unat e]"
          using hb upt_add_eq_append [of "unat cur" "unat cur + unat n" "unat e - (unat cur + unat n)"] by simp
        ultimately show ?thesis using c l True Some hi by (simp add: read_loop.simps [of so cur e bn] Let_def n_def [symmetric])
      qed
    qed
  qed
  then show ?thesis using assms by blast
qed

text \<open>Whatever a read returns, the contents as the device knows them stay.\<close>

lemma fetch_window_view:
  assumes "good (fd bn)" "shape N bn" "bn_max_sectors bn \<le> M" "cur < e" "e \<le> nb_sectors bn"
  shows "\<exists>b. fetch_window so cur e bn = Inr (True, b) \<and> good (fd b) \<and> looked N bn b \<and> (\<forall>i < N. disk (fd b) i = disk (fd bn) i)"
proof -
  obtain start n where r: "fetch_range bn cur e = (start, n)" by force
  have s: "settings_ok bn" "read_cache_next bn < 16" "unat (nb_sectors bn) = N" "length (read_cache bn) = 16"
    using assms(2) by (simp_all add: shape_def cache_ok_def)
  note F = fetch_range_ok [OF s(1) assms(4,5) r]
  have F2: "1 \<le> n" "n \<le> 128" "unat start + nat n \<le> N" "0 < nat n" "int (nat n) \<le> M" using F s(3) assms(3) by linarith+
  have c: "(of_int n :: u32) = of_nat (nat n)" using F2(1) by (metis int_nat_eq of_int_of_nat_eq order_trans zero_le_one)
  obtain h d f where "netblk_request so (fd bn) 0 2 start (of_int n) [] (nat n * 512) = (Some (h, d), f)"
      "good f" "\<forall>i < N. disk f i = disk (fd bn) i" using read_law [OF assms(1) F2(4,5,3)] unfolding c by blast
  then show ?thesis using fetch_window_ok [OF sane_law assms(2,4,5)] F2(1,2) s by (auto simp: fetch_window_def r Let_def)
qed

lemma read_loop_view:
  assumes "good (fd bn)" "shape N bn" "bn_max_sectors bn \<le> M" "e \<le> nb_sectors bn"
  shows "\<exists>r b. read_loop so cur e bn = Inr (r, b) \<and> good (fd b) \<and> (\<forall>i < N. view disk b i = view disk bn i)"
proof -
  have "so' = so \<Longrightarrow> good (fd bn) \<Longrightarrow> shape N bn \<Longrightarrow> bn_max_sectors bn \<le> M \<Longrightarrow> e \<le> nb_sectors bn \<Longrightarrow> ?thesis" for so'
  proof (induction so' cur e bn rule: read_loop.induct)
    case (1 so' cur e bn)
    note so = 1(3) and good = 1(4) and sh = 1(5) and mx = 1(6) and nb = 1(7)
    show ?case
    proof (cases "cur < e")
      case False
      then show ?thesis using good by (simp add: read_loop.simps [of so cur e bn])
    next
      case True
      show ?thesis
      proof (cases "netblk_find_cache bn cur")
        case None
        obtain b where b: "fetch_window so cur e bn = Inr (True, b)" "good (fd b)" "looked N bn b"
            "\<forall>i < N. disk (fd b) i = disk (fd bn) i" using fetch_window_view [OF good sh mx True nb] by blast
        have "\<exists>r c. read_loop so cur e b = Inr (r, c) \<and> good (fd c) \<and> (\<forall>i < N. view disk c i = view disk b i)"
          using 1(1) [of "(True, b)" True b] True None b so mx nb by (simp add: looked_def frame_def)
        then show ?thesis using True None b looked_view [OF b(3,4)] by (auto simp: read_loop.simps [of so cur e bn])
      next
        case (Some w)
        define n where "n = hit_sectors w cur e"
        note hi = hit_inside [OF sh Some True, folded n_def]
        let ?b = "bn\<lparr>cache_hits := cache_hits bn + n\<rparr>"
        have v: "view disk ?b = view disk bn" by (simp add: view_def)
        have l: "\<not> length (wdata w) < 512 * unat (cur - wsector w) + 512 * unat n" using hi by simp
        obtain r c where "read_loop so (cur + n) e ?b = Inr (r, c)" "good (fd c)" "\<forall>i < N. view disk c i = view disk bn i"
          using 1(2) [OF _ Some n_def refl] True l so good sh mx nb v by (auto simp: shape_reads)
        then show ?thesis using l True Some by (simp add: read_loop.simps [of so cur e bn] Let_def n_def [symmetric])
      qed
    qed
  qed
  then show ?thesis using assms by blast
qed

lemma read_async_view:
  assumes "good (fd bn)" "shape N bn" "bn_max_sectors bn \<le> M" "\<not> out_of_disk s n bn"
  shows "\<exists>r b. netblk_read_async so s n bn = Inr (r, b) \<and> good (fd b) \<and> (\<forall>i < N. view disk b i = view disk bn i)"
proof -
  note R = range_ok [OF assms(2,4)]
  obtain b where b: "netblk_drain_writes so bn = (True, b)" "good (fd b)" "bn_write_sectors b = 0" "writeback b = []"
      "\<forall>i < N. disk (fd b) i = view disk bn i" using drain_writes_disk [OF assms(1,2)] by blast
  have d: "drained N bn b" using drain_writes_drained [OF assms(2), of so] b(1) by simp
  have v: "\<forall>i < N. view disk b i = view disk bn i" using clean_view [OF b(3,4), of disk] b(5) by simp
  obtain c where c: "(if netblk_write_overlaps s n bn then netblk_drain_writes so bn else (True, bn)) = (True, c)" "good (fd c)" "drained N bn c"
      "\<forall>i < N. view disk c i = view disk bn i"
    using b(1,2) d v assms(1) drained_refl [OF assms(2)] by (cases "netblk_write_overlaps s n bn") auto
  have sh: "shape N c" "bn_max_sectors c \<le> M" "unat (nb_sectors c) = N" using c(3) assms(3) by (auto simp: drained_def frame_def shape_def)
  have e: "s + of_int n \<le> nb_sectors c" using R sh by (simp add: word_le_nat_alt)
  show ?thesis using read_loop_view [OF c(2) sh(1,2) e, of s] c assms(4) by (auto simp: netblk_read_async_def)
qed

text \<open>A read returns the contents as the device knows them, where the prefetch cannot fetch a pending sector.\<close>

lemma read_async_disk:
  assumes "good (fd bn)" "shape N bn" "coherent disk bn" "bn_max_sectors bn \<le> M" "\<not> out_of_disk s n bn"
    and p: "prefetch_sectors bn = 1 \<or> (\<forall>i < N. view disk bn i = disk (fd bn) i)"
  shows "\<exists>b. netblk_read_async so s n bn = Inr (Some (concat (map (view disk bn) [unat s..<unat s + nat n])), b) \<and> good (fd b) \<and> coherent disk b \<and>
    (\<forall>i < N. view disk b i = view disk bn i)"
proof -
  note R = range_ok [OF assms(2,5)]
  have "\<exists>b. (if netblk_write_overlaps s n bn then netblk_drain_writes so bn else (True, bn)) = (True, b) \<and> drained N bn b \<and> good (fd b) \<and>
      (\<forall>i < N. view disk b i = view disk bn i) \<and> clean disk N (unat s) (unat s + nat n) b"
  proof (cases "netblk_write_overlaps s n bn")
    case True
    obtain b where b: "netblk_drain_writes so bn = (True, b)" "good (fd b)" "bn_write_sectors b = 0" "writeback b = []"
        "\<forall>i < N. disk (fd b) i = view disk bn i" using drain_writes_disk [OF assms(1,2)] by blast
    have "drained N bn b" using drain_writes_drained [OF assms(2), of so] b(1) by simp
    then show ?thesis using True b clean_view [OF b(3,4), of disk] by (auto simp: clean_def)
  next
    case False
    then show ?thesis using drained_refl [OF assms(2)] assms(1) p no_overlap_view [OF assms(2) False R(5,1)] by (auto simp: clean_def)
  qed
  then obtain b where b: "(if netblk_write_overlaps s n bn then netblk_drain_writes so bn else (True, bn)) = (True, b)" "drained N bn b" "good (fd b)"
      "\<forall>i < N. view disk b i = view disk bn i" "clean disk N (unat s) (unat s + nat n) b" by blast
  have sh: "shape N b" "bn_max_sectors b \<le> M" "unat (nb_sectors b) = N" "read_cache b = read_cache bn"
    using b(2) assms(4) by (auto simp: drained_def frame_def shape_def)
  have "unat (wsector w) + j < N" if "w \<in> set (read_cache bn)" "j < wcount w" for w j
    using assms(2) that by (auto simp: shape_def cache_ok_def)
  then have co: "coherent disk b" using assms(3) b(4) sh(4) by (simp add: coherent_def)
  have e: "s \<le> s + of_int n" "s + of_int n \<le> nb_sectors b" using R sh by (simp_all add: word_le_nat_alt)
  have m: "map (view disk b) [unat s..<unat s + nat n] = map (view disk bn) [unat s..<unat s + nat n]" using b(4) R(4) by simp
  have "clean disk N (unat s) (unat (s + of_int n)) b" using b(5) R(5) by simp
  then obtain c where "read_loop so s (s + of_int n) b = Inr (Some (concat (map (view disk bn) [unat s..<unat s + nat n])), c)"
      "good (fd c)" "coherent disk c" "\<forall>i < N. view disk c i = view disk b i"
    using read_loop_disk [OF b(3) sh(1) co sh(2) e] unfolding R(5) m by blast
  then show ?thesis using b assms(5) by (simp add: netblk_read_async_def)
qed

lemma flush_disk:
  assumes "good (fd bn)" "shape N bn" "coherent disk bn" "\<not> bn_read_only bn" "writable bn"
  shows "\<exists>b. netblk_flush so bn = (True, b) \<and> good (fd b) \<and> coherent disk b \<and> (\<forall>i < N. view disk b i = view disk bn i) \<and>
    (\<forall>i < N. disk (fd b) i = view disk bn i)"
proof -
  obtain b where b: "netblk_drain_writes so bn = (True, b)" "good (fd b)" "bn_write_sectors b = 0" "writeback b = []"
      "\<forall>i < N. disk (fd b) i = view disk bn i" using drain_writes_disk [OF assms(1,2)] by blast
  have d: "drained N bn b" using drain_writes_drained [OF assms(2), of so] b(1) by simp
  obtain r f where f: "netblk_request so (fd b) 0 4 0 0 [] 0 = (Some r, f)" "good f" "\<forall>i < N. disk f i = disk (fd b) i"
    using flush_law [OF b(2)] by blast
  let ?b = "b\<lparr>fd := f\<rparr>"
  have v: "view disk ?b i = view disk bn i" if "i < N" for i using clean_view [of ?b disk i] b f that by simp
  have "unat (wsector w) + j < N" if "w \<in> set (read_cache bn)" "j < wcount w" for w j
    using assms(2) that by (auto simp: shape_def cache_ok_def)
  then have "coherent disk ?b" using assms(3) v d by (simp add: coherent_def drained_def)
  then show ?thesis using b f v assms by (simp add: netblk_flush_def)
qed

end

lemma out_of_disk_flat:
  assumes "shape N bn"
  shows "out_of_disk s n bn \<longleftrightarrow> flat_out N (bn_max_sectors bn) s n"
proof
  assume o: "out_of_disk s n bn"
  have N: "unat (nb_sectors bn) = N" "bn_max_sectors bn \<le> 1024" using assms by (simp_all add: shape_def settings_ok_def)
  show "flat_out N (bn_max_sectors bn) s n"
  proof (rule ccontr)
    assume f: "\<not> flat_out N (bn_max_sectors bn) s n"
    then have "unat (of_int n :: u64) = nat n" using N by (intro unat_of_int_small) (auto simp: flat_out_def)
    then show False using o f N by (auto simp: out_of_disk_def flat_out_def word_less_nat_alt unat_minus word_le_nat_alt)
  qed
qed (use range_ok [OF assms, of s n] in \<open>fastforce simp: flat_out_def\<close>)

lemma device_op_safe:
  assumes "sane so" "shape N bn" "op_ok x"
  shows "\<exists>r b. device_op so x bn = Inr (r, b) \<and> shape N b \<and> frame bn b \<and> (\<forall>s n d. x = Get s n \<and> r = Some d \<longrightarrow> length d = 512 * nat n)"
proof (cases x)
  case (Get s n)
  then show ?thesis using read_async_ok [OF assms(1,2), of s n] by auto
next
  case (Put s n buf)
  then show ?thesis using write_async_ok [OF assms(2), of n buf so s] assms(3) by auto
next
  case Sync
  then show ?thesis using flush_drained [OF assms(2), of so] by (cases "netblk_flush so bn") (simp add: drained_def)
qed

lemma device_run_safe:
  assumes "sane so" "shape N bn" "list_all op_ok xs"
  shows "\<exists>rs b. device_run so xs bn = Inr (rs, b) \<and> shape N b \<and> frame bn b \<and>
    list_all2 (\<lambda>x r. \<forall>s n d. x = Get s n \<and> r = Some d \<longrightarrow> length d = 512 * nat n) xs rs"
  using assms(2,3)
proof (induction xs arbitrary: bn)
  case (Cons x xs)
  obtain r b where b: "device_op so x bn = Inr (r, b)" "shape N b" "frame bn b" "\<forall>s n d. x = Get s n \<and> r = Some d \<longrightarrow> length d = 512 * nat n"
    using device_op_safe [OF assms(1) Cons.prems(1), of x] Cons.prems(2) by auto
  obtain rs c where c: "device_run so xs b = Inr (rs, c)" "shape N c" "frame b c"
      "list_all2 (\<lambda>x r. \<forall>s n d. x = Get s n \<and> r = Some d \<longrightarrow> length d = 512 * nat n) xs rs"
    using Cons.IH [OF b(2)] Cons.prems(2) by auto
  show ?case using b c by (simp add: frame_def)
qed (simp add: frame_def)

context disk_link
begin

lemma device_op_refines:
  assumes "linked disk good N M bn" "prefetch_sectors bn = 1 \<or> (\<forall>i < N. view disk bn i = disk (fd bn) i)" "op_ok x" "\<forall>i < N. view disk bn i = D i"
  shows "\<exists>r D1 b. device_op so x bn = Inr (r, b) \<and> flat_op N (bn_max_sectors bn) x D = (r, D1) \<and> linked disk good N M b \<and> frame bn b \<and>
    (\<forall>i < N. view disk b i = D1 i)"
proof -
  have l: "good (fd bn)" "shape N bn" "coherent disk bn" "bn_max_sectors bn \<le> M" "\<not> bn_read_only bn" "writable bn"
    using assms(1) by (simp_all add: linked_def)
  obtain r b where s: "device_op so x bn = Inr (r, b)" "shape N b" "frame bn b" using device_op_safe [OF sane_law l(2) assms(3)] by blast
  note o = out_of_disk_flat [OF l(2)]
  have id: "frame bn bn" by (simp add: frame_def)
  show ?thesis
  proof (cases x)
    case (Get p n)
    show ?thesis
    proof (cases "out_of_disk p n bn")
      case True
      then show ?thesis using Get assms(1,4) id o by (simp add: netblk_read_async_def)
    next
      case False
      have m: "map (view disk bn) [unat p..<unat p + nat n] = map D [unat p..<unat p + nat n]"
        using assms(4) range_ok(4) [OF l(2) False] by simp
      show ?thesis using read_async_disk [OF l(1-4) False assms(2), unfolded m] s Get False o assms(4) l by (auto simp: linked_def frame_def)
    qed
  next
    case (Put p n buf)
    show ?thesis
    proof (cases "out_of_disk p n bn")
      case True
      then show ?thesis using Put assms(1,4) id o l by (simp add: netblk_write_async_def)
    next
      case False
      have b: "512 * nat n \<le> length buf" using Put assms(3) by simp
      have "overlay (view disk bn) (unat p) (nat n) buf i = overlay D (unat p) (nat n) buf i" if "i < N" for i
        using assms(4) that by (intro overlay_cong) simp
      then show ?thesis using write_async_disk [OF l(1-3,5,6) False b] s Put False o l by (auto simp: linked_def frame_def)
    qed
  next
    case Sync
    then show ?thesis using flush_disk [OF l(1-3,5,6)] s l assms(4) by (auto simp: linked_def frame_def)
  qed
qed

lemma device_run_refines:
  assumes "linked disk good N M bn" "prefetch_sectors bn = 1" "list_all op_ok xs" "\<forall>i < N. view disk bn i = D i"
  shows "\<exists>rs D1 b. device_run so xs bn = Inr (rs, b) \<and> flat_run N (bn_max_sectors bn) xs D = (rs, D1) \<and> linked disk good N M b \<and> frame bn b \<and>
    (\<forall>i < N. view disk b i = D1 i)"
  using assms
proof (induction xs arbitrary: bn D)
  case Nil
  then show ?case by (simp add: frame_def)
next
  case (Cons x xs)
  obtain r E b where b: "device_op so x bn = Inr (r, b)" "flat_op N (bn_max_sectors bn) x D = (r, E)" "linked disk good N M b" "frame bn b"
      "\<forall>i < N. view disk b i = E i"
    using device_op_refines [OF Cons.prems(1) disjI1 [OF Cons.prems(2)] _ Cons.prems(4), of x] Cons.prems(3) by auto
  have "prefetch_sectors b = 1" "bn_max_sectors b = bn_max_sectors bn" using b(4) Cons.prems(2) by (simp_all add: frame_def)
  then obtain rs F c where c: "device_run so xs b = Inr (rs, c)" "flat_run N (bn_max_sectors bn) xs E = (rs, F)" "linked disk good N M c" "frame b c"
      "\<forall>i < N. view disk c i = F i"
    using Cons.IH [OF b(3) _ _ b(5)] Cons.prems(3) by auto
  have "frame bn c" using b(4) c(4) by (simp add: frame_def)
  then show ?case using b c by auto
qed

text \<open>Without a condition on the prefetch, the writes still have their effect.\<close>

lemma device_op_view:
  assumes "good (fd bn)" "shape N bn" "bn_max_sectors bn \<le> M" "\<not> bn_read_only bn" "writable bn" "op_ok x" "\<forall>i < N. view disk bn i = D i"
  shows "\<exists>r b. device_op so x bn = Inr (r, b) \<and> good (fd b) \<and> shape N b \<and> frame bn b \<and>
    (\<forall>i < N. view disk b i = snd (flat_op N (bn_max_sectors bn) x D) i) \<and> (x = Sync \<longrightarrow> (\<forall>i < N. disk (fd b) i = D i))"
proof -
  obtain r b where s: "device_op so x bn = Inr (r, b)" "shape N b" "frame bn b" using device_op_safe [OF sane_law assms(2,6)] by blast
  note o = out_of_disk_flat [OF assms(2)]
  have id: "frame bn bn" by (simp add: frame_def)
  show ?thesis
  proof (cases x)
    case (Get p n)
    show ?thesis
    proof (cases "out_of_disk p n bn")
      case True
      then show ?thesis using Get assms id by (simp add: netblk_read_async_def)
    next
      case False
      then show ?thesis using Get read_async_view [OF assms(1-3) False] s assms(7) by auto
    qed
  next
    case (Put p n buf)
    show ?thesis
    proof (cases "out_of_disk p n bn")
      case True
      then show ?thesis using Put assms id o by (simp add: netblk_write_async_def)
    next
      case False
      have b: "512 * nat n \<le> length buf" using Put assms(6) by simp
      have "overlay (view disk bn) (unat p) (nat n) buf i = overlay D (unat p) (nat n) buf i" if "i < N" for i
        using assms(7) that by (intro overlay_cong) simp
      then show ?thesis using write_async_view [OF assms(1,2,4,5) False b] s Put False o by auto
    qed
  next
    case Sync
    obtain c where c: "netblk_drain_writes so bn = (True, c)" "good (fd c)" "bn_write_sectors c = 0" "writeback c = []"
        "\<forall>i < N. disk (fd c) i = view disk bn i" using drain_writes_disk [OF assms(1,2)] by blast
    obtain q f where f: "netblk_request so (fd c) 0 4 0 0 [] 0 = (Some q, f)" "good f" "\<forall>i < N. disk f i = disk (fd c) i"
      using flush_law [OF c(2)] by blast
    have e: "r = Some []" "b = c\<lparr>fd := f\<rparr>" using s(1) Sync c(1) f(1) assms(4,5) by (simp_all add: netblk_flush_def)
    have "view disk b i = disk (fd b) i" for i using c(3,4) e(2) by (intro clean_view) simp_all
    then show ?thesis using s Sync e f c assms(7) by simp
  qed
qed

lemma device_run_view:
  assumes "good (fd bn)" "shape N bn" "bn_max_sectors bn \<le> M" "\<not> bn_read_only bn" "writable bn" "list_all op_ok xs" "\<forall>i < N. view disk bn i = D i"
  shows "\<exists>rs b. device_run so (xs @ [Sync]) bn = Inr (rs, b) \<and> good (fd b) \<and> length rs = Suc (length xs) \<and> last rs = Some [] \<and>
    (\<forall>i < N. disk (fd b) i = snd (flat_run N (bn_max_sectors bn) xs D) i)"
  using assms
proof (induction xs arbitrary: bn D)
  case Nil
  have "op_ok Sync" by simp
  then obtain r b where "device_op so Sync bn = Inr (r, b)" "good (fd b)" "\<forall>i < N. disk (fd b) i = D i"
    using device_op_view [OF Nil(1-5) _ Nil(7)] by blast
  moreover have "fst (netblk_flush so bn)" using drain_writes_disk [OF Nil(1,2)] flush_law by (fastforce simp: netblk_flush_def)
  ultimately show ?case by (auto split: prod.splits)
next
  case (Cons x xs)
  have x: "op_ok x" "list_all op_ok xs" using Cons.prems(6) by simp_all
  let ?E = "snd (flat_op N (bn_max_sectors bn) x D)"
  obtain r b where b: "device_op so x bn = Inr (r, b)" "good (fd b)" "shape N b" "frame bn b" "\<forall>i < N. view disk b i = ?E i"
    using device_op_view [OF Cons.prems(1-5) x(1) Cons.prems(7)] by blast
  have f: "bn_max_sectors b = bn_max_sectors bn" "\<not> bn_read_only b" "writable b" using b(4) Cons.prems(4,5) by (simp_all add: frame_def)
  then have "bn_max_sectors b \<le> M" using Cons.prems(3) by simp
  note ih = Cons.IH [OF b(2,3) this f(2,3) x(2) b(5)]
  then show ?case using b(1) f(1) by (auto simp: Let_def split: prod.splits)
qed

end

lemma wire_sane: "sane wire_socket"
  by (auto simp: sane_def wire_socket_def split: option.splits if_splits)

lemma wire_send_all: "netblk_send_all wire_socket w buf = (True, w\<lparr>to_server := to_server w @ buf\<rparr>)"
proof (induction "wire_socket" w buf rule: netblk_send_all.induct)
  case (1 w buf)
  show ?case
  proof (cases "buf = []")
    case False
    have n: "min (length buf) 65536 \<noteq> 0" using False by simp
    have s: "net_send wire_socket w (take 65536 buf) = Some (min (length buf) 65536, w\<lparr>to_server := to_server w @ take 65536 buf\<rparr>)"
      by (simp add: wire_socket_def)
    have "netblk_send_all wire_socket (w\<lparr>to_server := to_server w @ take 65536 buf\<rparr>) (drop (min (length buf) 65536) buf) =
        (True, w\<lparr>to_server := (to_server w @ take 65536 buf) @ drop (min (length buf) 65536) buf\<rparr>)"
      using 1 [OF False s refl n] by simp
    moreover have "take 65536 buf @ drop (min (length buf) 65536) buf = buf" by (simp add: min_def)
    ultimately show ?thesis using False s n by (simp add: netblk_send_all.simps [of wire_socket w buf])
  qed (simp add: netblk_send_all.simps [of wire_socket w "[]"])
qed

lemma wire_recv_all: "to_client w = p @ q \<Longrightarrow> netblk_recv_all wire_socket w (length p) = (Some p, w\<lparr>to_client := q\<rparr>)"
proof (induction "length p" arbitrary: w p rule: less_induct)
  case less
  show ?case
  proof (cases "p = []")
    case True
    then show ?thesis using less(2) by (simp add: netblk_recv_all.simps [of wire_socket w 0])
  next
    case False
    let ?k = "min (length p) 65536"
    have r: "net_recv wire_socket w ?k = Some (take ?k p, w\<lparr>to_client := drop ?k p @ q\<rparr>)"
      using less(2) False by (simp add: wire_socket_def)
    have "length (drop ?k p) < length p" using False by simp
    then have ih: "netblk_recv_all wire_socket (w\<lparr>to_client := drop ?k p @ q\<rparr>) (length (drop ?k p)) = (Some (drop ?k p), w\<lparr>to_client := q\<rparr>)"
      using less(1) [of "drop ?k p" "w\<lparr>to_client := drop ?k p @ q\<rparr>"] by simp
    have "length p - length (take ?k p) = length (drop ?k p)" by simp
    then show ?thesis using r ih False by (simp add: netblk_recv_all.simps [of wire_socket w "length p"] del: length_drop length_take)
  qed
qed

lemma wire_recv_served:
  assumes "to_client w = []" "wire_serve w = Some w1" "to_client w1 = p @ q" "p \<noteq> []"
  shows "netblk_recv_all wire_socket w (length p) = (Some p, w1\<lparr>to_client := q\<rparr>)"
proof -
  let ?k = "min (length p) 65536"
  have "net_recv wire_socket w ?k = net_recv wire_socket w1 ?k" using assms by (simp add: wire_socket_def)
  moreover have "net_recv wire_socket w1 ?k \<noteq> None" using assms by (simp add: wire_socket_def)
  ultimately have "netblk_recv_all wire_socket w (length p) = netblk_recv_all wire_socket w1 (length p)"
    using assms(4) by (subst (1 2) netblk_recv_all.simps) (auto split: option.splits)
  then show ?thesis using wire_recv_all [OF assms(3)] by simp
qed

lemma header_init_eq: "netblk_header_init a b c d f = init_header a b c d 0 f"
  by (simp add: netblk_header_init_def init_header_def)

lemma wire_serve_request:
  assumes "to_server w = encode_header r @ out" "length (magic r) = 4"
    and "\<And>inc. deliverable inc = out \<Longrightarrow> \<exists>h1. handle_request (wire_server w) (wire_session w) (link_host (to_server w)\<lparr>incoming := inc\<rparr>) r =
      Inr (Continue, st, s, h1) \<and> readable h1 = rest \<and> sent h1 = reply"
  shows "wire_serve w = Some \<lparr>wire_server = st, wire_session = s, to_server = rest, to_client = reply\<rparr>"
proof -
  have w: "length (encode_header r) = 32" using assms(2) by (rule wire_size)
  then have "encode_header r \<noteq> []" by auto
  then have rd: "readable (link_host (to_server w)) = encode_header r @ out"
    using assms(1) by (simp add: readable_def deliverable_def link_host_def)
  obtain inc where i: "recv_all (link_host (to_server w)) 32 = (Some (encode_header r), link_host (to_server w)\<lparr>incoming := inc\<rparr>)" "deliverable inc = out"
    by (rule recv_allE [of "link_host (to_server w)" 32]) (use rd w that in auto)
  obtain h1 where h: "handle_request (wire_server w) (wire_session w) (link_host (to_server w)\<lparr>incoming := inc\<rparr>) r = Inr (Continue, st, s, h1)"
      "readable h1 = rest" "sent h1 = reply" using assms(3) [OF i(2)] by blast
  have "decode_header (encode_header r) = r" using assms(2) by (rule decode_encode)
  then show ?thesis using i(1) h by (simp add: wire_serve_def)
qed

text \<open>A request over the wire that the server answers.\<close>

lemma wire_request:
  assumes "to_server w = []" "to_client w = []" "length d = n" "n \<noteq> 0 \<longrightarrow> unat (bytes R) = n" "length (magic R) = 4" "netblk_header_ok R op'"
    and "\<And>inc h. deliverable inc = out \<Longrightarrow> windows h = [1000000] \<Longrightarrow> transfers h = [1000000] \<Longrightarrow> flush_results h = [True, True] \<Longrightarrow> sent h = [] \<Longrightarrow>
      \<exists>h1. handle_request (wire_server w) (wire_session w) (h\<lparr>incoming := inc\<rparr>) (init_header op' lba' c (of_nat (length out)) 0 fl) =
        Inr (Continue, st, s, h1) \<and> readable h1 = [] \<and> sent h1 = encode_header R @ d"
  shows "netblk_request wire_socket w fl op' lba' c out n = (Some (R, d), \<lparr>wire_server = st, wire_session = s, to_server = [], to_client = []\<rparr>)"
proof -
  let ?H = "init_header op' lba' c (of_nat (length out)) 0 fl"
  let ?w = "w\<lparr>to_server := encode_header ?H @ out\<rparr>" and ?w1 = "\<lparr>wire_server = st, wire_session = s, to_server = [], to_client = encode_header R @ d\<rparr>"
  have s1: "netblk_send_all wire_socket w (encode_header (netblk_header_init op' lba' c (of_nat (length out)) fl)) = (True, w\<lparr>to_server := encode_header ?H\<rparr>)"
    using assms(1) by (simp add: wire_send_all header_init_eq)
  have s2: "(if out = [] then (True, w\<lparr>to_server := encode_header ?H\<rparr>) else netblk_send_all wire_socket (w\<lparr>to_server := encode_header ?H\<rparr>) out) = (True, ?w)"
    by (simp add: wire_send_all)
  have sv: "wire_serve ?w = Some ?w1"
  proof (rule wire_serve_request)
    show "length (magic ?H) = 4" by (simp only: init_header_simps) (simp add: wrbp_def)
    show "\<exists>h1. handle_request (wire_server ?w) (wire_session ?w) (link_host (to_server ?w)\<lparr>incoming := inc\<rparr>) ?H = Inr (Continue, st, s, h1) \<and>
        readable h1 = [] \<and> sent h1 = encode_header R @ d" if "deliverable inc = out" for inc
      using assms(7) [OF that, of "link_host (to_server ?w)"] by (simp add: link_host_def)
  qed simp
  have l: "length (encode_header R) = 32" using assms(5) by (rule wire_size)
  then have ne: "encode_header R \<noteq> []" by auto
  have r1: "netblk_recv_all wire_socket ?w 32 = (Some (encode_header R), ?w1\<lparr>to_client := d\<rparr>)"
    using wire_recv_served [OF _ sv _ ne, of d] assms(2) l by simp
  have r2: "netblk_recv_all wire_socket (?w1\<lparr>to_client := d\<rparr>) n = (Some d, ?w1\<lparr>to_client := []\<rparr>)"
    using wire_recv_all [of "?w1\<lparr>to_client := d\<rparr>" d "[]"] assms(3) by simp
  have de: "decode_header (encode_header R) = R" using assms(5) by (rule decode_encode)
  show ?thesis unfolding netblk_request_def s1 prod.case bool.case s2 r1 option.case de Let_def r2
    using assms(3,4,6) by auto
qed

lemma wire_range:
  assumes "wire_good N M w" "0 < n" "n \<le> 1024" "unat s + n \<le> N"
  shows "in_image (wire_server w) s (of_nat n)" "unat (of_nat n :: u32) = n" "N < 2 ^ 54" "unat s * 512 + n * 512 \<le> length (image_file (wire_server w))"
proof -
  let ?st = "wire_server w"
  have w: "server_wf ?st" "N = length (image_file ?st) div 512" using assms(1) by (simp_all add: wire_good_def)
  have L: "length (image_file ?st) < 2 ^ 63" using w(1) by (simp add: server_wf_def)
  show N: "N < 2 ^ 54" using w(2) L by (simp add: div_less_iff_less_mult)
  show n: "unat (of_nat n :: u32) = n" using assms(3) by (simp add: unat_of_nat)
  have c: "unat (sector_count ?st) = N" using w L by (simp add: server_wf_def unat_div unat_of_nat)
  have u: "unat (ucast (of_nat n :: u32) :: u64) = n" using n assms(3) by (simp add: unat_ucast_mod take_bit_eq_mod)
  then have "unat (s + ucast (of_nat n :: u32)) = unat s + n" using assms(4) N by (simp add: unat_word_ariths)
  moreover have "(of_nat n :: u32) \<noteq> 0" using n assms(2) by (metis unat_0 less_numeral_extra(3))
  ultimately show "in_image ?st s (of_nat n)" using assms(4) c by (simp add: in_image_def word_less_nat_alt)
  show "unat s * 512 + n * 512 \<le> length (image_file ?st)" using assms(4) w(2) by linarith
qed

lemma wire_read_law:
  assumes "wire_good N M w" "0 < n" "int n \<le> M" "unat s + n \<le> N"
  shows "\<exists>h w1. netblk_request wire_socket w 0 2 s (of_nat n) [] (n * 512) = (Some (h, concat (map (wire_disk w) [unat s..<unat s + n])), w1) \<and>
    wire_good N M w1 \<and> (\<forall>i < N. wire_disk w1 i = wire_disk w i)"
proof -
  let ?st = "wire_server w" and ?c = "of_nat n :: u32"
  have g: "server_wf ?st" "to_server w = []" "to_client w = []" "M = int (unat (max_sectors (cfg ?st)))" using assms(1) by (simp_all add: wire_good_def)
  have mx: "unat (max_sectors (cfg ?st)) \<le> 1024" using g(1) by (simp add: server_wf_def word_le_nat_alt)
  have n: "n \<le> 1024" "n \<le> unat (max_sectors (cfg ?st))" using assms(3) g(4) mx by linarith+
  note R = wire_range [OF assms(1,2) n(1) assms(4)]
  have c: "?c \<le> max_sectors (cfg ?st)" using R(2) n by (simp add: word_le_nat_alt)
  define d where "d = take (unat ?c * 512) (drop (unat s * 512) (image_file ?st))"
  have len: "length d = n * 512" using R(2,4) by (simp add: d_def)
  have "take (512 * n) (drop (512 * (unat s - 0)) (image_file ?st)) = concat (map (wire_disk w) [unat s..<unat s + n])"
    by (rule concat_slice) (use R(4) in \<open>simp_all add: wire_disk_def\<close>)
  then have d: "d = concat (map (wire_disk w) [unat s..<unat s + n])" using R(2) by (simp add: d_def mult.commute)
  let ?R = "init_header 2 s ?c (?c * 512) 0 0" and ?s = "wire_session w"
  let ?s1 = "?s\<lparr>read_count := read_count ?s + 1, read_sectors := read_sectors ?s + ucast ?c\<rparr>"
  have "netblk_request wire_socket w 0 2 s ?c [] (n * 512) = (Some (?R, d), \<lparr>wire_server = ?st, wire_session = ?s1, to_server = [], to_client = []\<rparr>)"
  proof (rule wire_request [OF g(2,3) len])
    have "?c \<le> 1024" using R(2) n by (simp add: word_le_nat_alt)
    then show "n * 512 \<noteq> 0 \<longrightarrow> unat (bytes ?R) = n * 512" using R(2) by (simp add: unat_sectors)
    show "length (magic ?R) = 4" "netblk_header_ok ?R 2" by (simp_all add: netblk_header_ok_def wrbp_def init_header_def)
    fix inc :: "u8 list list" and h :: host
    assume h: "deliverable inc = []" "windows h = [1000000]" "transfers h = [1000000]" "sent h = []"
    have io: "image_view ?st \<or> length d \<le> room (transfers (h\<lparr>incoming := inc\<rparr>))" "32 + length d \<le> room (windows (h\<lparr>incoming := inc\<rparr>))"
      using h len n by (simp_all add: room_def)
    show "\<exists>h1. handle_request ?st ?s (h\<lparr>incoming := inc\<rparr>) (init_header 2 s ?c (of_nat (length ([] :: u8 list))) 0 0) = Inr (Continue, ?st, ?s1, h1) \<and>
        readable h1 = [] \<and> sent h1 = encode_header ?R @ d"
      by (rule op_read_sends [OF g(1) c R(1) d_def io, where s = ?s and b = "of_nat (length ([] :: u8 list))" and e = 0 and f = 0])
         (use h in \<open>auto simp: handle_request_def\<close>)
  qed
  moreover have "wire_good N M \<lparr>wire_server = ?st, wire_session = ?s1, to_server = [], to_client = []\<rparr>" using assms(1) by (simp add: wire_good_def)
  ultimately show ?thesis using d by (auto simp: wire_disk_def)
qed

lemma wire_write_law:
  assumes "wire_good N M w" "0 < n" "n \<le> 1024" "unat s + n \<le> N" "length d = 512 * n"
  shows "\<exists>r w1. netblk_request wire_socket w 0 3 s (of_nat n) d 0 = (Some r, w1) \<and> wire_good N M w1 \<and>
    (\<forall>i < N. wire_disk w1 i = overlay (wire_disk w) (unat s) n d i)"
proof -
  let ?st = "wire_server w" and ?c = "of_nat n :: u32" and ?s = "wire_session w"
  have g: "server_wf ?st" "\<not> read_only (cfg ?st)" "to_server w = []" "to_client w = []" "N = length (image_file ?st) div 512"
    using assms(1) by (simp_all add: wire_good_def)
  note R = wire_range [OF assms(1-4)]
  have c: "?c \<le> 1024" using R(2) assms(3) by (simp add: word_le_nat_alt)
  have b: "(of_nat (length d) :: u32) = ?c * 512" using assms(5) by simp
  let ?st1 = "?st\<lparr>image_file := file_write (image_file ?st) (unat s * 512) d\<rparr>"
  let ?s1 = "?s\<lparr>write_count := write_count ?s + 1, write_sectors := write_sectors ?s + ucast ?c\<rparr>"
  let ?R = "init_header 3 s ?c 0 0 0" and ?w = "\<lparr>wire_server = ?st1, wire_session = ?s1, to_server = [], to_client = []\<rparr>"
  have "netblk_request wire_socket w 0 3 s ?c d 0 = (Some (?R, []), ?w)"
  proof (rule wire_request [OF g(3,4)])
    show "length (magic ?R) = 4" "netblk_header_ok ?R 3" by (simp_all add: netblk_header_ok_def wrbp_def init_header_def)
    fix inc :: "u8 list list" and h :: host
    assume h: "deliverable inc = d" "windows h = [1000000]" "transfers h = [1000000]" "sent h = []"
    have rd: "readable (h\<lparr>incoming := inc\<rparr>) = d @ []" "length d = unat ?c * 512" using h R(2) assms(5) by simp_all
    have io: "image_view ?st \<or> length d \<le> room (transfers (h\<lparr>incoming := inc\<rparr>))" "32 \<le> room (windows (h\<lparr>incoming := inc\<rparr>))"
      using h assms(3,5) by (simp_all add: room_def)
    show "\<exists>h1. handle_request ?st ?s (h\<lparr>incoming := inc\<rparr>) (init_header 3 s ?c (of_nat (length d)) 0 0) = Inr (Continue, ?st1, ?s1, h1) \<and>
        readable h1 = [] \<and> sent h1 = encode_header ?R @ []"
      unfolding b by (rule op_write_stores [OF g(1,2) c R(1) rd io, where s = ?s and e = 0 and f = 0]) (use h in \<open>auto simp: handle_request_def\<close>)
  qed simp_all
  moreover have "length (image_file ?st1) = length (image_file ?st)" using R(4) assms(5) by (simp add: length_file_write)
  then have "wire_good N M ?w" using assms(1) by (simp add: wire_good_def server_wf_def)
  moreover have "wire_disk ?w i = overlay (wire_disk w) (unat s) n d i" if "i < N" for i
  proof -
    have "512 * unat s + 512 * n \<le> length (image_file ?st)" using R(4) by (simp add: mult.commute)
    then have "sector_at (file_write (image_file ?st) (512 * unat s) d) i = overlay (sector_at (image_file ?st)) (unat s) n d i"
      using assms(5) that g(5) by (intro sector_at_file_write) auto
    then show ?thesis by (simp add: wire_disk_def overlay_def mult.commute)
  qed
  ultimately show ?thesis by blast
qed

lemma wire_flush_law:
  assumes "wire_good N M w"
  shows "\<exists>r w1. netblk_request wire_socket w 0 4 0 0 [] 0 = (Some r, w1) \<and> wire_good N M w1 \<and> (\<forall>i < N. wire_disk w1 i = wire_disk w i)"
proof -
  let ?st = "wire_server w" and ?s = "wire_session w"
  have g: "server_wf ?st" "to_server w = []" "to_client w = []" using assms(1) by (simp_all add: wire_good_def)
  let ?s1 = "?s\<lparr>flush_count := flush_count ?s + 1\<rparr>" and ?R = "init_header 4 0 0 0 0 0"
  let ?w = "\<lparr>wire_server = ?st, wire_session = ?s1, to_server = [], to_client = []\<rparr>"
  have "netblk_request wire_socket w 0 4 0 0 [] 0 = (Some (?R, []), ?w)"
  proof (rule wire_request [OF g(2,3)])
    show "length (magic ?R) = 4" "netblk_header_ok ?R 4" by (simp_all add: netblk_header_ok_def wrbp_def init_header_def)
    fix inc :: "u8 list list" and h :: host
    assume h: "deliverable inc = []" "windows h = [1000000]" "flush_results h = [True, True]" "sent h = []"
    obtain fs where f: "(if \<not> read_only (cfg ?st) \<and> strict_flush (cfg ?st)
        then (case flush_image ?st (h\<lparr>incoming := inc\<rparr>) of (ok, h1) \<Rightarrow> (\<not> ok, h1)) else (False, h\<lparr>incoming := inc\<rparr>)) = (False, h\<lparr>incoming := inc, flush_results := fs\<rparr>)"
    proof (cases "\<not> read_only (cfg ?st) \<and> strict_flush (cfg ?st)")
      case True
      then show ?thesis using h that [of "if image_view ?st then [] else [True]"] by (simp add: flush_image_def flush_call_def)
    next
      case False
      then show ?thesis using h that [of "flush_results h"] by auto
    qed
    let ?h = "h\<lparr>incoming := inc, flush_results := fs\<rparr>"
    obtain ws where "send_header ?h 4 0 0 0 0 0 = (True, ?h\<lparr>sent := sent ?h @ encode_header ?R, windows := ws\<rparr>)"
      by (rule send_header_room [of ?h]) (use h that in \<open>auto simp: room_def\<close>)
    then show "\<exists>h1. handle_request ?st ?s (h\<lparr>incoming := inc\<rparr>) (init_header 4 0 0 (of_nat (length ([] :: u8 list))) 0 0) = Inr (Continue, ?st, ?s1, h1) \<and>
        readable h1 = [] \<and> sent h1 = encode_header ?R @ []"
      using f h log_progress_ok [OF g(1)] by (simp add: handle_request_def op_flush_def Let_def)
  qed simp_all
  then show ?thesis using assms by (auto simp: wire_good_def wire_disk_def)
qed

lemma wire_sector_law: "wire_good N M w \<Longrightarrow> i < N \<Longrightarrow> length (wire_disk w i) = 512"
  by (auto simp: wire_good_def wire_disk_def sector_at_def)

interpretation served: disk_link wire_socket wire_disk "wire_good N M" N M for N M
  by unfold_locales (fact wire_read_law wire_write_law wire_flush_law wire_sector_law wire_sane)+

lemma setup_shape:
  assumes "unat (lba hello) < 2 ^ 55"
  shows "shape (unat (lba hello)) (netblk_setup f ro hello we pe alloc)"
proof -
  have "settings_ok (netblk_setup f ro hello we pe alloc)"
    by (auto simp: settings_ok_def netblk_setup_def Let_def split: option.splits)
  then show ?thesis using assms by (simp add: shape_def netblk_setup_def Let_def cache_ok_def buffer_ok_def)
qed

lemma setup_other [simp]:
  "fd (netblk_setup f ro hello we pe alloc) = f" "bn_read_only (netblk_setup f ro hello we pe alloc) = ro"
  "writable (netblk_setup f ro hello we pe alloc) = (flags hello AND 1 \<noteq> 0)" "nb_sectors (netblk_setup f ro hello we pe alloc) = lba hello"
  "writeback (netblk_setup f ro hello we pe alloc) = []" "bn_write_sectors (netblk_setup f ro hello we pe alloc) = 0"
  "read_cache (netblk_setup f ro hello we pe alloc) = replicate 16 \<lparr>wdata = [], wsector = 0, wcount = 0\<rparr>"
  by (simp_all add: netblk_setup_def Let_def)

lemma setup_coherent: "coherent disk (netblk_setup f ro hello we pe alloc)"
  by (simp add: coherent_def)

lemma init_header_other [simp]: "status (init_header a b c d e f) = e" "flags (init_header a b c d e f) = f"
  by (simp_all add: init_header_def)

lemma open_wire:
  assumes "server_wf st" "\<not> read_only (cfg st)" "512 \<le> length (image_file st)" "length telemetry = 72"
  shows "\<exists>w. netblk_open wire_socket (new_wire st) False profile we pe alloc telemetry =
      Some (netblk_setup w False (init_header 1 (sector_count st) 512 (max_sectors (cfg st)) 0 1) we pe alloc) \<and> wire_server w = st \<and>
      to_server w = [] \<and> to_client w = []"
proof -
  let ?R = "init_header 1 (sector_count st) 512 (max_sectors (cfg st)) 0 1"
  let ?s1 = "new_session\<lparr>hello_count := hello_count new_session + 1\<rparr>"
  let ?w1 = "\<lparr>wire_server = st, wire_session = ?s1, to_server = [], to_client = []\<rparr>"
  have hello: "netblk_request wire_socket (new_wire st) (netblk_profile profile) 1 0 0 [] 0 = (Some (?R, []), ?w1)"
  proof (rule wire_request)
    show "length (magic ?R) = 4" "netblk_header_ok ?R 1" by (simp_all add: netblk_header_ok_def wrbp_def init_header_def)
    fix inc :: "u8 list list" and h :: host
    assume h: "deliverable inc = []" "windows h = [1000000]" "sent h = []"
    let ?h = "h\<lparr>incoming := inc\<rparr>"
    obtain ws where "send_header ?h 1 (sector_count st) 512 (max_sectors (cfg st)) 0 1 = (True, ?h\<lparr>sent := sent ?h @ encode_header ?R, windows := ws\<rparr>)"
      by (rule send_header_room [of ?h]) (use h that in \<open>auto simp: room_def\<close>)
    then show "\<exists>h1. handle_request (wire_server (new_wire st)) (wire_session (new_wire st)) ?h
        (init_header 1 0 0 (of_nat (length ([] :: u8 list))) 0 (netblk_profile profile)) = Inr (Continue, st, ?s1, h1) \<and>
        readable h1 = [] \<and> sent h1 = encode_header ?R @ []"
      using h assms(2) by (simp add: handle_request_def op_hello_def Let_def new_wire_def)
  qed (simp_all add: new_wire_def)
  let ?P = "init_header 5 0 0 72 0 0" and ?w2 = "?w1\<lparr>to_server := encode_header (init_header 5 0 0 72 0 0) @ telemetry\<rparr>"
  let ?s2 = "?s1\<lparr>ping_count := ping_count ?s1 + 1\<rparr>" and ?Q = "init_header 5 0 0 0 0 0"
  let ?w3 = "\<lparr>wire_server = st, wire_session = ?s2, to_server = [], to_client = encode_header ?Q\<rparr>"
  have sv: "wire_serve ?w2 = Some ?w3"
  proof (rule wire_serve_request)
    show "length (magic ?P) = 4" by (simp only: init_header_simps) (simp add: wrbp_def)
    fix inc assume i: "deliverable inc = telemetry"
    let ?h = "link_host (to_server ?w2)\<lparr>incoming := inc\<rparr>"
    have mb: "unat (max_bytes st) = unat (max_sectors (cfg st)) * 512" using unat_max_bytes [OF assms(1)] by simp
    moreover have "1 \<le> unat (max_sectors (cfg st))" using assms(1) by (simp add: server_wf_def word_le_nat_alt)
    ultimately have b: "72 \<le> unat (max_bytes st)" by simp
    then have b2: "\<not> max_bytes st < 72" by (simp add: word_less_nat_alt)
    obtain inc2 where r: "recv_all ?h 72 = (Some telemetry, ?h\<lparr>incoming := inc2\<rparr>)" "deliverable inc2 = []"
      by (rule recv_allE [of ?h 72]) (use i assms(4) that in auto)
    let ?h2 = "?h\<lparr>incoming := inc2\<rparr>"
    obtain ws where "send_header ?h2 5 0 0 0 0 0 = (True, ?h2\<lparr>sent := sent ?h2 @ encode_header ?Q, windows := ws\<rparr>)"
      by (rule send_header_room [of ?h2]) (use that in \<open>auto simp: link_host_def room_def\<close>)
    then show "\<exists>h1. handle_request (wire_server ?w2) (wire_session ?w2) ?h ?P = Inr (Continue, st, ?s2, h1) \<and> readable h1 = [] \<and> sent h1 = encode_header ?Q"
      using r b b2 log_progress_ok [OF assms(1)] by (simp add: handle_request_def op_ping_def Let_def recv_buf_le) (simp add: link_host_def)
  qed simp
  have l: "length (encode_header ?Q) = 32" by simp
  then have ne: "encode_header ?Q \<noteq> []" by (metis length_0_conv zero_neq_numeral)
  have r: "netblk_recv_all wire_socket ?w2 32 = (Some (encode_header ?Q), ?w3\<lparr>to_client := []\<rparr>)"
    using wire_recv_served [OF _ sv _ ne, of "[]"] by simp
  have "decode_header (encode_header ?Q) = ?Q" by (rule decode_encode) (simp add: wrbp_def)
  then have ping: "netblk_ping wire_socket ?w1 telemetry = (True, ?w3\<lparr>to_client := []\<rparr>)"
    using r assms(4) by (simp add: netblk_ping_def wire_send_all header_init_eq netblk_header_ok_def)
  have "unat (sector_count st) = length (image_file st) div 512" using assms(1) by (simp add: server_wf_def unat_div unat_of_nat)
  then have "sector_count st \<noteq> 0" using assms(3) by (metis div_greater_zero_iff not_less_zero unat_0 zero_less_numeral)
  then show ?thesis unfolding netblk_open_def hello by (intro exI [of _ "?w3\<lparr>to_client := []\<rparr>"]) (simp add: ping)
qed

lemma open_wire_good:
  assumes "server_start args (Some img) mapped = Inr st" "length img < 2 ^ 63" "512 \<le> length img" "\<not> read_only (cfg st)" "length telemetry = 72"
  obtains bn M where "netblk_open wire_socket (new_wire st) False profile we pe alloc telemetry = Some bn" "wire_good (length img div 512) M (fd bn)"
    "shape (length img div 512) bn" "coherent wire_disk bn" "bn_max_sectors bn \<le> M" "\<not> bn_read_only bn" "writable bn"
    "view wire_disk bn = sector_at img" "pe = Some 1 \<Longrightarrow> prefetch_sectors bn = 1" "bn_max_sectors bn = int (unat (max_sectors (cfg st)))"
proof -
  note wf = server_start_wf [OF assms(1,2)]
  have img: "512 \<le> length (image_file st)" using wf(2) assms(3) by simp
  obtain w where w: "netblk_open wire_socket (new_wire st) False profile we pe alloc telemetry =
      Some (netblk_setup w False (init_header 1 (sector_count st) 512 (max_sectors (cfg st)) 0 1) we pe alloc)" "wire_server w = st"
      "to_server w = []" "to_client w = []"
    using open_wire [OF wf(1) assms(4) img assms(5)] by blast
  let ?H = "init_header 1 (sector_count st) 512 (max_sectors (cfg st)) 0 1"
  let ?bn = "netblk_setup w False ?H we pe alloc" and ?M = "int (unat (max_sectors (cfg st)))"
  have sc: "unat (sector_count st) = length img div 512" using wf by (simp add: server_wf_def unat_div unat_of_nat)
  moreover have "length img div 512 < 2 ^ 55" using assms(2) by (simp add: div_less_iff_less_mult)
  ultimately have sh: "shape (length img div 512) ?bn" using setup_shape [of ?H w False we pe alloc] by simp
  have mx: "1 \<le> unat (max_sectors (cfg st))" "unat (max_sectors (cfg st)) \<le> 1024" using wf(1) by (simp_all add: server_wf_def word_le_nat_alt)
  have si: "sint (max_sectors (cfg st)) = ?M"
  proof -
    have "?M = uint (max_sectors (cfg st))" by simp
    then have u: "uint (max_sectors (cfg st)) < 2147483648" "- 2147483648 \<le> uint (max_sectors (cfg st))"
      using mx uint_ge_0 [of "max_sectors (cfg st)"] by linarith+
    have "signed_take_bit 31 (uint (max_sectors (cfg st))) = uint (max_sectors (cfg st))"
      by (rule signed_take_bit_int_eq_self) (use u in simp_all)
    then show ?thesis by (simp add: sint_uint)
  qed
  have "?M = uint (max_sectors (cfg st))" by simp
  then have "uint (max_sectors (cfg st)) \<le> 1024" "1 \<le> uint (max_sectors (cfg st))" using mx by linarith+
  then have m: "bn_max_sectors ?bn = ?M" using mx si by (auto simp: netblk_setup_def Let_def)
  have g: "wire_good (length img div 512) ?M w" using wf assms(4) w by (simp add: wire_good_def)
  have v: "view wire_disk ?bn = sector_at img" using w(2) wf(2) by (auto simp: view_def patched_def wire_disk_def)
  have p: "pe = Some 1 \<Longrightarrow> prefetch_sectors ?bn = 1" using m mx by (auto simp: netblk_setup_def Let_def)
  have "flags ?H AND 1 \<noteq> 0" by simp
  then show ?thesis by (intro that [where M = ?M, OF w(1)]) (use g sh setup_coherent m v p in simp_all)
qed

lemma next_cached_empty: "\<forall>w \<in> set (read_cache bn). wcount w = 0 \<Longrightarrow> netblk_next_cached bn s e = e"
proof -
  have "\<forall>w \<in> set ws. wcount w = 0 \<Longrightarrow>
      fold (\<lambda>w nxt. if wcount w \<noteq> 0 \<and> s < wsector w \<and> wsector w < nxt then wsector w else nxt) ws e = e" for ws
    by (induction ws) simp_all
  then show "\<forall>w \<in> set (read_cache bn). wcount w = 0 \<Longrightarrow> ?thesis" by (simp only: netblk_next_cached_def)
qed

lemma no_windows: "replicate 16 x = x # replicate 15 x"
  by (simp add: eval_nat_numeral)

context disk_link
begin

lemma fresh_put:
  assumes "shape 2 bn" "\<not> bn_read_only bn" "writable bn" "read_cache bn = replicate 16 no_window" "writeback bn = []"
    "writeback_enabled bn" "pcmalloc_ok bn" "length x = 512"
  obtains b where "netblk_write_async so 0 x 1 bn = Inr (True, b)" "fd b = fd bn" "writeback b = [\<lparr>dsector = 0, ddirty = True, ddata = x\<rparr>]"
    "read_cache b = replicate 16 no_window" "read_cache_next b = read_cache_next bn" "shape 2 b" "frame bn b" "bn_write_sectors b = 0"
proof -
  have s: "settings_ok bn" "nb_sectors bn = 2" "bn_write_sectors bn = 0" using assms(1,6,7) by (simp_all add: shape_def)
  let ?b = "bn\<lparr>writeback_alloc := True, writeback := [\<lparr>dsector = 0, ddirty = True, ddata = x\<rparr>], stored_sectors := stored_sectors bn + 1\<rparr>"
  have i: "netblk_invalidate 0 1 bn = bn" using assms(4) by (simp add: netblk_invalidate_def)
  have a: "netblk_alloc_writes bn = (True, bn\<lparr>writeback_alloc := True\<rparr>)" using assms(6,7) by (auto simp: netblk_alloc_writes_def)
  have st: "netblk_store_write so 0 x 1 bn = Inr (1, ?b)"
    using assms(5,6,8) a by (simp add: netblk_store_write_def sectors_of_def netblk_writeback_find_def)
  have o: "\<not> out_of_disk 0 1 bn" using s by (simp add: out_of_disk_def settings_ok_def)
  have e: "netblk_write_async so 0 x 1 bn = Inr (True, ?b)" using assms(2,3) o i st by (simp add: netblk_write_async_def)
  then show ?thesis using that [of ?b] write_async_ok [OF assms(1), of 1 x so 0] assms s by auto
qed

text \<open>The sector of the write stays in the table; the prefetch of another read fetches its old contents.\<close>

lemma prefetch_old:
  assumes "N = 2" "good (fd bn)" "shape 2 bn" "bn_max_sectors bn \<le> M" "read_cache bn = replicate 16 no_window" "read_cache_next bn = 0"
    "writeback bn = [\<lparr>dsector = 0, ddirty = True, ddata = x\<rparr>]" "bn_write_sectors bn = 0" "prefetch_sectors bn = 64"
  obtains b where "netblk_read_async so 1 1 bn = Inr (Some (disk (fd bn) 1), b)" "good (fd b)" "shape 2 b" "frame bn b"
    "read_cache b = \<lparr>wdata = disk (fd bn) 0 @ disk (fd bn) 1, wsector = 0, wcount = 2\<rparr> # replicate 15 no_window"
    "writeback b = writeback bn" "bn_write_sectors b = 0"
proof -
  have s: "64 \<le> bn_max_sectors bn" "bn_max_sectors bn \<le> 1024" "nb_sectors bn = 2"
    using assms(3,9) by (simp_all add: shape_def settings_ok_def)
  have len: "length (disk (fd bn) 0) = 512" "length (disk (fd bn) 1) = 512" using sector_law [OF assms(2)] assms(1) by simp_all
  have o: "\<not> out_of_disk 1 1 bn" using s by (simp add: out_of_disk_def)
  have ov: "\<not> netblk_write_overlaps 1 1 bn" using assms(7,8) by (simp add: netblk_write_overlaps_def)
  have nc: "netblk_next_cached bn 1 2 = 2" using assms(5) by (intro next_cached_empty) simp
  have "\<not> (2 :: u64) \<le> 1" by (simp add: word_le_nat_alt)
  then have fr: "fetch_range bn 1 2 = (0, 2)" using s assms(9) by (simp add: fetch_range_def Let_def nc)
  have g: "unat (0 :: u64) + 2 \<le> N" "int 2 \<le> M" "0 < (2 :: nat)" using assms(1,4) s by simp_all
  obtain h f where q: "netblk_request so (fd bn) 0 2 0 (of_nat 2) [] (2 * 512) = (Some (h, concat (map (disk (fd bn)) [unat (0 :: u64)..<unat (0 :: u64) + 2])), f)"
      "good f" using read_law [OF assms(2) g(3,2,1)] by blast
  have d: "concat (map (disk (fd bn)) [unat (0 :: u64)..<unat (0 :: u64) + 2]) = disk (fd bn) 0 @ disk (fd bn) 1" by (simp add: numeral_2_eq_2)
  let ?w = "\<lparr>wdata = disk (fd bn) 0 @ disk (fd bn) 1, wsector = 0, wcount = 2\<rparr>"
  let ?b = "bn\<lparr>fd := f, cache_misses := cache_misses bn + 2, read_cache := ?w # replicate 15 no_window, read_cache_next := 1\<rparr>"
  have fw: "fetch_window so 1 2 bn = Inr (True, ?b)"
    using q(1) assms(5,6) unfolding d by (simp add: fetch_window_def fr no_windows)
  have n1: "netblk_find_cache bn 1 = None" using assms(5) by (simp add: netblk_find_cache_def window_has_def find_None_iff)
  have n2: "netblk_find_cache ?b 1 = Some ?w" by (simp add: netblk_find_cache_def window_has_def window_end_def)
  have hs: "hit_sectors ?w 1 2 = 1" by (simp add: hit_sectors_def window_end_def)
  let ?c = "?b\<lparr>cache_hits := cache_hits ?b + 1\<rparr>"
  have r: "read_loop so 1 2 bn = Inr (Some (disk (fd bn) 1), ?c)"
    using n1 n2 fw hs len by (simp add: read_loop.simps [of so 1 2] read_loop.simps [of so 2 2] Let_def)
  have e: "netblk_read_async so 1 1 bn = Inr (Some (disk (fd bn) 1), ?c)" using o ov r by (simp add: netblk_read_async_def)
  then show ?thesis using that [of ?c] q(2) read_async_ok [OF sane_law assms(3), of 1 1] assms(7,8) by auto
qed

lemma stale_again:
  assumes "N = 2" "good (fd bn)" "shape 2 bn" "bn_max_sectors bn \<le> M"
    "read_cache bn = \<lparr>wdata = old @ rest, wsector = 0, wcount = 2\<rparr> # ws" "length old = 512" "length rest = 512"
  obtains b where "netblk_read_async so 0 1 bn = Inr (Some old, b)"
proof -
  have s: "1 \<le> bn_max_sectors bn" "nb_sectors bn = 2" using assms(3) by (simp_all add: shape_def settings_ok_def)
  have o: "\<not> out_of_disk 0 1 bn" using s by (simp add: out_of_disk_def)
  have sh: "shape N bn" using assms(1,3) by simp
  obtain c where c: "netblk_drain_writes so bn = (True, c)" using drain_writes_disk [OF assms(2) sh] by blast
  have rc: "read_cache c = read_cache bn" using drain_writes_drained [OF sh, of so] c by (simp add: drained_def)
  let ?w = "\<lparr>wdata = old @ rest, wsector = 0, wcount = 2\<rparr>"
  have hs: "hit_sectors ?w 0 1 = 1" by (simp add: hit_sectors_def window_end_def)
  have "\<exists>b. read_loop so 0 1 k = Inr (Some old, b)" if "read_cache k = ?w # ws" for k
  proof -
    have "netblk_find_cache k 0 = Some ?w" using that by (simp add: netblk_find_cache_def window_has_def window_end_def)
    then show ?thesis using hs assms(6,7) by (simp add: read_loop.simps [of so 0 1] read_loop.simps [of so 1 1] Let_def)
  qed
  then obtain b where "netblk_read_async so 0 1 bn = Inr (Some old, b)" using c rc assms(5) o by (fastforce simp: netblk_read_async_def)
  then show ?thesis by (rule that)
qed

lemma stale_run:
  assumes "N = 2" "good (fd bn)" "shape 2 bn" "bn_max_sectors bn \<le> M" "\<not> bn_read_only bn" "writable bn" "read_cache bn = replicate 16 no_window"
    "read_cache_next bn = 0" "writeback bn = []" "writeback_enabled bn" "pcmalloc_ok bn" "prefetch_sectors bn = 64" "length x = 512"
  obtains b where "device_run so [Put 0 1 x, Get 1 1, Get 0 1] bn = Inr ([Some [], Some (disk (fd bn) 1), Some (disk (fd bn) 0)], b)"
proof -
  obtain b where b: "netblk_write_async so 0 x 1 bn = Inr (True, b)" "fd b = fd bn" "writeback b = [\<lparr>dsector = 0, ddirty = True, ddata = x\<rparr>]"
    "read_cache b = replicate 16 no_window" "read_cache_next b = read_cache_next bn" "shape 2 b" "frame bn b" "bn_write_sectors b = 0"
    by (rule fresh_put [OF assms(3,5,6,7,9,10,11,13)])
  have f: "good (fd b)" "bn_max_sectors b \<le> M" "read_cache_next b = 0" "prefetch_sectors b = 64" using b assms by (simp_all add: frame_def)
  obtain c where c: "netblk_read_async so 1 1 b = Inr (Some (disk (fd b) 1), c)" "good (fd c)" "shape 2 c" "frame b c"
    "read_cache c = \<lparr>wdata = disk (fd b) 0 @ disk (fd b) 1, wsector = 0, wcount = 2\<rparr> # replicate 15 no_window"
    by (rule prefetch_old [OF assms(1) f(1) b(6) f(2) b(4) f(3) b(3,8) f(4)])
  have m: "bn_max_sectors c \<le> M" using c(4) f(2) by (simp add: frame_def)
  have len: "length (disk (fd b) 0) = 512" "length (disk (fd b) 1) = 512" using sector_law [OF f(1)] assms(1) by simp_all
  obtain d where "netblk_read_async so 0 1 c = Inr (Some (disk (fd b) 0), d)" by (rule stale_again [OF assms(1) c(2,3) m c(5) len])
  then show ?thesis using that b c by simp
qed

end

section \<open>Properties\<close>

text \<open>
  C36: the network disk is a disk.  A client that opens a writable server started on any image
  of at least a sector, with a prefetch of one sector and any setting of the write-back cache,
  and runs any sequence of reads, writes and flushes gets from each the result of the flat disk
  that the image holds: the windows, the write buffer, the write-back table, their drains and the
  server's own handling of the requests are invisible.
\<close>

theorem net_disk_refines:
  assumes "server_start args (Some img) mapped = Inr st" "length img < 2 ^ 63" "512 \<le> length img" "\<not> read_only (cfg st)"
    and "length telemetry = 72" "list_all op_ok xs"
  shows "\<exists>bn b. netblk_open wire_socket (new_wire st) False profile we (Some 1) alloc telemetry = Some bn \<and>
    device_run wire_socket xs bn = Inr (fst (flat_run (length img div 512) (int (unat (max_sectors (cfg st)))) xs (sector_at img)), b)"
proof -
  obtain bn M where o: "netblk_open wire_socket (new_wire st) False profile we (Some 1) alloc telemetry = Some bn" "wire_good (length img div 512) M (fd bn)"
    "shape (length img div 512) bn" "coherent wire_disk bn" "bn_max_sectors bn \<le> M" "\<not> bn_read_only bn" "writable bn"
    "view wire_disk bn = sector_at img" "prefetch_sectors bn = 1" "bn_max_sectors bn = int (unat (max_sectors (cfg st)))"
    by (rule open_wire_good [OF assms(1-5), where pe = "Some 1"]) (use that in blast)
  have l: "linked wire_disk (wire_good (length img div 512) M) (length img div 512) M bn" using o by (simp add: linked_def)
  have v: "\<forall>i < length img div 512. view wire_disk bn i = sector_at img i" using o(8) by simp
  show ?thesis using served.device_run_refines [OF l o(9) assms(6) v] o(1) unfolding o(10) by force
qed

theorem net_disk_refines_witness:
  "\<exists>st bn b. server_start [''disk.img''] (Some (replicate 1024 0)) True = Inr st \<and>
     netblk_open wire_socket (new_wire st) False None None (Some 1) True (replicate 72 0) = Some bn \<and>
     device_run wire_socket [Put 1 1 (replicate 512 7), Sync, Get 1 1, Get 2 1] bn = Inr ([Some [], Some [], Some (replicate 512 7), None], b)"
proof -
  obtain st where st: "server_start [''disk.img''] (Some (replicate 1024 0)) True = Inr st" "\<not> read_only (cfg st)" "max_sectors (cfg st) = 1024"
    using demo_start by blast
  have "flat_run 2 1024 [Put 1 1 (replicate 512 7), Sync, Get 1 1, Get 2 1] (sector_at (replicate 1024 0)) =
      ([Some [], Some [], Some (replicate 512 7), None], overlay (sector_at (replicate 1024 0)) 1 1 (replicate 512 7))"
    by (simp add: flat_out_def overlay_def sector_at_def)
  then show ?thesis
    using net_disk_refines [OF st(1) _ _ st(2), of "replicate 72 0" "[Put 1 1 (replicate 512 7), Sync, Get 1 1, Get 2 1]" None None True] st
    by auto
qed

text \<open>
  C37: a flush brings every write to the server.  Whatever the settings of prefetch and write-back
  cache, after any sequence of reads and writes a flush returns success, and every sector of the
  server's image file then is the one that the writes give when they are applied in their order to
  the image.
\<close>

theorem flush_commits:
  assumes "server_start args (Some img) mapped = Inr st" "length img < 2 ^ 63" "512 \<le> length img" "\<not> read_only (cfg st)"
    and "length telemetry = 72" "list_all op_ok xs"
  shows "\<exists>bn rs b. netblk_open wire_socket (new_wire st) False profile we pe alloc telemetry = Some bn \<and>
    device_run wire_socket (xs @ [Sync]) bn = Inr (rs, b) \<and> length rs = Suc (length xs) \<and> last rs = Some [] \<and>
    (\<forall>i < length img div 512. sector_at (image_file (wire_server (fd b))) i =
       snd (flat_run (length img div 512) (int (unat (max_sectors (cfg st)))) xs (sector_at img)) i)"
proof -
  obtain bn M where o: "netblk_open wire_socket (new_wire st) False profile we pe alloc telemetry = Some bn" "wire_good (length img div 512) M (fd bn)"
    "shape (length img div 512) bn" "bn_max_sectors bn \<le> M" "\<not> bn_read_only bn" "writable bn"
    "view wire_disk bn = sector_at img" "bn_max_sectors bn = int (unat (max_sectors (cfg st)))"
    by (rule open_wire_good [OF assms(1-5)]) (use that in blast)
  have v: "\<forall>i < length img div 512. view wire_disk bn i = sector_at img i" using o(7) by simp
  show ?thesis using served.device_run_view [OF o(2-6) assms(6) v] o(1) unfolding o(8) wire_disk_def by blast
qed

theorem flush_commits_witness:
  "\<exists>st bn rs b. server_start [''disk.img''] (Some (replicate 1024 0)) True = Inr st \<and>
     netblk_open wire_socket (new_wire st) False None None None True (replicate 72 0) = Some bn \<and>
     device_run wire_socket [Put 1 1 (replicate 512 7), Sync] bn = Inr (rs, b) \<and> last rs = Some [] \<and>
     sector_at (image_file (wire_server (fd b))) 1 = replicate 512 7"
proof -
  obtain st where st: "server_start [''disk.img''] (Some (replicate 1024 0)) True = Inr st" "\<not> read_only (cfg st)" "max_sectors (cfg st) = 1024"
    using demo_start by blast
  have "snd (flat_run 2 1024 [Put 1 1 (replicate 512 7)] (sector_at (replicate 1024 0))) 1 = replicate 512 7"
    by (simp add: flat_out_def overlay_def sector_at_def)
  then show ?thesis
    using flush_commits [OF st(1) _ _ st(2), of "replicate 72 0" "[Put 1 1 (replicate 512 7)]" None None None True] st by force
qed

text \<open>
  C38: no server can make the client leave its buffers.  On a device opened over any socket that never
  delivers more bytes than asked for, with a server that announces fewer than \<open>2 ^ 55\<close> sectors (below
  that the byte offset of a sector does not wrap), whatever it answers and whichever call fails, every
  sequence of reads, writes and flushes runs without an access outside the windows, the write buffer or
  the write-back table, and a read that reports success returns exactly the bytes of its sectors.
\<close>

theorem net_disk_safe:
  assumes "sane so" "netblk_open so f ro profile we pe alloc telemetry = Some bn" "unat (nb_sectors bn) < 2 ^ 55" "list_all op_ok xs"
  shows "\<exists>rs b. device_run so xs bn = Inr (rs, b) \<and>
    list_all2 (\<lambda>x r. \<forall>s n d. x = Get s n \<and> r = Some d \<longrightarrow> length d = 512 * nat n) xs rs"
proof -
  obtain hello g where "bn = netblk_setup g ro hello we pe alloc"
    using assms(2) by (auto simp: netblk_open_def split: option.splits prod.splits if_splits)
  then have "shape (unat (nb_sectors bn)) bn" using setup_shape [of hello g ro we pe alloc] assms(3) by simp
  then show ?thesis using device_run_safe [OF assms(1) _ assms(4)] by blast
qed

theorem net_disk_safe_witness:
  "\<exists>st bn rs b. server_start [''disk.img''] (Some (replicate 1024 0)) True = Inr st \<and>
     netblk_open wire_socket (new_wire st) False None None None True (replicate 72 0) = Some bn \<and>
     device_run wire_socket [Get 0 1, Get 5 3] bn = Inr (rs, b) \<and> length rs = 2"
proof -
  obtain st where st: "server_start [''disk.img''] (Some (replicate 1024 0)) True = Inr st" "\<not> read_only (cfg st)" using demo_start by blast
  obtain bn M where o: "netblk_open wire_socket (new_wire st) False None None None True (replicate 72 0) = Some bn" "shape (length (replicate 1024 (0 :: u8)) div 512) bn"
    by (rule open_wire_good [OF st(1) _ _ st(2), of "replicate 72 0" None None None True]) (use that in auto)
  have "unat (nb_sectors bn) < 2 ^ 55" using o(2) by (simp add: shape_def)
  then obtain rs b where "device_run wire_socket [Get 0 1, Get 5 3] bn = Inr (rs, b)"
      "list_all2 (\<lambda>x r. \<forall>s n d. x = Get s n \<and> r = Some d \<longrightarrow> length d = 512 * nat n) [Get 0 1, Get 5 3] rs"
    using net_disk_safe [OF wire_sane o(1), of "[Get 0 1, Get 5 3]"] by auto
  then show ?thesis using st(1) o(1) list_all2_lengthD by fastforce
qed

text \<open>
  C39: with the default settings a read can return data older than a write that succeeded before it.  On a
  disk of two sectors a client writes sector 0, reads sector 1 and reads sector 0: the prefetch of the
  first read stores the server's old sector 0 in a window while the write is still in the write-back
  table, and the second read, though it sends the write to the server, is answered from the window.
\<close>

theorem stale_prefetch:
  assumes "server_start args (Some img) mapped = Inr st" "length img = 1024" "\<not> read_only (cfg st)" "64 \<le> max_sectors (cfg st)"
    and "length telemetry = 72" "length x = 512"
  shows "\<exists>bn b. netblk_open wire_socket (new_wire st) False profile None None True telemetry = Some bn \<and>
    device_run wire_socket [Put 0 1 x, Get 1 1, Get 0 1] bn = Inr ([Some [], Some (drop 512 img), Some (take 512 img)], b)"
proof -
  have i: "length img < 2 ^ 63" "512 \<le> length img" "length img div 512 = 2" using assms(2) by simp_all
  obtain bn M where o: "netblk_open wire_socket (new_wire st) False profile None None True telemetry = Some bn" "wire_good 2 M (fd bn)"
    "shape 2 bn" "bn_max_sectors bn \<le> M" "\<not> bn_read_only bn" "writable bn" "view wire_disk bn = sector_at img"
    "bn_max_sectors bn = int (unat (max_sectors (cfg st)))"
    by (rule open_wire_good [OF assms(1) i(1,2) assms(3,5), where pe = None, unfolded i(3)]) (use that in blast)
  obtain g hello where s: "bn = netblk_setup g False hello None None True"
    using o(1) by (auto simp: netblk_open_def split: option.splits prod.splits if_splits)
  have "64 \<le> unat (max_sectors (cfg st))" using assms(4) by (simp add: word_le_nat_alt)
  then have m: "64 \<le> bn_max_sectors bn" using o(8) by linarith
  have p: "prefetch_sectors bn = 64" using m unfolding s by (auto simp: netblk_setup_def Let_def split: if_splits)
  have r: "read_cache bn = replicate 16 no_window" "read_cache_next bn = 0" "writeback bn = []" "writeback_enabled bn" "pcmalloc_ok bn"
    unfolding s by (simp_all add: netblk_setup_def Let_def)
  have d: "wire_disk (fd bn) = sector_at img" using o(7) by (simp add: s view_def patched_def fun_eq_iff)
  obtain b where "device_run wire_socket [Put 0 1 x, Get 1 1, Get 0 1] bn = Inr ([Some [], Some (wire_disk (fd bn) 1), Some (wire_disk (fd bn) 0)], b)"
    by (rule served.stale_run [OF refl o(2-6) r p assms(6)])
  then show ?thesis using o(1) assms(2) by (simp add: d sector_at_def)
qed

theorem stale_prefetch_witness:
  "\<exists>st bn b. server_start [''disk.img''] (Some (replicate 1024 0)) True = Inr st \<and>
     netblk_open wire_socket (new_wire st) False None None None True (replicate 72 0) = Some bn \<and>
     device_run wire_socket [Put 0 1 (replicate 512 7), Get 1 1, Get 0 1] bn = Inr ([Some [], Some (replicate 512 0), Some (replicate 512 0)], b)"
proof -
  obtain st where st: "server_start [''disk.img''] (Some (replicate 1024 0)) True = Inr st" "\<not> read_only (cfg st)" "max_sectors (cfg st) = 1024"
    using demo_start by blast
  then show ?thesis using stale_prefetch [OF st(1) _ st(2), of "replicate 72 0" "replicate 512 7" None] by auto
qed

text \<open>
  C40: a write that fails to reach the server is forgotten.  When the flush of a device with one dirty sector
  fails because the server refuses or drops the request, the next flush reports success after sending
  the flush request alone: the data is no longer marked dirty, and no request carries it any more.
\<close>

theorem failed_flush_forgets:
  assumes "\<not> bn_read_only bn" "writable bn" "writeback_alloc bn" "bn_write_sectors bn = 0" "writeback bn = [\<lparr>dsector = s, ddirty = True, ddata = d\<rparr>]"
    and "s < - 2" "netblk_request so (fd bn) 0 3 s 1 d 0 = (None, f1)" "netblk_request so f1 0 4 0 0 [] 0 = (Some r, f2)"
  shows "\<exists>b1 b2. netblk_flush so bn = (False, b1) \<and> netblk_flush so b1 = (True, b2) \<and> fd b2 = f2"
proof -
  have ne: "s < - 1" "s + 1 \<noteq> s" using assms(6) by (auto dest: order_less_le_trans)
  have bd: "best_dirty (writeback bn) = Some s" using assms(5) ne by (simp add: best_dirty_def)
  let ?e = "[\<lparr>dsector = s, ddirty = False, ddata = d\<rparr>]" and ?b = "bn\<lparr>writeback := [\<lparr>dsector = s, ddirty = False, ddata = d\<rparr>]\<rparr>"
  have "gather_run (Suc (Suc k)) s [\<lparr>dsector = s, ddirty = True, ddata = d\<rparr>] = ([d], ?e)" for k
    by (simp add: netblk_writeback_find_def is_dirty_def)
  from this [of 1022] have gr: "gather_run 1024 s (writeback bn) = ([d], ?e)" using assms(5) by simp
  have "drain_loop so bn = (False, ?b\<lparr>fd := f1\<rparr>)" using bd gr assms(7) by (simp add: drain_loop.simps [of so bn] net_write_def)
  then have 1: "netblk_flush so bn = (False, ?b\<lparr>fd := f1\<rparr>)"
    using assms(1-5) by (simp add: netblk_flush_def netblk_drain_writes_def netblk_flush_writes_def)
  have "drain_loop so (?b\<lparr>fd := f1\<rparr>) = (True, ?b\<lparr>fd := f1\<rparr>)" by (simp add: drain_loop.simps [of so "?b\<lparr>fd := f1\<rparr>"] best_dirty_def)
  then have "netblk_flush so (?b\<lparr>fd := f1\<rparr>) = (True, ?b\<lparr>fd := f1, writeback := [], fd := f2\<rparr>)"
    using assms(1-4,8) by (simp add: netblk_flush_def netblk_drain_writes_def netblk_flush_writes_def)
  with 1 show ?thesis by (intro exI [of _ "?b\<lparr>fd := f1\<rparr>"] exI [of _ "?b\<lparr>fd := f1, writeback := [], fd := f2\<rparr>"]) simp
qed

theorem failed_flush_forgets_witness:
  "\<exists>(so :: bool socket) bn b1 b2. writeback bn = [\<lparr>dsector = 0, ddirty = True, ddata = replicate 512 7\<rparr>] \<and>
     netblk_flush so bn = (False, b1) \<and> netblk_flush so b1 = (True, b2)"
proof -
  let ?reply = "encode_header (init_header 4 0 0 0 0 0)"
  define so where "so = \<lparr>net_send = (\<lambda>up buf. Some (if up then length buf else 0, True)), net_recv = (\<lambda>up n. Some (take n ?reply, up))\<rparr>"
  define bn where "bn = (netblk_setup False False (init_header 1 2 512 1024 0 1) None None True)
    \<lparr>writeback_alloc := True, writeback := [\<lparr>dsector = 0, ddirty = True, ddata = replicate 512 7\<rparr>]\<rparr>"
  have io: "net_send so up buf = Some (if up then length buf else 0, True)" "net_recv so up n = Some (take n ?reply, up)" for up buf n
    by (simp_all add: so_def)
  have l: "length (encode_header (netblk_header_init a b c d e)) = 32" for a b c d e by (simp add: header_init_eq)
  then have ne: "encode_header (netblk_header_init a b c d e) \<noteq> []" for a b c d e by (metis length_0_conv zero_neq_numeral)
  have "netblk_send_all so False (encode_header (netblk_header_init a b c d e)) = (False, True)" for a b c d e
    using ne by (simp add: netblk_send_all.simps [of so False "encode_header x" for x] io)
  then have w: "netblk_request so False 0 3 0 1 (replicate 512 7) 0 = (None, True)" by (simp add: netblk_request_def)
  have s: "netblk_send_all so True (encode_header (netblk_header_init a b c d e)) = (True, True)" for a b c d e
    using ne l [of a b c d e]
    by (simp add: netblk_send_all.simps [of so True "encode_header x" for x] netblk_send_all.simps [of so True "[]"] io)
  have r: "netblk_recv_all so True 32 = (Some ?reply, True)"
  proof -
    have "?reply \<noteq> []" using ne [of 4 0 0 0 0] by (simp add: header_init_eq)
    then show ?thesis by (simp add: netblk_recv_all.simps [of so True 32] netblk_recv_all.simps [of so True 0] io)
  qed
  have "decode_header ?reply = init_header 4 0 0 0 0 0" by (rule decode_encode) (simp add: wrbp_def)
  then have f: "netblk_request so True 0 4 0 0 [] 0 = (Some (init_header 4 0 0 0 0 0, []), True)"
    by (simp add: netblk_request_def s r netblk_header_ok_def Let_def)
  have b: "\<not> bn_read_only bn" "writable bn" "writeback_alloc bn" "bn_write_sectors bn = 0" "writeback bn = [\<lparr>dsector = 0, ddirty = True, ddata = replicate 512 7\<rparr>]"
    "fd bn = False" by (simp_all add: bn_def)
  have "(0 :: u64) < - 2" by (simp add: word_less_def)
  from failed_flush_forgets [OF b(1-5) this _ f] w b(5,6) show ?thesis by auto
qed

end
