(* ===== verification/ALU.thy ===== *)
theory ALU
  imports Prelude "HOL-Library.Signed_Division"
begin

text \<open>
  The arithmetic unit of the emulated processor (\<open>i386.c\<close>): the flags are
  computed lazily.  An instruction records its operands and result in the
  structure \<open>cc\<close> and the flags that depend on them in \<open>cc.mask\<close>; the functions
  \<open>get_CF\<close> to \<open>get_OF\<close> compute a flag when it is read and fall back to
  \<open>cpu->flags\<close> where the mask does not name it.

  The instruction macros take the operand width \<open>BIT\<close> as a parameter and are
  instantiated at 8, 16 and 32; here they are functions over words of any
  length, which the program uses at these three.  An operand is the value that
  the addressing mode loads, a result the value that it stores.
\<close>

section \<open>Flags\<close>

datatype cc_op =
    CC_ADC | CC_ADD | CC_SBB | CC_SUB
  | CC_NEG8 | CC_NEG16 | CC_NEG32
  | CC_DEC8 | CC_DEC16 | CC_DEC32
  | CC_INC8 | CC_INC16 | CC_INC32
  | CC_IMUL8 | CC_IMUL16 | CC_IMUL32 | CC_MUL8 | CC_MUL16 | CC_MUL32
  | CC_SAR | CC_SHL | CC_SHR
  | CC_SHLD | CC_SHRD | CC_BSF | CC_BSR
  | CC_AND | CC_OR | CC_XOR

abbreviation (input) "CF \<equiv> (0x1 :: u32)"
abbreviation (input) "PF \<equiv> (0x4 :: u32)"
abbreviation (input) "AF \<equiv> (0x10 :: u32)"
abbreviation (input) "ZF \<equiv> (0x40 :: u32)"
abbreviation (input) "SF \<equiv> (0x80 :: u32)"
abbreviation (input) "OF \<equiv> (0x800 :: u32)"

record ALU =
  eflags :: u32
  ccop :: cc_op
  dst :: u32
  dst2 :: u32
  src1 :: u32
  src2 :: u32
  ccmask :: u32

text \<open>
  \<open>sext8\<close>, \<open>sext16\<close> and \<open>sext32\<close> truncate their argument to the operand width
  and extend its sign to the machine word; \<open>sextw\<close> does the same to a value of
  the operand width.
\<close>

definition sextw :: "'a::len word \<Rightarrow> u32" where
  "sextw a = scast a"

definition sext :: "'a::len itself \<Rightarrow> u32 \<Rightarrow> u32" where
  "sext w v = sextw (ucast v :: 'a word)"

definition SET_BIT :: "u32 \<Rightarrow> bool \<Rightarrow> u32 \<Rightarrow> u32" where
  "SET_BIT w f m = (w AND NOT m) OR ((- of_bool f) AND m)"

definition get_CF :: "ALU \<Rightarrow> bool result" where
  "get_CF c =
     (if ccmask c AND CF \<noteq> 0 then
        (case ccop c of
           CC_ADC \<Rightarrow> Inr (dst c \<le> src2 c)
         | CC_ADD \<Rightarrow> Inr (dst c < src2 c)
         | CC_SBB \<Rightarrow> Inr (src1 c \<le> src2 c)
         | CC_SUB \<Rightarrow> Inr (src1 c < src2 c)
         | CC_NEG8 \<Rightarrow> Inr (dst c \<noteq> 0) | CC_NEG16 \<Rightarrow> Inr (dst c \<noteq> 0) | CC_NEG32 \<Rightarrow> Inr (dst c \<noteq> 0)
         | CC_DEC8 \<Rightarrow> Inl Assertion | CC_DEC16 \<Rightarrow> Inl Assertion | CC_DEC32 \<Rightarrow> Inl Assertion
         | CC_INC8 \<Rightarrow> Inl Assertion | CC_INC16 \<Rightarrow> Inl Assertion | CC_INC32 \<Rightarrow> Inl Assertion
         | CC_IMUL8 \<Rightarrow> Inr (sext TYPE(8) (dst c) \<noteq> dst c)
         | CC_IMUL16 \<Rightarrow> Inr (sext TYPE(16) (dst c) \<noteq> dst c)
         | CC_IMUL32 \<Rightarrow> Inr (signed_drop_bit 31 (dst c) \<noteq> dst2 c)
         | CC_MUL8 \<Rightarrow> Inr (drop_bit 8 (dst c) \<noteq> 0)
         | CC_MUL16 \<Rightarrow> Inr (drop_bit 16 (dst c) \<noteq> 0)
         | CC_MUL32 \<Rightarrow> Inr (dst2 c \<noteq> 0)
         | CC_SHL \<Rightarrow> Inr (dst2 c AND 1 \<noteq> 0) | CC_SHR \<Rightarrow> Inr (dst2 c AND 1 \<noteq> 0)
         | CC_SAR \<Rightarrow> Inr (dst2 c AND 1 \<noteq> 0)
         | CC_SHLD \<Rightarrow> Inr (drop_bit 31 (dst2 c) \<noteq> 0)
         | CC_SHRD \<Rightarrow> Inr (dst2 c AND 1 \<noteq> 0)
         | CC_BSF \<Rightarrow> Inr False | CC_BSR \<Rightarrow> Inr False
         | CC_AND \<Rightarrow> Inr False | CC_OR \<Rightarrow> Inr False | CC_XOR \<Rightarrow> Inr False)
      else Inr (eflags c AND CF \<noteq> 0))"

definition parity_tab :: "bool list" where
  "parity_tab = map (\<lambda>n. n = (1 :: nat)) [
  1, 0, 0, 1, 0, 1, 1, 0, 0, 1, 1, 0, 1, 0, 0, 1,
  0, 1, 1, 0, 1, 0, 0, 1, 1, 0, 0, 1, 0, 1, 1, 0,
  0, 1, 1, 0, 1, 0, 0, 1, 1, 0, 0, 1, 0, 1, 1, 0,
  1, 0, 0, 1, 0, 1, 1, 0, 0, 1, 1, 0, 1, 0, 0, 1,
  0, 1, 1, 0, 1, 0, 0, 1, 1, 0, 0, 1, 0, 1, 1, 0,
  1, 0, 0, 1, 0, 1, 1, 0, 0, 1, 1, 0, 1, 0, 0, 1,
  1, 0, 0, 1, 0, 1, 1, 0, 0, 1, 1, 0, 1, 0, 0, 1,
  0, 1, 1, 0, 1, 0, 0, 1, 1, 0, 0, 1, 0, 1, 1, 0,
  0, 1, 1, 0, 1, 0, 0, 1, 1, 0, 0, 1, 0, 1, 1, 0,
  1, 0, 0, 1, 0, 1, 1, 0, 0, 1, 1, 0, 1, 0, 0, 1,
  1, 0, 0, 1, 0, 1, 1, 0, 0, 1, 1, 0, 1, 0, 0, 1,
  0, 1, 1, 0, 1, 0, 0, 1, 1, 0, 0, 1, 0, 1, 1, 0,
  1, 0, 0, 1, 0, 1, 1, 0, 0, 1, 1, 0, 1, 0, 0, 1,
  0, 1, 1, 0, 1, 0, 0, 1, 1, 0, 0, 1, 0, 1, 1, 0,
  0, 1, 1, 0, 1, 0, 0, 1, 1, 0, 0, 1, 0, 1, 1, 0,
  1, 0, 0, 1, 0, 1, 1, 0, 0, 1, 1, 0, 1, 0, 0, 1]"

definition get_PF :: "ALU \<Rightarrow> bool" where
  "get_PF c =
     (if ccmask c AND PF \<noteq> 0 then parity_tab ! unat (dst c AND 0xff) else eflags c AND PF \<noteq> 0)"

definition get_AF :: "ALU \<Rightarrow> bool" where
  "get_AF c =
     (if ccmask c AND AF \<noteq> 0 then
        (if ccop c \<in> {CC_ADC, CC_ADD, CC_SBB, CC_SUB} then
           drop_bit 4 (src1 c XOR src2 c XOR dst c) AND 1 \<noteq> 0
         else if ccop c \<in> {CC_NEG8, CC_NEG16, CC_NEG32} then dst c AND 0xf \<noteq> 0
         else if ccop c \<in> {CC_DEC8, CC_DEC16, CC_DEC32} then dst c AND 0xf = 0xf
         else if ccop c \<in> {CC_INC8, CC_INC16, CC_INC32} then dst c AND 0xf = 0
         else False)
      else eflags c AND AF \<noteq> 0)"

definition get_ZF :: "ALU \<Rightarrow> bool" where
  "get_ZF c = (if ccmask c AND ZF \<noteq> 0 then dst c = 0 else eflags c AND ZF \<noteq> 0)"

definition get_SF :: "ALU \<Rightarrow> bool" where
  "get_SF c = (if ccmask c AND SF \<noteq> 0 then drop_bit 31 (dst c) \<noteq> 0 else eflags c AND SF \<noteq> 0)"

definition get_OF :: "ALU \<Rightarrow> bool result" where
  "get_OF c =
     (if ccmask c AND OF \<noteq> 0 then
        (case ccop c of
           CC_ADC \<Rightarrow> Inr (drop_bit 31 (NOT (src1 c XOR src2 c) AND (dst c XOR src2 c)) \<noteq> 0)
         | CC_ADD \<Rightarrow> Inr (drop_bit 31 (NOT (src1 c XOR src2 c) AND (dst c XOR src2 c)) \<noteq> 0)
         | CC_SBB \<Rightarrow> Inr (drop_bit 31 ((src1 c XOR src2 c) AND (dst c XOR src1 c)) \<noteq> 0)
         | CC_SUB \<Rightarrow> Inr (drop_bit 31 ((src1 c XOR src2 c) AND (dst c XOR src1 c)) \<noteq> 0)
         | CC_DEC8 \<Rightarrow> Inr (dst c = sext TYPE(8) (NOT 0x80))
         | CC_DEC16 \<Rightarrow> Inr (dst c = sext TYPE(16) (NOT 0x8000))
         | CC_DEC32 \<Rightarrow> Inr (dst c = sext TYPE(32) (NOT 0x80000000))
         | CC_INC8 \<Rightarrow> Inr (dst c = sext TYPE(8) 0x80) | CC_NEG8 \<Rightarrow> Inr (dst c = sext TYPE(8) 0x80)
         | CC_INC16 \<Rightarrow> Inr (dst c = sext TYPE(16) 0x8000) | CC_NEG16 \<Rightarrow> Inr (dst c = sext TYPE(16) 0x8000)
         | CC_INC32 \<Rightarrow> Inr (dst c = sext TYPE(32) 0x80000000) | CC_NEG32 \<Rightarrow> Inr (dst c = sext TYPE(32) 0x80000000)
         | CC_IMUL8 \<Rightarrow> get_CF c | CC_IMUL16 \<Rightarrow> get_CF c | CC_IMUL32 \<Rightarrow> get_CF c
         | CC_MUL8 \<Rightarrow> get_CF c | CC_MUL16 \<Rightarrow> get_CF c | CC_MUL32 \<Rightarrow> get_CF c
         | CC_SAR \<Rightarrow> Inr False
         | CC_SHL \<Rightarrow> Inr (drop_bit 31 (dst c) XOR (dst2 c AND 1) \<noteq> 0)
         | CC_SHR \<Rightarrow> Inr (drop_bit 31 (src1 c) \<noteq> 0)
         | CC_SHLD \<Rightarrow> Inr (drop_bit 31 (src1 c XOR dst c) \<noteq> 0)
         | CC_SHRD \<Rightarrow> Inr (drop_bit 31 (src1 c XOR dst c) \<noteq> 0)
         | CC_BSF \<Rightarrow> Inr False | CC_BSR \<Rightarrow> Inr False
         | CC_AND \<Rightarrow> Inr False | CC_OR \<Rightarrow> Inr False | CC_XOR \<Rightarrow> Inr False)
      else Inr (eflags c AND OF \<noteq> 0))"

text \<open>
  \<open>refresh_flags\<close> stores the six flags; a flag read after an assignment sees the
  flags assigned before it.
\<close>

definition refresh_flags :: "ALU \<Rightarrow> ALU result" where
  "refresh_flags c0 =
     bind_result (get_CF c0) (\<lambda>cf.
       let c1 = c0\<lparr>eflags := SET_BIT (eflags c0) cf CF\<rparr>;
           c2 = c1\<lparr>eflags := SET_BIT (eflags c1) (get_PF c1) PF\<rparr>;
           c3 = c2\<lparr>eflags := SET_BIT (eflags c2) (get_AF c2) AF\<rparr>;
           c4 = c3\<lparr>eflags := SET_BIT (eflags c3) (get_ZF c3) ZF\<rparr>;
           c5 = c4\<lparr>eflags := SET_BIT (eflags c4) (get_SF c4) SF\<rparr>
       in bind_result (get_OF c5) (\<lambda>ov. Inr (c5\<lparr>eflags := SET_BIT (eflags c5) ov OF\<rparr>)))"

section \<open>Arithmetic and logic\<close>

abbreviation (input) "MASK_ALL \<equiv> CF OR PF OR AF OR ZF OR SF OR OF"
abbreviation (input) "MASK_NO_AF \<equiv> CF OR PF OR ZF OR SF OR OF"
abbreviation (input) "MASK_NO_CF \<equiv> PF OR AF OR ZF OR SF OR OF"

definition by_width :: "'a::len itself \<Rightarrow> cc_op \<Rightarrow> cc_op \<Rightarrow> cc_op \<Rightarrow> cc_op" where
  "by_width w o8 o16 o32 = (if LENGTH('a) = 8 then o8 else if LENGTH('a) = 16 then o16 else o32)"

text \<open>\<open>ADC\<close> and \<open>SBB\<close>: the operation \<open>f\<close> is the addition or the subtraction.\<close>

definition ACOP_helper ::
  "cc_op \<Rightarrow> cc_op \<Rightarrow> (u32 \<Rightarrow> u32 \<Rightarrow> u32) \<Rightarrow> 'a::len word \<Rightarrow> 'a word \<Rightarrow> ALU \<Rightarrow> ('a word \<times> ALU) result" where
  "ACOP_helper name1 name2 f a b c =
     bind_result (get_CF c) (\<lambda>cf.
       let r = sext TYPE('a) (f (f (sextw a) (sextw b)) (of_bool cf))
       in Inr (ucast r, c\<lparr>src1 := sextw a, src2 := sextw b, dst := r,
                ccop := if cf then name1 else name2, ccmask := MASK_ALL\<rparr>))"

definition AOP0_helper :: "cc_op \<Rightarrow> (u32 \<Rightarrow> u32 \<Rightarrow> u32) \<Rightarrow> 'a::len word \<Rightarrow> 'a word \<Rightarrow> ALU \<Rightarrow> ALU" where
  "AOP0_helper name f a b c =
     c\<lparr>src1 := sextw a, src2 := sextw b, dst := sext TYPE('a) (f (sextw a) (sextw b)),
       ccop := name, ccmask := MASK_ALL\<rparr>"

definition LOP0_helper :: "cc_op \<Rightarrow> ('a::len word \<Rightarrow> 'a word \<Rightarrow> 'a word) \<Rightarrow> 'a word \<Rightarrow> 'a word \<Rightarrow> ALU \<Rightarrow> ALU" where
  "LOP0_helper name f a b c = c\<lparr>dst := sextw (f a b), ccop := name, ccmask := MASK_NO_AF\<rparr>"

definition AOP_helper ::
  "cc_op \<Rightarrow> (u32 \<Rightarrow> u32 \<Rightarrow> u32) \<Rightarrow> 'a::len word \<Rightarrow> 'a word \<Rightarrow> ALU \<Rightarrow> 'a word \<times> ALU" where
  "AOP_helper name f a b c = (let c1 = AOP0_helper name f a b c in (ucast (dst c1), c1))"

definition LOP_helper ::
  "cc_op \<Rightarrow> ('a::len word \<Rightarrow> 'a word \<Rightarrow> 'a word) \<Rightarrow> 'a word \<Rightarrow> 'a word \<Rightarrow> ALU \<Rightarrow> 'a word \<times> ALU" where
  "LOP_helper name f a b c = (let c1 = LOP0_helper name f a b c in (ucast (dst c1), c1))"

definition INCDEC_helper ::
  "cc_op \<Rightarrow> (u32 \<Rightarrow> u32 \<Rightarrow> u32) \<Rightarrow> 'a::len word \<Rightarrow> ALU \<Rightarrow> ('a word \<times> ALU) result" where
  "INCDEC_helper name f a c =
     bind_result (get_CF c) (\<lambda>cf.
       let r = sext TYPE('a) (f (sextw a) 1)
       in Inr (ucast r, c\<lparr>dst := r, ccop := name, eflags := SET_BIT (eflags c) cf CF, ccmask := MASK_NO_CF\<rparr>))"

definition NEG_helper :: "'a::len word \<Rightarrow> ALU \<Rightarrow> 'a word \<times> ALU" where
  "NEG_helper a c =
     (let r = sext TYPE('a) (- sextw a)
      in (ucast r, c\<lparr>src1 := sextw a, dst := r, ccop := by_width TYPE('a) CC_NEG8 CC_NEG16 CC_NEG32,
            ccmask := MASK_ALL\<rparr>))"

definition ADC :: "'a::len word \<Rightarrow> 'a word \<Rightarrow> ALU \<Rightarrow> ('a word \<times> ALU) result" where
  "ADC = ACOP_helper CC_ADC CC_ADD (+)"

definition SBB :: "'a::len word \<Rightarrow> 'a word \<Rightarrow> ALU \<Rightarrow> ('a word \<times> ALU) result" where
  "SBB = ACOP_helper CC_SBB CC_SUB (-)"

definition ADD :: "'a::len word \<Rightarrow> 'a word \<Rightarrow> ALU \<Rightarrow> 'a word \<times> ALU" where
  "ADD = AOP_helper CC_ADD (+)"

definition SUB :: "'a::len word \<Rightarrow> 'a word \<Rightarrow> ALU \<Rightarrow> 'a word \<times> ALU" where
  "SUB = AOP_helper CC_SUB (-)"

definition ORl :: "'a::len word \<Rightarrow> 'a word \<Rightarrow> ALU \<Rightarrow> 'a word \<times> ALU" where
  "ORl = LOP_helper CC_OR (OR)"

definition ANDl :: "'a::len word \<Rightarrow> 'a word \<Rightarrow> ALU \<Rightarrow> 'a word \<times> ALU" where
  "ANDl = LOP_helper CC_AND (AND)"

definition XORl :: "'a::len word \<Rightarrow> 'a word \<Rightarrow> ALU \<Rightarrow> 'a word \<times> ALU" where
  "XORl = LOP_helper CC_XOR (XOR)"

text \<open>The flag part of \<open>CMP\<close> and \<open>TEST\<close>, which store no result.\<close>

definition CMP :: "'a::len word \<Rightarrow> 'a word \<Rightarrow> ALU \<Rightarrow> ALU" where
  "CMP = AOP0_helper CC_SUB (-)"

definition TEST :: "'a::len word \<Rightarrow> 'a word \<Rightarrow> ALU \<Rightarrow> ALU" where
  "TEST = LOP0_helper CC_AND (AND)"

definition INC :: "'a::len word \<Rightarrow> ALU \<Rightarrow> ('a word \<times> ALU) result" where
  "INC = INCDEC_helper (by_width TYPE('a) CC_INC8 CC_INC16 CC_INC32) (+)"

definition DEC :: "'a::len word \<Rightarrow> ALU \<Rightarrow> ('a word \<times> ALU) result" where
  "DEC = INCDEC_helper (by_width TYPE('a) CC_DEC8 CC_DEC16 CC_DEC32) (-)"

section \<open>Shifts and rotates\<close>

text \<open>
  A C shift of a 32-bit value by 32 or more is undefined.  The count operand
  \<open>b\<close> is the byte of \<open>CL\<close> or the immediate byte.
\<close>

definition shl :: "u32 \<Rightarrow> u32 \<Rightarrow> u32 result" where
  "shl x n = (if n < 32 then Inr (push_bit (unat n) x) else Inl ShiftRange)"

definition shr :: "u32 \<Rightarrow> u32 \<Rightarrow> u32 result" where
  "shr x n = (if n < 32 then Inr (drop_bit (unat n) x) else Inl ShiftRange)"

abbreviation (input) BIT :: "'a::len itself \<Rightarrow> u32" where
  "BIT w \<equiv> of_nat LENGTH('a)"

definition SHL_helper :: "'a::len word \<Rightarrow> u8 \<Rightarrow> ALU \<Rightarrow> ('a word \<times> ALU) result" where
  "SHL_helper a b c =
     (let x = ucast a :: u32; y = ucast b AND 0x1f :: u32
      in if y = 0 then Inr (a, c)
         else bind_result (shl x y) (\<lambda>l. bind_result (shr x (BIT TYPE('a) - y)) (\<lambda>h.
           let r = sext TYPE('a) l
           in Inr (ucast r, c\<lparr>dst := r, dst2 := h AND 1, ccop := CC_SHL, ccmask := MASK_NO_AF\<rparr>))))"

definition SHR_helper :: "'a::len word \<Rightarrow> u8 \<Rightarrow> ALU \<Rightarrow> ('a word \<times> ALU) result" where
  "SHR_helper a b c =
     (let x = ucast a :: u32; y = ucast b AND 0x1f :: u32
      in if y = 0 then Inr (a, c)
         else bind_result (shr x y) (\<lambda>l. bind_result (shr x (y - 1)) (\<lambda>h.
           let r = sext TYPE('a) l
           in Inr (ucast r, c\<lparr>src1 := sext TYPE('a) x, dst := r, dst2 := h AND 1, ccop := CC_SHR,
                    ccmask := MASK_NO_AF\<rparr>))))"

definition SAR_helper :: "'a::len word \<Rightarrow> u8 \<Rightarrow> ALU \<Rightarrow> 'a word \<times> ALU" where
  "SAR_helper a b c =
     (let x = sextw a; y = unat (ucast b AND 0x1f :: u32)
      in if y = 0 then (a, c)
         else let r = signed_drop_bit y x
              in (ucast r, c\<lparr>dst := r, dst2 := signed_drop_bit (y - 1) x AND 1, ccop := CC_SAR,
                    ccmask := MASK_NO_AF\<rparr>))"

text \<open>The part that the four rotates share: carry and overflow are stored, the other flags stay lazy.\<close>

definition rotate_flags :: "bool \<Rightarrow> bool \<Rightarrow> ALU \<Rightarrow> ALU" where
  "rotate_flags cf1 of1 c =
     c\<lparr>eflags := SET_BIT (SET_BIT (eflags c) cf1 CF) of1 OF, ccmask := ccmask c AND NOT (CF OR OF)\<rparr>"

definition ROL_helper :: "'a::len word \<Rightarrow> u8 \<Rightarrow> ALU \<Rightarrow> ('a word \<times> ALU) result" where
  "ROL_helper a b c =
     (let x = ucast a :: u32; y0 = ucast b :: u32; y = y0 AND (BIT TYPE('a) - 1)
      in bind_result
           (if y = 0 then Inr x
            else bind_result (shl x y) (\<lambda>l. bind_result (shr x (BIT TYPE('a) - y)) (\<lambda>h.
              Inr (sext TYPE('a) (l OR h))))) (\<lambda>res.
         let r = (if y = 0 then a else ucast res);
             cf1 = res AND 1 \<noteq> 0; of1 = (drop_bit 31 res XOR of_bool cf1 \<noteq> 0)
         in Inr (r, if y0 = 0 then c else rotate_flags cf1 of1 c)))"

definition ROR_helper :: "'a::len word \<Rightarrow> u8 \<Rightarrow> ALU \<Rightarrow> ('a word \<times> ALU) result" where
  "ROR_helper a b c =
     (let x = ucast a :: u32; y0 = ucast b :: u32; y = y0 AND (BIT TYPE('a) - 1)
      in bind_result
           (if y = 0 then Inr x
            else bind_result (shr x y) (\<lambda>l. bind_result (shl x (BIT TYPE('a) - y)) (\<lambda>h.
              Inr (sext TYPE('a) (l OR h))))) (\<lambda>res.
         let r = (if y = 0 then a else ucast res);
             cf1 = drop_bit (LENGTH('a) - 1) res AND 1 \<noteq> 0;
             of1 = drop_bit (LENGTH('a) - 1) (res XOR push_bit 1 res) AND 1 \<noteq> 0
         in Inr (r, if y0 = 0 then c else rotate_flags cf1 of1 c)))"

definition RCL_helper :: "'a::len word \<Rightarrow> u8 \<Rightarrow> ALU \<Rightarrow> ('a word \<times> ALU) result" where
  "RCL_helper a b c =
     (let x = ucast a :: u32; y = (ucast b AND 0x1f) mod (BIT TYPE('a) + 1) :: u32
      in if y = 0 then Inr (a, c)
         else bind_result (get_CF c) (\<lambda>cf.
           bind_result (shl x y) (\<lambda>l. bind_result (shl (of_bool cf) (y - 1)) (\<lambda>m.
           bind_result (if y \<noteq> 1 then shr x (BIT TYPE('a) + 1 - y) else Inr 0) (\<lambda>h.
           bind_result (shr x (BIT TYPE('a) - y)) (\<lambda>o1.
             let res = sext TYPE('a) (l OR m OR h);
                 cf1 = o1 AND 1 \<noteq> 0; of1 = (drop_bit 31 res XOR of_bool cf1 \<noteq> 0)
             in Inr (ucast res, rotate_flags cf1 of1 c)))))))"

definition RCR_helper :: "'a::len word \<Rightarrow> u8 \<Rightarrow> ALU \<Rightarrow> ('a word \<times> ALU) result" where
  "RCR_helper a b c =
     (let x = ucast a :: u32; y = (ucast b AND 0x1f) mod (BIT TYPE('a) + 1) :: u32
      in if y = 0 then Inr (a, c)
         else bind_result (get_CF c) (\<lambda>cf.
           bind_result (shr x y) (\<lambda>l. bind_result (shl (of_bool cf) (BIT TYPE('a) - y)) (\<lambda>m.
           bind_result (if y \<noteq> 1 then shl x (BIT TYPE('a) + 1 - y) else Inr 0) (\<lambda>h.
           bind_result (shl x (BIT TYPE('a) - y)) (\<lambda>o1.
             let res = sext TYPE('a) (l OR m OR h);
                 cf1 = drop_bit (LENGTH('a) - 1) (sext TYPE('a) o1) AND 1 \<noteq> 0;
                 of1 = drop_bit (LENGTH('a) - 1) (res XOR push_bit 1 res) AND 1 \<noteq> 0
             in Inr (ucast res, rotate_flags cf1 of1 c)))))))"

definition SHLD_helper :: "'a::len word \<Rightarrow> 'a word \<Rightarrow> u8 \<Rightarrow> ALU \<Rightarrow> ('a word \<times> ALU) result" where
  "SHLD_helper a b n c =
     (let cnt = ucast n AND 0x1f :: u32; x = ucast a :: u32; y = ucast b :: u32
      in if cnt = 0 then Inr (a, c)
         else let (x1, y1, k) = (if BIT TYPE('a) < cnt then (y, x, cnt - BIT TYPE('a)) else (x, y, cnt))
              in bind_result (shl x1 k) (\<lambda>l. bind_result (shr y1 (BIT TYPE('a) - k)) (\<lambda>h.
                 bind_result
                   (if k = 1 then Inr x1
                    else bind_result (shl x1 (k - 1)) (\<lambda>l2. bind_result (shr y1 (BIT TYPE('a) - (k - 1))) (\<lambda>h2.
                      Inr (l2 OR h2)))) (\<lambda>d2.
                 let r = sext TYPE('a) (l OR h)
                 in Inr (ucast r, c\<lparr>src1 := sext TYPE('a) x, dst := r, dst2 := sext TYPE('a) d2,
                          ccop := CC_SHLD, ccmask := MASK_NO_AF\<rparr>)))))"

definition SHRD_helper :: "'a::len word \<Rightarrow> 'a word \<Rightarrow> u8 \<Rightarrow> ALU \<Rightarrow> ('a word \<times> ALU) result" where
  "SHRD_helper a b n c =
     (let cnt = ucast n AND 0x1f :: u32; x = ucast a :: u32; y = ucast b :: u32
      in if cnt = 0 then Inr (a, c)
         else let (x1, y1, k) = (if BIT TYPE('a) < cnt then (y, x, cnt - BIT TYPE('a)) else (x, y, cnt))
              in bind_result (shr x1 k) (\<lambda>l. bind_result (shl y1 (BIT TYPE('a) - k)) (\<lambda>h.
                 bind_result
                   (if k = 1 then Inr x1
                    else bind_result (shr x1 (k - 1)) (\<lambda>l2. bind_result (shl y1 (BIT TYPE('a) - (k - 1))) (\<lambda>h2.
                      Inr (l2 OR h2)))) (\<lambda>d2.
                 let r = sext TYPE('a) (l OR h)
                 in Inr (ucast r, c\<lparr>src1 := sext TYPE('a) x1, dst := r, dst2 := sext TYPE('a) d2,
                          ccop := CC_SHRD, ccmask := MASK_NO_AF\<rparr>)))))"

section \<open>Multiplication and division\<close>

definition IMUL2w :: "u16 \<Rightarrow> u16 \<Rightarrow> ALU \<Rightarrow> u16 \<times> ALU" where
  "IMUL2w a b c =
     (let p = sextw a * sextw b
      in (ucast p, c\<lparr>src1 := sextw a, src2 := sextw b, dst := p, ccop := CC_IMUL16, ccmask := MASK_ALL\<rparr>))"

text \<open>The low and the high word of the 64-bit signed product.\<close>

definition imul64 :: "u32 \<Rightarrow> u32 \<Rightarrow> u32 \<times> u32" where
  "imul64 x y = (let res = sint x * sint y in (of_int res, of_int (res div 2 ^ 32)))"

definition IMUL2d :: "u32 \<Rightarrow> u32 \<Rightarrow> ALU \<Rightarrow> u32 \<times> ALU" where
  "IMUL2d a b c =
     (let (lo, hi) = imul64 (sextw a) (sextw b)
      in (lo, c\<lparr>src1 := sextw a, src2 := sextw b, dst := lo, dst2 := hi, ccop := CC_IMUL32, ccmask := MASK_ALL\<rparr>))"

text \<open>The three-operand forms; the immediate has the length \<open>'i\<close>.\<close>

definition IMUL2wI :: "u16 \<Rightarrow> 'i::len word \<Rightarrow> ALU \<Rightarrow> u16 \<times> ALU" where
  "IMUL2wI b i c =
     (let p = sextw b * sextw i
      in (ucast p, c\<lparr>src1 := sextw b, src2 := sextw i, dst := p, ccop := CC_IMUL16, ccmask := MASK_ALL\<rparr>))"

definition IMUL2dI :: "u32 \<Rightarrow> 'i::len word \<Rightarrow> ALU \<Rightarrow> u32 \<times> ALU" where
  "IMUL2dI b i c =
     (let (lo, hi) = imul64 (sextw b) (sextw i)
      in (lo, c\<lparr>src1 := sextw b, src2 := sextw i, dst := lo, dst2 := hi, ccop := CC_IMUL32, ccmask := MASK_ALL\<rparr>))"

text \<open>
  The one-operand forms multiply with the accumulator; the results are \<open>AX\<close>,
  \<open>AX\<close> and \<open>DX\<close>, or \<open>EAX\<close> and \<open>EDX\<close>.
\<close>

definition IMULb :: "u8 \<Rightarrow> u8 \<Rightarrow> ALU \<Rightarrow> u16 \<times> ALU" where
  "IMULb al a c =
     (let p = sextw al * sextw a
      in (ucast p, c\<lparr>src1 := sextw al, src2 := sextw a, dst := p, ccop := CC_IMUL8, ccmask := MASK_ALL\<rparr>))"

definition IMULw :: "u16 \<Rightarrow> u16 \<Rightarrow> ALU \<Rightarrow> (u16 \<times> u16) \<times> ALU" where
  "IMULw ax a c =
     (let p = sextw ax * sextw a
      in ((ucast p, ucast (drop_bit 16 p)),
          c\<lparr>src1 := sextw ax, src2 := sextw a, dst := p, ccop := CC_IMUL16, ccmask := MASK_ALL\<rparr>))"

definition IMULd :: "u32 \<Rightarrow> u32 \<Rightarrow> ALU \<Rightarrow> (u32 \<times> u32) \<times> ALU" where
  "IMULd eax a c =
     (let (lo, hi) = imul64 (sextw eax) (sextw a)
      in ((lo, hi), c\<lparr>src1 := sextw eax, src2 := sextw a, dst := lo, dst2 := hi, ccop := CC_IMUL32,
                      ccmask := MASK_ALL\<rparr>))"

definition MULb :: "u8 \<Rightarrow> u8 \<Rightarrow> ALU \<Rightarrow> u16 \<times> ALU" where
  "MULb al a c =
     (let p = sext TYPE(16) (ucast al * ucast a)
      in (ucast p, c\<lparr>src1 := ucast al, src2 := ucast a, dst := p, ccop := CC_MUL8, ccmask := MASK_ALL\<rparr>))"

definition MULw :: "u16 \<Rightarrow> u16 \<Rightarrow> ALU \<Rightarrow> (u16 \<times> u16) \<times> ALU" where
  "MULw ax a c =
     (let p = ucast ax * ucast a :: u32
      in ((ucast p, ucast (drop_bit 16 p)),
          c\<lparr>src1 := ucast ax, src2 := ucast a, dst := p, ccop := CC_MUL16, ccmask := MASK_ALL\<rparr>))"

definition MULd :: "u32 \<Rightarrow> u32 \<Rightarrow> ALU \<Rightarrow> (u32 \<times> u32) \<times> ALU" where
  "MULd eax a c =
     (let res = ucast eax * ucast a :: u64; lo = ucast res; hi = ucast (drop_bit 32 res)
      in ((lo, hi), c\<lparr>src1 := eax, src2 := a, dst := lo, dst2 := hi, ccop := CC_MUL32, ccmask := MASK_ALL\<rparr>))"

text \<open>
  A division throws the divide error (exception 0), or delivers quotient and
  remainder.  The C division truncates; dividing the smallest number of the type
  by \<open>-1\<close> is undefined.
\<close>

datatype 'a outcome = Fine 'a | Throw nat

abbreviation (input) "EX_DE \<equiv> (0 :: nat)"

definition sdiv_C :: "nat \<Rightarrow> int \<Rightarrow> int \<Rightarrow> (int \<times> int) result" where
  "sdiv_C n x y = (if x = - (2 ^ (n - 1)) \<and> y = -1 then Inl DivOverflow else Inr (x sdiv y, x smod y))"

definition IDIVb :: "u16 \<Rightarrow> u8 \<Rightarrow> (u8 \<times> u8) outcome result" where
  "IDIVb ax a =
     (let s1 = sint (sextw ax); s2 = sint (sextw a)
      in if s2 = 0 then Inr (Throw EX_DE)
         else bind_result (sdiv_C 32 s1 s2) (\<lambda>(q, r).
           if 127 < q \<or> q < -128 then Inr (Throw EX_DE) else Inr (Fine (of_int q, of_int r))))"

definition IDIVw :: "u16 \<Rightarrow> u16 \<Rightarrow> u16 \<Rightarrow> (u16 \<times> u16) outcome result" where
  "IDIVw ax dx a =
     (let s1 = sint (sext TYPE(32) (ucast ax OR push_bit 16 (ucast dx))); s2 = sint (sextw a)
      in if s2 = 0 then Inr (Throw EX_DE)
         else bind_result (sdiv_C 32 s1 s2) (\<lambda>(q, r).
           if 32767 < q \<or> q < -32768 then Inr (Throw EX_DE) else Inr (Fine (of_int q, of_int r))))"

definition IDIVd :: "u32 \<Rightarrow> u32 \<Rightarrow> u32 \<Rightarrow> (u32 \<times> u32) outcome result" where
  "IDIVd eax edx a =
     (let s1 = sint (push_bit 32 (ucast edx) OR ucast eax :: u64); s2 = sint a
      in if s2 = 0 then Inr (Throw EX_DE)
         else bind_result (sdiv_C 64 s1 s2) (\<lambda>(q, r).
           if 2147483647 < q \<or> q < -2147483648 then Inr (Throw EX_DE) else Inr (Fine (of_int q, of_int r))))"

definition DIVb :: "u16 \<Rightarrow> u8 \<Rightarrow> ALU \<Rightarrow> (u8 \<times> u8) outcome \<times> ALU" where
  "DIVb ax a c =
     (let s1 = ucast ax :: u32; s2 = ucast a :: u32; q = s1 div s2
      in if s2 = 0 then (Throw EX_DE, c)
         else if 0xff < q then (Throw EX_DE, c)
         else (Fine (ucast q, ucast (s1 mod s2)),
               if s1 = 5 \<and> s2 = 2 then c\<lparr>ccmask := ccmask c AND NOT ZF, eflags := eflags c OR ZF\<rparr> else c))"

definition DIVw :: "u16 \<Rightarrow> u16 \<Rightarrow> u16 \<Rightarrow> ALU \<Rightarrow> (u16 \<times> u16) outcome \<times> ALU" where
  "DIVw ax dx a c =
     (let s1 = ucast ax OR push_bit 16 (ucast dx) :: u32; s2 = ucast a :: u32; q = s1 div s2
      in if s2 = 0 then (Throw EX_DE, c)
         else if 0xffff < q then (Throw EX_DE, c)
         else (Fine (ucast q, ucast (s1 mod s2)),
               if s1 = 0x5555 \<and> s2 = 2 then c\<lparr>ccmask := ccmask c AND NOT ZF, eflags := eflags c AND NOT ZF\<rparr> else c))"

definition DIVd :: "u32 \<Rightarrow> u32 \<Rightarrow> u32 \<Rightarrow> (u32 \<times> u32) outcome" where
  "DIVd eax edx a =
     (let s1 = push_bit 32 (ucast edx) OR ucast eax :: u64; s2 = ucast a :: u64; q = s1 div s2
      in if s2 = 0 then Throw EX_DE
         else if 0xffffffff < q then Throw EX_DE
         else Fine (ucast q, ucast (s1 mod s2)))"

section \<open>Bit tests and bit scans\<close>

definition BT_helper :: "'a::len word \<Rightarrow> 'a word \<Rightarrow> ALU \<Rightarrow> ALU" where
  "BT_helper a b c =
     (let bb = unat b mod LENGTH('a)
      in c\<lparr>ccmask := ccmask c AND NOT CF, eflags := SET_BIT (eflags c) (drop_bit bb a AND 1 \<noteq> 0) CF\<rparr>)"

text \<open>\<open>BTS\<close>, \<open>BTR\<close> and \<open>BTC\<close>: the operation \<open>f\<close> combines the operand with the selected bit.\<close>

definition BTX_helper ::
  "('a::len word \<Rightarrow> 'a word \<Rightarrow> 'a word) \<Rightarrow> 'a word \<Rightarrow> 'a word \<Rightarrow> ALU \<Rightarrow> 'a word \<times> ALU" where
  "BTX_helper f a b c = (f a (push_bit (unat b mod LENGTH('a)) 1), BT_helper a b c)"

partial_function (option) bsf_loop :: "'a::len word \<Rightarrow> 'a word \<Rightarrow> 'a word option" where
  "bsf_loop src temp = (if src AND 1 = 0 then bsf_loop (drop_bit 1 src) (temp + 1) else Some temp)"

partial_function (option) bsr_loop :: "'a::len word \<Rightarrow> 'a word \<Rightarrow> 'a word option" where
  "bsr_loop src temp = (if 0 \<le> sint src then bsr_loop (push_bit 1 src) (temp - 1) else Some temp)"

text \<open>
  The result is the destination register, left alone where the source is zero;
  \<open>None\<close> where the scanning loop does not end.
\<close>

definition BSF_helper :: "'a::len word \<Rightarrow> 'a word \<Rightarrow> ALU \<Rightarrow> ('a word \<times> ALU) option" where
  "BSF_helper a src c =
     (if src = 0 then Some (a, c\<lparr>ccmask := 0, eflags := eflags c OR ZF\<rparr>)
      else map_option (\<lambda>t. (t, c\<lparr>ccmask := 0, eflags := eflags c AND NOT ZF\<rparr>)) (bsf_loop src 0))"

definition BSR_helper :: "'a::len word \<Rightarrow> 'a word \<Rightarrow> ALU \<Rightarrow> ('a word \<times> ALU) option" where
  "BSR_helper a src c =
     (if src = 0 then Some (a, c\<lparr>ccmask := 0, eflags := eflags c OR ZF\<rparr>)
      else map_option (\<lambda>t. (t, c\<lparr>ccmask := 0, eflags := eflags c AND NOT ZF\<rparr>))
        (bsr_loop src (of_nat (LENGTH('a) - 1))))"

section \<open>Flag instructions and decimal adjustment\<close>

definition LAHF :: "ALU \<Rightarrow> (u8 \<times> ALU) result" where
  "LAHF c = bind_result (refresh_flags c) (\<lambda>c1. Inr (ucast (eflags c1), c1\<lparr>ccmask := 0\<rparr>))"

text \<open>\<open>EFLAGS_MASK\<close> depends on the processor generation and is the argument \<open>fm\<close>.\<close>

definition SAHF :: "u32 \<Rightarrow> u8 \<Rightarrow> ALU \<Rightarrow> ALU" where
  "SAHF fm ah c =
     c\<lparr>ccmask := ccmask c AND OF,
       eflags := (((eflags c AND (0xffffffff XOR 0xff)) OR ucast ah) AND fm) OR 2\<rparr>"

definition CMC :: "ALU \<Rightarrow> ALU result" where
  "CMC c = bind_result (get_CF c) (\<lambda>cf.
     Inr (c\<lparr>ccmask := ccmask c AND NOT CF, eflags := SET_BIT (eflags c) (\<not> cf) CF\<rparr>))"

definition CLC :: "ALU \<Rightarrow> ALU" where
  "CLC c = c\<lparr>ccmask := ccmask c AND NOT CF, eflags := eflags c AND NOT CF\<rparr>"

definition STC :: "ALU \<Rightarrow> ALU" where
  "STC c = c\<lparr>ccmask := ccmask c AND NOT CF, eflags := eflags c OR CF\<rparr>"

definition SALC :: "ALU \<Rightarrow> u8 result" where
  "SALC c = bind_result (get_CF c) (\<lambda>cf. Inr (if cf then 0xff else 0))"

text \<open>The result is \<open>AL\<close> and \<open>AH\<close>.\<close>

definition AAD_helper :: "u8 \<Rightarrow> u8 \<Rightarrow> u8 \<Rightarrow> ALU \<Rightarrow> (u8 \<times> u8) \<times> ALU" where
  "AAD_helper al ah imm c =
     (let res = al + ah * imm
      in ((res, 0), c\<lparr>eflags := eflags c AND NOT (OF OR AF OR CF), dst := sextw res, ccmask := ZF OR SF OR PF\<rparr>))"

definition AAM_helper :: "u8 \<Rightarrow> u8 \<Rightarrow> ALU \<Rightarrow> ((u8 \<times> u8) \<times> ALU) result" where
  "AAM_helper al imm c =
     (if imm = 0 then Inl DivByZero
      else let res = al mod imm
           in Inr ((res, al div imm),
                c\<lparr>eflags := eflags c AND NOT (OF OR AF OR CF), dst := sextw res, ccmask := ZF OR SF OR PF\<rparr>))"

definition DAA_helper :: "u8 \<Rightarrow> ALU \<Rightarrow> (u8 \<times> ALU) result" where
  "DAA_helper al c =
     bind_result (get_CF c) (\<lambda>cf.
       let c1 = c\<lparr>eflags := eflags c AND NOT CF\<rparr>;
           (al1, f1) =
             (if 9 < al AND 0xf \<or> get_AF c1 then
                (al + 6, (if cf \<or> 0xff - 6 < al then eflags c1 OR CF else eflags c1) OR AF)
              else (al, eflags c1 AND NOT AF));
           (al2, f2) = (if 0x99 < al \<or> cf then (al1 + 0x60, f1 OR CF) else (al1, f1))
       in Inr (al2, c1\<lparr>eflags := f2, dst := sextw al2, ccmask := ZF OR SF OR PF\<rparr>))"

definition DAS_helper :: "u8 \<Rightarrow> ALU \<Rightarrow> (u8 \<times> ALU) result" where
  "DAS_helper al c =
     bind_result (get_CF c) (\<lambda>cf.
       let c1 = c\<lparr>eflags := eflags c AND NOT CF\<rparr>;
           (al1, f1) =
             (if 9 < al AND 0xf \<or> get_AF c1 then
                (al - 6, (if cf \<or> al < 6 then eflags c1 OR CF else eflags c1) OR AF)
              else (al, eflags c1 AND NOT AF));
           (al2, f2) = (if 0x99 < al \<or> cf then (al1 - 0x60, f1 OR CF) else (al1, f1))
       in Inr (al2, c1\<lparr>eflags := f2, dst := sextw al2, ccmask := ZF OR SF OR PF\<rparr>))"

text \<open>The result is \<open>AX\<close>; its low byte is replaced by the low digit at the end.\<close>

definition low_nibble :: "u16 \<Rightarrow> u16" where
  "low_nibble ax = (ax AND 0xff00) OR (ax AND 0xf)"

definition AAA_helper :: "u16 \<Rightarrow> ALU \<Rightarrow> u16 \<times> ALU" where
  "AAA_helper ax c =
     (let (ax1, f) = (if 9 < ax AND 0xf \<or> get_AF c then (ax + 0x106, eflags c OR (AF OR CF))
                      else (ax, eflags c AND NOT (AF OR CF)))
      in (low_nibble ax1, c\<lparr>eflags := f, ccmask := ZF OR SF OR PF\<rparr>))"

definition AAS_helper :: "u16 \<Rightarrow> ALU \<Rightarrow> u16 \<times> ALU" where
  "AAS_helper ax c =
     (let (ax1, f) = (if 9 < ax AND 0xf \<or> get_AF c
                      then (let a1 = ax - 6 in ((a1 AND 0xff) OR push_bit 8 (ucast (ucast (drop_bit 8 a1) - 1 :: u8)),
                            eflags c OR (AF OR CF)))
                      else (ax, eflags c AND NOT (AF OR CF)))
      in (low_nibble ax1, c\<lparr>eflags := f, ccmask := ZF OR SF OR PF\<rparr>))"

text \<open>
  \<open>CMPXCHG\<close> with destination \<open>a\<close>, source \<open>b\<close> and the accumulator; the result is
  the destination and the accumulator.  \<open>XADD\<close> returns destination and source.
\<close>

definition CMPXCH_helper :: "'a::len word \<Rightarrow> 'a word \<Rightarrow> 'a word \<Rightarrow> ALU \<Rightarrow> ('a word \<times> 'a word) \<times> ALU" where
  "CMPXCH_helper a b acc c =
     (let c1 = AOP0_helper CC_SUB (-) a acc c
      in if dst c1 = 0 then ((b, acc), c1) else ((a, ucast (src1 c1)), c1))"

definition XADD_helper :: "'a::len word \<Rightarrow> 'a word \<Rightarrow> ALU \<Rightarrow> ('a word \<times> 'a word) \<times> ALU" where
  "XADD_helper a b c = (let c1 = AOP0_helper CC_ADD (+) a b c in ((ucast (dst c1), a), c1))"

definition cpu_setflags :: "u32 \<Rightarrow> u32 \<Rightarrow> u32 \<Rightarrow> ALU \<Rightarrow> ALU result" where
  "cpu_setflags fm set_mask clear_mask c =
     bind_result
       (if ccmask c AND (set_mask OR clear_mask) \<noteq> 0
        then bind_result (refresh_flags c) (\<lambda>c1. Inr (c1\<lparr>ccmask := 0\<rparr>)) else Inr c)
       (\<lambda>c1. Inr (c1\<lparr>eflags := ((eflags c1 OR set_mask) AND NOT clear_mask) AND fm\<rparr>))"

definition cpu_getflags :: "ALU \<Rightarrow> (u32 \<times> ALU) result" where
  "cpu_getflags c =
     bind_result
       (if ccmask c \<noteq> 0 then bind_result (refresh_flags c) (\<lambda>c1. Inr (c1\<lparr>ccmask := 0\<rparr>)) else Inr c)
       (\<lambda>c1. Inr (eflags c1, c1))"

section \<open>Specification vocabulary\<close>

text \<open>
  The architectural flags, stated on the numbers that the operands denote:
  unsigned and signed range of the operand width, carry out of the low digit,
  zero, sign and even parity of the low byte of the result.
\<close>

record arch_flags =
  aCF :: bool
  aPF :: bool
  aAF :: bool
  aZF :: bool
  aSF :: bool
  aOF :: bool

definition in_range :: "'a::len itself \<Rightarrow> int \<Rightarrow> bool" where
  "in_range w v \<longleftrightarrow> - (2 ^ (LENGTH('a) - 1)) \<le> v \<and> v < 2 ^ (LENGTH('a) - 1)"

definition even_parity :: "'a::len word \<Rightarrow> bool" where
  "even_parity r \<longleftrightarrow> even (card {i. i < 8 \<and> bit r i})"

definition arch_result :: "'a::len word \<Rightarrow> bool \<Rightarrow> bool \<Rightarrow> bool \<Rightarrow> arch_flags" where
  "arch_result r cf af ov = \<lparr>aCF = cf, aPF = even_parity r, aAF = af, aZF = (r = 0), aSF = (sint r < 0), aOF = ov\<rparr>"

definition arch_add :: "'a::len word \<Rightarrow> 'a word \<Rightarrow> bool \<Rightarrow> arch_flags" where
  "arch_add a b c = arch_result (a + b + of_bool c)
     (2 ^ LENGTH('a) \<le> unat a + unat b + of_bool c)
     (16 \<le> unat a mod 16 + unat b mod 16 + of_bool c)
     (\<not> in_range TYPE('a) (sint a + sint b + of_bool c))"

definition arch_sub :: "'a::len word \<Rightarrow> 'a word \<Rightarrow> bool \<Rightarrow> arch_flags" where
  "arch_sub a b c = arch_result (a - b - of_bool c)
     (unat a < unat b + of_bool c)
     (unat a mod 16 < unat b mod 16 + of_bool c)
     (\<not> in_range TYPE('a) (sint a - sint b - of_bool c))"

text \<open>The flags that the processor reads.\<close>

definition observe :: "ALU \<Rightarrow> arch_flags result" where
  "observe c = bind_result (get_CF c) (\<lambda>cf. bind_result (get_OF c) (\<lambda>ov.
     Inr \<lparr>aCF = cf, aPF = get_PF c, aAF = get_AF c, aZF = get_ZF c, aSF = get_SF c, aOF = ov\<rparr>))"

text \<open>The parity table is built by doubling: the second half negates the first.\<close>

fun parity_rows :: "nat \<Rightarrow> bool list" where
  "parity_rows 0 = [True]"
| "parity_rows (Suc k) = parity_rows k @ map Not (parity_rows k)"

definition computes :: "('a::len word \<times> ALU) result \<Rightarrow> 'a word \<Rightarrow> arch_flags \<Rightarrow> bool" where
  "computes x r f \<longleftrightarrow> (\<exists>c. x = Inr (r, c) \<and> observe c = Inr f)"

text \<open>The widths at which the program instantiates the instructions.\<close>

definition operand_width :: "'a::len itself \<Rightarrow> bool" where
  "operand_width w \<longleftrightarrow> LENGTH('a) \<in> {8, 16, 32}"

text \<open>One arithmetic instruction at the operand width \<open>'a\<close>.\<close>

inductive alu_step :: "'a::len itself \<Rightarrow> ALU \<Rightarrow> ALU \<Rightarrow> bool" for w :: "'a itself" where
  "alu_step w c (snd (ADD (a :: 'a word) b c))"
| "alu_step w c (snd (SUB (a :: 'a word) b c))"
| "ADC (a :: 'a word) b c = Inr (r, c1) \<Longrightarrow> alu_step w c c1"
| "SBB (a :: 'a word) b c = Inr (r, c1) \<Longrightarrow> alu_step w c c1"
| "alu_step w c (CMP (a :: 'a word) b c)"
| "alu_step w c (TEST (a :: 'a word) b c)"
| "alu_step w c (snd (ANDl (a :: 'a word) b c))"
| "alu_step w c (snd (ORl (a :: 'a word) b c))"
| "alu_step w c (snd (XORl (a :: 'a word) b c))"
| "INC (a :: 'a word) c = Inr (r, c1) \<Longrightarrow> alu_step w c c1"
| "DEC (a :: 'a word) c = Inr (r, c1) \<Longrightarrow> alu_step w c c1"
| "alu_step w c (snd (NEG_helper (a :: 'a word) c))"
| "SHL_helper (a :: 'a word) n c = Inr (r, c1) \<Longrightarrow> alu_step w c c1"
| "SHR_helper (a :: 'a word) n c = Inr (r, c1) \<Longrightarrow> alu_step w c c1"
| "alu_step w c (snd (SAR_helper (a :: 'a word) n c))"
| "ROL_helper (a :: 'a word) n c = Inr (r, c1) \<Longrightarrow> alu_step w c c1"
| "ROR_helper (a :: 'a word) n c = Inr (r, c1) \<Longrightarrow> alu_step w c c1"
| "RCL_helper (a :: 'a word) n c = Inr (r, c1) \<Longrightarrow> alu_step w c c1"
| "RCR_helper (a :: 'a word) n c = Inr (r, c1) \<Longrightarrow> alu_step w c c1"
| "SHLD_helper (a :: 'a word) b n c = Inr (r, c1) \<Longrightarrow> alu_step w c c1"
| "SHRD_helper (a :: 'a word) b n c = Inr (r, c1) \<Longrightarrow> alu_step w c c1"
| "alu_step w c (BT_helper (a :: 'a word) b c)"
| "alu_step w c (snd (BTX_helper f (a :: 'a word) b c))"
| "BSF_helper (a :: 'a word) b c = Some (r, c1) \<Longrightarrow> alu_step w c c1"
| "BSR_helper (a :: 'a word) b c = Some (r, c1) \<Longrightarrow> alu_step w c c1"
| "alu_step w c (snd (CMPXCH_helper (a :: 'a word) b acc c))"
| "alu_step w c (snd (XADD_helper (a :: 'a word) b c))"

text \<open>
  The states of the flags that instructions reach from reset: instructions at
  the three widths, the multiplications and divisions, the flag instructions and
  the assignments of a new flags word (\<open>POPF\<close>, \<open>IRET\<close>, which clear the mask).
\<close>

inductive alu_reach :: "ALU \<Rightarrow> bool" where
  "ccmask c = 0 \<Longrightarrow> alu_reach c"
| "alu_reach c \<Longrightarrow> alu_step TYPE(8) c c1 \<Longrightarrow> alu_reach c1"
| "alu_reach c \<Longrightarrow> alu_step TYPE(16) c c1 \<Longrightarrow> alu_reach c1"
| "alu_reach c \<Longrightarrow> alu_step TYPE(32) c c1 \<Longrightarrow> alu_reach c1"
| "alu_reach c \<Longrightarrow> alu_reach (snd (IMUL2w a16 b16 c))"
| "alu_reach c \<Longrightarrow> alu_reach (snd (IMUL2d a32 b32 c))"
| "alu_reach c \<Longrightarrow> alu_reach (snd (IMUL2wI a16 (i8 :: u8) c))"
| "alu_reach c \<Longrightarrow> alu_reach (snd (IMUL2wI a16 (i16 :: u16) c))"
| "alu_reach c \<Longrightarrow> alu_reach (snd (IMUL2dI a32 (i8 :: u8) c))"
| "alu_reach c \<Longrightarrow> alu_reach (snd (IMUL2dI a32 (i32 :: u32) c))"
| "alu_reach c \<Longrightarrow> alu_reach (snd (IMULb a8 b8 c))"
| "alu_reach c \<Longrightarrow> alu_reach (snd (IMULw a16 b16 c))"
| "alu_reach c \<Longrightarrow> alu_reach (snd (IMULd a32 b32 c))"
| "alu_reach c \<Longrightarrow> alu_reach (snd (MULb a8 b8 c))"
| "alu_reach c \<Longrightarrow> alu_reach (snd (MULw a16 b16 c))"
| "alu_reach c \<Longrightarrow> alu_reach (snd (MULd a32 b32 c))"
| "alu_reach c \<Longrightarrow> alu_reach (snd (DIVb a16 b8 c))"
| "alu_reach c \<Longrightarrow> alu_reach (snd (DIVw a16 d16 b16 c))"
| "alu_reach c \<Longrightarrow> LAHF c = Inr (r, c1) \<Longrightarrow> alu_reach c1"
| "alu_reach c \<Longrightarrow> alu_reach (SAHF fm r c)"
| "alu_reach c \<Longrightarrow> CMC c = Inr c1 \<Longrightarrow> alu_reach c1"
| "alu_reach c \<Longrightarrow> alu_reach (CLC c)"
| "alu_reach c \<Longrightarrow> alu_reach (STC c)"
| "alu_reach c \<Longrightarrow> alu_reach (snd (AAD_helper a8 b8 i8 c))"
| "alu_reach c \<Longrightarrow> AAM_helper a8 i8 c = Inr (r2, c1) \<Longrightarrow> alu_reach c1"
| "alu_reach c \<Longrightarrow> DAA_helper a8 c = Inr (r, c1) \<Longrightarrow> alu_reach c1"
| "alu_reach c \<Longrightarrow> DAS_helper a8 c = Inr (r, c1) \<Longrightarrow> alu_reach c1"
| "alu_reach c \<Longrightarrow> alu_reach (snd (AAA_helper a16 c))"
| "alu_reach c \<Longrightarrow> alu_reach (snd (AAS_helper a16 c))"
| "alu_reach c \<Longrightarrow> refresh_flags c = Inr c1 \<Longrightarrow> alu_reach c1"
| "alu_reach c \<Longrightarrow> cpu_setflags fm s k c = Inr c1 \<Longrightarrow> alu_reach c1"
| "alu_reach c \<Longrightarrow> cpu_getflags c = Inr (r32, c1) \<Longrightarrow> alu_reach c1"

definition carry_ready :: "ALU \<Rightarrow> bool" where
  "carry_ready c \<longleftrightarrow> (ccmask c AND CF \<noteq> 0 \<longrightarrow>
     ccop c \<notin> {CC_INC8, CC_INC16, CC_INC32, CC_DEC8, CC_DEC16, CC_DEC32})"

text \<open>The flag bits of a flags word.\<close>

definition stored_flags :: "u32 \<Rightarrow> arch_flags" where
  "stored_flags e = \<lparr>aCF = bit e 0, aPF = bit e 2, aAF = bit e 4, aZF = bit e 6, aSF = bit e 7, aOF = bit e 11\<rparr>"

definition shift_count :: "u8 \<Rightarrow> nat" where
  "shift_count b = unat b mod 32"

text \<open>
  Truncating division of integers, as a relation: the remainder is smaller than
  the divisor and has the sign of the dividend.
\<close>

definition divides_to :: "int \<Rightarrow> int \<Rightarrow> int \<Rightarrow> int \<Rightarrow> bool" where
  "divides_to x y q r \<longleftrightarrow> x = q * y + r \<and> \<bar>r\<bar> < \<bar>y\<bar> \<and> (r = 0 \<or> sgn r = sgn x)"

text \<open>Signed division, common to the three widths.\<close>

definition idiv_spec :: "int \<Rightarrow> int \<Rightarrow> int \<Rightarrow> ('a::len word \<times> 'a word) outcome result \<Rightarrow> bool" where
  "idiv_spec low x y res \<longleftrightarrow>
     (case res of
        Inr (Fine (q, r)) \<Rightarrow> divides_to x y (sint q) (sint r)
      | Inr (Throw n) \<Rightarrow> n = 0 \<and> (y = 0 \<or> (\<forall>q r. divides_to x y q r \<longrightarrow> \<not> in_range TYPE('a) q))
      | Inl e \<Rightarrow> e = DivOverflow) \<and> (isl res \<longleftrightarrow> x = low \<and> y = -1)"

definition div_spec :: "int \<Rightarrow> int \<Rightarrow> ('a::len word \<times> 'a word) outcome \<Rightarrow> bool" where
  "div_spec x y res \<longleftrightarrow>
     (case res of
        Fine (q, r) \<Rightarrow> divides_to x y (uint q) (uint r)
      | Throw n \<Rightarrow> n = 0 \<and> (y = 0 \<or> (\<forall>q r. divides_to x y q r \<longrightarrow> 2 ^ LENGTH('a) \<le> q)))"

definition reset_flags :: ALU where
  "reset_flags = \<lparr>eflags = 0x2, ccop = CC_ADC, dst = 0, dst2 = 0, src1 = 0, src2 = 0, ccmask = 0\<rparr>"

section \<open>Facts about the arithmetic unit\<close>

lemma bit_sextw: "LENGTH('a) \<le> 32 \<Longrightarrow> bit (sextw (a :: 'a::len word)) k \<longleftrightarrow> k < 32 \<and> bit a (min k (LENGTH('a) - 1))"
  by (cases "k = LENGTH('a) - 1") (auto simp: sextw_def bit_simps min_def dest: bit_imp_le_length)

lemma sint_sextw: "LENGTH('a) \<le> 32 \<Longrightarrow> sint (sextw (a :: 'a::len word)) = sint a"
  by (simp add: sextw_def sint_up_scast is_up)

lemma sint_inj: "sint x = sint y \<longleftrightarrow> x = y"
  by (auto intro: signed_word_eqI)

lemma sextw_eq_iff: "LENGTH('a) \<le> 32 \<Longrightarrow> sextw (x :: 'a::len word) = sextw y \<longleftrightarrow> x = y"
  by (metis sint_inj sint_sextw)

lemma ucast_sextw [simp]: "LENGTH('a) \<le> 32 \<Longrightarrow> ucast (sextw (a :: 'a::len word)) = a"
  by (rule bit_word_eqI) (auto simp: bit_simps bit_sextw min_def)

lemma ucast_hom:
  assumes "LENGTH('a::len) \<le> 32"
  shows "ucast (x + y :: u32) = (ucast x + ucast y :: 'a word)"
    "ucast (x - y :: u32) = (ucast x - ucast y :: 'a word)"
    "ucast (- y :: u32) = (- ucast y :: 'a word)"
proof -
  have m: "z mod 2 ^ LENGTH('a) = (z mod 2 ^ LENGTH(32)) mod 2 ^ LENGTH('a)" for z :: int
    using assms by (intro mod_mod_cancel [symmetric] le_imp_power_dvd) simp
  show "ucast (x + y) = (ucast x + ucast y :: 'a word)"
    by transfer (unfold take_bit_eq_mod m [symmetric], intro mod_add_cong m)
  show sub: "ucast (x - y) = (ucast x - ucast y :: 'a word)" for x y :: u32
    by transfer (unfold take_bit_eq_mod m [symmetric], intro mod_diff_cong m)
  show "ucast (- y) = (- ucast y :: 'a word)"
    using sub [of 0 y] by simp
qed

lemma sext_hom:
  fixes a b :: "'a::len word"
  assumes "LENGTH('a) \<le> 32"
  shows "sext TYPE('a) (sextw a + sextw b) = sextw (a + b :: 'a word)" "sext TYPE('a) (sextw a - sextw b) = sextw (a - b)"
    "sext TYPE('a) (- sextw a) = sextw (- a)"
    "sext TYPE('a) (sextw a + sextw b + of_bool p) = sextw (a + b + of_bool p)"
    "sext TYPE('a) (sextw a - sextw b - of_bool p) = sextw (a - b - of_bool p)"
    "sext TYPE('a) (sextw a + 1) = sextw (a + 1)" "sext TYPE('a) (sextw a - 1) = sextw (a - 1)"
proof -
  have b: "ucast (of_bool p :: u32) = (of_bool p :: 'a word)" "ucast (1 :: u32) = (1 :: 'a word)"
    by (auto simp: of_bool_def)
  show "sext TYPE('a) (sextw a + sextw b) = sextw (a + b :: 'a word)" "sext TYPE('a) (sextw a - sextw b) = sextw (a - b)"
    "sext TYPE('a) (- sextw a) = sextw (- a)"
    "sext TYPE('a) (sextw a + sextw b + of_bool p) = sextw (a + b + of_bool p)"
    "sext TYPE('a) (sextw a - sextw b - of_bool p) = sextw (a - b - of_bool p)"
    "sext TYPE('a) (sextw a + 1) = sextw (a + 1)" "sext TYPE('a) (sextw a - 1) = sextw (a - 1)"
    using assms b by (simp_all add: sext_def ucast_hom)
qed

text \<open>The sign extension keeps the unsigned order.\<close>

lemma uint_sextw:
  assumes "LENGTH('a) \<le> 32"
  shows "uint (sextw (a :: 'a::len word)) = uint a + (if bit a (LENGTH('a) - 1) then 2 ^ 32 - 2 ^ LENGTH('a) else 0)"
proof -
  have s: "sint a = uint a - (if bit a (LENGTH('a) - 1) then 2 ^ LENGTH('a) else 0)"
    by (simp add: sint_uint signed_take_bit_eq_take_bit_minus bit_uint_iff take_bit_int_eq_self)
  have "uint (sextw a) = sint a mod 2 ^ 32"
    unfolding sextw_def scast_eq unsigned_of_int take_bit_eq_mod by simp
  moreover have le: "2 ^ LENGTH('a) \<le> (2 ^ 32 :: int)" using assms by (intro power_increasing) simp_all
  moreover have "uint a mod 2 ^ 32 = uint a"
    using less_le_trans [OF unsigned_less le] by (intro mod_pos_pos_trivial) simp_all
  moreover have "(x - y) mod m = x - y + m" if "0 \<le> x" "x < y" "y \<le> m" for x y m :: int
    using that mod_add_self2 [of "x - y" m] by (simp add: mod_pos_pos_trivial del: mod_add_self2)
  ultimately show ?thesis unfolding s by auto
qed

lemma int_top_bit:
  assumes "0 \<le> v" "v < 2 * 2 ^ k"
  shows "bit (v :: int) k \<longleftrightarrow> 2 ^ k \<le> v"
proof (cases "v < 2 ^ k")
  case True
  with assms have "v div 2 ^ k = 0" by (intro div_pos_pos_trivial) auto
  with True show ?thesis by (simp add: bit_iff_odd)
next
  case False
  have "v div 2 ^ k = (v - 2 ^ k) div 2 ^ k + 1"
    using div_add_self2 [of "2 ^ k" "v - 2 ^ k :: int"] by simp
  also have "(v - 2 ^ k) div 2 ^ k = 0" using assms False by (intro div_pos_pos_trivial) auto
  finally show ?thesis using False by (simp add: bit_iff_odd)
qed

lemma sextw_less_iff:
  assumes "LENGTH('a) \<le> 32"
  shows "sextw (x :: 'a::len word) < sextw y \<longleftrightarrow> x < y" "sextw x \<le> sextw y \<longleftrightarrow> x \<le> y"
proof -
  have m: "bit z (LENGTH('a) - 1) \<longleftrightarrow> 2 ^ (LENGTH('a) - 1) \<le> uint z" for z :: "'a word"
    using int_top_bit [of "uint z" "LENGTH('a) - 1"]
    by (simp add: bit_unsigned_iff flip: power_Suc)
  have le: "2 ^ LENGTH('a) \<le> (2 ^ 32 :: int)" using assms by (intro power_increasing) simp_all
  have "uint z < 2 ^ LENGTH('a)" for z :: "'a word" by simp
  with le show "sextw x < sextw y \<longleftrightarrow> x < y" 
    using assms m [of x] m [of y] by (auto simp: word_less_def uint_sextw)
  then show "sextw x \<le> sextw y \<longleftrightarrow> x \<le> y"
    using sextw_eq_iff [OF assms, of x y] by (auto simp: le_less)
qed

lemma bit_top_sint: "bit a (LENGTH('a) - 1) \<longleftrightarrow> sint (a :: 'a::len word) < 0"
  by (simp add: bit_last_iff)

lemma even_parity_code [code]: "even_parity r = even (length (filter (bit r) [0..<8]))"
proof -
  have "{i. i < 8 \<and> bit r i} = set (filter (bit r) [0..<8])" by auto
  moreover have "card (set (filter (bit r) [0..<8])) = length (filter (bit r) [0..<8])"
    by (intro distinct_card) simp
  ultimately show ?thesis by (simp add: even_parity_def)
qed

lemma length_parity_rows [simp]: "length (parity_rows k) = 2 ^ k"
  by (induction k) simp_all

lemma parity_rows_nth: "n < 2 ^ k \<Longrightarrow> parity_rows k ! n \<longleftrightarrow> even (card {i. i < k \<and> bit n i})"
proof (induction k arbitrary: n)
  case (Suc k)
  have bits: "{i. i < Suc k \<and> bit n i} = {i. i < k \<and> bit n i} \<union> (if bit n k then {k} else {})"
    by (auto simp: less_Suc_eq)
  show ?case
  proof (cases "n < 2 ^ k")
    case True
    then have "\<not> bit n k" by (simp add: bit_iff_odd)
    then show ?thesis using True Suc.IH [OF True] unfolding bits by (simp add: nth_append)
  next
    case False
    define m where "m = n - 2 ^ k"
    have m: "n = m + 2 ^ k" "m < 2 ^ k" using False Suc.prems by (simp_all add: m_def)
    have "bit n k" using m by (simp add: bit_iff_odd div_add_self2)
    moreover have "bit n i \<longleftrightarrow> bit m i" if "i < k" for i
    proof -
      have "(m + 2 ^ k) div 2 ^ i = m div 2 ^ i + 2 ^ (k - i)"
        using that by (simp add: div_plus_div_distrib_dvd_right le_imp_power_dvd power_diff)
      then show ?thesis using that by (simp add: m(1) bit_iff_odd)
    qed
    then have "{i. i < k \<and> bit n i} = {i. i < k \<and> bit m i}" by auto
    ultimately show ?thesis using m Suc.IH [OF m(2)] False unfolding bits by (simp add: nth_append)
  qed
qed simp

lemma parity_tab_rows: "parity_tab = parity_rows 8"
  by (simp add: parity_tab_def eval_nat_numeral)

lemma parity_tab_word:
  assumes "8 \<le> LENGTH('a)" "LENGTH('a) \<le> 32"
  shows "parity_tab ! unat (sextw (r :: 'a::len word) AND 0xff) \<longleftrightarrow> even_parity r"
proof -
  have m: "(0xff :: u32) = mask 8" by (simp add: mask_eq_exp_minus_1)
  have "unat (sextw r AND 0xff) < 2 ^ 8"
    using unat_and_le_right [of "sextw r" "0xff"] by simp
  moreover have "bit (unat (sextw r AND 0xff)) i \<longleftrightarrow> bit r i" if "i < 8" for i
    using that assms unfolding m by (auto simp: bit_unsigned_iff bit_simps bit_sextw)
  then have "{i. i < 8 \<and> bit (unat (sextw r AND 0xff)) i} = {i. i < 8 \<and> bit r i}" by auto
  ultimately show ?thesis by (simp add: parity_tab_rows parity_rows_nth even_parity_def)
qed

lemma mod_once: "x < 2 * N \<Longrightarrow> x mod N = (if x < N then x else x - N)" for x N :: nat
  by (simp add: le_mod_geq)

lemma unat_sum: "unat (a + b + of_bool p) = (unat a + unat b + of_bool p) mod 2 ^ LENGTH('a)" for a b :: "'a::len word"
  by (simp add: unat_word_ariths mod_simps)

lemma add_carry:
  fixes a b :: "'a::len word"
  shows "(if p then a + b + 1 \<le> b else a + b < b) \<longleftrightarrow> 2 ^ LENGTH('a) \<le> unat a + unat b + of_bool p"
proof -
  define x y N where "x = unat a" and "y = unat b" and "N = (2 ^ LENGTH('a) :: nat)"
  have l: "x < N" "y < N" by (simp_all add: x_def y_def N_def)
  then have "x + y + of_bool p < 2 * N" by (cases p) auto
  then have "unat (a + b + of_bool p) = (if x + y + of_bool p < N then x + y + of_bool p else x + y + of_bool p - N)"
    unfolding unat_sum x_def [symmetric] y_def [symmetric] N_def [symmetric] by (rule mod_once)
  then show ?thesis
    using l unfolding word_less_nat_alt word_le_nat_alt x_def [symmetric] y_def [symmetric] N_def [symmetric]
    by (cases p) auto
qed

lemma wrapped_sign:
  fixes s :: int
  assumes "- (2 * 2 ^ (LENGTH('a) - 1)) \<le> s" "s < 2 * 2 ^ (LENGTH('a) - 1)"
  shows "bit (of_int s :: 'a::len word) (LENGTH('a) - 1) \<longleftrightarrow> (s < 0 \<longleftrightarrow> in_range TYPE('a) s)"
proof -
  obtain k where k: "LENGTH('a) = Suc k" by (metis len_not_eq_0 not0_implies_Suc)
  have "bit (of_int s :: 'a word) (LENGTH('a) - 1) \<longleftrightarrow> bit s k"
    by (simp add: bit_simps k)
  moreover have "bit s k \<longleftrightarrow> bit (s + 2 * 2 ^ k) k"
    by (simp add: bit_iff_odd)
  ultimately show ?thesis
    using int_top_bit [of s k] int_top_bit [of "s + 2 * 2 ^ k" k] assms
    by (cases "s < 0") (auto simp: in_range_def k)
qed

lemma sint_range: "- (2 ^ (LENGTH('a) - 1)) \<le> sint (a :: 'a::len word)" "sint a < 2 ^ (LENGTH('a) - 1)"
  using sint_greater_eq [of a] sint_less [of a] by simp_all

lemma sint_neg: "bit a (LENGTH('a) - 1) \<longleftrightarrow> sint (a :: 'a::len word) < 0"
  by (simp add: bit_last_iff)

lemma overflow_cases:
  fixes x y c M :: int
  assumes "- M \<le> x" "x < M" "- M \<le> y" "y < M" "0 \<le> c" "c \<le> 1"
  shows "(x < 0 \<longleftrightarrow> y < 0) \<and> ((x + y + c < 0 \<longleftrightarrow> - M \<le> x + y + c \<and> x + y + c < M) \<noteq> (y < 0)) \<longleftrightarrow>
      \<not> (- M \<le> x + y + c \<and> x + y + c < M)"
    "(x < 0) \<noteq> (y < 0) \<and> ((x - y - c < 0 \<longleftrightarrow> - M \<le> x - y - c \<and> x - y - c < M) \<noteq> (x < 0)) \<longleftrightarrow>
      \<not> (- M \<le> x - y - c \<and> x - y - c < M)"
  using assms by linarith+

lemma add_overflow:
  fixes a b :: "'a::len word"
  shows "(sint a < 0 \<longleftrightarrow> sint b < 0) \<and> (sint (a + b + of_bool p) < 0) \<noteq> (sint b < 0) \<longleftrightarrow>
    \<not> in_range TYPE('a) (sint a + sint b + of_bool p)"
proof -
  let ?s = "sint a + sint b + of_bool p"
  have r: "a + b + of_bool p = of_int ?s" by simp
  have "sint (a + b + of_bool p) < 0 \<longleftrightarrow> (?s < 0 \<longleftrightarrow> in_range TYPE('a) ?s)"
    unfolding sint_neg [symmetric] r
    by (rule wrapped_sign) (use sint_range [of a] sint_range [of b] in \<open>cases p; simp\<close>)+
  then show ?thesis
    using overflow_cases(1) [OF sint_range [of a] sint_range [of b], of "of_bool p"] by (simp add: in_range_def)
qed

lemma sub_overflow:
  fixes a b :: "'a::len word"
  shows "(sint a < 0) \<noteq> (sint b < 0) \<and> (sint (a - b - of_bool p) < 0) \<noteq> (sint a < 0) \<longleftrightarrow>
    \<not> in_range TYPE('a) (sint a - sint b - of_bool p)"
proof -
  let ?s = "sint a - sint b - of_bool p"
  have r: "a - b - of_bool p = of_int ?s" by simp
  have "sint (a - b - of_bool p) < 0 \<longleftrightarrow> (?s < 0 \<longleftrightarrow> in_range TYPE('a) ?s)"
    unfolding sint_neg [symmetric] r
    by (rule wrapped_sign) (use sint_range [of a] sint_range [of b] in \<open>cases p; simp\<close>)+
  then show ?thesis
    using overflow_cases(2) [OF sint_range [of a] sint_range [of b], of "of_bool p"] by (simp add: in_range_def)
qed

text \<open>The carry out of the low digit is the third of the three bits that the code compares.\<close>

lemma bit4_add:
  fixes x y c :: nat
  shows "bit (x + y + c) 4 \<longleftrightarrow> (bit x 4 \<noteq> bit y 4) \<noteq> odd ((x mod 16 + y mod 16 + c) div 16)"
proof -
  have "(x + y + c) div 16 = x div 16 + y div 16 + (x mod 16 + y mod 16 + c) div 16"
  proof -
    have "x + y + c = (x mod 16 + y mod 16 + c) + (x div 16 + y div 16) * 16"
      using div_mult_mod_eq [of x 16] div_mult_mod_eq [of y 16] by (simp add: algebra_simps)
    then show ?thesis by (metis add.commute div_mult_self1 zero_neq_numeral)
  qed
  then show ?thesis by (auto simp: bit_iff_odd)
qed

lemma digit_carry:
  fixes x y c :: nat
  assumes "c \<le> 1"
  shows "odd ((x mod 16 + y mod 16 + c) div 16) \<longleftrightarrow> 16 \<le> x mod 16 + y mod 16 + c"
    "16 \<le> x mod 16 + y mod 16 + c \<longleftrightarrow> (x + y + c) mod 16 < y mod 16 + c"
proof -
  define s where "s = x mod 16 + y mod 16 + c"
  have x: "x mod 16 < 16" "y mod 16 < 16" by simp_all
  then have s: "s < 32" using assms by (simp add: s_def)
  then have "s div 16 = (if 16 \<le> s then 1 else 0)" by (auto simp: div_eq_0_iff le_div_geq)
  then show "odd ((x mod 16 + y mod 16 + c) div 16) \<longleftrightarrow> 16 \<le> x mod 16 + y mod 16 + c"
    unfolding s_def [symmetric] by simp
  have "(x + y + c) mod 16 = s mod 16" unfolding s_def by (metis mod_add_eq mod_add_left_eq)
  also have "\<dots> = (if s < 16 then s else s - 16)" using s mod_once [of s 16] by simp
  finally have m: "(x + y + c) mod 16 = (if s < 16 then s else s - 16)" .
  show "16 \<le> x mod 16 + y mod 16 + c \<longleftrightarrow> (x + y + c) mod 16 < y mod 16 + c"
    unfolding m using x by (auto simp: s_def)
qed

lemma bit4_word_add:
  fixes a b :: "'a::len word"
  assumes "8 \<le> LENGTH('a)"
  shows "bit (a + b + of_bool p) 4 \<longleftrightarrow> (bit a 4 \<noteq> bit b 4) \<noteq> (16 \<le> unat a mod 16 + unat b mod 16 + of_bool p)"
proof -
  have u: "bit (w :: 'a word) 4 \<longleftrightarrow> bit (unat w) 4" for w by (simp add: bit_unsigned_iff)
  have "bit (unat (a + b + of_bool p)) 4 \<longleftrightarrow> bit (unat a + unat b + of_bool p) 4"
    using assms unfolding unat_sum by (simp add: bit_take_bit_iff flip: take_bit_eq_mod)
  then show ?thesis using digit_carry(1) [of "of_bool p" "unat a" "unat b"] by (simp only: u bit4_add) simp
qed

lemma bit4_word_sub:
  fixes a b :: "'a::len word"
  assumes "8 \<le> LENGTH('a)"
  shows "bit (a - b - of_bool p) 4 \<longleftrightarrow> (bit a 4 \<noteq> bit b 4) \<noteq> (unat a mod 16 < unat b mod 16 + of_bool p)"
proof -
  define r where "r = a - b - of_bool p"
  have a: "a = r + b + of_bool p" by (simp add: r_def)
  have d: "16 dvd (2 ^ LENGTH('a) :: nat)"
    using le_imp_power_dvd [of 4 "LENGTH('a)" "2 :: nat"] assms by simp
  have "unat a mod 16 = (unat r + unat b + of_bool p) mod 16"
    by (subst a) (simp only: unat_sum mod_mod_cancel [OF d])
  then have "16 \<le> unat r mod 16 + unat b mod 16 + of_bool p \<longleftrightarrow> unat a mod 16 < unat b mod 16 + of_bool p"
    using digit_carry(2) [of "of_bool p" "unat r" "unat b"] by simp
  with bit4_word_add [OF assms, of r b p] show ?thesis by (auto simp: a [symmetric] r_def [symmetric])
qed

lemma drop_bit_top: "drop_bit 31 (x :: u32) = 0 \<longleftrightarrow> \<not> bit x 31"
  using drop_bit_eq_zero_iff_not_bit_last [of x] by simp

lemma drop_bit_and_1: "drop_bit n (x :: u32) AND 1 = 0 \<longleftrightarrow> \<not> bit x n"
  using and_exp_eq_0 [of "drop_bit n x" 0] by (simp add: bit_drop_bit_eq)

lemma top_sextw: "LENGTH('a) \<le> 32 \<Longrightarrow> bit (sextw (a :: 'a::len word)) 31 \<longleftrightarrow> sint a < 0"
  using bit_last_iff [of a] by (cases "LENGTH('a) = 32") (auto simp: bit_sextw min_def)

lemma sextw_0: "LENGTH('a) \<le> 32 \<Longrightarrow> sextw (a :: 'a::len word) = 0 \<longleftrightarrow> a = 0"
  using sextw_eq_iff [of a 0] by (simp add: sextw_def)

lemma bit4_sextw: "8 \<le> LENGTH('a) \<Longrightarrow> LENGTH('a) \<le> 32 \<Longrightarrow> bit (sextw (a :: 'a::len word)) 4 \<longleftrightarrow> bit a 4"
  by (simp add: bit_sextw min_def)

lemma lazy_result:
  assumes "8 \<le> LENGTH('a)" "LENGTH('a) \<le> 32" "dst c = sextw (r :: 'a::len word)"
  shows "ccmask c AND PF \<noteq> 0 \<Longrightarrow> get_PF c = even_parity r" "ccmask c AND ZF \<noteq> 0 \<Longrightarrow> get_ZF c = (r = 0)"
    "ccmask c AND SF \<noteq> 0 \<Longrightarrow> get_SF c = (sint r < 0)"
  using assms by (simp_all add: get_PF_def get_ZF_def get_SF_def parity_tab_word sextw_0 drop_bit_top top_sextw)

lemma observe_add:
  fixes a b :: "'a::len word"
  assumes W: "8 \<le> LENGTH('a)" "LENGTH('a) \<le> 32"
    and c: "src1 c = sextw a" "src2 c = sextw b" "dst c = sextw (a + b + of_bool p)"
      "ccop c = (if p then CC_ADC else CC_ADD)" "ccmask c = MASK_ALL"
  shows "observe c = Inr (arch_add a b p)"
proof -
  have "get_CF c = Inr (2 ^ LENGTH('a) \<le> unat a + unat b + of_bool p)"
    using add_carry [of p a b] W c by (cases p) (simp_all add: get_CF_def sextw_less_iff)
  moreover have "get_OF c = Inr (\<not> in_range TYPE('a) (sint a + sint b + of_bool p))"
    using add_overflow [of a b p] W c by (cases p) (auto simp: get_OF_def drop_bit_top bit_simps top_sextw simp del: drop_bit_and drop_bit_xor)
  moreover have "get_AF c = (16 \<le> unat a mod 16 + unat b mod 16 + of_bool p)"
    using bit4_word_add [OF W(1), of a b p] W c by (auto simp: get_AF_def drop_bit_and_1 bit_simps bit4_sextw simp del: drop_bit_and drop_bit_xor)
  ultimately show ?thesis
    using lazy_result [OF W c(3)] c(5) by (simp add: observe_def arch_add_def arch_result_def)
qed

lemma observe_sub:
  fixes a b :: "'a::len word"
  assumes W: "8 \<le> LENGTH('a)" "LENGTH('a) \<le> 32"
    and c: "src1 c = sextw a" "src2 c = sextw b" "dst c = sextw (a - b - of_bool p)"
      "ccop c = (if p then CC_SBB else CC_SUB)" "ccmask c = MASK_ALL"
  shows "observe c = Inr (arch_sub a b p)"
proof -
  have "get_CF c = Inr (unat a < unat b + of_bool p)"
    using W c by (cases p) (simp_all add: get_CF_def sextw_less_iff, simp_all add: word_less_nat_alt word_le_nat_alt less_Suc_eq_le)
  moreover have "get_OF c = Inr (\<not> in_range TYPE('a) (sint a - sint b - of_bool p))"
    using sub_overflow [of a b p] W c by (cases p) (auto simp: get_OF_def drop_bit_top bit_simps top_sextw simp del: drop_bit_and drop_bit_xor)
  moreover have "get_AF c = (unat a mod 16 < unat b mod 16 + of_bool p)"
    using bit4_word_sub [OF W(1), of a b p] W c by (auto simp: get_AF_def drop_bit_and_1 bit_simps bit4_sextw simp del: drop_bit_and drop_bit_xor)
  ultimately show ?thesis
    using lazy_result [OF W c(3)] c(5) by (simp add: observe_def arch_sub_def arch_result_def)
qed

lemma low_digit:
  assumes "8 \<le> LENGTH('a)" "LENGTH('a) \<le> 32"
  shows "unat (sextw (r :: 'a::len word) AND 0xf) = unat r mod 16"
proof -
  have m: "(0xf :: u32) = mask 4" by (simp add: mask_eq_exp_minus_1)
  have "unat (sextw r AND 0xf) = take_bit 4 (unat r)"
    using assms unfolding m by (intro bit_eqI) (auto simp: bit_unsigned_iff bit_simps bit_sextw min_def)
  then show ?thesis by (simp add: take_bit_eq_mod)
qed

lemma low_digit_eq:
  assumes "8 \<le> LENGTH('a)" "LENGTH('a) \<le> 32"
  shows "sextw (r :: 'a::len word) AND 0xf = 0 \<longleftrightarrow> unat r mod 16 = 0"
    "sextw r AND 0xf = 0xf \<longleftrightarrow> unat r mod 16 = 15"
  using low_digit [OF assms, of r] by (simp_all add: word_unat_eq_iff)

lemma unat_add_1_mod:
  assumes "8 \<le> LENGTH('a)"
  shows "unat (a + 1 :: 'a::len word) mod 16 = Suc (unat a) mod 16"
proof -
  have "16 dvd (2 ^ LENGTH('a) :: nat)"
    using le_imp_power_dvd [of 4 "LENGTH('a)" "2 :: nat"] assms by simp
  then show ?thesis by (simp add: unat_word_ariths mod_mod_cancel mod_Suc_eq)
qed

lemma sint_of_int_edge:
  assumes "- (2 ^ (LENGTH('a) - 1)) \<le> s" "s \<le> 2 ^ (LENGTH('a) - 1)"
  shows "sint (of_int s :: 'a::len word) = (if s = 2 ^ (LENGTH('a) - 1) then - s else s)"
proof -
  obtain k where k: "LENGTH('a) = Suc k" by (metis len_not_eq_0 not0_implies_Suc)
  show ?thesis
  proof (cases "s = 2 ^ k")
    case True
    have "sint (of_int (2 ^ k) :: 'a word) = signed_take_bit k (2 ^ k)"
      by (simp only: signed_of_int k) simp
    also have "\<dots> = - (2 ^ k)"
      by (simp add: signed_take_bit_eq_take_bit_minus bit_exp_iff take_bit_int_eq_self)
    finally show ?thesis using True by (simp add: k)
  next
    case False
    with assms show ?thesis by (simp add: signed_of_int k signed_take_bit_int_eq_self)
  qed
qed

text \<open>The extreme values that the increment, decrement and negation test for.\<close>

lemma edge_inc:
  fixes a :: "'a::len word"
  shows "sint (a + 1) = - (2 ^ (LENGTH('a) - 1)) \<longleftrightarrow> \<not> in_range TYPE('a) (sint a + 1)"
proof -
  define M where "M = (2 ^ (LENGTH('a) - 1) :: int)"
  have r: "- M \<le> sint a" "sint a < M" "0 < M" using sint_range [of a] by (simp_all add: M_def)
  have p: "a + 1 = of_int (sint a + 1)" by simp
  have "sint (a + 1) = (if sint a + 1 = M then - M else sint a + 1)"
    unfolding p M_def by (subst sint_of_int_edge) (use r in \<open>auto simp: M_def\<close>)
  then show ?thesis
    using r unfolding in_range_def M_def [symmetric] by auto
qed

lemma edge_iff:
  fixes a :: "'a::len word"
  shows "sint (a - 1) = 2 ^ (LENGTH('a) - 1) - 1 \<longleftrightarrow> \<not> in_range TYPE('a) (sint a - 1)"
    "sint (- a) = - (2 ^ (LENGTH('a) - 1)) \<longleftrightarrow> \<not> in_range TYPE('a) (- sint a)"
proof -
  define M where "M = (2 ^ (LENGTH('a) - 1) :: int)"
  have r: "- M \<le> sint a" "sint a < M" "0 < M" using sint_range [of a] by (simp_all add: M_def)
  have n: "- a = of_int (- sint a)" by simp
  have "sint (- a) = (if - sint a = M then - M else - sint a)"
    unfolding n M_def by (subst sint_of_int_edge) (use r in \<open>auto simp: M_def\<close>)
  then show "sint (- a) = - (2 ^ (LENGTH('a) - 1)) \<longleftrightarrow> \<not> in_range TYPE('a) (- sint a)"
    using r unfolding in_range_def M_def [symmetric] by auto
  have "sint (a - 1) = M - 1 \<longleftrightarrow> sint a = - M"
    using edge_inc [of "a - 1"] sint_range [of "a - 1"] unfolding in_range_def M_def [symmetric] by auto
  then show "sint (a - 1) = 2 ^ (LENGTH('a) - 1) - 1 \<longleftrightarrow> \<not> in_range TYPE('a) (sint a - 1)"
    using r unfolding in_range_def M_def [symmetric] by auto
qed

lemma operand_widthD: "operand_width TYPE('a::len) \<Longrightarrow> 8 \<le> LENGTH('a) \<and> LENGTH('a) \<le> 32"
  by (auto simp: operand_width_def)

lemma SET_BIT_test:
  "SET_BIT w f 1 AND 1 \<noteq> 0 \<longleftrightarrow> f" 
  by (cases f) (simp_all add: SET_BIT_def bit_simps and_exp_eq_0 [of _ 0, simplified])

lemma add_computes:
  fixes a b :: "'a::len word"
  assumes W: "operand_width TYPE('a)"
  shows "computes (Inr (ADD a b c)) (a + b) (arch_add a b False)"
    "get_CF c = Inr cf \<Longrightarrow> computes (ADC a b c) (a + b + of_bool cf) (arch_add a b cf)"
    "computes (Inr (SUB a b c)) (a - b) (arch_sub a b False)"
    "get_CF c = Inr cf \<Longrightarrow> computes (SBB a b c) (a - b - of_bool cf) (arch_sub a b cf)"
    "observe (CMP a b c) = Inr (arch_sub a b False)"
proof -
  note w = operand_widthD [OF W, THEN conjunct1] operand_widthD [OF W, THEN conjunct2]
  note h = sext_hom [OF w(2)]
  show "computes (Inr (ADD a b c)) (a + b) (arch_add a b False)"
    using w by (simp add: computes_def ADD_def AOP_helper_def AOP0_helper_def h
        observe_add [where a = a and b = b and p = False])
  show "get_CF c = Inr cf \<Longrightarrow> computes (ADC a b c) (a + b + of_bool cf) (arch_add a b cf)"
    using w by (simp add: computes_def ADC_def ACOP_helper_def h observe_add del: of_bool_eq_iff)
  show "computes (Inr (SUB a b c)) (a - b) (arch_sub a b False)" "observe (CMP a b c) = Inr (arch_sub a b False)"
    using w by (simp_all add: computes_def SUB_def CMP_def AOP_helper_def AOP0_helper_def h
        observe_sub [where a = a and b = b and p = False])
  show "get_CF c = Inr cf \<Longrightarrow> computes (SBB a b c) (a - b - of_bool cf) (arch_sub a b cf)"
    using w by (simp add: computes_def SBB_def ACOP_helper_def h observe_sub)
qed

lemma sextw_edge:
  fixes r :: "'a::len word"
  assumes "operand_width TYPE('a)"
  shows "sextw r = (if LENGTH('a) = 8 then sext TYPE(8) 0x80 else if LENGTH('a) = 16 then sext TYPE(16) 0x8000
      else sext TYPE(32) 0x80000000) \<longleftrightarrow> sint r = - (2 ^ (LENGTH('a) - 1))"
    "sextw r = (if LENGTH('a) = 8 then sext TYPE(8) (NOT 0x80) else if LENGTH('a) = 16 then sext TYPE(16) (NOT 0x8000)
      else sext TYPE(32) (NOT 0x80000000)) \<longleftrightarrow> sint r = 2 ^ (LENGTH('a) - 1) - 1"
  using assms sint_sextw [of r]
  by (auto simp: operand_width_def sext_def sextw_def sint_inj [symmetric])

lemma incdec_flags:
  assumes "get_CF c = Inr cf" "ccop c1 = n" "eflags c1 = SET_BIT (eflags c) cf CF" "ccmask c1 = MASK_NO_CF"
  shows "get_CF c1 = Inr cf"
  using assms by (simp add: get_CF_def SET_BIT_test [simplified])

lemma inc_computes:
  fixes a :: "'a::len word"
  assumes W: "operand_width TYPE('a)" and cf: "get_CF c = Inr cf"
  shows "computes (INC a c) (a + 1) ((arch_add a 1 False)\<lparr>aCF := cf\<rparr>)"
proof -
  note w = operand_widthD [OF W, THEN conjunct1] operand_widthD [OF W, THEN conjunct2]
  let ?op = "by_width TYPE('a) CC_INC8 CC_INC16 CC_INC32"
  define c1 where "c1 = c\<lparr>dst := sextw (a + 1), ccop := ?op, eflags := SET_BIT (eflags c) cf CF, ccmask := MASK_NO_CF\<rparr>"
  have I: "INC a c = Inr (a + 1, c1)"
    using w cf by (simp add: INC_def INCDEC_helper_def sext_hom c1_def)
  have "get_CF c1 = Inr cf" by (rule incdec_flags [OF cf]) (simp_all add: c1_def)
  moreover have "get_OF c1 = Inr (\<not> in_range TYPE('a) (sint a + 1))"
    using sextw_edge(1) [OF W, of "a + 1"] edge_inc [of a] W
    by (auto simp: c1_def get_OF_def by_width_def operand_width_def)
  moreover have "get_AF c1 = (16 \<le> unat a mod 16 + unat (1 :: 'a word) mod 16)"
    using w by (auto simp: c1_def get_AF_def by_width_def low_digit_eq unat_add_1_mod) presburger+
  ultimately show ?thesis
    using lazy_result [OF w, of c1 "a + 1"] I w
    by (simp add: computes_def observe_def arch_add_def arch_result_def c1_def)
qed

lemma dec_computes:
  fixes a :: "'a::len word"
  assumes W: "operand_width TYPE('a)" and cf: "get_CF c = Inr cf"
  shows "computes (DEC a c) (a - 1) ((arch_sub a 1 False)\<lparr>aCF := cf\<rparr>)"
proof -
  note w = operand_widthD [OF W, THEN conjunct1] operand_widthD [OF W, THEN conjunct2]
  let ?op = "by_width TYPE('a) CC_DEC8 CC_DEC16 CC_DEC32"
  define c1 where "c1 = c\<lparr>dst := sextw (a - 1), ccop := ?op, eflags := SET_BIT (eflags c) cf CF, ccmask := MASK_NO_CF\<rparr>"
  have D: "DEC a c = Inr (a - 1, c1)"
    using w cf by (simp add: DEC_def INCDEC_helper_def sext_hom c1_def)
  have "get_CF c1 = Inr cf" by (rule incdec_flags [OF cf]) (simp_all add: c1_def)
  moreover have "get_OF c1 = Inr (\<not> in_range TYPE('a) (sint a - 1))"
    using sextw_edge(2) [OF W, of "a - 1"] edge_iff(1) [of a] W
    by (auto simp: c1_def get_OF_def by_width_def operand_width_def)
  moreover have "get_AF c1 = (unat a mod 16 < unat (1 :: 'a word) mod 16)"
    using w unat_add_1_mod [OF w(1), of "a - 1"]
    by (auto simp: c1_def get_AF_def by_width_def low_digit_eq mod_Suc split: if_splits)
  ultimately show ?thesis
    using lazy_result [OF w, of c1 "a - 1"] D w
    by (simp add: computes_def observe_def arch_sub_def arch_result_def c1_def)
qed

lemma neg_digit: "(x + y) mod 16 = 0 \<Longrightarrow> x mod 16 = 0 \<longleftrightarrow> y mod 16 = 0" for x y :: nat
  by presburger

lemma neg_computes:
  fixes a :: "'a::len word"
  assumes W: "operand_width TYPE('a)"
  shows "computes (Inr (NEG_helper a c)) (- a) (arch_sub 0 a False)"
proof -
  note w = operand_widthD [OF W, THEN conjunct1] operand_widthD [OF W, THEN conjunct2]
  let ?op = "by_width TYPE('a) CC_NEG8 CC_NEG16 CC_NEG32"
  define c1 where "c1 = c\<lparr>src1 := sextw a, dst := sextw (- a), ccop := ?op, ccmask := MASK_ALL\<rparr>"
  have N: "NEG_helper a c = (- a, c1)"
    using w by (simp add: NEG_helper_def sext_hom c1_def)
  have "get_CF c1 = Inr (0 < unat a)"
    using w by (simp add: c1_def get_CF_def by_width_def sextw_0 unat_gt_0)
  moreover have "get_OF c1 = Inr (\<not> in_range TYPE('a) (- sint a))"
    using sextw_edge(1) [OF W, of "- a"] edge_iff(2) [of a] W
    by (auto simp: c1_def get_OF_def by_width_def operand_width_def)
  moreover have "get_AF c1 = (0 < unat a mod 16)"
  proof -
    have "(unat (- a) + unat a) mod 16 = 0"
    proof -
      have "unat (- a + a + of_bool False) = (unat (- a) + unat a) mod 2 ^ LENGTH('a)"
        using unat_sum [of "- a" a False] by simp
      then have "2 ^ LENGTH('a) dvd unat (- a) + unat a" by (simp add: mod_eq_0_iff_dvd)
      moreover have "16 dvd (2 ^ LENGTH('a) :: nat)"
        using le_imp_power_dvd [of 4 "LENGTH('a)" "2 :: nat"] w by simp
      ultimately have "16 dvd unat (- a) + unat a" by (rule dvd_trans [rotated])
      then show ?thesis by (simp add: mod_eq_0_iff_dvd)
    qed
    then show ?thesis
      using w neg_digit [of "unat (- a)" "unat a"] by (simp add: c1_def get_AF_def by_width_def low_digit_eq)
  qed
  ultimately show ?thesis
    using lazy_result [OF w, of c1 "- a"] N
    by (simp add: computes_def observe_def arch_sub_def arch_result_def c1_def)
qed

lemma logic_computes:
  fixes a b :: "'a::len word"
  assumes W: "operand_width TYPE('a)"
  shows "computes (Inr (ANDl a b c)) (a AND b) (arch_result (a AND b) False (eflags c AND AF \<noteq> 0) False)"
    "computes (Inr (ORl a b c)) (a OR b) (arch_result (a OR b) False (eflags c AND AF \<noteq> 0) False)"
    "computes (Inr (XORl a b c)) (a XOR b) (arch_result (a XOR b) False (eflags c AND AF \<noteq> 0) False)"
    "observe (TEST a b c) = Inr (arch_result (a AND b) False (eflags c AND AF \<noteq> 0) False)"
proof -
  note w = operand_widthD [OF W, THEN conjunct1] operand_widthD [OF W, THEN conjunct2]
  have "observe (LOP0_helper n f a b c) = Inr (arch_result (f a b) False (eflags c AND AF \<noteq> 0) False)"
    if "n \<in> {CC_AND, CC_OR, CC_XOR}" for n f
    using that lazy_result [OF w, of "LOP0_helper n f a b c" "f a b"]
    by (auto simp: observe_def LOP0_helper_def get_CF_def get_OF_def get_AF_def arch_result_def)
  moreover have "ucast (dst (LOP0_helper n f a b c)) = f a b" for n f
    using w by (simp add: LOP0_helper_def)
  ultimately show
    "computes (Inr (ANDl a b c)) (a AND b) (arch_result (a AND b) False (eflags c AND AF \<noteq> 0) False)"
    "computes (Inr (ORl a b c)) (a OR b) (arch_result (a OR b) False (eflags c AND AF \<noteq> 0) False)"
    "computes (Inr (XORl a b c)) (a XOR b) (arch_result (a XOR b) False (eflags c AND AF \<noteq> 0) False)"
    "observe (TEST a b c) = Inr (arch_result (a AND b) False (eflags c AND AF \<noteq> 0) False)"
    by (simp_all add: computes_def ANDl_def ORl_def XORl_def TEST_def LOP_helper_def)
qed

section \<open>Lemmas\<close>

lemma carry_ready_observe: "carry_ready c \<Longrightarrow> \<exists>f. observe c = Inr f"
  by (cases "ccop c") (auto simp: carry_ready_def observe_def get_CF_def get_OF_def)

lemma and_1_bit: "(x :: u32) AND 1 = 0 \<longleftrightarrow> \<not> bit x 0"
  using and_exp_eq_0 [of x 0] by simp

lemma carry_ready_mask:
  "carry_ready c \<Longrightarrow> ccop c1 = ccop c \<Longrightarrow> (bit (ccmask c1) 0 \<Longrightarrow> bit (ccmask c) 0) \<Longrightarrow> carry_ready c1"
  by (auto simp: carry_ready_def and_1_bit)

lemma carry_ready_op:
  "ccop c \<notin> {CC_INC8, CC_INC16, CC_INC32, CC_DEC8, CC_DEC16, CC_DEC32} \<Longrightarrow> carry_ready c"
  "\<not> bit (ccmask c) 0 \<Longrightarrow> carry_ready c"
  by (auto simp: carry_ready_def and_1_bit)

lemma refresh_flags_keeps: "refresh_flags c = Inr c1 \<Longrightarrow> ccop c1 = ccop c \<and> ccmask c1 = ccmask c"
  by (auto simp: refresh_flags_def Let_def bind_result_eq_Inr)

lemma by_width_cases: "by_width w x y z \<in> {x, y, z}"
  by (simp add: by_width_def)

lemma alu_step_ready: "alu_step w c c1 \<Longrightarrow> carry_ready c \<Longrightarrow> carry_ready c1"
proof (induction rule: alu_step.induct)
qed (auto simp: bind_result_eq_Inr Let_def ADD_def SUB_def ADC_def SBB_def CMP_def TEST_def ANDl_def ORl_def XORl_def
    INC_def DEC_def AOP_helper_def LOP_helper_def AOP0_helper_def LOP0_helper_def ACOP_helper_def INCDEC_helper_def
    NEG_helper_def by_width_def SHL_helper_def SHR_helper_def SAR_helper_def
    ROL_helper_def ROR_helper_def RCL_helper_def RCR_helper_def rotate_flags_def SHLD_helper_def SHRD_helper_def
    BT_helper_def BTX_helper_def BSF_helper_def BSR_helper_def CMPXCH_helper_def XADD_helper_def
    and_1_bit bit_simps intro: carry_ready_op carry_ready_mask split: if_splits)

lemma alu_reach_ready: "alu_reach c \<Longrightarrow> carry_ready c"
proof (induction rule: alu_reach.induct)
  case (1 c)
  then show ?case by (simp add: carry_ready_op)
next
  case (30 c c1)
  then show ?case using refresh_flags_keeps [of c c1] by (auto intro: carry_ready_mask)
next
  case (31 c fm s k c1)
  then show ?case
    by (auto simp: cpu_setflags_def bind_result_eq_Inr intro: carry_ready_mask carry_ready_op dest: refresh_flags_keeps split: if_splits)
next
  case (32 c r32 c1)
  then show ?case
    by (auto simp: cpu_getflags_def bind_result_eq_Inr intro: carry_ready_mask carry_ready_op dest: refresh_flags_keeps split: if_splits)
next
  case (19 c r c1)
  then show ?case by (auto simp: LAHF_def bind_result_eq_Inr intro: carry_ready_op)
qed (auto simp: bind_result_eq_Inr Let_def IMUL2w_def IMUL2d_def IMUL2wI_def IMUL2dI_def IMULb_def IMULw_def IMULd_def
    MULb_def MULw_def MULd_def DIVb_def DIVw_def SAHF_def CMC_def CLC_def STC_def AAD_helper_def AAM_helper_def
    DAA_helper_def DAS_helper_def AAA_helper_def AAS_helper_def and_1_bit bit_simps
    intro: carry_ready_op carry_ready_mask alu_step_ready split: if_splits prod.splits)

lemma SET_BIT_bit:
  "bit (SET_BIT w f (2 ^ n)) k \<longleftrightarrow> (if k = n \<and> n < 32 then f else bit w k)"
  by (cases f) (auto simp: SET_BIT_def bit_simps dest: bit_imp_le_length)

lemma flag_test:
  "(x :: u32) AND 1 = 0 \<longleftrightarrow> \<not> bit x 0" "x AND 4 = 0 \<longleftrightarrow> \<not> bit x 2" "x AND 0x10 = 0 \<longleftrightarrow> \<not> bit x 4"
  "x AND 0x40 = 0 \<longleftrightarrow> \<not> bit x 6" "x AND 0x80 = 0 \<longleftrightarrow> \<not> bit x 7" "x AND 0x800 = 0 \<longleftrightarrow> \<not> bit x 11"
  using and_exp_eq_0 [of x 0] and_exp_eq_0 [of x 2] and_exp_eq_0 [of x 4] and_exp_eq_0 [of x 6]
    and_exp_eq_0 [of x 7] and_exp_eq_0 [of x 11] by simp_all

lemma SET_BIT_flag:
  "bit (SET_BIT w f 1) k \<longleftrightarrow> (if k = 0 then f else bit w k)"
  "bit (SET_BIT w f 4) k \<longleftrightarrow> (if k = 2 then f else bit w k)"
  "bit (SET_BIT w f 0x10) k \<longleftrightarrow> (if k = 4 then f else bit w k)"
  "bit (SET_BIT w f 0x40) k \<longleftrightarrow> (if k = 6 then f else bit w k)"
  "bit (SET_BIT w f 0x80) k \<longleftrightarrow> (if k = 7 then f else bit w k)"
  "bit (SET_BIT w f 0x800) k \<longleftrightarrow> (if k = 11 then f else bit w k)"
  using SET_BIT_bit [of w f 0 k] SET_BIT_bit [of w f 2 k] SET_BIT_bit [of w f 4 k] SET_BIT_bit [of w f 6 k]
    SET_BIT_bit [of w f 7 k] SET_BIT_bit [of w f 11 k] by simp_all

text \<open>A lazily evaluated flag depends on the stored flags only through its own bit.\<close>

lemma get_cong:
  "bit e 0 = bit (eflags c) 0 \<Longrightarrow> get_CF (c\<lparr>eflags := e\<rparr>) = get_CF c"
  "bit e 2 = bit (eflags c) 2 \<Longrightarrow> get_PF (c\<lparr>eflags := e\<rparr>) = get_PF c"
  "bit e 4 = bit (eflags c) 4 \<Longrightarrow> get_AF (c\<lparr>eflags := e\<rparr>) = get_AF c"
  "bit e 6 = bit (eflags c) 6 \<Longrightarrow> get_ZF (c\<lparr>eflags := e\<rparr>) = get_ZF c"
  "bit e 7 = bit (eflags c) 7 \<Longrightarrow> get_SF (c\<lparr>eflags := e\<rparr>) = get_SF c"
  "bit e 0 = bit (eflags c) 0 \<Longrightarrow> bit e 11 = bit (eflags c) 11 \<Longrightarrow> get_OF (c\<lparr>eflags := e\<rparr>) = get_OF c"
proof -
  show cf: "bit e 0 = bit (eflags c) 0 \<Longrightarrow> get_CF (c\<lparr>eflags := e\<rparr>) = get_CF c"
    by (cases "ccop c") (simp_all add: get_CF_def flag_test)
  show "bit e 2 = bit (eflags c) 2 \<Longrightarrow> get_PF (c\<lparr>eflags := e\<rparr>) = get_PF c"
    "bit e 4 = bit (eflags c) 4 \<Longrightarrow> get_AF (c\<lparr>eflags := e\<rparr>) = get_AF c"
    "bit e 6 = bit (eflags c) 6 \<Longrightarrow> get_ZF (c\<lparr>eflags := e\<rparr>) = get_ZF c"
    "bit e 7 = bit (eflags c) 7 \<Longrightarrow> get_SF (c\<lparr>eflags := e\<rparr>) = get_SF c"
    by (simp_all add: get_PF_def get_AF_def get_ZF_def get_SF_def flag_test)
  show "bit e 0 = bit (eflags c) 0 \<Longrightarrow> bit e 11 = bit (eflags c) 11 \<Longrightarrow> get_OF (c\<lparr>eflags := e\<rparr>) = get_OF c"
    using cf by (cases "ccop c") (simp_all add: get_OF_def flag_test)
qed

lemma get_stored:
  "ccmask c = 0 \<Longrightarrow> get_CF c = Inr (bit (eflags c) 0) \<and> get_PF c = bit (eflags c) 2 \<and> get_AF c = bit (eflags c) 4 \<and>
     get_ZF c = bit (eflags c) 6 \<and> get_SF c = bit (eflags c) 7 \<and> get_OF c = Inr (bit (eflags c) 11)"
  by (simp add: get_CF_def get_PF_def get_AF_def get_ZF_def get_SF_def get_OF_def flag_test)

lemma observe_stored: "ccmask c = 0 \<Longrightarrow> observe c = Inr (stored_flags (eflags c))"
  by (simp add: observe_def get_stored stored_flags_def)

lemma refresh_flags_spec:
  assumes "observe c = Inr f"
  obtains e where "refresh_flags c = Inr (c\<lparr>eflags := e\<rparr>)" "stored_flags e = f"
    "\<And>k. k \<notin> {0, 2, 4, 6, 7, 11} \<Longrightarrow> bit e k = bit (eflags c) k"
    "observe (c\<lparr>eflags := e\<rparr>) = Inr f"
proof -
  obtain cf ov where C: "get_CF c = Inr cf" "get_OF c = Inr ov"
    and f: "f = \<lparr>aCF = cf, aPF = get_PF c, aAF = get_AF c, aZF = get_ZF c, aSF = get_SF c, aOF = ov\<rparr>"
    using assms by (auto simp: observe_def bind_result_eq_Inr)
  define e1 where "e1 = SET_BIT (eflags c) cf CF"
  define e2 where "e2 = SET_BIT e1 (get_PF c) PF"
  define e3 where "e3 = SET_BIT e2 (get_AF c) AF"
  define e4 where "e4 = SET_BIT e3 (get_ZF c) ZF"
  define e5 where "e5 = SET_BIT e4 (get_SF c) SF"
  define e6 where "e6 = SET_BIT e5 ov OF"
  note ed = e1_def e2_def e3_def e4_def e5_def e6_def
  have p: "get_PF (c\<lparr>eflags := e1\<rparr>) = get_PF c" "get_AF (c\<lparr>eflags := e2\<rparr>) = get_AF c"
    "get_ZF (c\<lparr>eflags := e3\<rparr>) = get_ZF c" "get_SF (c\<lparr>eflags := e4\<rparr>) = get_SF c"
    by (rule get_cong, simp add: ed SET_BIT_flag)+
  have own: "get_CF (c\<lparr>eflags := e\<rparr>) = Inr cf" if "bit e 0 = cf" for e
    using C(1) that by (cases "bit (ccmask c) 0"; cases "ccop c") (simp_all add: get_CF_def flag_test)
  have ownO: "get_OF (c\<lparr>eflags := e\<rparr>) = Inr ov" if "bit e 0 = cf" "bit e 11 = bit (eflags c) 11 \<or> bit e 11 = ov" for e
    using C that own [OF that(1)] by (cases "bit (ccmask c) 11"; cases "ccop c") (auto simp: get_OF_def flag_test)
  have r: "refresh_flags c = Inr (c\<lparr>eflags := e6\<rparr>)"
    using C(1) p ownO [of e5] by (simp add: refresh_flags_def Let_def ed SET_BIT_flag)
  have b: "bit e6 k = (if k = 0 then cf else if k = 2 then get_PF c else if k = 4 then get_AF c
      else if k = 6 then get_ZF c else if k = 7 then get_SF c else if k = 11 then ov else bit (eflags c) k)" for k
    by (simp add: ed SET_BIT_flag)
  have "observe (c\<lparr>eflags := e6\<rparr>) = Inr f"
    using own [of e6] ownO [of e6]
    by (simp add: observe_def f b get_PF_def get_AF_def get_ZF_def get_SF_def flag_test)
  then show thesis using r b by (intro that [of e6]) (auto simp: stored_flags_def f)
qed

lemma shift_count_word: "ucast b AND 0x1f = (of_nat (shift_count b) :: u32)" "shift_count b < 32"
  "unat (ucast b AND 0x1f :: u32) = shift_count b"
proof -
  have m: "(0x1f :: u32) = mask 5" by (simp add: mask_eq_exp_minus_1)
  have "unat (ucast b :: u32) = unat b" using unat_u8_less [of b] by (simp add: unat_ucast_mod)
  then have u: "unat (ucast b AND 0x1f :: u32) = unat b mod 32"
    unfolding m take_bit_eq_mask [symmetric] unsigned_take_bit_eq by (simp add: take_bit_eq_mod)
  then show "unat (ucast b AND 0x1f :: u32) = shift_count b" by (simp add: shift_count_def)
  show "ucast b AND 0x1f = (of_nat (shift_count b) :: u32)"
    using u unfolding shift_count_def by (metis of_nat_unat ucast_id)
  show "shift_count b < 32" by (simp add: shift_count_def)
qed

lemma shl_nat: "k < 32 \<Longrightarrow> shl x (of_nat k) = Inr (push_bit k x)"
  by (simp add: shl_def word_less_nat_alt unat_of_nat)

lemma shr_nat: "k < 32 \<Longrightarrow> shr x (of_nat k) = Inr (drop_bit k x)"
  by (simp add: shr_def word_less_nat_alt unat_of_nat)

lemma sub_nat:
  "k \<le> n \<Longrightarrow> n - k < 32 \<Longrightarrow> shr x (of_nat n - of_nat k) = Inr (drop_bit (n - k) x)"
  "k \<le> n \<Longrightarrow> n - k < 32 \<Longrightarrow> shl x (of_nat n - of_nat k) = Inr (push_bit (n - k) x)"
  using shr_nat [of "n - k" x] shl_nat [of "n - k" x] by simp_all

lemma drop_bit_31: "drop_bit 31 (u :: u32) = of_bool (bit u 31)"
proof (rule bit_word_eqI)
  fix n :: nat
  show "bit (drop_bit 31 u) n \<longleftrightarrow> bit (of_bool (bit u 31) :: u32) n"
    by (cases "n = 0") (auto simp: bit_simps dest: bit_imp_le_length)
qed

lemma and_1_of_bool: "(v :: u32) AND 1 = of_bool (bit v 0)"
  by (rule bit_word_eqI) (auto simp: bit_simps)

lemma shift_flags:
  fixes r :: "'a::len word"
  assumes "operand_width TYPE('a)" "dst c = sextw r" "ccmask c = MASK_NO_AF" "ccop c \<in> {CC_SHL, CC_SHR, CC_SAR}"
  shows "observe c = Inr (arch_result r (bit (dst2 c) 0) (bit (eflags c) 4)
     (if ccop c = CC_SHL then (sint r < 0) \<noteq> bit (dst2 c) 0 else if ccop c = CC_SHR then bit (src1 c) 31 else False))"
proof -
  note w = operand_widthD [OF assms(1), THEN conjunct1] operand_widthD [OF assms(1), THEN conjunct2]
  have x: "drop_bit 31 (u :: u32) XOR (v AND 1) \<noteq> 0 \<longleftrightarrow> bit u 31 \<noteq> bit v 0" for u v
    by (simp add: drop_bit_31 and_1_of_bool)
  show ?thesis
    using assms lazy_result [OF w, of c r] w
    by (auto simp: observe_def get_CF_def get_OF_def get_AF_def arch_result_def flag_test x drop_bit_top top_sextw)
qed

lemma shift_count_nonzero: "0 < shift_count b \<Longrightarrow> (of_nat (shift_count b) :: u32) \<noteq> 0"
  using shift_count_word(2) [of b] by (simp add: word_unat_eq_iff unat_of_nat)

lemma shl_computes:
  fixes a :: "'a::len word"
  assumes W: "operand_width TYPE('a)" and k: "0 < shift_count b" "shift_count b \<le> LENGTH('a)"
  shows "computes (SHL_helper a b c) (push_bit (shift_count b) a)
     (arch_result (push_bit (shift_count b) a) (bit a (LENGTH('a) - shift_count b)) (bit (eflags c) 4)
        ((sint (push_bit (shift_count b) a) < 0) \<noteq> bit a (LENGTH('a) - shift_count b)))"
proof -
  note w = operand_widthD [OF W, THEN conjunct1] operand_widthD [OF W, THEN conjunct2]
  let ?k = "shift_count b"
  let ?r = "push_bit ?k a"
  let ?c = "c\<lparr>dst := sextw ?r, dst2 := drop_bit (LENGTH('a) - ?k) (ucast a) AND 1, ccop := CC_SHL, ccmask := MASK_NO_AF\<rparr>"
  have r: "sext TYPE('a) (push_bit ?k (ucast a)) = sextw ?r"
    unfolding sext_def by (rule arg_cong [where f = sextw], rule bit_word_eqI) (use w in \<open>auto simp: bit_simps\<close>)
  have "(of_nat ?k :: u32) \<noteq> 0" using k(1) by (rule shift_count_nonzero)
  moreover have lt: "LENGTH('a) - ?k < 32" using w k by simp
  ultimately have S: "SHL_helper a b c = Inr (?r, ?c)"
    using w k r by (simp add: SHL_helper_def shift_count_word shl_nat sub_nat Let_def)
  moreover have "observe ?c = Inr (arch_result ?r (bit (dst2 ?c) 0) (bit (eflags ?c) 4)
     (if ccop ?c = CC_SHL then (sint ?r < 0) \<noteq> bit (dst2 ?c) 0 else if ccop ?c = CC_SHR then bit (src1 ?c) 31 else False))"
    by (rule shift_flags [OF W]) simp_all
  moreover have "bit (dst2 ?c) 0 \<longleftrightarrow> bit a (LENGTH('a) - ?k)"
    using lt by (simp add: bit_simps)
  ultimately show ?thesis by (simp add: computes_def)
qed

lemma shr_pred: "0 < k \<Longrightarrow> k < 32 \<Longrightarrow> shr x (of_nat k - 1) = Inr (drop_bit (k - 1) x)"
  using sub_nat(1) [of 1 k x] by simp

lemma shr_computes:
  fixes a :: "'a::len word"
  assumes W: "operand_width TYPE('a)" and k: "0 < shift_count b"
  shows "computes (SHR_helper a b c) (drop_bit (shift_count b) a)
     (arch_result (drop_bit (shift_count b) a) (bit a (shift_count b - 1)) (bit (eflags c) 4) (sint a < 0))"
proof -
  note w = operand_widthD [OF W, THEN conjunct1] operand_widthD [OF W, THEN conjunct2]
  let ?k = "shift_count b"
  let ?r = "drop_bit ?k a"
  let ?c = "c\<lparr>src1 := sextw a, dst := sextw ?r, dst2 := drop_bit (?k - 1) (ucast a) AND 1, ccop := CC_SHR, ccmask := MASK_NO_AF\<rparr>"
  have r: "sext TYPE('a) (drop_bit ?k (ucast a)) = sextw ?r" "sext TYPE('a) (ucast a) = sextw a"
    unfolding sext_def by (rule arg_cong [where f = sextw], rule bit_word_eqI, use w in \<open>auto simp: bit_simps dest: bit_imp_le_length\<close>)+
  have S: "SHR_helper a b c = Inr (?r, ?c)"
    using w k r shift_count_nonzero [OF k] shift_count_word(2) [of b]
    by (simp add: SHR_helper_def shift_count_word shr_nat shr_pred Let_def)
  moreover have "observe ?c = Inr (arch_result ?r (bit (dst2 ?c) 0) (bit (eflags ?c) 4)
     (if ccop ?c = CC_SHL then (sint ?r < 0) \<noteq> bit (dst2 ?c) 0 else if ccop ?c = CC_SHR then bit (src1 ?c) 31 else False))"
    by (rule shift_flags [OF W]) simp_all
  moreover have "bit (dst2 ?c) 0 \<longleftrightarrow> bit a (?k - 1)"
    using shift_count_word(2) [of b] by (auto simp: bit_simps)
  ultimately show ?thesis using w by (simp add: computes_def top_sextw)
qed

lemma sar_computes:
  fixes a :: "'a::len word"
  assumes W: "operand_width TYPE('a)" and k: "0 < shift_count b"
  shows "computes (Inr (SAR_helper a b c)) (signed_drop_bit (shift_count b) a)
     (arch_result (signed_drop_bit (shift_count b) a) (bit (sextw a) (shift_count b - 1)) (bit (eflags c) 4) False)"
proof -
  note w = operand_widthD [OF W, THEN conjunct1] operand_widthD [OF W, THEN conjunct2]
  let ?k = "shift_count b"
  let ?r = "signed_drop_bit ?k a"
  let ?c = "c\<lparr>dst := sextw ?r, dst2 := signed_drop_bit (?k - 1) (sextw a) AND 1, ccop := CC_SAR, ccmask := MASK_NO_AF\<rparr>"
  have r: "signed_drop_bit ?k (sextw a) = sextw ?r"
  proof (rule signed_word_eqI)
    show "sint (signed_drop_bit ?k (sextw a)) = sint (sextw ?r)"
      using w by (simp add: sint_signed_drop_bit_eq sint_sextw)
  qed
  have S: "SAR_helper a b c = (?r, ?c)"
    using w k r by (simp add: SAR_helper_def shift_count_word(3) Let_def)
  moreover have "observe ?c = Inr (arch_result ?r (bit (dst2 ?c) 0) (bit (eflags ?c) 4)
     (if ccop ?c = CC_SHL then (sint ?r < 0) \<noteq> bit (dst2 ?c) 0 else if ccop ?c = CC_SHR then bit (src1 ?c) 31 else False))"
    by (rule shift_flags [OF W]) simp_all
  moreover have "bit (dst2 ?c) 0 \<longleftrightarrow> bit (sextw a) (?k - 1)"
    using shift_count_word(2) [of b] by (auto simp: bit_simps bit_signed_drop_bit_iff)
  ultimately show ?thesis by (simp add: computes_def)
qed

lemma rotate_amount:
  assumes "operand_width TYPE('a::len)"
  shows "ucast (b :: u8) AND (of_nat LENGTH('a) - 1) = (of_nat (unat b mod LENGTH('a)) :: u32)"
proof -
  have m: "(7 :: u32) = mask 3" "(15 :: u32) = mask 4" "(31 :: u32) = mask 5" by (simp_all add: mask_eq_exp_minus_1)
  have u: "unat (ucast b :: u32) = unat b" using unat_u8_less [of b] by (simp add: unat_ucast_mod)
  have a: "(v :: u32) AND mask n = of_nat (unat v mod 2 ^ n)" for v n
  proof -
    have "unat (v AND mask n) = unat v mod 2 ^ n"
      unfolding take_bit_eq_mask [symmetric] unsigned_take_bit_eq by (simp add: take_bit_eq_mod)
    then show ?thesis by (metis of_nat_unat ucast_id)
  qed
  from assms consider "LENGTH('a) = 8" | "LENGTH('a) = 16" | "LENGTH('a) = 32" by (auto simp: operand_width_def)
  then show ?thesis
    using a [of "ucast b" 3] a [of "ucast b" 4] a [of "ucast b" 5] by cases (simp_all add: m [symmetric] u)
qed

lemma rotl_word:
  fixes a :: "'a::len word"
  assumes "LENGTH('a) \<le> 32" "k < LENGTH('a)"
  shows "sext TYPE('a) (push_bit k (ucast a) OR drop_bit (LENGTH('a) - k) (ucast a)) = sextw (word_rotl k a)"
proof -
  have "(n + (LENGTH('a) - k)) mod LENGTH('a) = (if n < k then LENGTH('a) + n - k else n - k)" if "n < LENGTH('a)" for n
    using assms that by (cases "n < k") (simp_all add: mod_if add.commute)
  then show ?thesis unfolding sext_def using assms
    by (intro arg_cong [where f = sextw] bit_word_eqI) (auto simp: bit_simps bit_word_rotl_iff dest: bit_imp_le_length)
qed

lemma rotr_word:
  fixes a :: "'a::len word"
  assumes "LENGTH('a) \<le> 32" "k < LENGTH('a)"
  shows "sext TYPE('a) (drop_bit k (ucast a) OR push_bit (LENGTH('a) - k) (ucast a)) = sextw (word_rotr k a)"
  unfolding sext_def
  by (rule arg_cong [where f = sextw], rule bit_word_eqI)
    (use assms in \<open>auto simp: bit_simps bit_word_rotr_iff mod_if add.commute [of k] dest: bit_imp_le_length\<close>)


lemma rotate_observe:
  assumes "observe c = Inr f"
  shows "observe (rotate_flags cf ov c) = Inr (f\<lparr>aCF := cf, aOF := ov\<rparr>)"
proof -
  have m: "bit (ccmask c AND NOT (CF OR OF)) k \<longleftrightarrow> k \<notin> {0, 11} \<and> bit (ccmask c) k" for k
  proof -
    have "(CF OR OF) = (2 ^ 0 OR 2 ^ 11 :: u32)" by simp
    then show ?thesis by (simp only: bit_simps) (auto dest: bit_imp_le_length simp: bit_simps)
  qed
  define d where "d = rotate_flags cf ov c"
  have e: "bit (eflags d) k \<longleftrightarrow> (if k = 0 then cf else if k = 11 then ov else bit (eflags c) k)" for k
    unfolding d_def rotate_flags_def by (simp add: SET_BIT_flag)
  have m': "bit (ccmask d) k \<longleftrightarrow> k \<notin> {0, 11} \<and> bit (ccmask c) k" for k
    unfolding d_def rotate_flags_def using m [of k] by simp
  have s: "ccop d = ccop c" "dst d = dst c" "src1 d = src1 c" "src2 d = src2 c"
    by (simp_all add: d_def rotate_flags_def)
  have "get_CF d = Inr cf" "get_OF d = Inr ov" by (simp_all add: get_CF_def get_OF_def flag_test e m')
  moreover have "get_PF d = get_PF c" "get_AF d = get_AF c" "get_ZF d = get_ZF c" "get_SF d = get_SF c"
    by (simp_all add: get_PF_def get_AF_def get_ZF_def get_SF_def flag_test e m' s)
  ultimately show ?thesis
    using assms unfolding d_def [symmetric] by (auto simp: observe_def bind_result_def split: sum.splits)
qed

lemma rotate_count_nonzero:
  assumes "0 < unat (b :: u8) mod n"
  shows "(ucast b :: u32) \<noteq> 0"
proof
  assume "(ucast b :: u32) = 0"
  then have "unat (ucast b :: u32) = 0" by simp
  then show False using assms unat_u8_less [of b] by (simp add: unat_ucast_mod)
qed

text \<open>
  A rotate moves the bits and stores carry and overflow; the flags that it
  leaves alone keep the value that they would have had.
\<close>

lemma rol_computes:
  fixes a :: "'a::len word"
  assumes W: "operand_width TYPE('a)" and k: "0 < unat b mod LENGTH('a)" and f: "observe c = Inr f"
  defines "r \<equiv> word_rotl (unat b mod LENGTH('a)) a"
  shows "computes (ROL_helper a b c) r (f\<lparr>aCF := bit r 0, aOF := (sint r < 0) \<noteq> bit r 0\<rparr>)"
proof -
  note w = operand_widthD [OF W, THEN conjunct1] operand_widthD [OF W, THEN conjunct2]
  define n where "n = unat b mod LENGTH('a)"
  have n: "n < LENGTH('a)" "0 < n" using k by (simp_all add: n_def)
  then have y: "(of_nat n :: u32) \<noteq> 0" using w by (simp add: word_unat_eq_iff unat_of_nat)
  note b = rotate_count_nonzero [OF k]
  have c0: "bit (sextw r) 0 = bit r 0" "bit (sextw r) 31 \<longleftrightarrow> sint r < 0"
    using w bit_top_sint [of r] by (simp_all add: bit_sextw)
  have "ROL_helper a b c = Inr (r, rotate_flags (bit r 0) ((sint r < 0) \<noteq> bit r 0) c)"
    using w n y b c0 rotl_word [OF w(2) n(1), of a]
    by (simp add: ROL_helper_def rotate_amount [OF W] shl_nat sub_nat Let_def r_def drop_bit_31 and_1_of_bool flip: n_def)
  then show ?thesis using rotate_observe [OF f] by (simp add: computes_def)
qed


lemma ror_computes:
  fixes a :: "'a::len word"
  assumes W: "operand_width TYPE('a)" and k: "0 < unat b mod LENGTH('a)" and f: "observe c = Inr f"
  defines "r \<equiv> word_rotr (unat b mod LENGTH('a)) a"
  shows "computes (ROR_helper a b c) r
    (f\<lparr>aCF := sint r < 0, aOF := (sint r < 0) \<noteq> bit r (LENGTH('a) - 2)\<rparr>)"
proof -
  note w = operand_widthD [OF W, THEN conjunct1] operand_widthD [OF W, THEN conjunct2]
  define n where "n = unat b mod LENGTH('a)"
  have n: "n < LENGTH('a)" "0 < n" using k by (simp_all add: n_def)
  then have y: "(of_nat n :: u32) \<noteq> 0" using w by (simp add: word_unat_eq_iff unat_of_nat)
  note b = rotate_count_nonzero [OF k]
  have t: "bit (sextw r) (LENGTH('a) - 1) \<longleftrightarrow> sint r < 0"
    "bit (sextw r XOR push_bit 1 (sextw r)) (LENGTH('a) - 1) \<longleftrightarrow> (sint r < 0) \<noteq> bit r (LENGTH('a) - 2)"
    using w bit_top_sint [of r] by (auto simp: bit_sextw bit_simps min_def numeral_2_eq_2 mult.commute [of _ 2])
  have d: "drop_bit k v AND 1 = (of_bool (bit v k) :: u32)" for k v by (simp add: and_1_of_bool bit_drop_bit_eq)
  have "ROR_helper a b c = Inr (r, rotate_flags (sint r < 0) ((sint r < 0) \<noteq> bit r (LENGTH('a) - 2)) c)"
    using w n y b rotr_word [OF w(2) n(1), of a]
    by (simp add: ROR_helper_def rotate_amount [OF W] shr_nat sub_nat Let_def r_def t [unfolded r_def, folded n_def] d
        del: drop_bit_xor One_nat_def flip: n_def)
  then show ?thesis using rotate_observe [OF f] by (simp add: computes_def)
qed

text \<open>
  The remaining counts: a masked count of 0, a left shift by more than the width, whose carry is a C shift
  by a huge count, and a rotate by a multiple of the width, which changes carry and overflow only.
\<close>

lemma shift_count_zero: "shift_count b = 0 \<Longrightarrow> (ucast b AND 0x1f :: u32) = 0"
  by (simp add: shift_count_word)

lemma shift_none:
  assumes "shift_count b = 0"
  shows "SHL_helper a b c = Inr (a, c)" "SHR_helper a b c = Inr (a, c)" "SAR_helper a b c = (a, c)"
  using shift_count_zero [OF assms] by (simp_all add: SHL_helper_def SHR_helper_def SAR_helper_def)

lemma shl_too_far:
  fixes a :: "'a::len word"
  assumes W: "operand_width TYPE('a)" and k: "LENGTH('a) < shift_count b"
  shows "SHL_helper a b c = Inl ShiftRange"
proof -
  note w = operand_widthD [OF W, THEN conjunct1] operand_widthD [OF W, THEN conjunct2]
  let ?k = "shift_count b"
  have l: "?k < 32" using shift_count_word(2) [of b] by simp
  define m where "m = ?k - LENGTH('a)"
  have m: "0 < m" "m < 32" using l k by (simp_all add: m_def)
  have e: "(of_nat LENGTH('a) - of_nat ?k :: u32) = - of_nat m" using k by (simp add: m_def of_nat_diff)
  have "(- int m) mod 4294967296 = 4294967296 - int m" using m by (simp add: zmod_zminus1_eq_if)
  then have "uint (- of_nat m :: u32) = 4294967296 - int m" using m by (simp add: uint_word_ariths unsigned_of_nat take_bit_nat_eq_self)
  then have "\<not> (of_nat LENGTH('a) - of_nat ?k :: u32) < 32" unfolding e using m by (simp add: word_less_def)
  then have "shr x (BIT TYPE('a) - of_nat ?k) = Inl ShiftRange" for x by (simp add: shr_def)
  then show ?thesis
    using k l shift_count_nonzero [of b] by (simp add: SHL_helper_def shift_count_word shl_nat Let_def)
qed

lemma rotate_multiple:
  fixes a :: "'a::len word"
  assumes W: "operand_width TYPE('a)" and z: "unat b mod LENGTH('a) = 0" "b \<noteq> 0" and f: "observe c = Inr f"
  shows "computes (ROL_helper a b c) a (f\<lparr>aCF := bit a 0, aOF := (LENGTH('a) = 32 \<and> sint a < 0) \<noteq> bit a 0\<rparr>)"
    and "computes (ROR_helper a b c) a (f\<lparr>aCF := sint a < 0, aOF := (sint a < 0) \<noteq> bit a (LENGTH('a) - 2)\<rparr>)"
proof -
  note w = operand_widthD [OF W, THEN conjunct1] operand_widthD [OF W, THEN conjunct2]
  have y: "(ucast b AND (BIT TYPE('a) - 1) :: u32) = 0" unfolding rotate_amount [OF W] by (simp add: z)
  have b: "(ucast b :: u32) \<noteq> 0" using z(2) unat_u8_less [of b] by (simp add: word_unat_eq_iff unat_ucast_mod)
  have u: "bit (ucast a :: u32) 31 \<longleftrightarrow> LENGTH('a) = 32 \<and> sint a < 0"
    using W bit_top_sint [of a] by (auto simp: operand_width_def bit_simps dest: bit_imp_le_length)
  have "ROL_helper a b c = Inr (a, rotate_flags (bit a 0) ((LENGTH('a) = 32 \<and> sint a < 0) \<noteq> bit a 0) c)"
    using b u by (simp add: ROL_helper_def y Let_def drop_bit_31 and_1_of_bool bit_ucast_iff)
  then show "computes (ROL_helper a b c) a (f\<lparr>aCF := bit a 0, aOF := (LENGTH('a) = 32 \<and> sint a < 0) \<noteq> bit a 0\<rparr>)"
    using rotate_observe [OF f] by (simp add: computes_def)
  have d: "drop_bit k v AND 1 = (of_bool (bit v k) :: u32)" for k v by (simp add: and_1_of_bool bit_drop_bit_eq)
  have t: "bit (ucast a :: u32) (LENGTH('a) - 1) \<longleftrightarrow> sint a < 0"
    "bit (ucast a XOR push_bit 1 (ucast a) :: u32) (LENGTH('a) - 1) \<longleftrightarrow> (sint a < 0) \<noteq> bit a (LENGTH('a) - 2)"
    using w bit_top_sint [of a] by (auto simp: bit_simps numeral_2_eq_2 mult.commute [of _ 2])
  have "ROR_helper a b c = Inr (a, rotate_flags (sint a < 0) ((sint a < 0) \<noteq> bit a (LENGTH('a) - 2)) c)"
    using b by (simp add: ROR_helper_def y Let_def t d del: drop_bit_xor One_nat_def)
  then show "computes (ROR_helper a b c) a (f\<lparr>aCF := sint a < 0, aOF := (sint a < 0) \<noteq> bit a (LENGTH('a) - 2)\<rparr>)"
    using rotate_observe [OF f] by (simp add: computes_def)
qed

lemma and_one_zero: "w AND 1 = 0 \<longleftrightarrow> \<not> bit (w :: 'a::len word) 0"
  by (simp add: and_one_eq bit_0 even_iff_mod_2_eq_zero)

text \<open>The bit scans end, with the lowest or the highest set bit.\<close>

lemma bsf_loop_lowest:
  assumes "bit src k" "\<And>i. i < k \<Longrightarrow> \<not> bit src i"
  shows "bsf_loop src t = Some (t + of_nat k)"
  using assms
proof (induction k arbitrary: src t)
  case 0
  then show ?case by (subst bsf_loop.simps) (simp add: and_one_zero)
next
  case (Suc k)
  have "bit (drop_bit 1 src) k" "\<And>i. i < k \<Longrightarrow> \<not> bit (drop_bit 1 src) i"
    using Suc.prems by (simp_all add: bit_drop_bit_eq)
  from Suc.IH [OF this, of "t + 1"] Suc.prems(2) [of 0]
  show ?case by (subst bsf_loop.simps) (simp add: and_one_zero algebra_simps)
qed

lemma bsr_loop_highest:
  fixes src :: "'a::len word"
  assumes "bit src (LENGTH('a) - 1 - d)" "d < LENGTH('a)" "\<And>i. LENGTH('a) - 1 - d < i \<Longrightarrow> \<not> bit src i"
  shows "bsr_loop src t = Some (t - of_nat d)"
  using assms
proof (induction d arbitrary: src t)
  case 0
  then have "sint src < 0" by (simp add: bit_last_iff)
  then show ?case by (subst bsr_loop.simps) simp
next
  case (Suc d)
  have s: "bit (push_bit 1 src) i \<longleftrightarrow> 0 < i \<and> i < LENGTH('a) \<and> bit src (i - 1)" for i
    by (auto simp: bit_double_iff mult.commute [of _ 2] dest: bit_imp_le_length)
  have "\<not> bit src (LENGTH('a) - 1)" using Suc.prems(2) by (intro Suc.prems(3)) simp
  then have p: "0 \<le> sint src" by (simp add: bit_last_iff not_less)
  have "bit (push_bit 1 src) (LENGTH('a) - 1 - d)"
    using Suc.prems(1,2) by (simp only: s) (simp add: diff_Suc split: nat.splits)
  moreover have "\<not> bit (push_bit 1 src) i" if "LENGTH('a) - 1 - d < i" for i
    using that Suc.prems(2) Suc.prems(3) [of "i - 1"] by (simp only: s) auto
  ultimately have "bsr_loop (push_bit 1 src) (t - 1) = Some (t - 1 - of_nat d)"
    using Suc.prems(2) by (intro Suc.IH) simp_all
  then show ?case using p by (subst bsr_loop.simps) (simp add: algebra_simps)
qed

lemma divides_to_unique:
  assumes "divides_to x y q r" "divides_to x y q' r'"
  shows "q = q' \<and> r = r'"
proof -
  from assms have e: "q * y + r = q' * y + r'" and b: "\<bar>r\<bar> < \<bar>y\<bar>" "\<bar>r'\<bar> < \<bar>y\<bar>"
    and s: "r = 0 \<or> sgn r = sgn x" "r' = 0 \<or> sgn r' = sgn x" by (auto simp: divides_to_def)
  then have "\<bar>r' - r\<bar> < \<bar>y\<bar>" by (auto simp: sgn_if split: if_splits)
  moreover have "r' - r = (q - q') * y" using e by (simp add: algebra_simps)
  ultimately have "\<bar>q - q'\<bar> * \<bar>y\<bar> < 1 * \<bar>y\<bar>" by (simp add: abs_mult)
  then have "q = q'" by (simp only: mult_less_cancel_right) (auto split: if_splits)
  with e show ?thesis by simp
qed

lemma sdiv_divides_to: "y \<noteq> 0 \<Longrightarrow> divides_to x y (x sdiv y) (x smod y)"
proof -
  assume y: "y \<noteq> 0"
  then have m: "0 \<le> \<bar>x\<bar> mod \<bar>y\<bar>" "\<bar>x\<bar> mod \<bar>y\<bar> < \<bar>y\<bar>" by simp_all
  define m where "m = \<bar>x\<bar> mod \<bar>y\<bar>"
  have "\<bar>sgn x * m\<bar> < \<bar>y\<bar>" "sgn x * m = 0 \<or> sgn (sgn x * m) = sgn x"
    using y m by (auto simp: abs_mult sgn_mult sgn_if simp flip: m_def)
  then show ?thesis
    using sdiv_mult_smod_eq [of x y] by (simp add: divides_to_def signed_modulo_int_def m_def)
qed

lemma div_divides_to: "0 \<le> x \<Longrightarrow> 0 < y \<Longrightarrow> divides_to x y (x div y) (x mod y)"
  using pos_mod_bound [of y x] pos_mod_sign [of y x] by (auto simp: divides_to_def sgn_if order_less_le)

text \<open>The double-width dividend that the two halves make.\<close>

lemma double_word:
  fixes l h :: "'a::len word" 
  assumes "LENGTH('b::len) = 2 * LENGTH('a)"
  shows "(push_bit LENGTH('a) (ucast h) OR ucast l :: 'b word) = of_int (uint h * 2 ^ LENGTH('a) + uint l)"
proof -
  have "bit (push_bit LENGTH('a) (ucast h) AND ucast l :: 'b word) k \<longleftrightarrow> False" for k
    by (auto simp: bit_simps dest: bit_imp_le_length)
  then have z: "push_bit LENGTH('a) (ucast h) AND ucast l = (0 :: 'b word)"
    by (intro bit_word_eqI) simp
  then have "(push_bit LENGTH('a) (ucast h) OR ucast l :: 'b word) = push_bit LENGTH('a) (ucast h) + ucast l"
    by (simp add: disjunctive_add_eq_or)
  then show ?thesis by (simp add: push_bit_eq_mult)
qed

lemma uint_double:
  fixes l h :: "'a::len word" 
  assumes L: "LENGTH('b::len) = 2 * LENGTH('a)"
  shows "uint (push_bit LENGTH('a) (ucast h) OR ucast l :: 'b word) = uint h * 2 ^ LENGTH('a) + uint l"
proof -
  have h: "uint h < 2 ^ LENGTH('a)" "uint l < 2 ^ LENGTH('a)" by simp_all
  then have "uint h + 1 \<le> 2 ^ LENGTH('a)" by linarith
  then have "(uint h + 1) * 2 ^ LENGTH('a) \<le> 2 ^ LENGTH('a) * 2 ^ LENGTH('a)" by (intro mult_right_mono) simp_all
  then have "uint h * 2 ^ LENGTH('a) + uint l < 2 ^ LENGTH('b)"
    using h(2) unfolding L mult_2 power_add distrib_right by linarith
  then show ?thesis unfolding double_word [OF L] uint_word_of_int_eq by (simp add: take_bit_int_eq_self)
qed

lemma sint_double:
  fixes l h :: "'a::len word" 
  assumes L: "LENGTH('b::len) = 2 * LENGTH('a)"
  shows "sint (push_bit LENGTH('a) (ucast h) OR ucast l :: 'b word) = sint h * 2 ^ LENGTH('a) + uint l"
proof -
  obtain k where k: "LENGTH('a) = Suc k" by (metis len_not_eq_0 not0_implies_Suc)
  define N :: int where "N = 2 ^ LENGTH('a)"
  have b: "2 ^ LENGTH('b) = N * N" using L by (simp add: N_def mult_2 power_add)
  have h: "uint h = sint h \<or> uint h = sint h + N"
    by (auto simp: N_def sint_uint signed_take_bit_eq_take_bit_minus take_bit_int_eq_self)
  have "(of_int (uint h * N + uint l) :: 'b word) = of_int (sint h * N + uint l)"
  proof -
    have "(of_int (N * N) :: 'b word) = 0" unfolding b [symmetric] by (simp add: word_of_int_2p_len)
    moreover have "uint h * N + uint l = sint h * N + uint l \<or> uint h * N + uint l = (sint h * N + uint l) + N * N"
      using h by (auto simp: algebra_simps)
    ultimately show ?thesis by (metis add.right_neutral of_int_add)
  qed
  moreover have "sint (of_int (sint h * N + uint l) :: 'b word) = sint h * N + uint l"
  proof -
    define M :: int where "M = 2 ^ k"
    have "LENGTH('b) - 1 = Suc (k + k)" using L k by simp
    then have m: "2 ^ (LENGTH('b) - 1) = M * N" by (simp add: M_def N_def k power_add)
    have r: "- M \<le> sint h" "sint h < M" "0 \<le> uint l" "uint l < N" "0 < N"
      using sint_range [of h] unsigned_less [of l] by (simp_all add: M_def N_def k)
    then have "- M * N \<le> sint h * N" "(sint h + 1) * N \<le> M * N" by (intro mult_right_mono; simp)+
    then have "- (M * N) \<le> sint h * N" "sint h * N + N \<le> M * N" by (simp_all add: distrib_right)
    then have "- (2 ^ (LENGTH('b) - 1)) \<le> sint h * N + uint l" "sint h * N + uint l < 2 ^ (LENGTH('b) - 1)"
      using r(3,4) unfolding m by linarith+
    then show ?thesis unfolding signed_of_int by (simp add: signed_take_bit_int_eq_self)
  qed
  ultimately show ?thesis by (simp add: double_word [OF L] N_def)
qed


lemma sint_of_int_range: "in_range TYPE('a::len) v \<Longrightarrow> sint (of_int v :: 'a word) = v"
  by (simp add: in_range_def signed_of_int signed_take_bit_int_eq_self)

lemma idiv_cases:
  assumes hi: "hi = 2 ^ (LENGTH('a::len) - 1) - 1" and lq: "lq = - hi - 1" and y: "\<bar>y\<bar> \<le> hi + 1" and lo: "lo = - (2 ^ (n - 1))"
  shows "idiv_spec lo x y (if y = 0 then Inr (Throw 0)
         else bind_result (sdiv_C n x y) (\<lambda>(q, r).
           if hi < q \<or> q < lq then Inr (Throw 0)
           else Inr (Fine (of_int q :: 'a word, of_int r :: 'a word))))"
proof (cases "y = 0 \<or> x = - (2 ^ (n - 1)) \<and> y = -1")
  case True
  then show ?thesis using lo by (auto simp: idiv_spec_def sdiv_C_def)
next
  case False
  then have d: "divides_to x y (x sdiv y) (x smod y)" by (intro sdiv_divides_to) simp
  then have "\<bar>x smod y\<bar> < \<bar>y\<bar>" by (simp add: divides_to_def)
  then have ml: "- \<bar>y\<bar> < x smod y" "x smod y < \<bar>y\<bar>" by linarith+
  have g: "in_range TYPE('a) q \<longleftrightarrow> \<not> (hi < q \<or> q < lq)" for q
    unfolding in_range_def hi lq by auto
  have m: "in_range TYPE('a) (x smod y)" unfolding g using ml y lq by linarith
  let ?res = "if y = 0 then Inr (Throw 0) else bind_result (sdiv_C n x y) (\<lambda>(q, r).
      if hi < q \<or> q < lq then Inr (Throw 0) else Inr (Fine (of_int q :: 'a word, of_int r :: 'a word)))"
  show ?thesis
  proof (cases "in_range TYPE('a) (x sdiv y)")
    case True
    then have "?res = Inr (Fine (of_int (x sdiv y), of_int (x smod y)))"
      using False unfolding g by (simp add: sdiv_C_def)
    then show ?thesis using d m True lo \<open>\<not> (y = 0 \<or> x = - (2 ^ (n - 1)) \<and> y = -1)\<close>
      by (simp add: idiv_spec_def sint_of_int_range del: of_int_eq_iff)
  next
    case nr: False
    then have "?res = Inr (Throw 0)" using False unfolding g by (simp add: sdiv_C_def)
    then show ?thesis using divides_to_unique [OF d] nr False lo by (auto simp: idiv_spec_def)
  qed
qed

lemma IDIV_spec:
  "idiv_spec (- (2 ^ 31)) (sint ax) (sint b) (IDIVb ax b)"
  "idiv_spec (- (2 ^ 31)) (sint dx * 2 ^ 16 + uint ax) (sint w) (IDIVw ax dx w)"
  "idiv_spec (- (2 ^ 63)) (sint edx * 2 ^ 32 + uint eax) (sint d) (IDIVd eax edx d)"
proof -
  have r: "\<bar>sint v\<bar> \<le> 2 ^ (LENGTH('a) - 1)" for v :: "'a::len word"
    using sint_range [of v] by auto
  show "idiv_spec (- (2 ^ 31)) (sint ax) (sint b) (IDIVb ax b)"
    using idiv_cases [where 'a = 8, of 127 "-128" "sint b" "- (2 ^ 31)" 32 "sint ax"] r [of b]
    by (simp add: IDIVb_def sint_sextw Let_def split del: if_split)
  show "idiv_spec (- (2 ^ 31)) (sint dx * 2 ^ 16 + uint ax) (sint w) (IDIVw ax dx w)"
    using idiv_cases [where 'a = 16, of 32767 "-32768" "sint w" "- (2 ^ 31)" 32 "sint dx * 65536 + uint ax"] r [of w]
      sint_double [where 'a = 16 and 'b = 32, of dx ax]
    by (simp add: IDIVw_def sint_sextw Let_def sext_def or.commute split del: if_split)
  show "idiv_spec (- (2 ^ 63)) (sint edx * 2 ^ 32 + uint eax) (sint d) (IDIVd eax edx d)"
    using idiv_cases [where 'a = 32, of 2147483647 "-2147483648" "sint d" "- (2 ^ 63)" 64 "sint edx * 4294967296 + uint eax"] r [of d]
      sint_double [where 'a = 32 and 'b = 64, of edx eax]
    by (simp add: IDIVd_def Let_def split del: if_split)
qed

lemma uint_ucast_less: "uint x < 2 ^ LENGTH('a) \<Longrightarrow> uint (ucast (x :: 'b::len word) :: 'a::len word) = uint x"
  by (simp add: unsigned_ucast_eq take_bit_int_eq_self)

lemma div_cases:
  fixes s1 s2 :: "'b::len word"
  assumes "hi = 2 ^ LENGTH('a::len) - 1" "LENGTH('a) \<le> LENGTH('b)" "uint s2 \<le> uint hi"
  shows "div_spec (uint s1) (uint s2) (if s2 = 0 then Throw 0 else if hi < s1 div s2 then Throw 0
     else Fine (ucast (s1 div s2) :: 'a word, ucast (s1 mod s2) :: 'a word))"
proof -
  have "hi = mask LENGTH('a)" unfolding assms(1) by (simp add: mask_eq_exp_minus_1)
  then have "uint hi = mask LENGTH('a)" using assms(2) by (simp add: uint_mask_eq min_def)
  then have u: "uint hi = 2 ^ LENGTH('a) - 1" by (simp add: mask_eq_exp_minus_1)
  show ?thesis
  proof (cases "s2 = 0")
    case False
    then have y: "0 < uint s2" by (simp add: word_neq_0_conv word_less_def)
    have d: "divides_to (uint s1) (uint s2) (uint s1 div uint s2) (uint s1 mod uint s2)"
      by (rule div_divides_to [OF _ y]) simp
    have q: "uint (s1 div s2) = uint s1 div uint s2" "uint (s1 mod s2) = uint s1 mod uint s2"
      by (simp_all add: uint_div_distrib uint_mod_distrib)
    have "uint s1 mod uint s2 < 2 ^ LENGTH('a)" using pos_mod_bound [OF y, of "uint s1"] assms(3) u by linarith
    then have r: "uint (ucast (s1 mod s2) :: 'a word) = uint s1 mod uint s2" by (simp add: uint_ucast_less q)
    show ?thesis
    proof (cases "hi < s1 div s2")
      case True
      then have "2 ^ LENGTH('a) \<le> uint s1 div uint s2" using q u by (simp add: word_less_def)
      then have "\<forall>q r. divides_to (uint s1) (uint s2) q r \<longrightarrow> 2 ^ LENGTH('a) \<le> q"
        using divides_to_unique [OF d] by blast
      then show ?thesis using True False by (simp add: div_spec_def)
    next
      case le: False
      then have "uint (s1 div s2) < 2 ^ LENGTH('a)" using u by (simp add: word_less_def)
      then have "uint (ucast (s1 div s2) :: 'a word) = uint s1 div uint s2" by (simp add: uint_ucast_less q)
      then show ?thesis using le False r d by (simp add: div_spec_def)
    qed
  qed (simp add: div_spec_def)
qed

lemma uint_le_max: "uint (v :: 'a::len word) \<le> 2 ^ LENGTH('a) - 1"
proof -
  have "uint v < 2 ^ LENGTH('a)" by simp
  then show ?thesis by linarith
qed

lemma DIV_spec:
  "div_spec (uint ax) (uint b) (fst (DIVb ax b c))"
  "div_spec (uint dx * 2 ^ 16 + uint ax) (uint w) (fst (DIVw ax dx w c))"
  "div_spec (uint edx * 2 ^ 32 + uint eax) (uint d) (DIVd eax edx d)"
proof -
  have f: "fst (if p then (u, c1) else if q then (v, c2) else (z, c3)) = (if p then u else if q then v else z)"
    for p q u v z and c1 c2 c3 :: ALU by simp
  show "div_spec (uint ax) (uint b) (fst (DIVb ax b c))"
    using div_cases [where 'a = 8 and 'b = 32, of "0xff" "ucast b" "ucast ax"] uint_le_max [of b] uint_ucast_less [where 'a = 32, of ax] uint_le_max [of ax]
    by (simp add: DIVb_def f Let_def uint_ucast_less split del: if_split)
  show "div_spec (uint dx * 2 ^ 16 + uint ax) (uint w) (fst (DIVw ax dx w c))"
    using div_cases [where 'a = 16 and 'b = 32, of "0xffff" "ucast w" "ucast ax OR push_bit 16 (ucast dx)"]
      uint_double [where 'a = 16 and 'b = 32, of dx ax] uint_le_max [of w]
    by (simp add: DIVw_def f Let_def or.commute unsigned_ucast_eq take_bit_int_eq_self split del: if_split)
  show "div_spec (uint edx * 2 ^ 32 + uint eax) (uint d) (DIVd eax edx d)"
    using div_cases [where 'a = 32 and 'b = 64, of "0xffffffff" "ucast d" "push_bit 32 (ucast edx) OR ucast eax"]
      uint_double [where 'a = 32 and 'b = 64, of edx eax] uint_le_max [of d]
    by (simp add: DIVd_def Let_def unsigned_ucast_eq take_bit_int_eq_self split del: if_split)
qed

lemma flag_bits_kept:
  assumes "\<And>k. k \<notin> {0, 2, 4, 6, 7, 11} \<Longrightarrow> bit e k = bit e' k"
  shows "e AND NOT 0x8d5 = e' AND NOT (0x8d5 :: u32)"
proof -
  have f: "(0x8d5 :: u32) = 2 ^ 0 OR 2 ^ 2 OR 2 ^ 4 OR 2 ^ 6 OR 2 ^ 7 OR 2 ^ 11" by simp
  show ?thesis
    using assms unfolding f by (intro bit_word_eqI) (simp only: bit_simps, blast)
qed

lemma finite_bits: "finite {i. bit (w :: 'a::len word) i}"
  by (rule finite_subset [of _ "{..<LENGTH('a)}"]) (auto dest: bit_imp_le_length)

lemma some_bit: "w \<noteq> 0 \<Longrightarrow> {i. bit (w :: 'a::len word) i} \<noteq> {}"
  by (auto elim: word_neq_0_bitE)

lemma bsf_loop_Min: "src \<noteq> 0 \<Longrightarrow> bsf_loop src 0 = Some (of_nat (Min {i. bit src i}))"
  using bsf_loop_lowest [of src "Min {i. bit src i}" 0] Min_in [OF finite_bits [of src] some_bit [of src]]
    Min_le [OF finite_bits [of src]] by (fastforce simp: not_less)

lemma bsr_loop_Max:
  fixes src :: "'a::len word"
  assumes "src \<noteq> 0"
  shows "bsr_loop src (of_nat (LENGTH('a) - 1)) = Some (of_nat (Max {i. bit src i}))"
proof -
  let ?m = "Max {i. bit src i}"
  have m: "bit src ?m" using Max_in [OF finite_bits some_bit [OF assms]] by simp
  then have l: "?m < LENGTH('a)" by (rule bit_imp_le_length)
  have h: "\<not> bit src i" if "?m < i" for i
    using that Max_ge [OF finite_bits [of src], of i] by (metis mem_Collect_eq not_le)
  have e: "LENGTH('a) - 1 - (LENGTH('a) - 1 - ?m) = ?m" "LENGTH('a) - 1 - ?m < LENGTH('a)" using l by simp_all
  have "bsr_loop src (of_nat (LENGTH('a) - 1)) = Some (of_nat (LENGTH('a) - 1) - of_nat (LENGTH('a) - 1 - ?m))"
    by (rule bsr_loop_highest) (unfold e(1), rule m, rule e(2), rule h)
  also have "of_nat (LENGTH('a) - 1) - of_nat (LENGTH('a) - 1 - ?m) = (of_nat ?m :: 'a word)"
    using l by (simp add: of_nat_diff)
  finally show ?thesis .
qed

lemma unat_bit_index:
  fixes src :: "'a::len word"
  assumes "src \<noteq> 0"
  shows "unat (of_nat (Min {i. bit src i}) :: 'a word) = Min {i. bit src i}"
    "unat (of_nat (Max {i. bit src i}) :: 'a word) = Max {i. bit src i}"
proof -
  have u: "unat (of_nat k :: 'a word) = k" if "bit src k" for k
    using less_trans [OF bit_imp_le_length [OF that] less_exp] by (simp add: unat_of_nat)
  show "unat (of_nat (Min {i. bit src i}) :: 'a word) = Min {i. bit src i}"
    "unat (of_nat (Max {i. bit src i}) :: 'a word) = Max {i. bit src i}"
    using Min_in [OF finite_bits some_bit [OF assms]] Max_in [OF finite_bits some_bit [OF assms]] u by auto
qed

lemma IDIVb_defined: "\<not> isl (IDIVb ax b)"
proof -
  have "- (2 ^ 15) \<le> sint ax" using sint_range(1) [of ax] by simp
  then show ?thesis
    by (simp add: IDIVb_def Let_def sdiv_C_def sint_sextw split: prod.splits)
qed

text \<open>
  The overflow flag of a multiplication is read from the carry: clearing the carry
  afterwards clears the overflow too.
\<close>

lemma multiplication_overflow_follows_carry:
  "get_OF (snd (MULb 0x10 0x10 reset_flags)) = Inr True \<and> get_OF (CLC (snd (MULb 0x10 0x10 reset_flags))) = Inr False"
  by code_simp

text \<open>The comparison of \<open>CMPXCHG\<close> subtracts the accumulator from the destination.\<close>

lemma cmpxchg_flags:
  fixes a b acc :: "'a::len word"
  assumes "operand_width TYPE('a)"
  shows "observe (snd (CMPXCH_helper a b acc c)) = Inr (arch_sub a acc False)"
  using add_computes(5) [OF assms, of a acc c] by (simp add: CMPXCH_helper_def CMP_def Let_def)

section \<open>Properties\<close>

text \<open>
  C17: The lazy flags are the architectural flags.  At 8, 16 and 32 bits, whatever
  the earlier instructions left behind, addition, subtraction, comparison, negation,
  increment and decrement produce the result of the operand width and leave a state
  in which the flags read afterwards are: carry, the unsigned result leaves the
  range; overflow, the signed result leaves the range; adjust, a carry out of the
  low digit; zero, sign and even parity of the low byte.  \<open>INC\<close> and \<open>DEC\<close> keep
  the carry, the logical instructions clear carry and overflow.
\<close>

theorem lazy_flags_arith:
  fixes a b :: "'a::len word"
  assumes "operand_width TYPE('a)" "get_CF c = Inr cf"
  shows "computes (Inr (ADD a b c)) (a + b) (arch_add a b False) \<and>
    computes (ADC a b c) (a + b + of_bool cf) (arch_add a b cf) \<and>
    computes (Inr (SUB a b c)) (a - b) (arch_sub a b False) \<and>
    computes (SBB a b c) (a - b - of_bool cf) (arch_sub a b cf) \<and>
    observe (CMP a b c) = Inr (arch_sub a b False) \<and>
    computes (INC a c) (a + 1) ((arch_add a 1 False)\<lparr>aCF := cf\<rparr>) \<and>
    computes (DEC a c) (a - 1) ((arch_sub a 1 False)\<lparr>aCF := cf\<rparr>) \<and>
    computes (Inr (NEG_helper a c)) (- a) (arch_sub 0 a False) \<and>
    computes (Inr (ANDl a b c)) (a AND b) (arch_result (a AND b) False (bit (eflags c) 4) False) \<and>
    computes (Inr (ORl a b c)) (a OR b) (arch_result (a OR b) False (bit (eflags c) 4) False) \<and>
    computes (Inr (XORl a b c)) (a XOR b) (arch_result (a XOR b) False (bit (eflags c) 4) False) \<and>
    observe (TEST a b c) = Inr (arch_result (a AND b) False (bit (eflags c) 4) False)"
  using add_computes [OF assms(1)] add_computes(2,4) [OF assms] inc_computes [OF assms] dec_computes [OF assms]
    neg_computes [OF assms(1)] logic_computes [OF assms(1), of a b c]
  by (simp add: flag_test)

theorem lazy_flags_arith_witness:
  "computes (ADC (0x7f :: u8) 0x80 (snd (ADD (0xff :: u8) 1 reset_flags))) 0 (arch_add (0x7f :: u8) 0x80 True) \<and>
   arch_add (0x7f :: u8) 0x80 True = \<lparr>aCF = True, aPF = True, aAF = True, aZF = True, aSF = False, aOF = False\<rparr>"
proof -
  have w: "operand_width TYPE(8)" by (simp add: operand_width_def)
  have c: "get_CF (snd (ADD (0xff :: u8) 1 reset_flags)) = Inr True"
    by code_simp
  have a: "computes (ADC (0x7f :: u8) 0x80 (snd (ADD (0xff :: u8) 1 reset_flags))) (0x7f + 0x80 + of_bool True)
      (arch_add (0x7f :: u8) 0x80 True)"
    using lazy_flags_arith [OF w c, of "0x7f" "0x80"] by (elim conjE)
  have b: "0x7f + 0x80 + of_bool True = (0 :: u8)" by code_simp
  have "arch_add (0x7f :: u8) 0x80 True
      = \<lparr>aCF = True, aPF = True, aAF = True, aZF = True, aSF = False, aOF = False\<rparr>" by code_simp
  with a [unfolded b] show ?thesis by (rule conjI)
qed

text \<open>
  C18: In every state of the flags that the instructions reach, each of the six flags
  can be read (the assertions in the flag readers never fail), \<open>refresh_flags\<close>
  stores exactly the flags that reading gives and no other bit of the flags word, and
  reading gives the same afterwards, also when the mask has been cleared.
\<close>

theorem reachable_flags_stored:
  assumes "alu_reach c"
  shows "\<exists>f e. observe c = Inr f \<and> refresh_flags c = Inr (c\<lparr>eflags := e\<rparr>) \<and> stored_flags e = f \<and>
    e AND NOT 0x8d5 = eflags c AND NOT 0x8d5 \<and> observe (c\<lparr>eflags := e\<rparr>) = Inr f \<and>
    observe (c\<lparr>eflags := e, ccmask := 0\<rparr>) = Inr f"
proof -
  obtain f where f: "observe c = Inr f" using carry_ready_observe [OF alu_reach_ready [OF assms]] ..
  obtain e where e: "refresh_flags c = Inr (c\<lparr>eflags := e\<rparr>)" "stored_flags e = f"
      "\<And>k. k \<notin> {0, 2, 4, 6, 7, 11} \<Longrightarrow> bit e k = bit (eflags c) k" "observe (c\<lparr>eflags := e\<rparr>) = Inr f"
    using refresh_flags_spec [OF f] by blast
  have "observe (c\<lparr>eflags := e, ccmask := 0\<rparr>) = Inr f"
    using observe_stored [of "c\<lparr>eflags := e, ccmask := 0\<rparr>"] e(2) by simp
  moreover have "e AND NOT 0x8d5 = eflags c AND NOT 0x8d5" by (rule flag_bits_kept) (rule e(3))
  ultimately show ?thesis using f e(1,2,4) by blast
qed

theorem reachable_flags_stored_witness:
  "\<exists>e. refresh_flags (snd (ADD (0xff :: u8) 1 reset_flags)) = Inr ((snd (ADD (0xff :: u8) 1 reset_flags))\<lparr>eflags := e\<rparr>) \<and>
     aCF (stored_flags e) \<and> aZF (stored_flags e)"
proof -
  let ?c = "snd (ADD (0xff :: u8) 1 reset_flags)"
  have "alu_reach reset_flags" by (rule alu_reach.intros(1)) (simp add: reset_flags_def)
  then have r: "alu_reach ?c" by (rule alu_reach.intros(2)) (rule alu_step.intros(1))
  obtain f e where f: "observe ?c = Inr f" "refresh_flags ?c = Inr (?c\<lparr>eflags := e\<rparr>)" "stored_flags e = f"
    using reachable_flags_stored [OF r] by blast
  have "observe ?c = Inr \<lparr>aCF = True, aPF = True, aAF = True, aZF = True, aSF = False, aOF = False\<rparr>" by code_simp
  with f show ?thesis by auto
qed

text \<open>
  C19: \<open>SHL\<close>, \<open>SHR\<close>, \<open>SAR\<close>, \<open>ROL\<close> and \<open>ROR\<close> for every count, at each width.  A
  shift by a count whose low five bits are zero changes nothing; otherwise \<open>SHR\<close>, \<open>SAR\<close> and, up to the operand
  width, \<open>SHL\<close> deliver the shifted operand with the last bit
  shifted out in the carry, while \<open>SHL\<close> by more than the width evaluates a C shift out of range.  A
  rotate by a count byte that is not zero delivers the rotated operand with the bit that
  went round in the carry and all flags but carry and overflow as they were; where the count is a multiple of
  the width, \<open>ROL\<close> takes its overflow from bit 31 of the operand.
\<close>

theorem shifts_and_rotates:
  fixes a :: "'a::len word" and b :: u8
  assumes "operand_width TYPE('a)" "observe c = Inr f"
  defines "k \<equiv> shift_count b" and "n \<equiv> unat b mod LENGTH('a)" and "l \<equiv> word_rotl (unat b mod LENGTH('a)) a" and "r \<equiv> word_rotr (unat b mod LENGTH('a)) a"
  shows "(if k = 0 then SHL_helper a b c = Inr (a, c) \<and> SHR_helper a b c = Inr (a, c) \<and> SAR_helper a b c = (a, c)
     else (if k \<le> LENGTH('a)
           then computes (SHL_helper a b c) (push_bit k a)
             (arch_result (push_bit k a) (bit a (LENGTH('a) - k)) (bit (eflags c) 4) ((sint (push_bit k a) < 0) \<noteq> bit a (LENGTH('a) - k)))
           else SHL_helper a b c = Inl ShiftRange) \<and>
       computes (SHR_helper a b c) (drop_bit k a)
         (arch_result (drop_bit k a) (bit a (k - 1)) (bit (eflags c) 4) (sint a < 0)) \<and>
       computes (Inr (SAR_helper a b c)) (signed_drop_bit k a)
         (arch_result (signed_drop_bit k a) (bit (sextw a) (k - 1)) (bit (eflags c) 4) False)) \<and>
    (if b = 0 then ROL_helper a b c = Inr (a, c) \<and> ROR_helper a b c = Inr (a, c)
     else computes (ROL_helper a b c) l (f\<lparr>aCF := bit l 0, aOF := ((n \<noteq> 0 \<or> LENGTH('a) = 32) \<and> sint l < 0) \<noteq> bit l 0\<rparr>) \<and>
       computes (ROR_helper a b c) r (f\<lparr>aCF := sint r < 0, aOF := (sint r < 0) \<noteq> bit r (LENGTH('a) - 2)\<rparr>))"
  unfolding k_def l_def r_def n_def
proof (rule conjI, goal_cases)
  case 1
  show ?case
    using shift_none [of b a c] shl_computes [OF assms(1), of b a c] shl_too_far [OF assms(1), of b a c]
      shr_computes [OF assms(1), of b a c] sar_computes [OF assms(1), of b a c] by (auto simp: not_le)
next
  case 2
  have "ROL_helper a b c = Inr (a, c) \<and> ROR_helper a b c = Inr (a, c)" if "b = 0"
    using that by (simp add: ROL_helper_def ROR_helper_def Let_def)
  moreover have "word_rotl 0 a = a" "word_rotr 0 a = a"
    by (rule bit_word_eqI, simp add: bit_word_rotl_iff bit_word_rotr_iff)+
  ultimately show ?case
    using rol_computes [OF assms(1) _ assms(2), of b a] ror_computes [OF assms(1) _ assms(2), of b a] rotate_multiple [OF assms(1) _ _ assms(2), of b a]
    by (cases "unat b mod LENGTH('a) = 0") auto
qed

theorem shifts_and_rotates_witness:
  "computes (SHL_helper (0xc1 :: u8) 1 reset_flags) 0x82
     \<lparr>aCF = True, aPF = True, aAF = False, aZF = False, aSF = True, aOF = False\<rparr> \<and>
   computes (Inr (SAR_helper (0xc1 :: u8) 1 reset_flags)) 0xe0
     \<lparr>aCF = True, aPF = False, aAF = False, aZF = False, aSF = True, aOF = False\<rparr>"
proof -
  have w: "operand_width TYPE(8)" by (simp add: operand_width_def)
  have o: "observe reset_flags = Inr \<lparr>aCF = False, aPF = False, aAF = False, aZF = False, aSF = False, aOF = False\<rparr>"
    by code_simp
  have s: "shift_count 1 = 1" by (simp add: shift_count_def)
  have "arch_result (push_bit 1 (0xc1 :: u8)) (bit (0xc1 :: u8) (8 - 1)) (bit (eflags reset_flags) 4)
      ((sint (push_bit 1 (0xc1 :: u8)) < 0) \<noteq> bit (0xc1 :: u8) (8 - 1))
    = \<lparr>aCF = True, aPF = True, aAF = False, aZF = False, aSF = True, aOF = False\<rparr>"
    by code_simp
  moreover have "arch_result (signed_drop_bit 1 (0xc1 :: u8)) (bit (sextw (0xc1 :: u8)) (1 - 1)) (bit (eflags reset_flags) 4) False
    = \<lparr>aCF = True, aPF = False, aAF = False, aZF = False, aSF = True, aOF = False\<rparr>"
    by code_simp
  moreover have "push_bit 1 (0xc1 :: u8) = 0x82" "signed_drop_bit 1 (0xc1 :: u8) = 0xe0" by code_simp+
  moreover have "(1 :: nat) \<noteq> 0" "(1 :: nat) \<le> LENGTH(8)" "LENGTH(8) = 8" by simp_all
  ultimately show ?thesis using shifts_and_rotates [OF w o, of 1 "0xc1"] unfolding s by metis
qed

text \<open>
  C20: The bit scans end.  For every operand of every width the loops of \<open>BSF\<close> and
  \<open>BSR\<close> return; with a source that is not zero they deliver the index of its lowest
  or highest set bit and clear the zero flag, with zero they leave the destination
  alone and set it.
\<close>

theorem bit_scans_end:
  fixes a src :: "'a::len word"
  shows "\<exists>r s c1 c2. BSF_helper a src c = Some (r, c1) \<and> BSR_helper a src c = Some (s, c2) \<and>
    (if src = 0 then r = a \<and> s = a else unat r = Min {i. bit src i} \<and> unat s = Max {i. bit src i}) \<and>
    (get_ZF c1 \<longleftrightarrow> src = 0) \<and> (get_ZF c2 \<longleftrightarrow> src = 0)"
proof (cases "src = 0")
  case True
  then show ?thesis by (simp add: BSF_helper_def BSR_helper_def get_ZF_def flag_test bit_or_exp [of _ 6, simplified])
next
  case False
  have "BSF_helper a src c = Some (of_nat (Min {i. bit src i}), c\<lparr>ccmask := 0, eflags := eflags c AND NOT ZF\<rparr>)"
    "BSR_helper a src c = Some (of_nat (Max {i. bit src i}), c\<lparr>ccmask := 0, eflags := eflags c AND NOT ZF\<rparr>)"
    using False bsf_loop_Min [OF False] bsr_loop_Max [OF False] by (simp_all add: BSF_helper_def BSR_helper_def)
  moreover have "\<not> get_ZF (c\<lparr>ccmask := 0, eflags := eflags c AND NOT ZF\<rparr>)"
    by (simp add: get_ZF_def ac_simps)
  ultimately show ?thesis using False unat_bit_index [OF False] by simp
qed

text \<open>
  C21: Division.  With the dividend and the divisor that the register halves and the
  operand denote, each unsigned division delivers quotient and remainder of the
  truncating division, or raises exception 0 exactly where the divisor is zero or the
  quotient does not fit the operand width; the signed divisions do the same, except
  that the smallest dividend divided by \<open>-1\<close> is the C division that overflows, which
  never happens at 8 bits.
\<close>

theorem division_outcomes:
  "div_spec (uint ax) (uint b) (fst (DIVb ax b c)) \<and>
   div_spec (uint dx * 2 ^ 16 + uint ax) (uint w) (fst (DIVw ax dx w c)) \<and>
   div_spec (uint edx * 2 ^ 32 + uint eax) (uint d) (DIVd eax edx d) \<and>
   idiv_spec (- (2 ^ 31)) (sint ax) (sint b) (IDIVb ax b) \<and> isl (IDIVb ax b) = False \<and>
   idiv_spec (- (2 ^ 31)) (sint dx * 2 ^ 16 + uint ax) (sint w) (IDIVw ax dx w) \<and>
   idiv_spec (- (2 ^ 63)) (sint edx * 2 ^ 32 + uint eax) (sint d) (IDIVd eax edx d)"
  using DIV_spec IDIV_spec IDIVb_defined by simp

end
