(* ===== verification/MMU.thy ===== *)
theory MMU
  imports ALU
begin

text \<open>
  Memory of the emulated processor (\<open>i386.c\<close>): physical accesses, the two
  levels of address translation caches in front of the page tables, segments,
  loads and stores with the split at page boundaries, instruction fetch with its
  prefetch pointer, effective addresses and the loading of segment registers.

  The model follows the server build of the calculator (\<open>TINY386_ARM_FAST\<close>, a
  32-bit machine, where \<open>unsigned long\<close> has 32 bits).  A function that returns
  \<open>false\<close> after recording an exception in the processor state returns \<open>None\<close>;
  an access outside the allocated guest memory is the fault \<open>OutOfBounds\<close>.  The
  I/O memory callbacks are an argument, over an arbitrary device state \<open>'d\<close>.
\<close>

section \<open>State\<close>

record segment =
  sel :: u32
  base :: u32
  limit :: u32
  sflags :: u32

text \<open>A row of the permission table: write protection and the two permission bits of the page.\<close>

type_synonym perm_row = "bool \<times> nat"

record tlb_entry =
  lpgno :: u32
  xaddr :: u32
  elookup :: perm_row
  ppte :: u32

record dtlb =
  read_lpgno :: "nat \<Rightarrow> u32"
  read_xaddr :: "nat \<Rightarrow> u32"
  write_lpgno :: "nat \<Rightarrow> u32"
  write_xaddr :: "nat \<Rightarrow> u32"
  write_ppte :: "nat \<Rightarrow> u32 option"
  write_dirty :: "nat \<Rightarrow> bool"
  read_cpl :: "nat \<Rightarrow> bool"
  write_cpl :: "nat \<Rightarrow> bool"

record ifetch_state =
  iladdr :: u32
  ixaddr :: u32
  ipaddr :: u32

record 'd CPU =
  alu :: ALU
  gpr :: "nat \<Rightarrow> u32"
  ip :: u32
  next_ip :: u32
  flags_mask :: u32
  cpl :: nat
  code16 :: bool
  sp_mask :: u32
  halt :: bool
  seg :: "nat \<Rightarrow> segment"
  idt_base :: u32
  idt_limit :: u32
  gdt_base :: u32
  gdt_limit :: u32
  cr0 :: u32
  cr2 :: u32
  cr3 :: u32
  dr :: "nat \<Rightarrow> u32"
  ifetch :: ifetch_state
  dtlb_fast :: dtlb
  nspire_bulk_rep_ram :: bool
  nspire_bulk_rep_stos :: bool
  rep_yield :: bool
  tab :: "nat \<Rightarrow> tlb_entry"
  phys_mem :: "u32 \<Rightarrow> u8"
  phys_mem_size :: u32
  excno :: nat
  excerr :: u32
  intr :: bool
  gen :: nat
  sysenter :: "u32 \<times> u32 \<times> u32"
  dev :: 'd

record 'd CPU_CB =
  pic_read_irq :: "'d \<Rightarrow> nat \<times> 'd"
  io_read8 :: "'d \<Rightarrow> u32 \<Rightarrow> u8 \<times> 'd"
  io_write8 :: "'d \<Rightarrow> u32 \<Rightarrow> u8 \<Rightarrow> 'd"
  io_read16 :: "'d \<Rightarrow> u32 \<Rightarrow> u16 \<times> 'd"
  io_write16 :: "'d \<Rightarrow> u32 \<Rightarrow> u16 \<Rightarrow> 'd"
  io_read32 :: "'d \<Rightarrow> u32 \<Rightarrow> u32 \<times> 'd"
  io_write32 :: "'d \<Rightarrow> u32 \<Rightarrow> u32 \<Rightarrow> 'd"
  io_read_string :: "('d \<Rightarrow> u32 \<Rightarrow> nat \<Rightarrow> nat \<Rightarrow> int \<times> u8 list \<times> 'd) option"
  io_write_string :: "('d \<Rightarrow> u32 \<Rightarrow> (nat \<Rightarrow> u8) \<Rightarrow> nat \<Rightarrow> nat \<Rightarrow> int \<times> 'd) option"
  iomem_read8 :: "('d \<Rightarrow> u32 \<Rightarrow> u8 \<times> 'd) option"
  iomem_read16 :: "('d \<Rightarrow> u32 \<Rightarrow> u16 \<times> 'd) option"
  iomem_read32 :: "('d \<Rightarrow> u32 \<Rightarrow> u32 \<times> 'd) option"
  iomem_write8 :: "('d \<Rightarrow> u32 \<Rightarrow> u8 \<Rightarrow> 'd) option"
  iomem_write16 :: "('d \<Rightarrow> u32 \<Rightarrow> u16 \<Rightarrow> 'd) option"
  iomem_write32 :: "('d \<Rightarrow> u32 \<Rightarrow> u32 \<Rightarrow> 'd) option"
  iomem_write_string :: "('d \<Rightarrow> u32 \<Rightarrow> u8 list \<Rightarrow> bool \<times> 'd) option"

abbreviation (input) "EX_NP \<equiv> (11 :: nat)"
abbreviation (input) "EX_SS \<equiv> (12 :: nat)"
abbreviation (input) "EX_GP \<equiv> (13 :: nat)"
abbreviation (input) "EX_PF \<equiv> (14 :: nat)"
abbreviation (input) "SEG_ES \<equiv> (0 :: nat)"
abbreviation (input) "SEG_CS \<equiv> (1 :: nat)"
abbreviation (input) "SEG_SS \<equiv> (2 :: nat)"
abbreviation (input) "SEG_DS \<equiv> (3 :: nat)"
abbreviation (input) "SEG_FS \<equiv> (4 :: nat)"
abbreviation (input) "SEG_GS \<equiv> (5 :: nat)"
abbreviation (input) "SEG_TR \<equiv> (7 :: nat)"
abbreviation (input) "SEG_LDT \<equiv> (6 :: nat)"
abbreviation (input) "CR0_PG \<equiv> (0x80000000 :: u32)"
abbreviation (input) "CR0_WP \<equiv> (0x10000 :: u32)"
abbreviation (input) "VM \<equiv> (0x20000 :: u32)"
abbreviation (input) "SEG_D_BIT \<equiv> (0x4000 :: u32)"
abbreviation (input) "NO_PAGE \<equiv> (0xffffffff :: u32)"

type_synonym ('a, 'd) exec = "('a option \<times> 'd CPU) result"

definition TRY :: "('a, 'd) exec \<Rightarrow> ('a \<Rightarrow> 'd CPU \<Rightarrow> ('b, 'd) exec) \<Rightarrow> ('b, 'd) exec" where
  "TRY m f = bind_result m (\<lambda>(r, c). case r of None \<Rightarrow> Inr (None, c) | Some x \<Rightarrow> f x c)"

definition THROW :: "nat \<Rightarrow> u32 \<Rightarrow> 'd CPU \<Rightarrow> ('a, 'd) exec" where
  "THROW ex err c = Inr (None, c\<lparr>excno := ex, excerr := err\<rparr>)"

section \<open>Physical memory\<close>

definition pload8 :: "'d CPU \<Rightarrow> u32 \<Rightarrow> u8 result" where
  "pload8 c a = (if a < phys_mem_size c then Inr (phys_mem c a) else Inl OutOfBounds)"

definition pstore8 :: "'d CPU \<Rightarrow> u32 \<Rightarrow> u8 \<Rightarrow> 'd CPU result" where
  "pstore8 c a v = (if a < phys_mem_size c then Inr (c\<lparr>phys_mem := (phys_mem c)(a := v)\<rparr>) else Inl OutOfBounds)"

definition pload16 :: "'d CPU \<Rightarrow> u32 \<Rightarrow> u16 result" where
  "pload16 c a = bind_result (pload8 c a) (\<lambda>b0. bind_result (pload8 c (a + 1)) (\<lambda>b1.
     Inr (ucast b0 OR push_bit 8 (ucast b1))))"

definition pload32 :: "'d CPU \<Rightarrow> u32 \<Rightarrow> u32 result" where
  "pload32 c a =
     bind_result (pload8 c a) (\<lambda>b0. bind_result (pload8 c (a + 1)) (\<lambda>b1.
     bind_result (pload8 c (a + 2)) (\<lambda>b2. bind_result (pload8 c (a + 3)) (\<lambda>b3.
       Inr (ucast b0 OR push_bit 8 (ucast b1) OR push_bit 16 (ucast b2) OR push_bit 24 (ucast b3))))))"

definition pstore16 :: "'d CPU \<Rightarrow> u32 \<Rightarrow> u16 \<Rightarrow> 'd CPU result" where
  "pstore16 c a v = bind_result (pstore8 c a (ucast v)) (\<lambda>c. pstore8 c (a + 1) (ucast (drop_bit 8 v)))"

definition pstore32 :: "'d CPU \<Rightarrow> u32 \<Rightarrow> u32 \<Rightarrow> 'd CPU result" where
  "pstore32 c a v =
     bind_result (pstore8 c a (ucast v)) (\<lambda>c. bind_result (pstore8 c (a + 1) (ucast (drop_bit 8 v))) (\<lambda>c.
     bind_result (pstore8 c (a + 2) (ucast (drop_bit 16 v))) (\<lambda>c. pstore8 c (a + 3) (ucast (drop_bit 24 v)))))"

section \<open>Page translation\<close>

abbreviation (input) "tlb_size \<equiv> (1024 :: nat)"
abbreviation (input) "NSPIRE_DTLB_FAST_SLOTS \<equiv> (1024 :: nat)"

text \<open>The result of a translation: one physical address, or two for an access across a page boundary.\<close>

datatype OptAddr = ADDR_OK1 (addr1: u32) | ADDR_OK2 (addr1: u32) (addr2: u32)

definition tlb_clear :: "'d CPU \<Rightarrow> 'd CPU" where
  "tlb_clear c =
     c\<lparr>tab := (\<lambda>i. if i < tlb_size then (tab c i)\<lparr>lpgno := NO_PAGE\<rparr> else tab c i),
       ifetch := (ifetch c)\<lparr>iladdr := 0xffffffff, ipaddr := 0\<rparr>,
       dtlb_fast := (dtlb_fast c)\<lparr>
         read_lpgno := (\<lambda>i. if i < NSPIRE_DTLB_FAST_SLOTS then NO_PAGE else read_lpgno (dtlb_fast c) i),
         write_lpgno := (\<lambda>i. if i < NSPIRE_DTLB_FAST_SLOTS then NO_PAGE else write_lpgno (dtlb_fast c) i),
         write_ppte := (\<lambda>i. if i < NSPIRE_DTLB_FAST_SLOTS then None else write_ppte (dtlb_fast c) i),
         write_dirty := (\<lambda>i. if i < NSPIRE_DTLB_FAST_SLOTS then False else write_dirty (dtlb_fast c) i)\<rparr>\<rparr>"

text \<open>\<open>pte_lookup [wp] [perm] [cpl > 0] [rwm > 1]\<close>: the access is refused.\<close>

definition pte_lookup :: "perm_row \<Rightarrow> bool \<Rightarrow> bool \<Rightarrow> bool" where
  "pte_lookup row user write =
     (let t = (if fst row
               then [ [[False, True], [True, True]], [[False, False], [True, True]],
                      [[False, True], [False, True]], [[False, False], [False, False]] ]
               else [ [[False, False], [True, True]], [[False, False], [True, True]],
                      [[False, False], [False, True]], [[False, False], [False, False]] ])
      in t ! snd row ! of_bool user ! of_bool write)"

definition tlb_refill :: "'d CPU \<Rightarrow> nat \<Rightarrow> u32 \<Rightarrow> (bool \<times> 'd CPU) result" where
  "tlb_refill c ent lp =
     (let base_addr = cr3 c AND NOT 0xfff; i = drop_bit 10 lp; j = lp AND 1023
      in bind_result (pload32 c (base_addr + i * 4)) (\<lambda>pde.
         if pde AND 1 = 0 then Inr (False, c)
         else bind_result (pload8 c (base_addr + i * 4)) (\<lambda>b.
           bind_result (pstore8 c (base_addr + i * 4) (b OR 0x20)) (\<lambda>c.
           let base_addr2 = pde AND NOT 0xfff
           in bind_result (pload32 c (base_addr2 + j * 4)) (\<lambda>pte.
              if pte AND 1 = 0 then Inr (False, c)
              else bind_result (pload8 c (base_addr2 + j * 4)) (\<lambda>b.
                bind_result (pstore8 c (base_addr2 + j * 4) (b OR 0x20)) (\<lambda>c.
                let pte1 = pte AND ((pde AND 7) OR 0xfffffff8)
                in Inr (True, c\<lparr>tab := (tab c)(ent :=
                     \<lparr>lpgno = lp, xaddr = (pte AND NOT 0xfff) XOR push_bit 12 lp,
                      elookup = (cr0 c AND CR0_WP \<noteq> 0, unat (drop_bit 1 pte1 AND 3)),
                      ppte = base_addr2 + j * 4\<rparr>)\<rparr>))))))))"

definition mark_pte_dirty :: "u32 option \<Rightarrow> 'd CPU \<Rightarrow> 'd CPU result" where
  "mark_pte_dirty p c =
     (case p of None \<Rightarrow> Inr c
      | Some a \<Rightarrow> bind_result (pload8 c a) (\<lambda>b. if b AND 0x40 = 0 then pstore8 c a (b OR 0x40) else Inr c))"

definition page_fault :: "u32 \<Rightarrow> u32 \<Rightarrow> nat \<Rightarrow> nat \<Rightarrow> 'd CPU \<Rightarrow> 'd CPU" where
  "page_fault present laddr rwm cp c =
     c\<lparr>cr2 := laddr, excno := EX_PF,
       excerr := present OR (if rwm \<in> {2, 3} then 2 else 0) OR (if cp \<noteq> 0 then 4 else 0)\<rparr>"

text \<open>
  \<open>entries\<close> is the number of entries of the table: 256 or 512 in the builds that translate without the
  first level.
\<close>

definition translate_lpgno :: "nat \<Rightarrow> 'd CPU \<Rightarrow> nat \<Rightarrow> u32 \<Rightarrow> u32 \<Rightarrow> nat \<Rightarrow> (u32, 'd) exec" where
  "translate_lpgno entries c rwm lp laddr cp =
     (let e = unat lp mod entries
      in bind_result (if lpgno (tab c e) \<noteq> lp then tlb_refill c e lp else Inr (True, c)) (\<lambda>(hit, c).
         if \<not> hit then Inr (None, page_fault 0 laddr rwm cp c)
         else if pte_lookup (elookup (tab c e)) (0 < cp) (1 < rwm)
         then Inr (None, (page_fault 1 laddr rwm cp c)\<lparr>tab := (tab c)(e := (tab c e)\<lparr>lpgno := NO_PAGE\<rparr>)\<rparr>)
         else let paddr = xaddr (tab c e) XOR laddr
              in if rwm \<in> {2, 3}
                 then bind_result (mark_pte_dirty (Some (ppte (tab c e))) c) (\<lambda>c. Inr (Some paddr, c))
                 else Inr (Some paddr, c)))"

text \<open>
  The first level holds read and write translations apart.  \<open>use_entry\<close> is the
  part of \<open>translate_lpgno_fast\<close> after the second-level entry has been found.
\<close>

definition use_entry :: "'d CPU \<Rightarrow> nat \<Rightarrow> u32 \<Rightarrow> u32 \<Rightarrow> nat \<Rightarrow> (u32, 'd) exec" where
  "use_entry c rwm lp laddr cp =
     (let slot = unat (lp AND 1023); d = dtlb_fast c; e = unat lp mod tlb_size; ent = tab c e
      in if pte_lookup (elookup ent) (0 < cp) (1 < rwm)
         then
           let d1 = (if read_lpgno d slot = lp
                     then d\<lparr>read_lpgno := (read_lpgno d)(slot := NO_PAGE)\<rparr> else d);
               d2 = (if write_lpgno d1 slot = lp
                     then d1\<lparr>write_lpgno := (write_lpgno d1)(slot := NO_PAGE),
                             write_dirty := (write_dirty d1)(slot := False)\<rparr> else d1)
           in Inr (None, (page_fault 1 laddr rwm cp c)\<lparr>
                tab := (tab c)(e := ent\<lparr>lpgno := NO_PAGE\<rparr>), dtlb_fast := d2\<rparr>)
         else
           let paddr = xaddr ent XOR laddr
           in if rwm \<in> {2, 3}
              then bind_result (mark_pte_dirty (Some (ppte ent)) c) (\<lambda>c.
                Inr (Some paddr, c\<lparr>dtlb_fast := d\<lparr>
                  write_lpgno := (write_lpgno d)(slot := lp), write_xaddr := (write_xaddr d)(slot := xaddr ent),
                  write_ppte := (write_ppte d)(slot := Some (ppte ent)),
                  write_dirty := (write_dirty d)(slot := True), write_cpl := (write_cpl d)(slot := 0 < cp)\<rparr>\<rparr>))
              else Inr (Some paddr, c\<lparr>dtlb_fast := d\<lparr>
                  read_lpgno := (read_lpgno d)(slot := lp), read_xaddr := (read_xaddr d)(slot := xaddr ent),
                  read_cpl := (read_cpl d)(slot := 0 < cp)\<rparr>\<rparr>))"

definition translate_lpgno_fast :: "'d CPU \<Rightarrow> nat \<Rightarrow> u32 \<Rightarrow> u32 \<Rightarrow> nat \<Rightarrow> (u32, 'd) exec" where
  "translate_lpgno_fast c rwm lp laddr cp =
     (let slot = unat (lp AND 1023); cpl_key = (0 < cp); d = dtlb_fast c
      in if rwm = 1 \<and> read_lpgno d slot = lp \<and> read_cpl d slot = cpl_key
         then Inr (Some (read_xaddr d slot XOR laddr), c)
         else if rwm = 1 \<and> write_lpgno d slot = lp \<and> write_cpl d slot = cpl_key
         then Inr (Some (write_xaddr d slot XOR laddr), c)
         else if rwm = 2 \<and> write_lpgno d slot = lp \<and> write_cpl d slot = cpl_key
         then bind_result
           (if \<not> write_dirty d slot
            then bind_result (mark_pte_dirty (write_ppte d slot) c) (\<lambda>c.
                   Inr (c\<lparr>dtlb_fast := d\<lparr>write_dirty := (write_dirty d)(slot := True)\<rparr>\<rparr>))
            else Inr c) (\<lambda>c. Inr (Some (write_xaddr d slot XOR laddr), c))
         else
           let e = unat lp mod tlb_size
           in bind_result (if lpgno (tab c e) \<noteq> lp then tlb_refill c e lp else Inr (True, c)) (\<lambda>(hit, c).
              if \<not> hit then Inr (None, page_fault 0 laddr rwm cp c) else use_entry c rwm lp laddr cp))"

text \<open>
  The translation of one page is \<open>translate_lpgno_fast\<close> in the builds with
  \<open>TINY386_ARM_FAST\<close>, whose table has 1024 entries, and \<open>translate_lpgno\<close> in the others.
\<close>

definition translate_laddr_with ::
  "('d CPU \<Rightarrow> nat \<Rightarrow> u32 \<Rightarrow> u32 \<Rightarrow> nat \<Rightarrow> (u32, 'd) exec) \<Rightarrow> 'd CPU \<Rightarrow> nat \<Rightarrow> u32 \<Rightarrow> u32 \<Rightarrow> nat \<Rightarrow> (OptAddr, 'd) exec" where
  "translate_laddr_with tr c rwm laddr sz cp =
     (if cr0 c AND CR0_PG \<noteq> 0
      then let lp = drop_bit 12 laddr
           in TRY (tr c rwm lp laddr cp) (\<lambda>p1 c.
              if 0x1000 - sz < laddr AND 0xfff
              then TRY (tr c rwm (lp + 1) (push_bit 12 (lp + 1)) cp) (\<lambda>p2 c.
                     Inr (Some (ADDR_OK2 p1 p2), c))
              else Inr (Some (ADDR_OK1 p1), c))
      else Inr (Some (ADDR_OK1 laddr), c))"

definition translate_laddr :: "'d CPU \<Rightarrow> nat \<Rightarrow> u32 \<Rightarrow> u32 \<Rightarrow> nat \<Rightarrow> (OptAddr, 'd) exec" where
  "translate_laddr = translate_laddr_with translate_lpgno_fast"

section \<open>Segments\<close>

definition segcheck :: "'d CPU \<Rightarrow> nat \<Rightarrow> (unit, 'd) exec" where
  "segcheck c s =
     (if cr0 c AND 1 \<noteq> 0 \<and> limit (seg c s) = 0 \<and> sel (seg c s) AND NOT 0x3 = 0
      then THROW EX_GP 0 c else Inr (Some (), c))"

text \<open>The segment \<open>-1\<close> of the code, no segment chosen yet, is \<open>None\<close>.\<close>

definition translate :: "'d CPU \<Rightarrow> nat \<Rightarrow> nat option \<Rightarrow> u32 \<Rightarrow> u32 \<Rightarrow> nat \<Rightarrow> (OptAddr, 'd) exec" where
  "translate c rwm so addr sz cp =
     (case so of None \<Rightarrow> Inl Assertion
      | Some s \<Rightarrow> TRY (segcheck c s) (\<lambda>_ c. translate_laddr c rwm (base (seg c s) + addr) sz cp))"

definition translate8r :: "'d CPU \<Rightarrow> nat option \<Rightarrow> u32 \<Rightarrow> (OptAddr, 'd) exec" where
  "translate8r c so addr =
     (case so of None \<Rightarrow> Inl Assertion
      | Some s \<Rightarrow> TRY (segcheck c s) (\<lambda>_ c.
          let laddr = base (seg c s) + addr
          in if cr0 c AND CR0_PG \<noteq> 0
             then let lp = drop_bit 12 laddr; e = unat lp mod tlb_size
                  in bind_result (if lpgno (tab c e) \<noteq> lp then tlb_refill c e lp else Inr (True, c)) (\<lambda>(hit, c).
                     if \<not> hit then Inr (None, page_fault 0 laddr 0 (cpl c) c)
                     else if pte_lookup (elookup (tab c e)) (0 < cpl c) False
                     then Inr (None, (page_fault 1 laddr 0 (cpl c) c)\<lparr>tab := (tab c)(e := (tab c e)\<lparr>lpgno := NO_PAGE\<rparr>)\<rparr>)
                     else Inr (Some (ADDR_OK1 (xaddr (tab c e) XOR laddr)), c))
             else Inr (Some (ADDR_OK1 laddr), c)))"

definition translate8 :: "'d CPU \<Rightarrow> nat \<Rightarrow> nat option \<Rightarrow> u32 \<Rightarrow> (OptAddr, 'd) exec" where
  "translate8 c rwm s addr = translate c rwm s addr 1 (cpl c)"

definition translate16 :: "'d CPU \<Rightarrow> nat \<Rightarrow> nat option \<Rightarrow> u32 \<Rightarrow> (OptAddr, 'd) exec" where
  "translate16 c rwm s addr = translate c rwm s addr 2 (cpl c)"

definition translate32 :: "'d CPU \<Rightarrow> nat \<Rightarrow> nat option \<Rightarrow> u32 \<Rightarrow> (OptAddr, 'd) exec" where
  "translate32 c rwm s addr = translate c rwm s addr 4 (cpl c)"

section \<open>Loads and stores\<close>

definition in_iomem :: "u32 \<Rightarrow> bool" where
  "in_iomem a = (if a < 0xa0000 then False else a < 0xc0000 \<or> 0xe0000000 \<le> a)"

definition map_bios_alias :: "u32 \<Rightarrow> u32" where
  "map_bios_alias a = (if 0xfffe0000 \<le> a then a AND 0x000fffff else a)"

text \<open>A load or store: a device access where the address and a callback ask for it, else the memory.\<close>

definition load8 :: "'d CPU_CB \<Rightarrow> 'd CPU \<Rightarrow> OptAddr \<Rightarrow> (u8 \<times> 'd CPU) result" where
  "load8 cb c res =
     (let a = map_bios_alias (addr1 res)
      in case iomem_read8 cb of
           Some f \<Rightarrow> if in_iomem a then let (v, d) = f (dev c) a in Inr (v, c\<lparr>dev := d\<rparr>)
                     else if phys_mem_size c \<le> a then Inr (0, c) else bind_result (pload8 c a) (\<lambda>v. Inr (v, c))
         | None \<Rightarrow> if phys_mem_size c \<le> a then Inr (0, c) else bind_result (pload8 c a) (\<lambda>v. Inr (v, c)))"

definition ram16 :: "'d CPU \<Rightarrow> OptAddr \<Rightarrow> u16 result" where
  "ram16 c res =
     (let a = map_bios_alias (addr1 res)
      in if phys_mem_size c \<le> a then Inr 0
         else case res of
           ADDR_OK1 _ \<Rightarrow> pload16 c a
         | ADDR_OK2 _ a2 \<Rightarrow> bind_result (pload8 c a) (\<lambda>b0. bind_result (pload8 c (map_bios_alias a2)) (\<lambda>b1.
             Inr (ucast b0 OR push_bit 8 (ucast b1)))))"

definition load16 :: "'d CPU_CB \<Rightarrow> 'd CPU \<Rightarrow> OptAddr \<Rightarrow> (u16 \<times> 'd CPU) result" where
  "load16 cb c res =
     (let a = map_bios_alias (addr1 res)
      in case iomem_read16 cb of
           Some f \<Rightarrow> if in_iomem a then let (v, d) = f (dev c) a in Inr (v, c\<lparr>dev := d\<rparr>)
                     else bind_result (ram16 c res) (\<lambda>v. Inr (v, c))
         | None \<Rightarrow> bind_result (ram16 c res) (\<lambda>v. Inr (v, c)))"

definition ram32 :: "'d CPU \<Rightarrow> OptAddr \<Rightarrow> u32 result" where
  "ram32 c res =
     (let a = map_bios_alias (addr1 res)
      in if phys_mem_size c \<le> a then Inr 0
         else case res of
           ADDR_OK1 _ \<Rightarrow> pload32 c a
         | ADDR_OK2 _ r2 \<Rightarrow>
             let a2 = map_bios_alias r2
             in if a AND 0xf = 0xf
                then bind_result (pload8 c a) (\<lambda>b. bind_result (pload16 c a2) (\<lambda>w. bind_result (pload8 c (a2 + 2)) (\<lambda>e.
                  Inr (ucast b OR push_bit 8 (ucast w) OR push_bit 24 (ucast e)))))
                else if a AND 0xf = 0xe
                then bind_result (pload16 c a) (\<lambda>w. bind_result (pload16 c a2) (\<lambda>v.
                  Inr (ucast w OR push_bit 16 (ucast v))))
                else if a AND 0xf = 0xd
                then bind_result (pload8 c a) (\<lambda>b. bind_result (pload16 c (a + 1)) (\<lambda>w. bind_result (pload8 c a2) (\<lambda>e.
                  Inr (ucast b OR push_bit 8 (ucast w) OR push_bit 24 (ucast e)))))
                else Inl Assertion)"

definition load32 :: "'d CPU_CB \<Rightarrow> 'd CPU \<Rightarrow> OptAddr \<Rightarrow> (u32 \<times> 'd CPU) result" where
  "load32 cb c res =
     (let a = map_bios_alias (addr1 res)
      in case iomem_read32 cb of
           Some f \<Rightarrow> if in_iomem a then let (v, d) = f (dev c) a in Inr (v, c\<lparr>dev := d\<rparr>)
                     else bind_result (ram32 c res) (\<lambda>v. Inr (v, c))
         | None \<Rightarrow> bind_result (ram32 c res) (\<lambda>v. Inr (v, c)))"

definition store8 :: "'d CPU_CB \<Rightarrow> 'd CPU \<Rightarrow> OptAddr \<Rightarrow> u8 \<Rightarrow> 'd CPU result" where
  "store8 cb c res v =
     (let a = addr1 res; ram = (if phys_mem_size c \<le> a then Inr c else pstore8 c a v)
      in case iomem_write8 cb of
           Some f \<Rightarrow> if in_iomem a then Inr (c\<lparr>dev := f (dev c) a v\<rparr>) else ram
         | None \<Rightarrow> ram)"

definition store_ram16 :: "'d CPU \<Rightarrow> OptAddr \<Rightarrow> u16 \<Rightarrow> 'd CPU result" where
  "store_ram16 c res v =
     (if phys_mem_size c \<le> addr1 res then Inr c
      else case res of
        ADDR_OK1 a \<Rightarrow> pstore16 c a v
      | ADDR_OK2 a a2 \<Rightarrow> bind_result (pstore8 c a (ucast v)) (\<lambda>c. pstore8 c a2 (ucast (drop_bit 8 v))))"

definition store16 :: "'d CPU_CB \<Rightarrow> 'd CPU \<Rightarrow> OptAddr \<Rightarrow> u16 \<Rightarrow> 'd CPU result" where
  "store16 cb c res v =
     (case iomem_write16 cb of
        Some f \<Rightarrow> if in_iomem (addr1 res) then Inr (c\<lparr>dev := f (dev c) (addr1 res) v\<rparr>) else store_ram16 c res v
      | None \<Rightarrow> store_ram16 c res v)"

definition store_ram32 :: "'d CPU \<Rightarrow> OptAddr \<Rightarrow> u32 \<Rightarrow> 'd CPU result" where
  "store_ram32 c res v =
     (if phys_mem_size c \<le> addr1 res then Inr c
      else case res of
        ADDR_OK1 a \<Rightarrow> pstore32 c a v
      | ADDR_OK2 a a2 \<Rightarrow>
          if a AND 0xf = 0xf
          then bind_result (pstore8 c a (ucast v)) (\<lambda>c. bind_result (pstore16 c a2 (ucast (drop_bit 8 v))) (\<lambda>c.
            pstore8 c (a2 + 2) (ucast (drop_bit 24 v))))
          else if a AND 0xf = 0xe
          then bind_result (pstore16 c a (ucast v)) (\<lambda>c. pstore16 c a2 (ucast (drop_bit 16 v)))
          else if a AND 0xf = 0xd
          then bind_result (pstore8 c a (ucast v)) (\<lambda>c. bind_result (pstore16 c (a + 1) (ucast (drop_bit 8 v))) (\<lambda>c.
            pstore8 c a2 (ucast (drop_bit 24 v))))
          else Inr c)"

definition store32 :: "'d CPU_CB \<Rightarrow> 'd CPU \<Rightarrow> OptAddr \<Rightarrow> u32 \<Rightarrow> 'd CPU result" where
  "store32 cb c res v =
     (case iomem_write32 cb of
        Some f \<Rightarrow> if in_iomem (addr1 res) then Inr (c\<lparr>dev := f (dev c) (addr1 res) v\<rparr>) else store_ram32 c res v
      | None \<Rightarrow> store_ram32 c res v)"

text \<open>
  The direct stack access: \<open>None\<close> where the caller has to take the general path;
  a translation that fails has then recorded its exception already.
\<close>

definition stack32_direct_addr :: "'d CPU \<Rightarrow> nat \<Rightarrow> u32 \<Rightarrow> (u32, 'd) exec" where
  "stack32_direct_addr c rwm off =
     (if cr0 c AND 1 \<noteq> 0 \<and> limit (seg c SEG_SS) = 0 \<and> sel (seg c SEG_SS) AND NOT 0x3 = 0 then Inr (None, c)
      else let laddr = base (seg c SEG_SS) + off
           in if 0xffc < laddr AND 0xfff then Inr (None, c)
              else TRY (if cr0 c AND CR0_PG \<noteq> 0
                        then translate_lpgno_fast c rwm (drop_bit 12 laddr) laddr (cpl c) else Inr (Some laddr, c))
                (\<lambda>p c. let a = map_bios_alias p
                       in if in_iomem a \<or> phys_mem_size c \<le> a then Inr (None, c) else Inr (Some a, c)))"

definition returning :: "('a \<times> 'd CPU) result \<Rightarrow> ('a, 'd) exec" where
  "returning m = bind_result m (\<lambda>(v, c). Inr (Some v, c))"

definition cpu_load8 :: "'d CPU_CB \<Rightarrow> 'd CPU \<Rightarrow> nat option \<Rightarrow> u32 \<Rightarrow> (u8, 'd) exec" where
  "cpu_load8 cb c s addr = TRY (translate8 c 1 s addr) (\<lambda>res c. returning (load8 cb c res))"

definition cpu_load16 :: "'d CPU_CB \<Rightarrow> 'd CPU \<Rightarrow> nat option \<Rightarrow> u32 \<Rightarrow> (u16, 'd) exec" where
  "cpu_load16 cb c s addr = TRY (translate16 c 1 s addr) (\<lambda>res c. returning (load16 cb c res))"

definition cpu_load32 :: "'d CPU_CB \<Rightarrow> 'd CPU \<Rightarrow> nat option \<Rightarrow> u32 \<Rightarrow> (u32, 'd) exec" where
  "cpu_load32 cb c s addr = TRY (translate32 c 1 s addr) (\<lambda>res c. returning (load32 cb c res))"

definition cpu_store8 :: "'d CPU_CB \<Rightarrow> 'd CPU \<Rightarrow> nat option \<Rightarrow> u32 \<Rightarrow> u8 \<Rightarrow> (unit, 'd) exec" where
  "cpu_store8 cb c s addr v =
     TRY (translate8 c 2 s addr) (\<lambda>res c. bind_result (store8 cb c res v) (\<lambda>c. Inr (Some (), c)))"

definition cpu_store16 :: "'d CPU_CB \<Rightarrow> 'd CPU \<Rightarrow> nat option \<Rightarrow> u32 \<Rightarrow> u16 \<Rightarrow> (unit, 'd) exec" where
  "cpu_store16 cb c s addr v =
     TRY (translate16 c 2 s addr) (\<lambda>res c. bind_result (store16 cb c res v) (\<lambda>c. Inr (Some (), c)))"

definition cpu_store32 :: "'d CPU_CB \<Rightarrow> 'd CPU \<Rightarrow> nat option \<Rightarrow> u32 \<Rightarrow> u32 \<Rightarrow> (unit, 'd) exec" where
  "cpu_store32 cb c s addr v =
     TRY (translate32 c 2 s addr) (\<lambda>res c. bind_result (store32 cb c res v) (\<lambda>c. Inr (Some (), c)))"

section \<open>Instruction fetch\<close>

definition peek8 :: "'d CPU_CB \<Rightarrow> 'd CPU \<Rightarrow> (u8, 'd) exec" where
  "peek8 cb c =
     (let laddr = base (seg c SEG_CS) + next_ip c
      in if laddr XOR iladdr (ifetch c) < 4096
         then bind_result (pload8 c (ixaddr (ifetch c) XOR laddr)) (\<lambda>v. Inr (Some v, c))
         else TRY (translate8r c (Some SEG_CS) (next_ip c)) (\<lambda>res c.
           let paddr = map_bios_alias (addr1 res);
               ram = (if phys_mem_size c \<le> paddr then Inr (Some 0, c)
                      else bind_result (pload8 c paddr) (\<lambda>v.
                        Inr (Some v,
                          if paddr < phys_mem_size c - 4096 \<and> \<not> in_iomem (paddr + 16)
                          then c\<lparr>ifetch := (ifetch c)\<lparr>iladdr := laddr AND NOT 4095, ixaddr := paddr XOR laddr\<rparr>\<rparr>
                          else c)))
           in case iomem_read8 cb of
                Some f \<Rightarrow> if in_iomem paddr then let (v, d) = f (dev c) paddr in Inr (Some v, c\<lparr>dev := d\<rparr>) else ram
              | None \<Rightarrow> ram))"

definition peek8a :: "'d CPU_CB \<Rightarrow> 'd CPU \<Rightarrow> (u8, 'd) exec" where
  "peek8a cb c =
     (if ipaddr (ifetch c) \<noteq> 0 then bind_result (pload8 c (ipaddr (ifetch c))) (\<lambda>v. Inr (Some v, c))
      else peek8 cb c)"

text \<open>The instruction pointer, and with it the prefetch pointer, moves on by \<open>n\<close> bytes.\<close>

definition advance :: "u32 \<Rightarrow> 'd CPU \<Rightarrow> 'd CPU" where
  "advance n c = c\<lparr>ifetch := (ifetch c)\<lparr>ipaddr := ipaddr (ifetch c) + n\<rparr>, next_ip := next_ip c + n\<rparr>"

definition fetch8 :: "'d CPU_CB \<Rightarrow> 'd CPU \<Rightarrow> (u8, 'd) exec" where
  "fetch8 cb c =
     (if ipaddr (ifetch c) \<noteq> 0
      then bind_result (pload8 c (ipaddr (ifetch c))) (\<lambda>v. Inr (Some v, advance 1 c))
      else TRY (peek8 cb c) (\<lambda>v c. Inr (Some v, c\<lparr>next_ip := next_ip c + 1\<rparr>)))"

definition fetch8pf :: "'d CPU_CB \<Rightarrow> 'd CPU \<Rightarrow> (u8, 'd) exec" where
  "fetch8pf cb c =
     (let laddr = base (seg c SEG_CS) + next_ip c
      in if laddr XOR iladdr (ifetch c) < 4096 - 16
         then let paddr = ixaddr (ifetch c) XOR laddr
              in bind_result (pload8 c paddr) (\<lambda>v.
                   Inr (Some v, c\<lparr>ifetch := (ifetch c)\<lparr>ipaddr := paddr + 1\<rparr>, next_ip := next_ip c + 1\<rparr>))
         else TRY (peek8 cb (c\<lparr>ifetch := (ifetch c)\<lparr>ipaddr := 0\<rparr>\<rparr>)) (\<lambda>v c.
           Inr (Some v, c\<lparr>next_ip := next_ip c + 1\<rparr>)))"

definition fetch16 :: "'d CPU_CB \<Rightarrow> 'd CPU \<Rightarrow> (u16, 'd) exec" where
  "fetch16 cb c =
     (if ipaddr (ifetch c) \<noteq> 0
      then bind_result (pload16 c (ipaddr (ifetch c))) (\<lambda>v. Inr (Some v, advance 2 c))
      else let laddr = base (seg c SEG_CS) + next_ip c
           in TRY (if laddr XOR iladdr (ifetch c) < 4095
                   then bind_result (pload16 c (ixaddr (ifetch c) XOR laddr)) (\<lambda>v. Inr (Some v, c))
                   else TRY (translate16 c 1 (Some SEG_CS) (next_ip c)) (\<lambda>res c. returning (load16 cb c res)))
                (\<lambda>v c. Inr (Some v, c\<lparr>next_ip := next_ip c + 2\<rparr>)))"

definition fetch32 :: "'d CPU_CB \<Rightarrow> 'd CPU \<Rightarrow> (u32, 'd) exec" where
  "fetch32 cb c =
     (if ipaddr (ifetch c) \<noteq> 0
      then bind_result (pload32 c (ipaddr (ifetch c))) (\<lambda>v. Inr (Some v, advance 4 c))
      else let laddr = base (seg c SEG_CS) + next_ip c
           in TRY (if laddr XOR iladdr (ifetch c) < 4093
                   then bind_result (pload32 c (ixaddr (ifetch c) XOR laddr)) (\<lambda>v. Inr (Some v, c))
                   else TRY (translate32 c 1 (Some SEG_CS) (next_ip c)) (\<lambda>res c. returning (load32 cb c res)))
                (\<lambda>v c. Inr (Some v, c\<lparr>next_ip := next_ip c + 4\<rparr>)))"

section \<open>Effective addresses\<close>

text \<open>The result is the offset and the segment, chosen by the base register where no prefix chose it.\<close>

definition add_disp :: "'d CPU_CB \<Rightarrow> nat \<Rightarrow> u32 \<Rightarrow> 'd CPU \<Rightarrow> (u32, 'd) exec" where
  "add_disp cb md addr c =
     (if md = 1 then TRY (fetch8 cb c) (\<lambda>imm8 c. Inr (Some (addr + sextw imm8), c))
      else if md = 2 then TRY (fetch32 cb c) (\<lambda>imm32 c. Inr (Some (addr + imm32), c))
      else Inr (Some addr, c))"

definition modsib32 :: "'d CPU_CB \<Rightarrow> 'd CPU \<Rightarrow> nat \<Rightarrow> nat \<Rightarrow> nat option \<Rightarrow> (u32 \<times> nat option, 'd) exec" where
  "modsib32 cb c md rm so =
     TRY (if rm = 4
          then TRY (fetch8 cb c) (\<lambda>sib c.
            let b = unat (sib AND 7); i = unat (drop_bit 3 sib AND 7)
            in TRY (if b = 5 \<and> md = 0 then TRY (fetch32 cb c) (\<lambda>a c. Inr (Some (a, so), c))
                    else Inr (Some (gpr c b, if (b = 4 \<or> b = 5) \<and> so = None then Some SEG_SS else so), c))
                 (\<lambda>(a, so) c. Inr (Some (if i \<noteq> 4 then a + push_bit (unat (drop_bit 6 sib)) (gpr c i) else a, so), c)))
          else if rm = 5 \<and> md = 0 then TRY (fetch32 cb c) (\<lambda>a c. Inr (Some (a, so), c))
          else Inr (Some (gpr c rm, if rm = 5 \<and> so = None then Some SEG_SS else so), c))
       (\<lambda>(a, so) c. TRY (add_disp cb md a c) (\<lambda>a c.
          Inr (Some (a, if so = None then Some SEG_DS else so), c)))"

definition modsib16 :: "'d CPU_CB \<Rightarrow> 'd CPU \<Rightarrow> nat \<Rightarrow> nat \<Rightarrow> nat option \<Rightarrow> (u32 \<times> nat option, 'd) exec" where
  "modsib16 cb c md rm so =
     TRY (if rm = 6 \<and> md = 0 then TRY (fetch16 cb c) (\<lambda>imm16 c. Inr (Some (ucast imm16), c))
          else let a = (if rm = 0 then gpr c 3 + gpr c 6 else if rm = 1 then gpr c 3 + gpr c 7
                        else if rm = 2 then gpr c 5 + gpr c 6 else if rm = 3 then gpr c 5 + gpr c 7
                        else if rm = 4 then gpr c 6 else if rm = 5 then gpr c 7
                        else if rm = 6 then gpr c 5 else gpr c 3)
               in TRY (if md = 1 then TRY (fetch8 cb c) (\<lambda>imm8 c. Inr (Some (a + sextw imm8), c))
                       else if md = 2 then TRY (fetch16 cb c) (\<lambda>imm16 c. Inr (Some (a + ucast imm16), c))
                       else Inr (Some a, c))
                    (\<lambda>a c. Inr (Some (a AND 0xffff), c)))
       (\<lambda>a c. Inr (Some (a, if so = None
                             then (if rm = 2 \<or> rm = 3 then Some SEG_SS
                                   else if md \<noteq> 0 \<and> rm = 6 then Some SEG_SS else Some SEG_DS)
                             else so), c))"

definition modsib :: "'d CPU_CB \<Rightarrow> 'd CPU \<Rightarrow> bool \<Rightarrow> nat \<Rightarrow> nat \<Rightarrow> nat option \<Rightarrow> (u32 \<times> nat option, 'd) exec" where
  "modsib cb c adsz16 md rm so = (if adsz16 then modsib16 cb c md rm so else modsib32 cb c md rm so)"

section \<open>Loading a segment register\<close>

definition desc_load :: "'d CPU_CB \<Rightarrow> 'd CPU \<Rightarrow> u32 \<Rightarrow> (u32, 'd) exec" where
  "desc_load cb c a = TRY (translate_laddr c 1 a 4 0) (\<lambda>meml c. returning (load32 cb c meml))"

text \<open>\<open>w1\<close> is \<open>None\<close> where the caller passes a null pointer for the first word.\<close>

definition read_desc :: "'d CPU_CB \<Rightarrow> 'd CPU \<Rightarrow> u32 \<Rightarrow> bool \<Rightarrow> (u32 option \<times> u32, 'd) exec" where
  "read_desc cb c sel0 want_w1 =
     (let s = sel0 AND 0xffff; off = s AND NOT 0x7;
          (bs, lim) = (if s AND 0x4 \<noteq> 0 then (base (seg c SEG_LDT), limit (seg c SEG_LDT))
                       else (gdt_base c, gdt_limit c))
      in if lim < off + 7 then THROW EX_GP (s AND NOT 0x3) c
         else TRY (if want_w1 then TRY (desc_load cb c (bs + off)) (\<lambda>w c. Inr (Some (Some w), c))
                   else Inr (Some None, c)) (\<lambda>w1 c.
              TRY (desc_load cb c (bs + off + 4)) (\<lambda>w2 c. Inr (Some (w1, w2), c))))"

definition desc_segment :: "u32 \<Rightarrow> u32 \<Rightarrow> u32 \<Rightarrow> segment" where
  "desc_segment s w1 w2 =
     (let lim = (w2 AND 0xf0000) OR (w1 AND 0xffff)
      in \<lparr>sel = s, base = drop_bit 16 w1 OR push_bit 16 (w2 AND 0xff) OR (w2 AND 0xff000000),
          limit = (if w2 AND 0x00800000 \<noteq> 0 then push_bit 12 lim OR 0xfff else lim),
          sflags = drop_bit 8 w2 AND 0xffff\<rparr>)"

definition set_seg :: "'d CPU_CB \<Rightarrow> 'd CPU \<Rightarrow> nat \<Rightarrow> u32 \<Rightarrow> (unit, 'd) exec" where
  "set_seg cb c sg sel0 =
     (let s = sel0 AND 0xffff
      in if cr0 c AND 1 = 0 \<or> eflags (alu c) AND VM \<noteq> 0
         then let c1 = c\<lparr>seg := (seg c)(sg := \<lparr>sel = s, base = push_bit 4 s, limit = 0xffff, sflags = 0\<rparr>)\<rparr>;
                  c2 = (if sg = SEG_CS then c1\<lparr>cpl := if eflags (alu c) AND VM \<noteq> 0 then 3 else 0, code16 := True\<rparr> else c1)
              in Inr (Some (), if sg = SEG_SS then c2\<lparr>sp_mask := 0xffff\<rparr> else c2)
         else TRY (read_desc cb c s True) (\<lambda>(ow1, w2) c.
           let w1 = (case ow1 of Some w \<Rightarrow> w | None \<Rightarrow> 0)
           in if s AND NOT 0x3 \<noteq> 0 \<and> sg \<in> {SEG_DS, SEG_ES, SEG_FS, SEG_GS} \<and> drop_bit 12 w2 AND 1 = 0
              then THROW EX_GP (s AND NOT 0x3) c
              else if s AND NOT 0x3 \<noteq> 0 \<and> drop_bit 15 w2 AND 1 = 0
              then THROW (if sg = SEG_SS then EX_SS else EX_NP) (s AND NOT 0x3) c
              else let c1 = c\<lparr>seg := (seg c)(sg := desc_segment s w1 w2)\<rparr>;
                       c2 = (if sg = SEG_CS then c1\<lparr>cpl := unat (s AND 3), code16 := sflags (seg c1 SEG_CS) AND SEG_D_BIT = 0\<rparr>
                             else c1)
                   in Inr (Some (), if sg = SEG_SS
                        then c2\<lparr>sp_mask := if sflags (seg c2 SEG_SS) AND SEG_D_BIT \<noteq> 0 then 0xffffffff else 0xffff\<rparr>
                        else c2)))"

definition clear_seg :: "nat \<Rightarrow> 'd CPU \<Rightarrow> 'd CPU" where
  "clear_seg s c =
     (let w2 = push_bit 8 (sflags (seg c s));
          is_dataseg = (drop_bit 11 w2 AND 1 = 0);
          dpl = unat (drop_bit 13 w2 AND 3);
          conforming = (drop_bit 8 w2 AND 4 \<noteq> 0)
      in if (is_dataseg \<or> \<not> conforming) \<and> dpl < cpl c
         then c\<lparr>seg := (seg c)(s := \<lparr>sel = 0, base = 0, limit = 0, sflags = 0\<rparr>)\<rparr> else c)"

definition clear_segs :: "'d CPU \<Rightarrow> 'd CPU" where
  "clear_segs c = fold clear_seg [SEG_DS, SEG_ES, SEG_FS, SEG_GS] c"

section \<open>Control registers\<close>

text \<open>\<open>MOV CRn, r32\<close> and \<open>INVLPG\<close>; \<open>fpu\<close> tells whether the processor has a coprocessor.\<close>

definition MOVTC :: "'d CPU_CB \<Rightarrow> bool \<Rightarrow> 'd CPU \<Rightarrow> (unit, 'd) exec" where
  "MOVTC cb fpu c =
     (if cpl c \<noteq> 0 then THROW EX_GP 0 c
      else TRY (fetch8 cb c) (\<lambda>modrm c.
        let r = unat (drop_bit 3 modrm AND 7); v = gpr c (unat (modrm AND 7))
        in if r = 0
           then let c1 = (if (v XOR cr0 c) AND (CR0_PG OR CR0_WP OR 1) \<noteq> 0 then tlb_clear c else c)
                in Inr (Some (), c1\<lparr>cr0 := if fpu then v OR 0x10 else v\<rparr>)
           else if r = 2 then Inr (Some (), c\<lparr>cr2 := v\<rparr>)
           else if r = 3 then Inr (Some (), tlb_clear (c\<lparr>cr3 := v\<rparr>))
           else if r = 4 then Inr (Some (), c)
           else Inr (None, c\<lparr>excno := 6\<rparr>)))"

definition INVLPG :: "'d CPU \<Rightarrow> 'd CPU" where
  "INVLPG c = tlb_clear c"

section \<open>Specification vocabulary\<close>

text \<open>
  The reference: a walk of the page tables, without caches.  It gives the frame,
  the row of the permission table and the address of the page table entry.
\<close>

definition page_base :: "u32 \<Rightarrow> u32" where
  "page_base v = v AND NOT 0xfff"

definition entry_at :: "u32 \<Rightarrow> u32 \<Rightarrow> u32" where
  "entry_at b i = page_base b + i * 4"

definition row_of :: "u32 \<Rightarrow> u32 \<Rightarrow> u32 \<Rightarrow> perm_row" where
  "row_of cr pde pte = (bit cr 16, of_bool (bit pde 1 \<and> bit pte 1) + 2 * of_bool (bit pde 2 \<and> bit pte 2))"

definition page_walk :: "'d CPU \<Rightarrow> u32 \<Rightarrow> (u32 \<times> perm_row \<times> u32) option result" where
  "page_walk c lp =
     bind_result (pload32 c (entry_at (cr3 c) (drop_bit 10 lp))) (\<lambda>pde.
       if \<not> bit pde 0 then Inr None
       else bind_result (pload32 c (entry_at pde (lp AND 1023))) (\<lambda>pte.
         if \<not> bit pte 0 then Inr None
         else Inr (Some (page_base pte, row_of (cr0 c) pde pte, entry_at pde (lp AND 1023)))))"

text \<open>The protection rule: writable and user bits of the page, for user and supervisor accesses.\<close>

definition page_allows :: "perm_row \<Rightarrow> bool \<Rightarrow> bool \<Rightarrow> bool" where
  "page_allows row user write =
     (let (wp, perm) = row; writable = odd perm; user_page = (2 \<le> perm)
      in (user \<longrightarrow> user_page) \<and> (write \<longrightarrow> writable \<or> \<not> user \<and> \<not> wp))"

text \<open>Two memories of which the second has at most further accessed and dirty bits of aligned entries set.\<close>

definition ad_mem :: "(u32 \<Rightarrow> u8) \<Rightarrow> (u32 \<Rightarrow> u8) \<Rightarrow> bool" where
  "ad_mem m m' \<longleftrightarrow> (\<forall>a n. bit (m' a) n = bit (m a) n \<or> take_bit 2 a = 0 \<and> n \<in> {5, 6} \<and> bit (m' a) n)"

definition ad_word :: "u32 \<Rightarrow> u32 \<Rightarrow> bool" where
  "ad_word v v' \<longleftrightarrow> (\<forall>n. n \<in> {5, 6} \<or> bit v' n = bit v n)"

text \<open>The entry that a successful walk produces.\<close>

definition walk_entry :: "u32 \<Rightarrow> u32 \<times> perm_row \<times> u32 \<Rightarrow> tlb_entry" where
  "walk_entry lp w = (case w of (frame, row, pa) \<Rightarrow> \<lparr>lpgno = lp, xaddr = frame XOR push_bit 12 lp, elookup = row, ppte = pa\<rparr>)"

text \<open>
  Coherence of the caches: whatever they hold is what the walk gives, with the
  permission that the entry stands for; a write entry marked dirty belongs to a
  page table entry whose dirty bit is set.
\<close>

type_synonym walker = "u32 \<Rightarrow> (u32 \<times> perm_row \<times> u32) option result"

definition tab_ok :: "walker \<Rightarrow> tlb_entry \<Rightarrow> bool" where
  "tab_ok pw e \<longleftrightarrow> lpgno e = NO_PAGE \<or> (\<exists>w. pw (lpgno e) = Inr (Some w) \<and> e = walk_entry (lpgno e) w)"

definition read_ok :: "walker \<Rightarrow> u32 \<Rightarrow> u32 \<Rightarrow> bool \<Rightarrow> bool" where
  "read_ok pw lp xa user \<longleftrightarrow> lp = NO_PAGE \<or>
     (\<exists>w. pw lp = Inr (Some w) \<and> xa = xaddr (walk_entry lp w) \<and> page_allows (fst (snd w)) user False)"

definition write_ok :: "walker \<Rightarrow> (u32 \<Rightarrow> u8) \<Rightarrow> u32 \<Rightarrow> u32 \<Rightarrow> u32 option \<Rightarrow> bool \<Rightarrow> bool \<Rightarrow> bool" where
  "write_ok pw m lp xa pp dirty user \<longleftrightarrow> lp = NO_PAGE \<or>
     (\<exists>w. pw lp = Inr (Some w) \<and> xa = xaddr (walk_entry lp w) \<and> page_allows (fst (snd w)) user True \<and>
          pp = Some (snd (snd w)) \<and> (dirty \<longrightarrow> bit (m (snd (snd w))) 6))"

definition coherent_with :: "walker \<Rightarrow> (u32 \<Rightarrow> u8) \<Rightarrow> (nat \<Rightarrow> tlb_entry) \<Rightarrow> dtlb \<Rightarrow> bool" where
  "coherent_with pw m t d \<longleftrightarrow>
     (\<forall>i < tlb_size. tab_ok pw (t i)) \<and>
     (\<forall>s < NSPIRE_DTLB_FAST_SLOTS. read_ok pw (read_lpgno d s) (read_xaddr d s) (read_cpl d s) \<and>
        write_ok pw m (write_lpgno d s) (write_xaddr d s) (write_ppte d s) (write_dirty d s) (write_cpl d s))"

definition tlb_coherent :: "'d CPU \<Rightarrow> bool" where
  "tlb_coherent c \<longleftrightarrow> coherent_with (page_walk c) (phys_mem c) (tab c) (dtlb_fast c)"

text \<open>The outcome of a translation, as the walk determines it.\<close>

definition translated ::
  "(u32 \<times> perm_row \<times> u32) option \<Rightarrow> nat \<Rightarrow> u32 \<Rightarrow> nat \<Rightarrow> 'd CPU \<Rightarrow> u32 option \<times> 'd CPU" where
  "translated w rwm laddr cp c =
     (case w of None \<Rightarrow> (None, page_fault 0 laddr rwm cp c)
      | Some (frame, row, pa) \<Rightarrow>
          if page_allows row (0 < cp) (1 < rwm) then (Some (frame OR (laddr AND 0xfff)), c)
          else (None, page_fault 1 laddr rwm cp c))"

text \<open>
  A translation agrees with the walk: its outcome is the one above in a state with
  the same page tables (but for accessed and dirty bits) and coherent caches, and a
  permitted write has set the dirty bit of the page.
\<close>

definition agrees :: "'d CPU \<Rightarrow> (u32 \<times> perm_row \<times> u32) option \<Rightarrow> nat \<Rightarrow> u32 \<Rightarrow> nat \<Rightarrow> (u32, 'd) exec \<Rightarrow> bool" where
  "agrees c w rwm laddr cp res \<longleftrightarrow>
     (\<exists>m t d. ad_mem (phys_mem c) m \<and>
        res = Inr (translated w rwm laddr cp (c\<lparr>phys_mem := m, tab := t, dtlb_fast := d\<rparr>)) \<and>
        tlb_coherent (c\<lparr>phys_mem := m, tab := t, dtlb_fast := d\<rparr>) \<and>
        (rwm \<noteq> 1 \<longrightarrow> (\<forall>f row pa. w = Some (f, row, pa) \<longrightarrow> page_allows row (0 < cp) True \<longrightarrow> bit (m pa) 6)))"

text \<open>
  The states of the translation caches that the program reaches: a flush, then
  translations of data accesses and instruction fetches, loads of control registers, and any change
  of state that leaves the caches and the page tables they were filled from alone.  A store to the page
  tables is covered after the flush that follows it.
\<close>

definition same_tables :: "'d CPU \<Rightarrow> 'd CPU \<Rightarrow> bool" where
  "same_tables c c' \<longleftrightarrow> tab c' = tab c \<and> dtlb_fast c' = dtlb_fast c \<and> page_walk c' = page_walk c \<and>
     (\<forall>lp f row pa. page_walk c lp = Inr (Some (f, row, pa)) \<longrightarrow> phys_mem c' pa = phys_mem c pa)"

definition load_cr :: "bool \<Rightarrow> nat \<Rightarrow> u32 \<Rightarrow> 'd CPU \<Rightarrow> 'd CPU" where
  "load_cr fpu r v c =
     (if r = 0 then (if (v XOR cr0 c) AND (CR0_PG OR CR0_WP OR 1) \<noteq> 0 then tlb_clear c else c)\<lparr>cr0 := if fpu then v OR 0x10 else v\<rparr>
      else if r = 2 then c\<lparr>cr2 := v\<rparr> else if r = 3 then tlb_clear (c\<lparr>cr3 := v\<rparr>) else c)"

inductive mmu_reach :: "'d CPU \<Rightarrow> bool" where
  "mmu_reach (tlb_clear c)"
| "mmu_reach c \<Longrightarrow> rwm \<in> {1, 2, 3} \<Longrightarrow> translate_lpgno_fast c rwm (drop_bit 12 laddr) laddr cp = Inr (r, c') \<Longrightarrow> mmu_reach c'"
| "mmu_reach c \<Longrightarrow> rwm \<in> {1, 2, 3} \<Longrightarrow> entries \<in> {256, 512, 1024} \<Longrightarrow>
     translate_lpgno entries c rwm (drop_bit 12 laddr) laddr cp = Inr (r, c') \<Longrightarrow> mmu_reach c'"
| "mmu_reach c \<Longrightarrow> translate8r c so addr = Inr (ra, c') \<Longrightarrow> mmu_reach c'"
| "mmu_reach c \<Longrightarrow> mmu_reach (load_cr fpu n v c)"
| "mmu_reach c \<Longrightarrow> same_tables c c' \<Longrightarrow> mmu_reach c'"

text \<open>
  The reference for an access: its bytes one by one, in the first page and then in
  the second.
\<close>

definition byte_at :: "OptAddr \<Rightarrow> nat \<Rightarrow> u32" where
  "byte_at oa k =
     (case oa of ADDR_OK1 a \<Rightarrow> a + of_nat k
      | ADDR_OK2 a a2 \<Rightarrow> let n = 4096 - unat (a AND 0xfff) in if k < n then a + of_nat k else a2 + of_nat (k - n))"

definition le_value :: "(nat \<Rightarrow> u8) \<Rightarrow> u32" where
  "le_value f = ucast (f 0) OR push_bit 8 (ucast (f 1)) OR push_bit 16 (ucast (f 2)) OR push_bit 24 (ucast (f 3))"

definition le_byte :: "u32 \<Rightarrow> nat \<Rightarrow> u8" where
  "le_byte v k = ucast (drop_bit (8 * k) v)"

text \<open>
  A four-byte access in memory: every byte is inside, none is a device or in the
  window that loads redirect to the low copy of the BIOS, and a split access starts in the
  last three bytes of its page.
\<close>

definition ram_access :: "'d CPU \<Rightarrow> OptAddr \<Rightarrow> bool" where
  "ram_access c oa \<longleftrightarrow> (\<forall>k < 4. byte_at oa k < phys_mem_size c) \<and> \<not> in_iomem (addr1 oa) \<and> phys_mem_size c \<le> 0xfffe0000 \<and>
     (case oa of ADDR_OK1 _ \<Rightarrow> True | ADDR_OK2 a _ \<Rightarrow> 0xffc < a AND 0xfff)"

text \<open>Storing: the bytes of the value at the bytes of the access, in order.\<close>

definition put_bytes :: "OptAddr \<Rightarrow> u32 \<Rightarrow> (u32 \<Rightarrow> u8) \<Rightarrow> (u32 \<Rightarrow> u8)" where
  "put_bytes oa v m = fold (\<lambda>k m. m(byte_at oa k := le_byte v k)) [0, 1, 2, 3] m"

text \<open>Where the page tables send a linear address.\<close>

definition mapped :: "'d CPU \<Rightarrow> nat \<Rightarrow> nat \<Rightarrow> u32 \<Rightarrow> u32 \<Rightarrow> bool" where
  "mapped c rwm cp la pa \<longleftrightarrow>
     (\<exists>f row e. page_walk c (drop_bit 12 la) = Inr (Some (f, row, e)) \<and> page_allows row (0 < cp) (1 < rwm) \<and>
        pa = f OR (la AND 0xfff))"

text \<open>Bytes of an access in memory, as a whole load and a whole store.\<close>

definition segment_usable :: "'d CPU \<Rightarrow> nat \<Rightarrow> bool" where
  "segment_usable c s \<longleftrightarrow> cr0 c AND 1 = 0 \<or> limit (seg c s) \<noteq> 0 \<or> sel (seg c s) AND NOT 0x3 \<noteq> 0"

text \<open>Descriptors: the two words that encode a segment.\<close>

definition encode_desc :: "u32 \<Rightarrow> u32 \<Rightarrow> u32 \<Rightarrow> u32 \<times> u32" where
  "encode_desc bs lim ar =
     ((lim AND 0xffff) OR push_bit 16 bs,
      (drop_bit 16 bs AND 0xff) OR push_bit 8 (ar AND 0xf0ff) OR (lim AND 0xf0000) OR (bs AND 0xff000000))"

text \<open>One of the four bytes from \<open>a\<close> on is outside the memory.\<close>

definition past_end4 :: "'d CPU \<Rightarrow> u32 \<Rightarrow> bool" where
  "past_end4 c a \<longleftrightarrow> \<not> (a < phys_mem_size c \<and> a + 1 < phys_mem_size c \<and> a + 2 < phys_mem_size c \<and> a + 3 < phys_mem_size c)"

section \<open>Lemmas\<close>

lemma pte_lookup_allows: "snd row < 4 \<Longrightarrow> pte_lookup row user write \<longleftrightarrow> \<not> page_allows row user write"
proof -
  assume "snd row < 4"
  then have "snd row \<in> {0, 1, 2, 3}" by auto
  then show ?thesis
    by (cases row; cases user; cases "write") (auto simp: pte_lookup_def page_allows_def Let_def)
qed

lemma page_allows_read: "page_allows row user True \<Longrightarrow> page_allows row user False"
  by (auto simp: page_allows_def Let_def split: prod.splits)

lemma ad_mem_refl [simp]: "ad_mem m m" by (simp add: ad_mem_def)

lemma ad_mem_trans: "ad_mem m m' \<Longrightarrow> ad_mem m' m'' \<Longrightarrow> ad_mem m m''"
  unfolding ad_mem_def by blast

lemma ad_mem_or:
  assumes "take_bit 2 a = 0" "k \<in> {0x20, 0x40 :: u8}"
  shows "ad_mem m (m(a := m a OR k))"
proof -
  have "bit k n \<Longrightarrow> n \<in> {5, 6}" for n
    using assms(2) bit_exp_iff [where 'a = u8, of 5 n] bit_exp_iff [where 'a = u8, of 6 n] by auto
  then show ?thesis using assms(1) by (auto simp: ad_mem_def bit_or_iff)
qed

text \<open>The bits of a word in memory.\<close>

lemma pload32_bits:
  assumes "pload32 c a = Inr v"
  shows "bit v n \<longleftrightarrow> n < 32 \<and> bit (phys_mem c (a + of_nat (n div 8))) (n mod 8)"
proof -
  let ?b = "\<lambda>k. phys_mem c (a + k)"
  have v: "v = ucast (?b 0) OR push_bit 8 (ucast (?b 1)) OR push_bit 16 (ucast (?b 2)) OR push_bit 24 (ucast (?b 3))"
    using assms by (auto simp: pload32_def pload8_def bind_result_eq_Inr split: if_splits)
  have z: "8 \<le> j \<Longrightarrow> \<not> bit (phys_mem c x) j" for x j using bit_imp_le_length [of "phys_mem c x" j] by auto
  consider "n < 8" | "8 \<le> n" "n < 16" | "16 \<le> n" "n < 24" | "24 \<le> n" "n < 32" | "32 \<le> n" by linarith
  then show ?thesis
  proof cases
    case 2
    then have "n div 8 = 1" "n mod 8 = n - 8" by presburger+
    then show ?thesis using 2 unfolding v by (auto simp: bit_simps z)
  next
    case 3
    then have "n div 8 = 2" "n mod 8 = n - 16" by presburger+
    then show ?thesis using 3 unfolding v by (auto simp: bit_simps z)
  next
    case 4
    then have "n div 8 = 3" "n mod 8 = n - 24" by presburger+
    then show ?thesis using 4 unfolding v by (auto simp: bit_simps z)
  qed (auto simp: v bit_simps z dest: bit_imp_le_length)
qed

lemma pload32_returns:
  "(\<exists>v. pload32 c a = Inr v) \<longleftrightarrow> (\<forall>k < 4. a + of_nat k < phys_mem_size c)"
proof -
  have "(\<forall>k < (4::nat). P k) \<longleftrightarrow> P 0 \<and> P 1 \<and> P 2 \<and> P 3" for P
    by (auto simp: numeral_eq_Suc less_Suc_eq)
  then show ?thesis by (simp add: pload32_def pload8_def)
qed

lemma pload32_cases: "pload32 c a = Inl OutOfBounds \<or> (\<exists>v. pload32 c a = Inr v)"
  by (auto simp: pload32_def pload8_def)

lemma aligned_unat: "take_bit 2 (a :: u32) = 0 \<longleftrightarrow> unat a mod 4 = 0"
proof -
  have "take_bit 2 a = 0 \<longleftrightarrow> unat (take_bit 2 a) = unat (0 :: u32)" by (rule word_unat_eq_iff)
  also have "\<dots> \<longleftrightarrow> unat a mod 4 = 0" by (simp only: unsigned_take_bit_eq) (simp add: take_bit_eq_mod)
  finally show ?thesis .
qed

lemma unat_add_mod4: "unat (a + b :: u32) mod 4 = (unat a + unat b) mod 4"
  unfolding unat_word_ariths by (rule mod_mod_cancel) simp

lemma entry_aligned: "take_bit 2 (entry_at b i) = 0"
proof -
  have m: "(0xfff :: u32) = mask 12" by (simp add: mask_eq_exp_minus_1)
  have "take_bit 2 (page_base b) = 0"
    unfolding m page_base_def by (rule bit_word_eqI) (auto simp: bit_simps)
  then have "unat (page_base b) mod 4 = 0" by (simp only: aligned_unat)
  moreover have "unat (i * 4) mod 4 = unat i * 4 mod 4"
    unfolding unat_word_ariths by (subst mod_mod_cancel) simp_all
  ultimately have "(unat (page_base b) + unat (i * 4)) mod 4 = 0" by (simp add: mod_add_eq [symmetric])
  then show ?thesis unfolding aligned_unat entry_at_def unat_add_mod4 .
qed

lemma take_bit_2_offset:
  assumes "take_bit 2 (a :: u32) = 0" "0 < k" "k < 4"
  shows "take_bit 2 (a + of_nat k) \<noteq> 0"
proof -
  have "unat (of_nat k :: u32) = k" using assms(3) by (simp add: unat_of_nat)
  then show ?thesis using assms by (simp add: aligned_unat unat_add_mod4 mod_add_left_eq [symmetric])
qed

text \<open>Accessed and dirty bits are outside what the walk looks at.\<close>

lemma pload32_ad:
  assumes ad: "ad_mem (phys_mem c) (phys_mem c')" and sz: "phys_mem_size c' = phys_mem_size c"
    and al: "take_bit 2 a = 0" and v: "pload32 c a = Inr v"
  obtains v' where "pload32 c' a = Inr v'" "ad_word v v'"
proof -
  obtain v' where v': "pload32 c' a = Inr v'" using v sz pload32_returns [of c a] pload32_returns [of c' a] by metis
  moreover have "bit v' n = bit v n" if "n \<notin> {5, 6}" for n
  proof (cases "n < 32")
    case True
    have "take_bit 2 (a + of_nat (n div 8)) \<noteq> 0 \<or> n mod 8 \<notin> {5, 6}"
    proof (cases "n div 8 = 0")
      case True
      then have "n mod 8 = n" by (simp add: div_eq_0_iff)
      then show ?thesis using that by simp
    next
      case False
      then show ?thesis using True al by (intro disjI1 take_bit_2_offset) auto
    qed
    then show ?thesis using ad pload32_bits [OF v, of n] pload32_bits [OF v', of n] unfolding ad_mem_def by blast
  qed (simp add: pload32_bits [OF v] pload32_bits [OF v'])
  ultimately show thesis using that unfolding ad_word_def by blast
qed

lemma ad_wordD: "ad_word v v' \<Longrightarrow> n \<noteq> 5 \<Longrightarrow> n \<noteq> 6 \<Longrightarrow> bit v' n = bit v n"
  unfolding ad_word_def by blast

lemma page_bits_eq:
  assumes "ad_word v v'"
  shows "page_base v' = page_base v" "bit v' 0 = bit v 0" "bit v' 1 = bit v 1" "bit v' 2 = bit v 2"
proof -
  have m: "(0xfff :: u32) = mask 12" by (simp add: mask_eq_exp_minus_1)
  have "bit v' n = bit v n" if "12 \<le> n" for n using ad_wordD [OF assms, of n] that by simp
  then show "page_base v' = page_base v"
    unfolding m page_base_def by (intro bit_word_eqI) (auto simp: bit_simps)
qed (use ad_wordD [OF assms] in simp_all)

lemma page_walk_ad:
  assumes ad: "ad_mem (phys_mem c) (phys_mem c')" and s: "phys_mem_size c' = phys_mem_size c" "cr3 c' = cr3 c" "cr0 c' = cr0 c"
    and w: "page_walk c lp = Inr w"
  shows "page_walk c' lp = Inr w"
proof -
  obtain pde where pde: "pload32 c (entry_at (cr3 c) (drop_bit 10 lp)) = Inr pde"
    using w by (auto simp: page_walk_def bind_result_eq_Inr)
  obtain pde' where pde': "pload32 c' (entry_at (cr3 c) (drop_bit 10 lp)) = Inr pde'"
      "ad_word pde pde'"
    using pload32_ad [OF ad s(1) entry_aligned pde] by blast
  note e = page_bits_eq [OF pde'(2)]
  then have ea: "entry_at pde' i = entry_at pde i" for i by (simp add: entry_at_def)
  show ?thesis
  proof (cases "bit pde 0")
    case False
    then show ?thesis using w pde pde' e s by (simp add: page_walk_def)
  next
    case True
    define pa where "pa = entry_at pde (lp AND 1023)"
    obtain pte where pte: "pload32 c pa = Inr pte"
      using w pde True by (auto simp: page_walk_def bind_result_eq_Inr pa_def)
    obtain pte' where pte': "pload32 c' pa = Inr pte'" "ad_word pte pte'"
      using pload32_ad [OF ad s(1) entry_aligned pte [unfolded pa_def], folded pa_def] by blast
    note e' = page_bits_eq [OF pte'(2)]
    have "row_of (cr0 c) pde' pte' = row_of (cr0 c) pde pte" using e e' by (simp only: row_of_def)
    then have "page_walk c' lp = page_walk c lp"
      using pde pde' pte pte' True e(2) e'(1,2) s by (simp add: page_walk_def ea flip: pa_def)
    then show ?thesis using w by simp
  qed
qed


text \<open>A refill of an entry follows the walk and changes nothing but accessed bits and the entry.\<close>

lemma pload32_byte: "pload32 c a = Inr v \<Longrightarrow> pload8 c a = Inr (phys_mem c a) \<and> a < phys_mem_size c"
  by (auto simp: pload32_def pload8_def bind_result_eq_Inr split: if_splits)

lemma perm_bits: "unat (drop_bit 1 (pte AND ((pde AND 7) OR 0xfffffff8)) AND 3 :: u32)
    = of_bool (bit pde 1 \<and> bit pte 1) + 2 * of_bool (bit pde 2 \<and> bit pte 2)"
proof -
  have m: "(3 :: u32) = mask 2" "(7 :: u32) = mask 3" "(0xfffffff8 :: u32) = NOT (mask 3)"
    by (simp_all add: mask_eq_exp_minus_1)
  have "drop_bit 1 (pte AND ((pde AND 7) OR 0xfffffff8)) AND 3
      = (of_bool (bit pde 1 \<and> bit pte 1) OR push_bit 1 (of_bool (bit pde 2 \<and> bit pte 2)) :: u32)" (is "?l = ?r")
  proof (rule bit_word_eqI)
    fix n :: nat assume "n < LENGTH(32)"
    consider "n = 0" | "n = 1" | "2 \<le> n" by linarith
    then show "bit ?l n = bit ?r n"
      by cases (simp_all add: m bit_simps conj_commute numeral_2_eq_2)
  qed
  then show ?thesis by (simp add: of_bool_def)
qed

lemma tlb_refill_walk:
  assumes w: "page_walk c lp = Inr w"
  obtains m where "ad_mem (phys_mem c) m"
    "tlb_refill c e lp = Inr (w \<noteq> None,
       (case w of None \<Rightarrow> c\<lparr>phys_mem := m\<rparr> | Some x \<Rightarrow> c\<lparr>phys_mem := m, tab := (tab c)(e := walk_entry lp x)\<rparr>))"
proof -
  define a where "a = entry_at (cr3 c) (drop_bit 10 lp)"
  obtain pde where pde: "pload32 c a = Inr pde" using w by (auto simp: page_walk_def bind_result_eq_Inr a_def)
  note pb = pload32_byte [OF pde]
  define c1 where "c1 = c\<lparr>phys_mem := (phys_mem c)(a := phys_mem c a OR 0x20)\<rparr>"
  have st: "pstore8 c a (phys_mem c a OR 0x20) = Inr c1" using pb by (simp add: pstore8_def c1_def)
  have ad1: "ad_mem (phys_mem c) (phys_mem c1)"
    unfolding c1_def by (simp add: ad_mem_or entry_aligned a_def)
  have R: "tlb_refill c e lp = (if \<not> bit pde 0 then Inr (False, c) else
      bind_result (pload32 c1 (entry_at pde (lp AND 1023))) (\<lambda>pte.
        if \<not> bit pte 0 then Inr (False, c1)
        else bind_result (pload8 c1 (entry_at pde (lp AND 1023))) (\<lambda>b.
          bind_result (pstore8 c1 (entry_at pde (lp AND 1023)) (b OR 0x20)) (\<lambda>c.
            Inr (True, c\<lparr>tab := (tab c)(e := walk_entry lp (page_base pte, row_of (cr0 c) pde pte, entry_at pde (lp AND 1023)))\<rparr>)))))"
    unfolding tlb_refill_def Let_def page_base_def [symmetric] entry_at_def [symmetric] a_def [symmetric]
    using pde pb st
    by (simp only: bind_result_simps not_not perm_bits walk_entry_def row_of_def prod.case
        and_exp_eq_0 [of _ 0, simplified] and_exp_eq_0 [of _ 16, simplified])
  show thesis
  proof (cases "bit pde 0")
    case False
    then have "w = None" using w pde by (simp add: page_walk_def a_def)
    then show thesis using that [of "phys_mem c"] R False by simp
  next
    case True
    let ?pa = "entry_at pde (lp AND 1023)"
    obtain pte where pte: "pload32 c ?pa = Inr pte"
      and wv: "w = (if bit pte 0 then Some (page_base pte, row_of (cr0 c) pde pte, ?pa) else None)"
      using w pde True by (auto simp: page_walk_def bind_result_eq_Inr a_def split: if_splits)
    obtain pte' where pte': "pload32 c1 ?pa = Inr pte'" "ad_word pte pte'"
      using pload32_ad [OF ad1 _ entry_aligned pte] by (auto simp: c1_def)
    note e' = page_bits_eq [OF pte'(2)]
    have r: "row_of (cr0 c) pde pte' = row_of (cr0 c) pde pte" using e' by (simp only: row_of_def)
    note pb' = pload32_byte [OF pte'(1)]
    define m where "m = (phys_mem c1)(?pa := phys_mem c1 ?pa OR 0x20)"
    have st': "pstore8 c1 ?pa (phys_mem c1 ?pa OR 0x20) = Inr (c\<lparr>phys_mem := m\<rparr>)"
      using pb' by (simp add: pstore8_def c1_def m_def)
    have ad: "ad_mem (phys_mem c) m"
      unfolding m_def by (rule ad_mem_trans [OF ad1]) (simp add: ad_mem_or entry_aligned)
    show thesis
    proof (cases "bit pte 0")
      case False
      then show thesis using that [OF ad1] True R pte' e'(2) wv by (simp add: c1_def)
    next
      case pt: True
      then show thesis
        using that [OF ad] True R pte' e'(1,2) wv pb' st' r by simp
    qed
  qed
qed

lemma ad_mem_mono: "ad_mem m m' \<Longrightarrow> bit (m a) n \<Longrightarrow> bit (m' a) n"
  unfolding ad_mem_def by blast

lemma coherent_with_ad:
  assumes "coherent_with pw m t d" "\<And>lp w. pw lp = Inr w \<Longrightarrow> pw' lp = Inr w" "ad_mem m m'"
  shows "coherent_with pw' m' t d"
proof -
  have "tab_ok pw e \<Longrightarrow> tab_ok pw' e" for e unfolding tab_ok_def by (blast intro: assms(2))
  moreover have "read_ok pw lp xa u \<Longrightarrow> read_ok pw' lp xa u" for lp xa u
    unfolding read_ok_def by (blast intro: assms(2))
  moreover have "write_ok pw m lp xa pp dd u \<Longrightarrow> write_ok pw' m' lp xa pp dd u" for lp xa pp dd u
    unfolding write_ok_def by (blast intro: assms(2) ad_mem_mono [OF assms(3)])
  ultimately show ?thesis using assms(1) unfolding coherent_with_def by blast
qed

lemma tlb_coherent_ad:
  assumes "tlb_coherent c" "ad_mem (phys_mem c) m"
  shows "coherent_with (page_walk (c\<lparr>phys_mem := m\<rparr>)) m (tab c) (dtlb_fast c)"
  using assms(1) unfolding tlb_coherent_def
  by (rule coherent_with_ad) (use assms(2) in \<open>auto intro: page_walk_ad\<close>)

lemma page_walk_upd [simp]:
  "page_walk (c\<lparr>tab := t\<rparr>) lp = page_walk c lp" "page_walk (c\<lparr>dtlb_fast := d\<rparr>) lp = page_walk c lp"
  "page_walk (c\<lparr>cr2 := a\<rparr>) lp = page_walk c lp" "page_walk (c\<lparr>excno := e\<rparr>) lp = page_walk c lp"
  "page_walk (c\<lparr>excerr := x\<rparr>) lp = page_walk c lp" "page_walk (c\<lparr>ifetch := f\<rparr>) lp = page_walk c lp"
  "page_walk (c\<lparr>next_ip := ni\<rparr>) lp = page_walk c lp" "page_walk (c\<lparr>dev := dd\<rparr>) lp = page_walk c lp"
  by (simp_all add: page_walk_def pload32_def pload8_def)

lemma page_walk_caches: "page_walk (c\<lparr>phys_mem := m, tab := t, dtlb_fast := d\<rparr>) = page_walk (c\<lparr>phys_mem := m\<rparr>)"
  by (rule ext) simp

lemma coherent_tab: "coherent_with pw m t d \<Longrightarrow> tab_ok pw e \<Longrightarrow> coherent_with pw m (t(i := e)) d"
  by (simp add: coherent_with_def)

lemma coherent_read:
  "coherent_with pw m t d \<Longrightarrow> read_ok pw lp (rx s) (rc s) \<Longrightarrow>
     (\<And>i. i \<noteq> s \<Longrightarrow> rx i = read_xaddr d i \<and> rc i = read_cpl d i) \<Longrightarrow>
     coherent_with pw m t (d\<lparr>read_lpgno := (read_lpgno d)(s := lp), read_xaddr := rx, read_cpl := rc\<rparr>)"
  by (auto simp: coherent_with_def)

lemma coherent_write:
  "coherent_with pw m t d \<Longrightarrow> write_ok pw m lp (wx s) (wp s) (wd s) (wc s) \<Longrightarrow>
     (\<And>i. i \<noteq> s \<Longrightarrow> wx i = write_xaddr d i \<and> wp i = write_ppte d i \<and> wd i = write_dirty d i \<and> wc i = write_cpl d i) \<Longrightarrow>
     coherent_with pw m t (d\<lparr>write_lpgno := (write_lpgno d)(s := lp), write_xaddr := wx, write_ppte := wp,
       write_dirty := wd, write_cpl := wc\<rparr>)"
  by (auto simp: coherent_with_def)

lemma no_page_ok: "tab_ok pw (e\<lparr>lpgno := NO_PAGE\<rparr>)" "read_ok pw NO_PAGE xa u" "write_ok pw m NO_PAGE xa pp dd u"
  by (simp_all add: tab_ok_def read_ok_def write_ok_def)

lemma agreesI:
  "ad_mem (phys_mem c) m \<Longrightarrow> res = Inr (translated w rwm laddr cp (c\<lparr>phys_mem := m, tab := t, dtlb_fast := d\<rparr>)) \<Longrightarrow>
   coherent_with (page_walk (c\<lparr>phys_mem := m\<rparr>)) m t d \<Longrightarrow>
   (\<And>f row pa. rwm \<noteq> 1 \<Longrightarrow> w = Some (f, row, pa) \<Longrightarrow> page_allows row (0 < cp) True \<Longrightarrow> bit (m pa) 6) \<Longrightarrow>
   agrees c w rwm laddr cp res"
  unfolding agrees_def tlb_coherent_def
  by (intro exI [of _ m] exI [of _ t] exI [of _ d]) (simp add: page_walk_caches)

lemma frame_offset:
  assumes "lp = drop_bit 12 laddr" "page_walk c lp = Inr (Some (frame, row, pa))"
  shows "(frame XOR push_bit 12 lp) XOR laddr = frame OR (laddr AND 0xfff)"
proof -
  obtain v where v: "frame = page_base v"
    using assms(2) by (auto simp: page_walk_def bind_result_eq_Inr split: if_splits)
  have m: "(0xfff :: u32) = mask 12" by (simp add: mask_eq_exp_minus_1)
  show ?thesis
    unfolding assms(1) v page_base_def m
    by (rule bit_word_eqI) (auto simp: bit_simps)
qed

lemma walk_row_bound: "page_walk c lp = Inr (Some (frame, row, pa)) \<Longrightarrow> snd row < 4 \<and> pa < phys_mem_size c \<and> take_bit 2 pa = 0"
  by (auto simp: page_walk_def bind_result_eq_Inr row_of_def entry_aligned dest: pload32_byte split: if_splits)

lemma ent_lookup:
  assumes coh: "tlb_coherent c" and w: "page_walk c lp = Inr w" and lp: "lp \<noteq> NO_PAGE" and e: "e < tlb_size"
  obtains m t where "ad_mem (phys_mem c) m"
    "(if lpgno (tab c e) \<noteq> lp then tlb_refill c e lp else Inr (True, c)) = Inr (w \<noteq> None, c\<lparr>phys_mem := m, tab := t\<rparr>)"
    "coherent_with (page_walk (c\<lparr>phys_mem := m\<rparr>)) m t (dtlb_fast c)"
    "\<And>x. w = Some x \<Longrightarrow> t e = walk_entry lp x"
proof (cases "lpgno (tab c e) = lp")
  case True
  have "tab_ok (page_walk c) (tab c e)" using coh e unfolding tlb_coherent_def coherent_with_def by blast
  then obtain x where x: "page_walk c lp = Inr (Some x)" "tab c e = walk_entry lp x"
    using True lp unfolding tab_ok_def by blast
  show thesis
    by (rule that [of "phys_mem c" "tab c"]) (use True x w coh in \<open>auto simp: tlb_coherent_def\<close>)
next
  case False
  obtain m where m: "ad_mem (phys_mem c) m"
    "tlb_refill c e lp = Inr (w \<noteq> None,
       (case w of None \<Rightarrow> c\<lparr>phys_mem := m\<rparr> | Some x \<Rightarrow> c\<lparr>phys_mem := m, tab := (tab c)(e := walk_entry lp x)\<rparr>))"
    using tlb_refill_walk [OF w, of e] by blast
  note co = tlb_coherent_ad [OF coh m(1)]
  have w': "page_walk (c\<lparr>phys_mem := m\<rparr>) lp = Inr w" by (rule page_walk_ad [OF _ _ _ _ w]) (use m in auto)
  show thesis
  proof (cases w)
    case None
    show thesis by (rule that [of m "tab c"]) (use None False m co in auto)
  next
    case (Some x)
    have "tab_ok (page_walk (c\<lparr>phys_mem := m\<rparr>)) (walk_entry lp x)"
      using w' Some by (auto simp: tab_ok_def walk_entry_def split: prod.splits)
    then have "coherent_with (page_walk (c\<lparr>phys_mem := m\<rparr>)) m ((tab c)(e := walk_entry lp x)) (dtlb_fast c)"
      by (rule coherent_tab [OF co])
    with Some False m show thesis by (intro that [of m "(tab c)(e := walk_entry lp x)"]) simp_all
  qed
qed

lemma mark_dirty:
  assumes "pa < phys_mem_size c" "take_bit 2 pa = 0"
  obtains m where "ad_mem (phys_mem c) m" "mark_pte_dirty (Some pa) c = Inr (c\<lparr>phys_mem := m\<rparr>)" "bit (m pa) 6"
proof (cases "bit (phys_mem c pa) 6")
  case True
  then have "mark_pte_dirty (Some pa) c = Inr (c\<lparr>phys_mem := phys_mem c\<rparr>)"
    using assms and_exp_eq_0 [of "phys_mem c pa" 6] by (simp add: mark_pte_dirty_def pload8_def)
  with True show thesis by (intro that [of "phys_mem c"]) simp_all
next
  case False
  let ?m = "(phys_mem c)(pa := phys_mem c pa OR 0x40)"
  have "mark_pte_dirty (Some pa) c = Inr (c\<lparr>phys_mem := ?m\<rparr>)"
    using assms False and_exp_eq_0 [of "phys_mem c pa" 6] by (simp add: mark_pte_dirty_def pload8_def pstore8_def)
  moreover have "bit (phys_mem c pa OR 0x40) 6" using bit_or_exp [of "phys_mem c pa" 6 6] by simp
  ultimately show thesis using assms by (intro that [of ?m]) (simp_all add: ad_mem_or)
qed

lemma page_fault_upd:
  "page_fault p l r cp (c\<lparr>phys_mem := m, tab := t\<rparr>) = (page_fault p l r cp c)\<lparr>phys_mem := m, tab := t\<rparr>"
  by (simp_all add: page_fault_def)

lemma coherent_drop:
  "coherent_with pw m t d \<Longrightarrow> coherent_with pw m t (if read_lpgno d s = lp then d\<lparr>read_lpgno := (read_lpgno d)(s := NO_PAGE)\<rparr> else d)"
  "coherent_with pw m t d \<Longrightarrow> coherent_with pw m t (if write_lpgno d s = lp
     then d\<lparr>write_lpgno := (write_lpgno d)(s := NO_PAGE), write_dirty := (write_dirty d)(s := False)\<rparr> else d)"
  by (simp_all add: coherent_with_def no_page_ok)

text \<open>A permitted write through an entry whose page table address is known.\<close>

lemma write_through:
  assumes coh: "tlb_coherent c" and w: "page_walk c lp = Inr (Some (frame, row, pa))"
    and ok: "page_allows row (0 < cp) True" and r: "rwm \<noteq> 1" "1 < rwm" and lp: "lp = drop_bit 12 laddr"
    and res: "\<And>m. ad_mem (phys_mem c) m \<Longrightarrow> mark_pte_dirty (Some pa) c = Inr (c\<lparr>phys_mem := m\<rparr>) \<Longrightarrow>
       res = Inr (Some ((frame XOR push_bit 12 lp) XOR laddr), c\<lparr>phys_mem := m, dtlb_fast := (dtlb_fast c)\<lparr>
          write_lpgno := (write_lpgno (dtlb_fast c))(slot := lp), write_xaddr := (write_xaddr (dtlb_fast c))(slot := frame XOR push_bit 12 lp),
          write_ppte := (write_ppte (dtlb_fast c))(slot := Some pa),
          write_dirty := (write_dirty (dtlb_fast c))(slot := True), write_cpl := (write_cpl (dtlb_fast c))(slot := 0 < cp)\<rparr>\<rparr>)"
  shows "agrees c (Some (frame, row, pa)) rwm laddr cp res"
proof -
  let ?d = "dtlb_fast c"
  note wr = walk_row_bound [OF w]
  obtain m where m: "ad_mem (phys_mem c) m" "mark_pte_dirty (Some pa) c = Inr (c\<lparr>phys_mem := m\<rparr>)" "bit (m pa) 6"
    using mark_dirty [of pa c] wr by auto
  have w': "page_walk (c\<lparr>phys_mem := m\<rparr>) lp = Inr (Some (frame, row, pa))"
    by (rule page_walk_ad [OF _ _ _ _ w]) (use m in auto)
  let ?d' = "?d\<lparr>write_lpgno := (write_lpgno ?d)(slot := lp), write_xaddr := (write_xaddr ?d)(slot := frame XOR push_bit 12 lp),
     write_ppte := (write_ppte ?d)(slot := Some pa),
     write_dirty := (write_dirty ?d)(slot := True), write_cpl := (write_cpl ?d)(slot := 0 < cp)\<rparr>"
  have "coherent_with (page_walk (c\<lparr>phys_mem := m\<rparr>)) m (tab c) ?d'"
    by (rule coherent_write [OF tlb_coherent_ad [OF coh m(1)]])
      (use w' ok r m in \<open>auto simp: write_ok_def walk_entry_def\<close>)
  moreover have "res = Inr (translated (Some (frame, row, pa)) rwm laddr cp (c\<lparr>phys_mem := m, tab := tab c, dtlb_fast := ?d'\<rparr>))"
    using res [OF m(1,2)] ok r frame_offset [OF lp w] by (simp add: translated_def)
  ultimately show ?thesis using m by (intro agreesI [of c m _ _ _ _ _ ?d' "tab c"]) simp_all
qed

lemma use_entry_walk:
  assumes coh: "tlb_coherent c" and w: "page_walk c lp = Inr (Some (frame, row, pa))" and lp: "lp = drop_bit 12 laddr"
    and te: "tab c (unat lp mod tlb_size) = walk_entry lp (frame, row, pa)" and rwm: "rwm \<in> {1, 2, 3}"
  shows "agrees c (Some (frame, row, pa)) rwm laddr cp (use_entry c rwm lp laddr cp)"
proof -
  let ?d = "dtlb_fast c" and ?slot = "unat (lp AND 1023)" and ?e = "unat lp mod tlb_size"
  note C = coh [unfolded tlb_coherent_def]
  have pl: "pte_lookup row (0 < cp) (1 < rwm) \<longleftrightarrow> \<not> page_allows row (0 < cp) (1 < rwm)"
    using walk_row_bound [OF w] by (simp add: pte_lookup_allows)
  note te' = te [unfolded walk_entry_def prod.case]
  consider (denied) "\<not> page_allows row (0 < cp) (1 < rwm)" | (read) "page_allows row (0 < cp) (1 < rwm)" "rwm = 1"
    | (wr) "page_allows row (0 < cp) (1 < rwm)" "rwm \<in> {2, 3}"
    using rwm by (cases "page_allows row (0 < cp) (1 < rwm)") auto
  then show ?thesis
  proof cases
    case denied
    define d1 where "d1 = (if read_lpgno ?d ?slot = lp then ?d\<lparr>read_lpgno := (read_lpgno ?d)(?slot := NO_PAGE)\<rparr> else ?d)"
    define d2 where "d2 = (if write_lpgno d1 ?slot = lp
       then d1\<lparr>write_lpgno := (write_lpgno d1)(?slot := NO_PAGE), write_dirty := (write_dirty d1)(?slot := False)\<rparr> else d1)"
    let ?t = "(tab c)(?e := (tab c ?e)\<lparr>lpgno := NO_PAGE\<rparr>)"
    have "coherent_with (page_walk c) (phys_mem c) ?t d2"
      unfolding d2_def d1_def by (intro coherent_drop coherent_tab C no_page_ok)
    moreover have "use_entry c rwm lp laddr cp = Inr (translated (Some (frame, row, pa)) rwm laddr cp (c\<lparr>phys_mem := phys_mem c, tab := ?t, dtlb_fast := d2\<rparr>))"
      unfolding use_entry_def d1_def d2_def Let_def te' using denied pl by (simp add: translated_def page_fault_def)
    ultimately show ?thesis using denied rwm by (intro agreesI [of c "phys_mem c" _ _ _ _ _ d2 ?t]) auto
  next
    case read
    let ?d' = "?d\<lparr>read_lpgno := (read_lpgno ?d)(?slot := lp), read_xaddr := (read_xaddr ?d)(?slot := frame XOR push_bit 12 lp),
             read_cpl := (read_cpl ?d)(?slot := 0 < cp)\<rparr>"
    have "coherent_with (page_walk c) (phys_mem c) (tab c) ?d'"
      by (rule coherent_read [OF C]) (use w read in \<open>auto simp: read_ok_def walk_entry_def\<close>)
    moreover have "use_entry c rwm lp laddr cp = Inr (translated (Some (frame, row, pa)) rwm laddr cp (c\<lparr>phys_mem := phys_mem c, tab := tab c, dtlb_fast := ?d'\<rparr>))"
      unfolding use_entry_def Let_def te' using read pl frame_offset [OF lp w] by (simp add: translated_def)
    ultimately show ?thesis using read by (intro agreesI [of c "phys_mem c" _ _ _ _ _ ?d' "tab c"]) simp_all
  next
    case wr
    show ?thesis
    proof (rule write_through [OF coh w _ _ _ lp, where slot = ?slot])
      fix m assume "mark_pte_dirty (Some pa) c = Inr (c\<lparr>phys_mem := m\<rparr>)"
      then show "use_entry c rwm lp laddr cp = Inr (Some ((frame XOR push_bit 12 lp) XOR laddr), c\<lparr>phys_mem := m, dtlb_fast := ?d\<lparr>
          write_lpgno := (write_lpgno ?d)(?slot := lp), write_xaddr := (write_xaddr ?d)(?slot := frame XOR push_bit 12 lp),
          write_ppte := (write_ppte ?d)(?slot := Some pa),
          write_dirty := (write_dirty ?d)(?slot := True), write_cpl := (write_cpl ?d)(?slot := 0 < cp)\<rparr>\<rparr>)"
        using wr pl by (simp add: use_entry_def Let_def te')
    qed (use wr in auto)
  qed
qed

lemma agrees_hit:
  assumes coh: "tlb_coherent c" and w: "page_walk c lp = Inr (Some (frame, row, pa))" and lp: "lp = drop_bit 12 laddr"
    and ok: "page_allows row (0 < cp) (1 < rwm)" and dirty: "rwm \<noteq> 1 \<Longrightarrow> bit (phys_mem c pa) 6"
  shows "agrees c (Some (frame, row, pa)) rwm laddr cp (Inr (Some ((frame XOR push_bit 12 lp) XOR laddr), c))"
proof (rule agreesI [of c "phys_mem c" _ _ _ _ _ "dtlb_fast c" "tab c"])
  show "Inr (Some ((frame XOR push_bit 12 lp) XOR laddr), c) =
      Inr (translated (Some (frame, row, pa)) rwm laddr cp (c\<lparr>phys_mem := phys_mem c, tab := tab c, dtlb_fast := dtlb_fast c\<rparr>))"
    using ok frame_offset [OF lp w] by (simp add: translated_def)
qed (use coh dirty in \<open>auto simp: tlb_coherent_def\<close>)

text \<open>The second level: the state that the entry lookup leaves is again coherent.\<close>

lemma agrees_after:
  assumes "ad_mem (phys_mem c) m" "agrees (c\<lparr>phys_mem := m, tab := t\<rparr>) w rwm laddr cp res"
  shows "agrees c w rwm laddr cp res"
proof -
  from assms(2) obtain m' t' d where "ad_mem m m'"
    "res = Inr (translated w rwm laddr cp (c\<lparr>phys_mem := m', tab := t', dtlb_fast := d\<rparr>))"
    "tlb_coherent (c\<lparr>phys_mem := m', tab := t', dtlb_fast := d\<rparr>)"
    "rwm \<noteq> 1 \<longrightarrow> (\<forall>f row pa. w = Some (f, row, pa) \<longrightarrow> page_allows row (0 < cp) True \<longrightarrow> bit (m' pa) 6)"
    unfolding agrees_def by auto
  with ad_mem_trans [OF assms(1)] show ?thesis unfolding agrees_def by blast
qed

lemma miss_walk:
  assumes coh: "tlb_coherent c" and w: "page_walk c lp = Inr w" and lp: "lp = drop_bit 12 laddr" "lp \<noteq> NO_PAGE"
    and rwm: "rwm \<in> {1, 2, 3}"
  shows "agrees c w rwm laddr cp
     (bind_result (if lpgno (tab c (unat lp mod tlb_size)) \<noteq> lp then tlb_refill c (unat lp mod tlb_size) lp else Inr (True, c))
       (\<lambda>(hit, c). if \<not> hit then Inr (None, page_fault 0 laddr rwm cp c) else use_entry c rwm lp laddr cp))"
proof -
  let ?e = "unat lp mod tlb_size"
  obtain m t where L: "ad_mem (phys_mem c) m"
    "(if lpgno (tab c ?e) \<noteq> lp then tlb_refill c ?e lp else Inr (True, c)) = Inr (w \<noteq> None, c\<lparr>phys_mem := m, tab := t\<rparr>)"
    "coherent_with (page_walk (c\<lparr>phys_mem := m\<rparr>)) m t (dtlb_fast c)"
    "\<And>x. w = Some x \<Longrightarrow> t ?e = walk_entry lp x"
    using ent_lookup [OF coh w lp(2), of ?e] by (metis mod_less_divisor zero_less_numeral)
  let ?c = "c\<lparr>phys_mem := m, tab := t\<rparr>"
  have coh': "tlb_coherent ?c"
    using L(3) page_walk_caches [where m = m and t = t and d = "dtlb_fast c" and c = c] unfolding tlb_coherent_def by simp
  show ?thesis
  proof (cases w)
    case None
    have "agrees c w rwm laddr cp (Inr (None, page_fault 0 laddr rwm cp ?c))"
      using L(1,3) None by (intro agreesI [of c m _ _ _ _ _ "dtlb_fast c" t]) (simp_all add: translated_def)
    then show ?thesis unfolding L(2) using None by simp
  next
    case (Some x)
    obtain frame row pa where x: "x = (frame, row, pa)" by (cases x)
    have "page_walk ?c lp = Inr (Some (frame, row, pa))"
      by (rule page_walk_ad [OF _ _ _ _ w [unfolded Some x]]) (use L(1) in auto)
    then have "agrees ?c w rwm laddr cp (use_entry ?c rwm lp laddr cp)"
      using L(4) [OF Some] unfolding Some x by (intro use_entry_walk [OF coh' _ lp(1) _ rwm]) (simp_all add: x)
    then have "agrees c w rwm laddr cp (use_entry ?c rwm lp laddr cp)" by (rule agrees_after [OF L(1)])
    then show ?thesis unfolding L(2) using Some by simp
  qed
qed

text \<open>The whole translation, with both levels of caches.\<close>

lemma translate_lpgno_fast_walk:
  assumes coh: "tlb_coherent c" and w: "page_walk c lp = Inr w" and lp: "lp = drop_bit 12 laddr"
    and rwm: "rwm \<in> {1, 2, 3}"
  shows "agrees c w rwm laddr cp (translate_lpgno_fast c rwm lp laddr cp)"
proof -
  let ?slot = "unat (lp AND 1023)" and ?d = "dtlb_fast c" and ?e = "unat lp mod tlb_size"
  have np: "lp \<noteq> NO_PAGE"
  proof
    assume "lp = NO_PAGE"
    then have "bit lp 31" by simp
    then show False unfolding lp bit_drop_bit_eq by (auto dest: bit_imp_le_length)
  qed
  have sl: "?slot < 1024" using unat_and_le_right [of lp 1023] by simp
  have R: "read_ok (page_walk c) (read_lpgno ?d ?slot) (read_xaddr ?d ?slot) (read_cpl ?d ?slot)"
    and W: "write_ok (page_walk c) (phys_mem c) (write_lpgno ?d ?slot) (write_xaddr ?d ?slot) (write_ppte ?d ?slot)
      (write_dirty ?d ?slot) (write_cpl ?d ?slot)"
    using coh sl unfolding tlb_coherent_def coherent_with_def by blast+
  consider (rd) "rwm = 1" "read_lpgno ?d ?slot = lp" "read_cpl ?d ?slot = (0 < cp)"
    | (wr) "\<not> (rwm = 1 \<and> read_lpgno ?d ?slot = lp \<and> read_cpl ?d ?slot = (0 < cp))"
        "rwm = 1 \<or> rwm = 2" "write_lpgno ?d ?slot = lp" "write_cpl ?d ?slot = (0 < cp)"
    | (miss) "\<not> (rwm = 1 \<and> read_lpgno ?d ?slot = lp \<and> read_cpl ?d ?slot = (0 < cp))"
        "\<not> ((rwm = 1 \<or> rwm = 2) \<and> write_lpgno ?d ?slot = lp \<and> write_cpl ?d ?slot = (0 < cp))" by blast
  then show ?thesis
  proof cases
    case rd
    then obtain frame row pa where x: "page_walk c lp = Inr (Some (frame, row, pa))" "page_allows row (0 < cp) False"
        "read_xaddr ?d ?slot = frame XOR push_bit 12 lp"
      using R np by (auto simp: read_ok_def walk_entry_def)
    with rd w show ?thesis
      using agrees_hit [OF coh x(1) lp, of cp rwm] by (simp add: translate_lpgno_fast_def)
  next
    case wr
    then obtain frame row pa where x: "page_walk c lp = Inr (Some (frame, row, pa))" "page_allows row (0 < cp) True"
        "write_xaddr ?d ?slot = frame XOR push_bit 12 lp" "write_ppte ?d ?slot = Some pa"
        "write_dirty ?d ?slot \<Longrightarrow> bit (phys_mem c pa) 6"
      using W np by (auto simp: write_ok_def walk_entry_def)
    show ?thesis
    proof (cases "rwm = 1 \<or> write_dirty ?d ?slot")
      case True
      then have "page_allows row (0 < cp) (1 < rwm)" using x(2) page_allows_read [OF x(2)] wr(2) by auto
      with wr x w True show ?thesis
        using agrees_hit [OF coh x(1) lp, of cp rwm] by (auto simp: translate_lpgno_fast_def Let_def)
    next
      case False
      then have r: "rwm = 2" using wr(2) by simp
      have "?d\<lparr>write_dirty := (write_dirty ?d)(?slot := True)\<rparr> = ?d\<lparr>
          write_lpgno := (write_lpgno ?d)(?slot := lp), write_xaddr := (write_xaddr ?d)(?slot := frame XOR push_bit 12 lp),
          write_ppte := (write_ppte ?d)(?slot := Some pa),
          write_dirty := (write_dirty ?d)(?slot := True), write_cpl := (write_cpl ?d)(?slot := 0 < cp)\<rparr>"
        using wr x by (simp add: fun_upd_idem)
      then have "agrees c (Some (frame, row, pa)) rwm laddr cp (translate_lpgno_fast c rwm lp laddr cp)"
        using wr x False r lp
        by (intro write_through [OF coh x(1), where slot = ?slot]) (simp_all add: translate_lpgno_fast_def Let_def)
      with w x show ?thesis by simp
    qed
  next
    case miss
    then have F: "translate_lpgno_fast c rwm lp laddr cp =
       bind_result (if lpgno (tab c ?e) \<noteq> lp then tlb_refill c ?e lp else Inr (True, c)) (\<lambda>(hit, c).
              if \<not> hit then Inr (None, page_fault 0 laddr rwm cp c) else use_entry c rwm lp laddr cp)"
      by (auto simp: translate_lpgno_fast_def Let_def)
    show ?thesis unfolding F by (rule miss_walk [OF coh w lp np rwm])
  qed
qed

lemma tlb_clear_coherent: "tlb_coherent (tlb_clear c)"
  by (simp add: tlb_coherent_def coherent_with_def tlb_clear_def tab_ok_def read_ok_def write_ok_def)

text \<open>Faults: the walk leaves the memory exactly where the translation does.\<close>

lemma tlb_refill_out_of_bounds:
  assumes w: "page_walk c lp = Inl f"
  shows "tlb_refill c e lp = Inl f"
proof -
  define a where "a = entry_at (cr3 c) (drop_bit 10 lp)"
  have T: "tlb_refill c e lp = bind_result (pload32 c a) (\<lambda>pde.
         if pde AND 1 = 0 then Inr (False, c)
         else bind_result (pload8 c a) (\<lambda>b. bind_result (pstore8 c a (b OR 0x20)) (\<lambda>c.
           bind_result (pload32 c (entry_at pde (lp AND 1023))) (\<lambda>pte.
              if pte AND 1 = 0 then Inr (False, c)
              else bind_result (pload8 c (entry_at pde (lp AND 1023))) (\<lambda>b.
                bind_result (pstore8 c (entry_at pde (lp AND 1023)) (b OR 0x20)) (\<lambda>c.
                Inr (True, c\<lparr>tab := (tab c)(e :=
                     \<lparr>lpgno = lp, xaddr = page_base pte XOR push_bit 12 lp,
                      elookup = (cr0 c AND CR0_WP \<noteq> 0, unat (drop_bit 1 (pte AND ((pde AND 7) OR 0xfffffff8)) AND 3)),
                      ppte = entry_at pde (lp AND 1023)\<rparr>)\<rparr>)))))))"
    unfolding tlb_refill_def Let_def page_base_def [symmetric] entry_at_def [symmetric] a_def [symmetric] ..
  show ?thesis
  proof (cases "pload32 c a")
    case (Inl g)
    then show ?thesis using w unfolding T by (simp add: page_walk_def a_def)
  next
    case (Inr pde)
    then have p: "bit pde 0" "pload32 c (entry_at pde (lp AND 1023)) = Inl f"
      using w by (auto simp: page_walk_def a_def bind_result_def split: sum.splits if_splits)
    define c1 where "c1 = c\<lparr>phys_mem := (phys_mem c)(a := phys_mem c a OR 0x20)\<rparr>"
    let ?x = "entry_at pde (lp AND 1023)"
    have "\<not> (\<exists>v. pload32 c1 ?x = Inr v)"
      using pload32_returns [of c1 ?x] pload32_returns [of c ?x] p(2) by (simp add: c1_def)
    then have "pload32 c1 ?x = Inl f" using pload32_cases [of c1 ?x] pload32_cases [of c ?x] p(2) by auto
    moreover have "pde AND 1 \<noteq> 0" using p(1) and_exp_eq_0 [of pde 0] by simp
    ultimately show ?thesis
      using Inr pload32_byte [OF Inr] unfolding T by (simp add: pstore8_def flip: c1_def)
  qed
qed

lemma translate_out_of_bounds:
  assumes coh: "tlb_coherent c" and w: "page_walk c lp = Inl f" and np: "lp \<noteq> NO_PAGE"
  shows "translate_lpgno_fast c rwm lp laddr cp = Inl f"
proof -
  let ?slot = "unat (lp AND 1023)" and ?d = "dtlb_fast c" and ?e = "unat lp mod tlb_size"
  have sl: "?slot < 1024" "?e < 1024" using unat_and_le_right [of lp 1023] by simp_all
  have "read_ok (page_walk c) (read_lpgno ?d ?slot) (read_xaddr ?d ?slot) (read_cpl ?d ?slot)"
    "write_ok (page_walk c) (phys_mem c) (write_lpgno ?d ?slot) (write_xaddr ?d ?slot) (write_ppte ?d ?slot)
      (write_dirty ?d ?slot) (write_cpl ?d ?slot)" "tab_ok (page_walk c) (tab c ?e)"
    using coh sl unfolding tlb_coherent_def coherent_with_def by blast+
  then have "read_lpgno ?d ?slot \<noteq> lp" "write_lpgno ?d ?slot \<noteq> lp" "lpgno (tab c ?e) \<noteq> lp"
    using np w unfolding read_ok_def write_ok_def tab_ok_def by auto
  then show ?thesis using tlb_refill_out_of_bounds [OF w] by (simp add: translate_lpgno_fast_def Let_def)
qed

lemma page_number: "drop_bit 12 (laddr :: u32) \<noteq> NO_PAGE"
proof
  assume e: "drop_bit 12 laddr = NO_PAGE"
  have "bit (NO_PAGE :: u32) 31" by simp
  then have "bit (drop_bit 12 laddr) 31" by (simp only: e)
  then show False unfolding bit_drop_bit_eq by (auto dest: bit_imp_le_length)
qed

lemma MOVTC_load_cr:
  assumes "MOVTC cb fpu c = Inr (Some (), c')" "fetch8 cb c = Inr (Some modrm, c1)"
  shows "c' = load_cr fpu (unat (drop_bit 3 modrm AND 7)) (gpr c1 (unat (modrm AND 7))) c1"
  using assms by (auto simp: MOVTC_def TRY_def THROW_def load_cr_def Let_def split: if_splits)

lemma page_fault_coherent: "tlb_coherent c \<Longrightarrow> tlb_coherent (page_fault p l r cp c)"
proof -
  have "page_walk (page_fault p l r cp c) = page_walk c" by (rule ext) (simp add: page_fault_def)
  then show "tlb_coherent c \<Longrightarrow> ?thesis" by (simp add: tlb_coherent_def) (simp add: page_fault_def)
qed

lemma agrees_coherent: "agrees c w rwm laddr cp (Inr (r, c')) \<Longrightarrow> tlb_coherent c'"
proof -
  have t: "tlb_coherent (snd (translated w rwm laddr cp x))" if "tlb_coherent x" for x
    using that by (auto simp: translated_def page_fault_coherent split: option.split)
  assume "agrees c w rwm laddr cp (Inr (r, c'))"
  then obtain x where "tlb_coherent x" "(r, c') = translated w rwm laddr cp x" unfolding agrees_def by blast
  then show ?thesis using t [of x] by (metis snd_conv)
qed

lemma load_cr_coherent: "tlb_coherent c \<Longrightarrow> tlb_coherent (load_cr fpu n v c)"
proof -
  assume c: "tlb_coherent c"
  have wp: "page_walk (c\<lparr>cr0 := x\<rparr>) = page_walk c" if "bit x 16 = bit (cr0 c) 16" for x
    using that by (intro ext) (simp add: page_walk_def pload32_def pload8_def row_of_def)
  have k: "tlb_coherent ((tlb_clear c)\<lparr>cr0 := x\<rparr>)" for x
    by (simp add: tlb_coherent_def coherent_with_def tlb_clear_def tab_ok_def read_ok_def write_ok_def)
  have "bit (if fpu then v OR 0x10 else v) 16 = bit (cr0 c) 16" if "(v XOR cr0 c) AND (CR0_PG OR CR0_WP OR 1) = 0"
  proof -
    have "\<not> bit ((v XOR cr0 c) AND (CR0_PG OR CR0_WP OR 1)) 16" using that by simp
    moreover have "bit (CR0_PG OR CR0_WP OR 1) 16" by simp
    moreover have "bit (v OR 0x10) 16 = bit v 16" using bit_or_exp [of v 4 16] by simp
    ultimately show ?thesis by (simp only: bit_and_iff bit_xor_iff) auto
  qed
  then have "tlb_coherent (c\<lparr>cr0 := if fpu then v OR 0x10 else v\<rparr>)" if "(v XOR cr0 c) AND (CR0_PG OR CR0_WP OR 1) = 0"
    using c wp that by (simp add: tlb_coherent_def)
  moreover have "page_walk (c\<lparr>cr2 := v\<rparr>) = page_walk c" by (rule ext) simp
  then have "tlb_coherent (c\<lparr>cr2 := v\<rparr>)" using c by (simp add: tlb_coherent_def)
  ultimately show ?thesis using c k by (simp add: load_cr_def tlb_clear_coherent)
qed

lemma coherent_same_mem:
  assumes "coherent_with pw m t d" "\<And>lp f row pa. pw lp = Inr (Some (f, row, pa)) \<Longrightarrow> m' pa = m pa"
  shows "coherent_with pw m' t d"
proof -
  have "write_ok pw m' lp xa pp dd u" if "write_ok pw m lp xa pp dd u" for lp xa pp dd u
    using that assms(2) [of lp] by (auto simp: write_ok_def)
  then show ?thesis using assms(1) unfolding coherent_with_def by blast
qed

lemma less_4: "(\<forall>k < 4. P k) \<longleftrightarrow> P 0 \<and> P 1 \<and> P 2 \<and> P (3 :: nat)"
  by (auto simp: numeral_eq_Suc less_Suc_eq)

lemma low_page_cases:
  assumes "0xffc < (a :: u32) AND 0xfff"
  shows "a AND 0xfff = 0xffd \<and> a AND 0xf = 0xd \<or> a AND 0xfff = 0xffe \<and> a AND 0xf = 0xe \<or>
    a AND 0xfff = 0xfff \<and> a AND 0xf = 0xf"
proof -
  have le: "unat (a AND 0xfff) \<le> 0xfff" using unat_and_le_right [of a "0xfff"] by simp
  have "0xffc < unat (a AND 0xfff)" using assms by (simp add: word_less_nat_alt)
  then have "unat (a AND 0xfff) = 0xffd \<or> unat (a AND 0xfff) = 0xffe \<or> unat (a AND 0xfff) = 0xfff" using le by linarith
  then have c: "a AND 0xfff = 0xffd \<or> a AND 0xfff = 0xffe \<or> a AND 0xfff = 0xfff"
    by (auto simp: word_unat_eq_iff)
  have "a AND 0xf = (a AND 0xfff) AND 0xf" by (simp add: and.assoc)
  then show ?thesis using c by (elim disjE) simp_all
qed

lemma split_bytes:
  assumes "0xffc < a AND 0xfff"
  shows "a AND 0xf = 0xd \<Longrightarrow> byte_at (ADDR_OK2 a a2) 0 = a \<and> byte_at (ADDR_OK2 a a2) 1 = a + 1 \<and>
      byte_at (ADDR_OK2 a a2) 2 = a + 2 \<and> byte_at (ADDR_OK2 a a2) 3 = a2"
    "a AND 0xf = 0xe \<Longrightarrow> byte_at (ADDR_OK2 a a2) 0 = a \<and> byte_at (ADDR_OK2 a a2) 1 = a + 1 \<and>
      byte_at (ADDR_OK2 a a2) 2 = a2 \<and> byte_at (ADDR_OK2 a a2) 3 = a2 + 1"
    "a AND 0xf = 0xf \<Longrightarrow> byte_at (ADDR_OK2 a a2) 0 = a \<and> byte_at (ADDR_OK2 a a2) 1 = a2 \<and>
      byte_at (ADDR_OK2 a a2) 2 = a2 + 1 \<and> byte_at (ADDR_OK2 a a2) 3 = a2 + 2"
  using low_page_cases [OF assms] by (auto simp: byte_at_def Let_def)

lemma ram_first: "ram_access c oa \<Longrightarrow> map_bios_alias (addr1 oa) = addr1 oa \<and> addr1 oa < phys_mem_size c"
proof -
  assume r: "ram_access c oa"
  have "byte_at oa 0 = addr1 oa"
    using r by (cases oa) (auto simp: ram_access_def byte_at_def dest!: split_bytes low_page_cases)
  moreover have "byte_at oa 0 < phys_mem_size c" using r by (simp add: ram_access_def)
  ultimately have b: "addr1 oa < phys_mem_size c" by simp
  also have "\<dots> \<le> 0xfffe0000" using r by (simp add: ram_access_def)
  finally show ?thesis using b by (auto simp: map_bios_alias_def)
qed

lemma ucast_or_parts:
  "(ucast (ucast b0 OR push_bit 8 (ucast b1) :: u16) :: u32) = ucast (b0 :: u8) OR push_bit 8 (ucast (b1 :: u8))"
  by (rule bit_word_eqI) (auto simp: bit_simps dest: bit_imp_le_length)

lemma ram32_bytes:
  assumes "ram_access c oa"
  shows "ram32 c oa = Inr (le_value (\<lambda>k. phys_mem c (byte_at oa k)))"
proof (cases oa)
  case (ADDR_OK1 a)
  then show ?thesis using assms ram_first [OF assms]
    by (auto simp: ram32_def ram_access_def less_4 byte_at_def pload32_def pload8_def le_value_def)
next
  case (ADDR_OK2 a a2)
  have al: "map_bios_alias x = x" if "x < phys_mem_size c" for x
    using that assms by (auto simp: map_bios_alias_def ram_access_def)
  have l: "0xffc < a AND 0xfff" and B: "byte_at oa 0 < phys_mem_size c" "byte_at oa 1 < phys_mem_size c"
      "byte_at oa 2 < phys_mem_size c" "byte_at oa 3 < phys_mem_size c"
    using assms ADDR_OK2 by (simp_all add: ram_access_def less_4)
  note s = split_bytes [OF l, of a2, folded ADDR_OK2] and u = ucast_or_parts
  have f: "map_bios_alias a = a" "\<not> phys_mem_size c \<le> a" using ram_first [OF assms] ADDR_OK2 by auto
  consider "a AND 0xf = 0xd" | "a AND 0xf = 0xe" | "a AND 0xf = 0xf" using low_page_cases [OF l] by blast
  then show ?thesis
  proof cases
    case 1
    with s(1) B al show ?thesis
      by (simp add: ram32_def ADDR_OK2 f pload16_def pload8_def le_value_def u push_bit_or or.assoc add.commute [of 2])
  next
    case 2
    with s(2) B al show ?thesis
      by (simp add: ram32_def ADDR_OK2 f pload16_def pload8_def le_value_def u push_bit_or or.assoc add.commute [of 2])
  next
    case 3
    with s(3) B al show ?thesis
      by (simp add: ram32_def ADDR_OK2 f pload16_def pload8_def le_value_def u push_bit_or or.assoc add.commute [of 2])
  qed
qed


lemma half_bytes:
  "ucast (ucast v :: u16) = (ucast (v :: u32) :: u8)" "ucast (drop_bit 8 (ucast v :: u16)) = (ucast (drop_bit 8 v) :: u8)"
  by (rule bit_word_eqI, auto simp: bit_simps)+

lemma store_ram32_bytes:
  assumes "ram_access c oa"
  shows "store_ram32 c oa v = Inr (c\<lparr>phys_mem := put_bytes oa v (phys_mem c)\<rparr>)"
proof -
  have f: "\<not> phys_mem_size c \<le> addr1 oa" using ram_first [OF assms] by auto
  have B: "byte_at oa 0 < phys_mem_size c" "byte_at oa 1 < phys_mem_size c"
      "byte_at oa 2 < phys_mem_size c" "byte_at oa 3 < phys_mem_size c"
    using assms by (simp_all add: ram_access_def less_4)
  note d = store_ram32_def pstore32_def pstore16_def pstore8_def put_bytes_def le_byte_def half_bytes
  show ?thesis
  proof (cases oa)
    case (ADDR_OK1 a)
    then show ?thesis using B f by (simp add: d byte_at_def)
  next
    case (ADDR_OK2 a a2)
    then have l: "0xffc < a AND 0xfff" using assms by (simp add: ram_access_def)
    note s = split_bytes [OF l, of a2, folded ADDR_OK2]
    have f': "\<not> phys_mem_size c \<le> a" using f ADDR_OK2 by simp
    consider "a AND 0xf = 0xd" | "a AND 0xf = 0xe" | "a AND 0xf = 0xf" using low_page_cases [OF l] by blast
    then show ?thesis
    proof cases
      case 1
      with s(1) B f' show ?thesis by (simp add: d ADDR_OK2 add.commute [of 2])
    next
      case 2
      with s(2) B f' show ?thesis by (simp add: d ADDR_OK2 add.commute [of 2])
    next
      case 3
      with s(3) B f' show ?thesis by (simp add: d ADDR_OK2 add.commute [of 2])
    qed
  qed
qed

lemma put_bytes_get:
  assumes "inj_on (byte_at oa) {0, 1, 2, 3}"
  shows "k < 4 \<Longrightarrow> put_bytes oa v m (byte_at oa k) = le_byte v k"
    "a \<notin> byte_at oa ` {0, 1, 2, 3} \<Longrightarrow> put_bytes oa v m a = m a"
proof -
  have n: "i \<noteq> j \<Longrightarrow> byte_at oa i \<noteq> byte_at oa j" if "i \<in> {0, 1, 2, 3}" "j \<in> {0, 1, 2, 3}" for i j
    using assms that by (auto dest: inj_onD)
  show "put_bytes oa v m (byte_at oa k) = le_byte v k" if "k < 4"
    using that n [of 0 1] n [of 0 2] n [of 0 3] n [of 1 2] n [of 1 3] n [of 2 3]
    by (auto simp: put_bytes_def numeral_eq_Suc less_Suc_eq)
  show "a \<notin> byte_at oa ` {0, 1, 2, 3} \<Longrightarrow> put_bytes oa v m a = m a"
    by (auto simp: put_bytes_def)
qed

lemma le_value_byte: "le_value (le_byte v) = v"
proof (rule bit_word_eqI)
  fix n :: nat assume n: "n < LENGTH(32)"
  consider "n < 8" | "8 \<le> n" "n < 16" | "16 \<le> n" "n < 24" | "24 \<le> n" using n by linarith
  then show "bit (le_value (le_byte v)) n = bit v n"
    using n by cases (auto simp: le_value_def le_byte_def bit_simps)
qed

text \<open>The builds that translate without the first level, with tables of at most 1024 entries.\<close>

lemma use_single:
  assumes coh: "tlb_coherent c" and w: "page_walk c lp = Inr (Some (frame, row, pa))" and lp: "lp = drop_bit 12 laddr"
    and te: "tab c e = walk_entry lp (frame, row, pa)" and rwm: "rwm \<in> {1, 2, 3}"
  shows "agrees c (Some (frame, row, pa)) rwm laddr cp
    (if pte_lookup (elookup (tab c e)) (0 < cp) (1 < rwm)
     then Inr (None, (page_fault 1 laddr rwm cp c)\<lparr>tab := (tab c)(e := (tab c e)\<lparr>lpgno := NO_PAGE\<rparr>)\<rparr>)
     else if rwm \<in> {2, 3}
     then bind_result (mark_pte_dirty (Some (ppte (tab c e))) c) (\<lambda>c'. Inr (Some (xaddr (tab c e) XOR laddr), c'))
     else Inr (Some (xaddr (tab c e) XOR laddr), c))"
proof -
  note C = coh [unfolded tlb_coherent_def] and te' = te [unfolded walk_entry_def prod.case]
  have pl: "pte_lookup row (0 < cp) (1 < rwm) \<longleftrightarrow> \<not> page_allows row (0 < cp) (1 < rwm)"
    using walk_row_bound [OF w] by (simp add: pte_lookup_allows)
  consider (denied) "\<not> page_allows row (0 < cp) (1 < rwm)" | (read) "page_allows row (0 < cp) (1 < rwm)" "rwm = 1"
    | (wr) "page_allows row (0 < cp) (1 < rwm)" "rwm \<in> {2, 3}"
    using rwm by (cases "page_allows row (0 < cp) (1 < rwm)") auto
  then show ?thesis
  proof cases
    case denied
    let ?t = "(tab c)(e := (tab c e)\<lparr>lpgno := NO_PAGE\<rparr>)"
    have "coherent_with (page_walk c) (phys_mem c) ?t (dtlb_fast c)" by (intro coherent_tab C no_page_ok)
    then show ?thesis
      using denied pl rwm te' by (intro agreesI [of c "phys_mem c" _ _ _ _ _ "dtlb_fast c" ?t]) (auto simp: translated_def page_fault_def)
  next
    case read
    then show ?thesis using agrees_hit [OF coh w lp, of cp rwm] pl by (simp add: te')
  next
    case wr
    note b = walk_row_bound [OF w]
    obtain m where m: "ad_mem (phys_mem c) m" "mark_pte_dirty (Some pa) c = Inr (c\<lparr>phys_mem := m\<rparr>)" "bit (m pa) 6"
      using mark_dirty [of pa c] b by auto
    show ?thesis
      using wr pl m frame_offset [OF lp w] tlb_coherent_ad [OF coh m(1)]
      by (intro agreesI [of c m _ _ _ _ _ "dtlb_fast c" "tab c"]) (auto simp: translated_def te')
  qed
qed

lemma translate_lpgno_walk:
  assumes coh: "tlb_coherent c" and w: "page_walk c lp = Inr w" and lp: "lp = drop_bit 12 laddr" and rwm: "rwm \<in> {1, 2, 3}"
    and n: "0 < n" "n \<le> 1024"
  shows "agrees c w rwm laddr cp (translate_lpgno n c rwm lp laddr cp)"
proof -
  let ?e = "unat lp mod n"
  have e: "?e < tlb_size" using n mod_less_divisor [OF n(1), of "unat lp"] by linarith
  obtain m t where L: "ad_mem (phys_mem c) m"
    "(if lpgno (tab c ?e) \<noteq> lp then tlb_refill c ?e lp else Inr (True, c)) = Inr (w \<noteq> None, c\<lparr>phys_mem := m, tab := t\<rparr>)"
    "coherent_with (page_walk (c\<lparr>phys_mem := m\<rparr>)) m t (dtlb_fast c)"
    "\<And>x. w = Some x \<Longrightarrow> t ?e = walk_entry lp x"
    using ent_lookup [OF coh w _ e] page_number [of laddr] lp by metis
  let ?c = "c\<lparr>phys_mem := m, tab := t\<rparr>"
  have coh': "tlb_coherent ?c"
    using L(3) page_walk_caches [where m = m and t = t and d = "dtlb_fast c" and c = c] unfolding tlb_coherent_def by simp
  show ?thesis
  proof (cases w)
    case None
    have "agrees c w rwm laddr cp (Inr (None, page_fault 0 laddr rwm cp ?c))"
      using L(1,3) None by (intro agreesI [of c m _ _ _ _ _ "dtlb_fast c" t]) (simp_all add: translated_def)
    then show ?thesis unfolding translate_lpgno_def Let_def L(2) using None by simp
  next
    case (Some x)
    obtain frame row pa where x: "x = (frame, row, pa)" by (cases x)
    have "page_walk ?c lp = Inr (Some (frame, row, pa))"
      by (rule page_walk_ad [OF _ _ _ _ w [unfolded Some x]]) (use L(1) in auto)
    from agrees_after [OF L(1) use_single [OF coh' this lp _ rwm, where e = ?e and cp = cp]] show ?thesis
      using L(4) [OF Some] unfolding translate_lpgno_def Let_def L(2) unfolding Some x by simp
  qed
qed

lemma translate_lpgno_out_of_bounds:
  assumes coh: "tlb_coherent c" and w: "page_walk c lp = Inl f" and np: "lp \<noteq> NO_PAGE" and n: "0 < n" "n \<le> 1024"
  shows "translate_lpgno n c rwm lp laddr cp = Inl f"
proof -
  let ?e = "unat lp mod n"
  have "?e < tlb_size" using n mod_less_divisor [OF n(1), of "unat lp"] by linarith
  then have "tab_ok (page_walk c) (tab c ?e)" using coh unfolding tlb_coherent_def coherent_with_def by blast
  then have "lpgno (tab c ?e) \<noteq> lp" using np w unfolding tab_ok_def by auto
  then show ?thesis using tlb_refill_out_of_bounds [OF w] by (simp add: translate_lpgno_def Let_def)
qed

text \<open>Whatever a translation returns, the caches are coherent afterwards; a fetch translates like a read.\<close>

lemma translate_coherent:
  assumes "tlb_coherent c" "rwm \<in> {1, 2, 3}"
  shows "translate_lpgno_fast c rwm (drop_bit 12 laddr) laddr cp = Inr (r, c') \<Longrightarrow> tlb_coherent c'"
    and "0 < n \<Longrightarrow> n \<le> 1024 \<Longrightarrow> translate_lpgno n c rwm (drop_bit 12 laddr) laddr cp = Inr (r, c') \<Longrightarrow> tlb_coherent c'"
proof -
  show "translate_lpgno_fast c rwm (drop_bit 12 laddr) laddr cp = Inr (r, c') \<Longrightarrow> tlb_coherent c'"
    using translate_out_of_bounds [OF assms(1) _ page_number] translate_lpgno_fast_walk [OF assms(1) _ refl assms(2)] agrees_coherent
    by (metis Inl_Inr_False sum.exhaust)
  show "0 < n \<Longrightarrow> n \<le> 1024 \<Longrightarrow> translate_lpgno n c rwm (drop_bit 12 laddr) laddr cp = Inr (r, c') \<Longrightarrow> tlb_coherent c'"
    using translate_lpgno_out_of_bounds [OF assms(1) _ page_number] translate_lpgno_walk [OF assms(1) _ refl assms(2)] agrees_coherent
    by (metis Inl_Inr_False sum.exhaust)
qed

lemma tlb_refill_cpl:
  assumes "tlb_refill c e lp = Inr (h, c1)"
  shows "cpl c1 = cpl c"
proof -
  have ps: "pstore8 x a v = Inr y \<Longrightarrow> cpl y = cpl x" for x y :: "'a CPU" and a v by (auto simp: pstore8_def split: if_split_asm)
  have bE: "bind_result f g = Inr y \<Longrightarrow> (\<And>z. f = Inr z \<Longrightarrow> g z = Inr y \<Longrightarrow> P) \<Longrightarrow> P" for f :: "'b result" and g and y :: 'c and P by (cases f) simp_all
  have iE: "(if b then x else y) = z \<Longrightarrow> (x = z \<Longrightarrow> P) \<Longrightarrow> (y = z \<Longrightarrow> P) \<Longrightarrow> P" for b P and x y z :: "(bool \<times> 'a CPU) result"
    by (cases b) simp_all
  show ?thesis
    using assms unfolding tlb_refill_def Let_def by (elim bE iE) (auto dest!: ps)
qed

lemma translate8r_read:
  assumes "cr0 c AND CR0_PG \<noteq> 0" "segcheck c s = Inr (Some (), c)"
  shows "translate8r c (Some s) addr = TRY (translate_lpgno 1024 c 1 (drop_bit 12 (base (seg c s) + addr)) (base (seg c s) + addr) (cpl c))
    (\<lambda>p c. Inr (Some (ADDR_OK1 p), c))"
proof -
  let ?l = "base (seg c s) + addr"
  let ?e = "unat (drop_bit 12 ?l) mod 1024"
  have pf: "page_fault p l 0 k = page_fault p l 1 k" for p l k and c :: "'a CPU" by (rule ext) (simp add: page_fault_def)
  have cp: "cpl c1 = cpl c" if "tlb_refill c e lp = Inr (h, c1)" for e lp h c1 by (rule tlb_refill_cpl [OF that])
  define m where "m = (if lpgno (tab c ?e) \<noteq> drop_bit 12 ?l then tlb_refill c ?e (drop_bit 12 ?l) else Inr (True, c))"
  have k: "cpl c1 = cpl c" if "m = Inr (h, c1)" for h c1
    using that cp [of ?e "drop_bit 12 ?l" h c1] by (simp add: m_def split: if_split_asm)
  have l: "translate8r c (Some s) addr = bind_result m (\<lambda>(hit, c1).
      if \<not> hit then Inr (None, page_fault 0 ?l 0 (cpl c1) c1)
      else if pte_lookup (elookup (tab c1 ?e)) (0 < cpl c1) False
      then Inr (None, (page_fault 1 ?l 0 (cpl c1) c1)\<lparr>tab := (tab c1)(?e := (tab c1 ?e)\<lparr>lpgno := NO_PAGE\<rparr>)\<rparr>)
      else Inr (Some (ADDR_OK1 (xaddr (tab c1 ?e) XOR ?l)), c1))"
    using assms by (simp add: translate8r_def TRY_def Let_def m_def)
  have one: "((1 :: nat) < 1) = False" "((1 :: nat) \<in> {2, 3}) = False" by simp_all
  have rd: "translate_lpgno 1024 c 1 (drop_bit 12 ?l) ?l (cpl c) = bind_result m (\<lambda>(hit, c1).
      if \<not> hit then Inr (None, page_fault 0 ?l 1 (cpl c) c1)
      else if pte_lookup (elookup (tab c1 ?e)) (0 < cpl c) False
      then Inr (None, (page_fault 1 ?l 1 (cpl c) c1)\<lparr>tab := (tab c1)(?e := (tab c1 ?e)\<lparr>lpgno := NO_PAGE\<rparr>)\<rparr>)
      else Inr (Some (xaddr (tab c1 ?e) XOR ?l), c1))"
    unfolding translate_lpgno_def Let_def m_def one if_False by (rule HOL.refl)
  show ?thesis
  proof (cases m)
    case (Inr x)
    obtain h c1 where x: "x = (h, c1)" by (cases x)
    then have e: "cpl c1 = cpl c" using k [of h c1] Inr by simp
    show ?thesis unfolding l rd Inr x by (simp add: TRY_def e pf)
  next
    case (Inl e)
    show ?thesis unfolding l rd Inl by (simp add: TRY_def)
  qed
qed

lemma translate8r_coherent:
  assumes "tlb_coherent c" "translate8r c so addr = Inr (r, c')"
  shows "tlb_coherent c'"
proof -
  obtain s where s: "so = Some s" using assms(2) by (cases so) (simp_all add: translate8r_def)
  have ex: "tlb_coherent (c\<lparr>excno := n, excerr := k\<rparr>)" for n k
  proof -
    have "page_walk (c\<lparr>excno := n, excerr := k\<rparr>) = page_walk c" by (rule ext) (simp add: page_walk_def pload32_def pload8_def row_of_def)
    then show ?thesis using assms(1) by (simp add: tlb_coherent_def)
  qed
  show ?thesis
  proof (cases "segcheck c s = Inr (Some (), c)")
    case True
    show ?thesis
    proof (cases "cr0 c AND CR0_PG = 0")
      case True
      then show ?thesis using assms \<open>segcheck c s = Inr (Some (), c)\<close> s by (simp add: translate8r_def TRY_def Let_def)
    next
      case False
      let ?l = "base (seg c s) + addr"
      obtain p where "translate_lpgno 1024 c 1 (drop_bit 12 ?l) ?l (cpl c) = Inr (p, c')"
        using assms(2) unfolding s translate8r_read [OF False True] TRY_def
        by (auto simp: bind_result_eq_Inr split: option.split_asm)
      from translate_coherent(2) [OF assms(1) _ _ _ this] show ?thesis by simp
    qed
  next
    case False
    then have "c' = c\<lparr>excno := EX_GP, excerr := 0\<rparr>"
      using assms(2) s by (auto simp: translate8r_def TRY_def segcheck_def THROW_def split: if_split_asm)
    then show ?thesis using ex by simp
  qed
qed

lemma mmu_reach_coherent: "mmu_reach c \<Longrightarrow> tlb_coherent c"
proof (induction rule: mmu_reach.induct)
  case (2 c rwm laddr cp r c')
  show ?case by (rule translate_coherent(1) [OF 2(4,2,3)])
next
  case (3 c rwm entries laddr cp r c')
  show ?case by (rule translate_coherent(2) [OF 3(5,2) _ _ 3(4)]) (use 3(3) in auto)
next
  case (4 c so addr r c')
  show ?case by (rule translate8r_coherent [OF 4(3,2)])
next
  case (6 c c')
  then have C: "coherent_with (page_walk c) (phys_mem c) (tab c) (dtlb_fast c)" and T: "tab c' = tab c"
      "dtlb_fast c' = dtlb_fast c" "page_walk c' = page_walk c"
      "\<And>lp f row pa. page_walk c lp = Inr (Some (f, row, pa)) \<Longrightarrow> phys_mem c' pa = phys_mem c pa"
    unfolding same_tables_def tlb_coherent_def by blast+
  have "coherent_with (page_walk c) (phys_mem c') (tab c) (dtlb_fast c)" by (rule coherent_same_mem [OF C T(4)])
  then show ?case unfolding tlb_coherent_def T .
next
  case (1 c)
  show ?case by (rule tlb_clear_coherent)
next
  case (5 c fpu n v)
  show ?case by (rule load_cr_coherent [OF 5(2)])
qed

lemma nat_page:
  fixes n k :: nat
  shows "n mod 4096 + k < 4096 \<Longrightarrow> (n + k) div 4096 = n div 4096" "n mod 4096 + k < 4096 \<Longrightarrow> (n + k) mod 4096 = n mod 4096 + k"
    "k < 4096 \<Longrightarrow> 4096 \<le> n mod 4096 + k \<Longrightarrow> (n + k) div 4096 = Suc (n div 4096)"
    "k < 4096 \<Longrightarrow> 4096 \<le> n mod 4096 + k \<Longrightarrow> (n + k) mod 4096 = k - (4096 - n mod 4096)"
proof -
  have n: "n + k = 4096 * (n div 4096) + (n mod 4096 + k)" by simp
  have d: "(n + k) div 4096 = n div 4096 + (n mod 4096 + k) div 4096"
    by (subst n) (simp only: div_mult_self4 zero_neq_numeral not_False_eq_True)
  have m: "(n + k) mod 4096 = (n mod 4096 + k) mod 4096" by (simp add: mod_add_left_eq)
  show "n mod 4096 + k < 4096 \<Longrightarrow> (n + k) div 4096 = n div 4096" "n mod 4096 + k < 4096 \<Longrightarrow> (n + k) mod 4096 = n mod 4096 + k"
    unfolding d m by simp_all
  have r: "n mod 4096 < 4096" by simp
  show "k < 4096 \<Longrightarrow> 4096 \<le> n mod 4096 + k \<Longrightarrow> (n + k) div 4096 = Suc (n div 4096)"
    "k < 4096 \<Longrightarrow> 4096 \<le> n mod 4096 + k \<Longrightarrow> (n + k) mod 4096 = k - (4096 - n mod 4096)"
    unfolding d m using r by (simp_all add: le_div_geq le_mod_geq del: mod_less_divisor)
qed

lemma page_split:
  assumes "unat (laddr :: u32) + k < 2 ^ 32" "k < 4096"
  shows "unat (laddr AND 0xfff) + k < 4096 \<Longrightarrow>
      drop_bit 12 (laddr + of_nat k) = drop_bit 12 laddr \<and> (laddr + of_nat k) AND 0xfff = (laddr AND 0xfff) + of_nat k"
    "4096 \<le> unat (laddr AND 0xfff) + k \<Longrightarrow>
      drop_bit 12 (laddr + of_nat k) = drop_bit 12 laddr + 1 \<and>
      (laddr + of_nat k) AND 0xfff = of_nat (k - (4096 - unat (laddr AND 0xfff)))"
proof -
  have m: "(0xfff :: u32) = mask 12" by (simp add: mask_eq_exp_minus_1)
  have ua: "unat (x AND 0xfff) = unat x mod 4096" for x :: u32
    unfolding m take_bit_eq_mask [symmetric] unsigned_take_bit_eq by (simp add: take_bit_eq_mod)
  have ud: "unat (drop_bit 12 x) = unat x div 4096" for x :: u32
  proof -
    have "take_bit 32 (unat x) = unat x" by (rule take_bit_nat_eq_self) (use unsigned_less [of x] in simp)
    then show ?thesis unfolding unsigned_drop_bit_eq by (simp add: drop_bit_eq_div)
  qed
  have s: "unat (laddr + of_nat k) = unat laddr + k"
    using assms by (simp add: unat_word_ariths unat_of_nat)
  have ul: "unat laddr < 2 ^ 32" using unsigned_less [of laddr] by simp
  show "drop_bit 12 (laddr + of_nat k) = drop_bit 12 laddr \<and> (laddr + of_nat k) AND 0xfff = (laddr AND 0xfff) + of_nat k"
    if "unat (laddr AND 0xfff) + k < 4096"
  proof -
    have "unat ((laddr AND 0xfff) + of_nat k) = unat laddr mod 4096 + k"
      using that by (simp add: unat_word_ariths unat_of_nat ua)
    then show ?thesis
      unfolding word_unat_eq_iff ud s ua using that nat_page(1,2) [of "unat laddr" k] by (simp add: ua)
  qed
  show "drop_bit 12 (laddr + of_nat k) = drop_bit 12 laddr + 1 \<and>
      (laddr + of_nat k) AND 0xfff = of_nat (k - (4096 - unat (laddr AND 0xfff)))"
    if "4096 \<le> unat (laddr AND 0xfff) + k"
  proof -
    have "unat laddr div 4096 < 2 ^ 20" using ul by simp
    then have "unat (drop_bit 12 laddr + 1) = Suc (unat laddr div 4096)" by (simp add: unat_word_ariths ud)
    moreover have "unat (of_nat (k - (4096 - unat laddr mod 4096)) :: u32) = k - (4096 - unat laddr mod 4096)"
      using assms(2) by (simp add: unat_of_nat)
    ultimately show ?thesis
      unfolding word_unat_eq_iff ud s ua using that assms(2) nat_page(3,4) [of k "unat laddr"] by (simp add: ua)
  qed
qed


lemma frame_plus:
  assumes "unat y < 4096"
  shows "page_base v OR y = page_base v + y"
proof -
  have m: "(0xfff :: u32) = mask 12" by (simp add: mask_eq_exp_minus_1)
  have "y = take_bit 12 y"
  proof (rule sym, subst word_unat_eq_iff)
    show "unat (take_bit 12 y) = unat y"
      unfolding unsigned_take_bit_eq by (rule take_bit_nat_eq_self) (use assms in simp)
  qed
  then have "\<not> bit y n" if "12 \<le> n" for n using that by (metis bit_take_bit_iff not_less)
  then have "page_base v AND y = 0"
    unfolding page_base_def m by (intro bit_word_eqI) (auto simp: bit_simps not_less)
  then show ?thesis by (simp add: disjunctive_add_eq_or)
qed

lemma mapped_offset:
  assumes a: "mapped c rwm cp la pa" and b: "mapped c rwm cp (la + of_nat j) pb"
    and lo: "unat (la AND 0xfff) + j < 4096" and nw: "unat la + j < 2 ^ 32"
  shows "pb = pa + of_nat j"
proof -
  have j: "j < 4096" using lo by simp
  note s = page_split(1) [OF nw j lo]
  obtain f row e where w: "page_walk c (drop_bit 12 la) = Inr (Some (f, row, e))" and pa: "pa = f OR (la AND 0xfff)"
    using a unfolding mapped_def by blast
  have pb: "pb = f OR ((la AND 0xfff) + of_nat j)" using b w s unfolding mapped_def by auto
  obtain v where f: "f = page_base v"
    using w by (auto simp: page_walk_def bind_result_eq_Inr split: if_splits)
  have "unat ((la AND 0xfff) + of_nat j) < 4096" using lo j by (simp add: unat_word_ariths unat_of_nat)
  then show ?thesis
    using lo unfolding pa pb f by (simp add: frame_plus add.assoc)
qed

lemma mapped_low: "mapped c rwm cp la pa \<Longrightarrow> pa AND 0xfff = la AND 0xfff"
proof -
  assume "mapped c rwm cp la pa"
  then obtain v where pa: "pa = page_base v OR (la AND 0xfff)"
    by (auto simp: mapped_def page_walk_def bind_result_eq_Inr split: if_splits)
  have m: "(0xfff :: u32) = mask 12" by (simp add: mask_eq_exp_minus_1)
  show ?thesis unfolding pa page_base_def m by (rule bit_word_eqI) (auto simp: bit_simps)
qed

lemma page_next: "push_bit 12 (drop_bit 12 laddr + 1) = laddr + of_nat (4096 - unat (laddr AND 0xfff))" for laddr :: u32
proof -
  have m: "(0xfff :: u32) = mask 12" by (simp add: mask_eq_exp_minus_1)
  have l: "unat (laddr AND 0xfff) \<le> 4096" using unat_and_le_right [of laddr "0xfff"] by simp
  have e: "laddr = push_bit 12 (drop_bit 12 laddr) + (laddr AND 0xfff)"
    unfolding m take_bit_eq_mask [symmetric] by (simp add: bits_ident)
  have "of_nat (4096 - unat (laddr AND 0xfff)) = 4096 - (laddr AND 0xfff)"
    using l by (simp add: of_nat_diff)
  moreover have "push_bit 12 (drop_bit 12 laddr + 1) = push_bit 12 (drop_bit 12 laddr) + 4096"
    by (simp add: push_bit_eq_mult distrib_right)
  ultimately show ?thesis using arg_cong [OF e, of "\<lambda>z. z + (4096 - (laddr AND 0xfff))"] by simp
qed

lemma mapped_bytes:
  assumes mp: "\<And>k. k < sz \<Longrightarrow> mapped c rwm cp (laddr + of_nat k) (p k)" and sz: "sz \<le> 4" and nw: "unat laddr + sz \<le> 2 ^ 32"
    and n: "n = 4096 - unat (laddr AND 0xfff)"
  shows "k < sz \<Longrightarrow> k < n \<Longrightarrow> p k = p 0 + of_nat k"
    "k < sz \<Longrightarrow> n \<le> k \<Longrightarrow> p k = p n + of_nat (k - n)"
proof -
  have off: "unat (laddr AND 0xfff) < 4096" using unat_and_le_right [of laddr "0xfff"] by simp
  show "p k = p 0 + of_nat k" if "k < sz" "k < n"
  proof (rule mapped_offset)
    show "mapped c rwm cp laddr (p 0)" using mp [of 0] that by simp
    show "mapped c rwm cp (laddr + of_nat k) (p k)" using that by (intro mp)
  qed (use that n nw in auto)
  show "p k = p n + of_nat (k - n)" if "k < sz" "n \<le> k"
  proof (rule mapped_offset)
    have ns: "n < sz" "unat laddr + n < 2 ^ 32" "n < 4096" "4096 \<le> unat (laddr AND 0xfff) + n" using that sz nw n off by auto
    show "mapped c rwm cp (laddr + of_nat n) (p n)" using ns by (intro mp)
    have "of_nat n + of_nat (k - n) = (of_nat k :: u32)" using that(2) by (simp only: of_nat_add [symmetric]) simp
    then show "mapped c rwm cp (laddr + of_nat n + of_nat (k - n)) (p k)" using mp [OF that(1)] by (simp add: add.assoc)
    have "(laddr + of_nat n) AND 0xfff = 0" using page_split(2) [OF ns(2,3,4)] n by simp
    then show "unat ((laddr + of_nat n) AND 0xfff) + (k - n) < 4096" using that sz by simp
    have "unat (laddr + of_nat n) = unat laddr + n" using ns by (simp add: unat_word_ariths unat_of_nat)
    then show "unat (laddr + of_nat n) + (k - n) < 2 ^ 32" using that nw by simp
  qed
qed

text \<open>
  The interface of address translation: a translator of single pages follows the
  walk on coherent caches and keeps them coherent.  The translation of an access
  is proved on this interface, once for the two builds.
\<close>

lemma crosses:
  assumes "sz \<in> {1, 2, 4 :: u32}"
  shows "0x1000 - sz < laddr AND 0xfff \<longleftrightarrow> 4096 - unat (laddr AND 0xfff) < unat sz"
proof -
  have "unat (0x1000 - sz) = 4096 - unat sz" "0 < unat sz" "unat sz \<le> 4" using assms by auto
  moreover have "unat (laddr AND 0xfff) < 4096" using unat_and_le_right [of laddr "0xfff"] by simp
  ultimately show ?thesis unfolding word_less_nat_alt by linarith
qed

lemma translate_one:
  assumes "cr0 c AND CR0_PG \<noteq> 0" "\<not> 0x1000 - sz < laddr AND 0xfff" "tr c rwm (drop_bit 12 laddr) laddr cp = Inr (Some p, c1)"
  shows "translate_laddr_with tr c rwm laddr sz cp = Inr (Some (ADDR_OK1 p), c1)"
  using assms by (simp add: translate_laddr_with_def TRY_def)

lemma translate_two:
  assumes "cr0 c AND CR0_PG \<noteq> 0" "0x1000 - sz < laddr AND 0xfff" "tr c rwm (drop_bit 12 laddr) laddr cp = Inr (Some p, c1)"
    "tr c1 rwm (drop_bit 12 laddr + 1) (push_bit 12 (drop_bit 12 laddr + 1)) cp = Inr (Some q, c2)"
  shows "translate_laddr_with tr c rwm laddr sz cp = Inr (Some (ADDR_OK2 p q), c2)"
  using assms by (simp add: translate_laddr_with_def TRY_def)

locale page_translator =
  fixes tr :: "'d CPU \<Rightarrow> nat \<Rightarrow> u32 \<Rightarrow> u32 \<Rightarrow> nat \<Rightarrow> (u32, 'd) exec"
  assumes follows_walk: "tlb_coherent c \<Longrightarrow> page_walk c (drop_bit 12 laddr) = Inr w \<Longrightarrow> rwm \<in> {1, 2, 3} \<Longrightarrow>
      agrees c w rwm laddr cp (tr c rwm (drop_bit 12 laddr) laddr cp)"
    and follows_fault: "tlb_coherent c \<Longrightarrow> page_walk c (drop_bit 12 laddr) = Inl f \<Longrightarrow>
      tr c rwm (drop_bit 12 laddr) laddr cp = Inl f"
begin

lemma mapped_after:
  assumes "mapped c rwm cp la pa" "ad_mem (phys_mem c) m"
  shows "mapped (c\<lparr>phys_mem := m, tab := t, dtlb_fast := d\<rparr>) rwm cp la pa"
proof -
  obtain f row e where w: "page_walk c (drop_bit 12 la) = Inr (Some (f, row, e))" "page_allows row (0 < cp) (1 < rwm)"
      "pa = f OR (la AND 0xfff)"
    using assms(1) unfolding mapped_def by blast
  have "page_walk (c\<lparr>phys_mem := m, tab := t, dtlb_fast := d\<rparr>) (drop_bit 12 la) = Inr (Some (f, row, e))"
    by (rule page_walk_ad [OF _ _ _ _ w(1)]) (use assms(2) in auto)
  with w(2,3) show ?thesis unfolding mapped_def by blast
qed

lemma step_mapped:
  assumes "tlb_coherent c" "mapped c rwm cp la pa" "rwm \<in> {1, 2, 3}"
  obtains c' where "tr c rwm (drop_bit 12 la) la cp = Inr (Some pa, c')"
    "tlb_coherent c'" "ad_mem (phys_mem c) (phys_mem c')" "\<And>rwm cp la pa. mapped c rwm cp la pa \<Longrightarrow> mapped c' rwm cp la pa"
    "phys_mem_size c' = phys_mem_size c"
proof -
  obtain f row e where w: "page_walk c (drop_bit 12 la) = Inr (Some (f, row, e))" "page_allows row (0 < cp) (1 < rwm)"
      "pa = f OR (la AND 0xfff)"
    using assms(2) unfolding mapped_def by blast
  obtain m t d where "tr c rwm (drop_bit 12 la) la cp = Inr (Some pa, c\<lparr>phys_mem := m, tab := t, dtlb_fast := d\<rparr>)"
    "tlb_coherent (c\<lparr>phys_mem := m, tab := t, dtlb_fast := d\<rparr>)" "ad_mem (phys_mem c) m"
    using follows_walk [OF assms(1) w(1) assms(3), of cp] w(2,3) unfolding agrees_def translated_def by auto
  then show thesis by (intro that [of "c\<lparr>phys_mem := m, tab := t, dtlb_fast := d\<rparr>"]) (simp_all add: mapped_after)
qed

text \<open>Every byte of an access goes where the page tables send its linear address.\<close>

lemma access_bytes:
  assumes coh: "tlb_coherent c" and pg: "cr0 c AND CR0_PG \<noteq> 0" and rwm: "rwm \<in> {1, 2, 3}"
    and sz: "sz \<in> {1, 2, 4}" and nw: "unat laddr + unat sz \<le> 2 ^ 32"
    and mp: "\<And>k. k < unat sz \<Longrightarrow> mapped c rwm cp (laddr + of_nat k) (p k)"
  shows "\<exists>oa c'. translate_laddr_with tr c rwm laddr sz cp = Inr (Some oa, c') \<and> tlb_coherent c' \<and>
    ad_mem (phys_mem c) (phys_mem c') \<and> phys_mem_size c' = phys_mem_size c \<and> (\<forall>k < unat sz. byte_at oa k = p k) \<and>
    (\<forall>a b. oa = ADDR_OK2 a b \<longrightarrow> 0x1000 - sz < a AND 0xfff)"
proof -
  define n where "n = 4096 - unat (laddr AND 0xfff)"
  have off: "unat (laddr AND 0xfff) < 4096" using unat_and_le_right [of laddr "0xfff"] by simp
  have sz0: "0 < unat sz" "unat sz \<le> 4" using sz by auto
  have m0: "mapped c rwm cp laddr (p 0)" using mp [of 0] sz0 by simp
  have p1: "p k = p 0 + of_nat k" if "k < unat sz" "k < n" for k
    by (rule mapped_bytes(1) [OF mp sz0(2) nw n_def that])
  have p2: "p k = p n + of_nat (k - n)" if "k < unat sz" "n \<le> k" for k
    by (rule mapped_bytes(2) [OF mp sz0(2) nw n_def that])
  obtain c1 where s: "tr c rwm (drop_bit 12 laddr) laddr cp = Inr (Some (p 0), c1)"
    "tlb_coherent c1" "ad_mem (phys_mem c) (phys_mem c1)" "\<And>rwm cp la pa. mapped c rwm cp la pa \<Longrightarrow> mapped c1 rwm cp la pa"
    "phys_mem_size c1 = phys_mem_size c"
    by (rule step_mapped [OF coh m0 rwm]) blast
  have cross: "0x1000 - sz < laddr AND 0xfff \<longleftrightarrow> n < unat sz" unfolding n_def by (rule crosses [OF sz])
  show ?thesis
  proof (cases "n < unat sz")
    case False
    then have "translate_laddr_with tr c rwm laddr sz cp = Inr (Some (ADDR_OK1 (p 0)), c1)"
      by (intro translate_one pg s(1)) (simp add: cross)
    moreover have "byte_at (ADDR_OK1 (p 0)) k = p k" if "k < unat sz" for k
      using p1 [OF that] that False by (simp add: byte_at_def)
    ultimately show ?thesis using s(2,3,5) by (intro exI [of _ "ADDR_OK1 (p 0)"] exI [of _ c1]) simp
  next
    case True
    note nx = page_next [of laddr, folded n_def]
    have mn: "mapped c1 rwm cp (laddr + of_nat n) (p n)" by (rule s(4) [OF mp [OF True]])
    have lp: "drop_bit 12 (laddr + of_nat n) = drop_bit 12 laddr + 1"
    proof (rule page_split(2) [THEN conjunct1])
      show "unat laddr + n < 2 ^ 32" "n < 4096" "4096 \<le> unat (laddr AND 0xfff) + n" using True sz0 nw off by (auto simp: n_def)
    qed
    obtain c2 where s': "tr c1 rwm (drop_bit 12 (laddr + of_nat n)) (laddr + of_nat n) cp = Inr (Some (p n), c2)"
      "tlb_coherent c2" "ad_mem (phys_mem c1) (phys_mem c2)" "phys_mem_size c2 = phys_mem_size c1"
      by (rule step_mapped [OF s(2) mn rwm]) blast
    have "translate_laddr_with tr c rwm laddr sz cp = Inr (Some (ADDR_OK2 (p 0) (p n)), c2)"
    proof (rule translate_two)
      show "cr0 c AND CR0_PG \<noteq> 0" "tr c rwm (drop_bit 12 laddr) laddr cp = Inr (Some (p 0), c1)" by fact+
      show "0x1000 - sz < laddr AND 0xfff" using cross True by simp
      show "tr c1 rwm (drop_bit 12 laddr + 1) (push_bit 12 (drop_bit 12 laddr + 1)) cp = Inr (Some (p n), c2)"
        using s'(1) unfolding lp nx .
    qed
    moreover have "byte_at (ADDR_OK2 (p 0) (p n)) k = p k" if k: "k < unat sz" for k
    proof -
      have "unat (p 0 AND 0xfff) = unat (laddr AND 0xfff)" using mapped_low [OF m0] by simp
      then show ?thesis using p1 [OF k] p2 [OF k] by (simp add: byte_at_def Let_def flip: n_def)
    qed
    moreover have "ad_mem (phys_mem c) (phys_mem c2)" by (rule ad_mem_trans [OF s(3) s'(3)])
    moreover have "0x1000 - sz < p 0 AND 0xfff" using cross True mapped_low [OF m0] by simp
    ultimately show ?thesis using s'(2,4) s(5) by (intro exI [of _ "ADDR_OK2 (p 0) (p n)"] exI [of _ c2]) simp
  qed
qed

end

lemmas fast_rules = translate_lpgno_fast_walk [OF _ _ refl] translate_out_of_bounds [OF _ _ page_number]
lemmas plain_rules = translate_lpgno_walk [OF _ _ refl] translate_lpgno_out_of_bounds [OF _ _ page_number]

interpretation fast: page_translator translate_lpgno_fast
  by unfold_locales (blast intro: fast_rules)+

interpretation native: page_translator "translate_lpgno 512"
  by unfold_locales (auto intro: plain_rules)

interpretation esp32: page_translator "translate_lpgno 256"
  by unfold_locales (auto intro: plain_rules)

lemma translate32_bytes:
  assumes "tlb_coherent c" "cr0 c AND CR0_PG \<noteq> 0" "segment_usable c s" "rwm \<in> {1, 2, 3}"
    "laddr = base (seg c s) + addr" "unat laddr + 4 \<le> 2 ^ 32"
    "\<And>k. k < 4 \<Longrightarrow> mapped c rwm (cpl c) (laddr + of_nat k) (p k)"
    "\<And>k. k < 4 \<Longrightarrow> p k < phys_mem_size c" "\<not> in_iomem (p 0)" "phys_mem_size c \<le> 0xfffe0000"
  obtains oa c' where "translate32 c rwm (Some s) addr = Inr (Some oa, c')" "ad_mem (phys_mem c) (phys_mem c')"
    "\<And>k. k < 4 \<Longrightarrow> byte_at oa k = p k" "ram_access c' oa" "addr1 oa = p 0"
proof -
  have sg: "segcheck c s = Inr (Some (), c)" using assms(3) by (auto simp: segment_usable_def segcheck_def)
  obtain oa c' where t: "translate_laddr c rwm laddr 4 (cpl c) = Inr (Some oa, c')" "ad_mem (phys_mem c) (phys_mem c')"
      "phys_mem_size c' = phys_mem_size c" "\<And>k. k < 4 \<Longrightarrow> byte_at oa k = p k" "\<And>a b. oa = ADDR_OK2 a b \<Longrightarrow> 0x1000 - 4 < a AND 0xfff"
    using fast.access_bytes [OF assms(1,2,4), of 4 laddr "cpl c" p] assms(6,7) unfolding translate_laddr_def by auto
  have b0: "byte_at oa 0 = addr1 oa"
    using t(5) by (cases oa) (auto simp: byte_at_def Let_def dest!: low_page_cases)
  then have a1: "addr1 oa = p 0" using t(4) [of 0] by simp
  have "ram_access c' oa" unfolding ram_access_def
    using assms(8,9,10) t(3,4,5) a1 by (auto split: OptAddr.split)
  then show thesis using t(1,2,4) sg assms(5) a1
    by (intro that [of oa c']) (simp_all add: translate32_def translate_def TRY_def)
qed

lemma load32_ram: "ram_access c oa \<Longrightarrow> load32 cb c oa = Inr (le_value (\<lambda>k. phys_mem c (byte_at oa k)), c)"
  using ram_first [of c oa] by (auto simp: load32_def ram32_bytes ram_access_def Let_def split: option.split)

lemma store32_ram: "ram_access c oa \<Longrightarrow> store32 cb c oa v = Inr (c\<lparr>phys_mem := put_bytes oa v (phys_mem c)\<rparr>)"
  by (auto simp: store32_def store_ram32_bytes ram_access_def split: option.split)

lemma le_value_cong: "(\<And>k. k < 4 \<Longrightarrow> f k = g k) \<Longrightarrow> le_value f = le_value g"
  by (simp add: le_value_def)

lemma byte_masks:
  "(0xffff :: u32) = mask 16" "(0xff :: u32) = mask 8" "(0xf0000 :: u32) = push_bit 16 (mask 4)" "(0xff000000 :: u32) = push_bit 24 (mask 8)"
  "(0xf0ff :: u32) = mask 8 OR push_bit 12 (mask 4)" "(0xf00 :: u32) = push_bit 8 (mask 4)" "(0xfffff :: u32) = mask 20"
  by (simp_all add: mask_eq_exp_minus_1 push_bit_eq_mult)

lemma descriptor_fields:
  assumes "encode_desc bs lim ar = (w1, w2)"
  shows "drop_bit 16 w1 OR push_bit 16 (w2 AND 0xff) OR (w2 AND 0xff000000) = bs"
    "(w2 AND 0xf0000) OR (w1 AND 0xffff) = lim AND 0xfffff"
    "drop_bit 8 w2 AND 0xffff = (ar AND 0xf0ff) OR (drop_bit 8 lim AND 0xf00)"
    "bit w2 23 = bit ar 15"
proof -
  have w: "w1 = (lim AND 0xffff) OR push_bit 16 bs"
    "w2 = (drop_bit 16 bs AND 0xff) OR push_bit 8 (ar AND 0xf0ff) OR (lim AND 0xf0000) OR (bs AND 0xff000000)"
    using assms by (simp_all add: encode_desc_def)
  have b1: "bit w1 n = (if n < 16 then bit lim n else n < 32 \<and> bit bs (n - 16))" for n
    unfolding w byte_masks by (cases "n < 16"; cases "n < 32") (simp_all add: bit_simps)
  have b2: "n < 8 \<Longrightarrow> bit w2 n = bit bs (16 + n)" "8 \<le> n \<Longrightarrow> n < 16 \<Longrightarrow> bit w2 n = bit ar (n - 8)"
    "16 \<le> n \<Longrightarrow> n < 20 \<Longrightarrow> bit w2 n = bit lim n" "20 \<le> n \<Longrightarrow> n < 24 \<Longrightarrow> bit w2 n = bit ar (n - 8)"
    "24 \<le> n \<Longrightarrow> bit w2 n = bit bs n" for n
    unfolding w byte_masks by (auto simp add: bit_simps dest: bit_imp_le_length)
  show "drop_bit 16 w1 OR push_bit 16 (w2 AND 0xff) OR (w2 AND 0xff000000) = bs"
  proof (rule bit_word_eqI)
    fix n assume "n < LENGTH(32)"
    then consider "n < 16" | "16 \<le> n" "n < 24" | "24 \<le> n" "n < 32" by fastforce
    then show "bit (drop_bit 16 w1 OR push_bit 16 (w2 AND 0xff) OR (w2 AND 0xff000000)) n = bit bs n"
      unfolding byte_masks by cases (auto simp: bit_simps b1 b2)
  qed
  show "(w2 AND 0xf0000) OR (w1 AND 0xffff) = lim AND 0xfffff"
  proof (rule bit_word_eqI)
    fix n assume "n < LENGTH(32)"
    then consider "n < 16" | "16 \<le> n" "n < 20" | "20 \<le> n" "n < 32" by fastforce
    then show "bit ((w2 AND 0xf0000) OR (w1 AND 0xffff)) n = bit (lim AND 0xfffff) n"
      unfolding byte_masks by cases (auto simp: bit_simps b1 b2)
  qed
  show "drop_bit 8 w2 AND 0xffff = (ar AND 0xf0ff) OR (drop_bit 8 lim AND 0xf00)"
  proof (rule bit_word_eqI)
    fix n assume "n < LENGTH(32)"
    then consider "n < 8" | "8 \<le> n" "n < 12" | "12 \<le> n" "n < 16" | "16 \<le> n" "n < 32" by fastforce
    then show "bit (drop_bit 8 w2 AND 0xffff) n = bit ((ar AND 0xf0ff) OR (drop_bit 8 lim AND 0xf00)) n"
      unfolding byte_masks by cases (auto simp: bit_simps b1 b2)
  qed
  show "bit w2 23 = bit ar 15" by (simp add: b2)
qed


lemma past_end4_unat:
  assumes "a < phys_mem_size c"
  shows "past_end4 c a \<longleftrightarrow> unat (phys_mem_size c) < unat a + 4"
proof -
  define n where "n = unat a"
  define s where "s = unat (phys_mem_size c)"
  have b: "s < 2 ^ 32" "n < s" using assms unsigned_less [of "phys_mem_size c"] by (simp_all add: s_def n_def word_less_nat_alt)
  have u: "unat (a + of_nat k) = (n + k) mod 2 ^ 32" for k by (simp add: n_def unat_word_ariths unat_of_nat mod_simps)
  have "a + of_nat k < phys_mem_size c \<longleftrightarrow> (n + k) mod 2 ^ 32 < s" for k by (simp only: word_less_nat_alt u s_def)
  from this [of 1] this [of 2] this [of 3]
  have e: "past_end4 c a \<longleftrightarrow> \<not> ((n + 1) mod 2 ^ 32 < s \<and> (n + 2) mod 2 ^ 32 < s \<and> (n + 3) mod 2 ^ 32 < s)"
    using assms by (simp add: past_end4_def)
  show ?thesis
  proof (cases "n + 3 < 2 ^ 32")
    case True
    then show ?thesis using b unfolding e n_def [symmetric] s_def [symmetric] by (auto simp: mod_less)
  next
    case False
    then consider "n = 2 ^ 32 - 3" | "n = 2 ^ 32 - 2" using b by force
    then show ?thesis using b unfolding e n_def [symmetric] s_def [symmetric] by cases auto
  qed
qed

section \<open>Properties\<close>

text \<open>A machine of the witnesses: 16 KB of memory, a page directory at 1000 and a page table at 2000 (hexadecimal).\<close>

definition demo_mem :: "u32 \<Rightarrow> u8" where
  "demo_mem = (\<lambda>_. 0)(0x1000 := 7, 0x1001 := 0x20, 0x2000 := 7, 0x2001 := 0x30, 0x2004 := 7, 0x2008 := 5)"

definition demo_cpu :: "unit CPU" where
  "demo_cpu = \<lparr>alu = \<lparr>eflags = 2, ccop = CC_ADC, dst = 0, dst2 = 0, src1 = 0, src2 = 0, ccmask = 0\<rparr>, gpr = (\<lambda>_. 0), ip = 0, next_ip = 0, flags_mask = 0, cpl = 3,
     code16 = False, sp_mask = 0, halt = False, seg = (\<lambda>_. \<lparr>sel = 0x2b, base = 0, limit = 0xffffffff, sflags = 0\<rparr>), idt_base = 0, idt_limit = 0, gdt_base = 0, gdt_limit = 0,
     cr0 = 0x80010001, cr2 = 0, cr3 = 0x1000, dr = (\<lambda>_. 0), ifetch = \<lparr>iladdr = 0, ixaddr = 0, ipaddr = 0\<rparr>,
     dtlb_fast = \<lparr>read_lpgno = (\<lambda>_. 0), read_xaddr = (\<lambda>_. 0), write_lpgno = (\<lambda>_. 0), write_xaddr = (\<lambda>_. 0), write_ppte = (\<lambda>_. None),
       write_dirty = (\<lambda>_. False), read_cpl = (\<lambda>_. False), write_cpl = (\<lambda>_. False)\<rparr>,
     nspire_bulk_rep_ram = True, nspire_bulk_rep_stos = True, rep_yield = False,
     tab = (\<lambda>_. \<lparr>lpgno = 0, xaddr = 0, elookup = (False, 0), ppte = 0\<rparr>), phys_mem = demo_mem, phys_mem_size = 0x4000,
     excno = 0, excerr = 0, intr = False, gen = 3, sysenter = (0, 0, 0), dev = ()\<rparr>"

definition demo_cb :: "unit CPU_CB" where
  "demo_cb = \<lparr>pic_read_irq = (\<lambda>d. (8, d)), io_read8 = (\<lambda>d _. (0, d)), io_write8 = (\<lambda>d _ _. d), io_read16 = (\<lambda>d _. (0, d)),
     io_write16 = (\<lambda>d _ _. d), io_read32 = (\<lambda>d _. (0, d)), io_write32 = (\<lambda>d _ _. d), io_read_string = None, io_write_string = None,
     iomem_read8 = None, iomem_read16 = None, iomem_read32 = None, iomem_write8 = None, iomem_write16 = None, iomem_write32 = None, iomem_write_string = None\<rparr>"

lemma demo_walk:
  "page_walk (tlb_clear demo_cpu) 0 = Inr (Some (0x3000, (True, 3), 0x2000))"
  "page_walk (tlb_clear demo_cpu) 1 = Inr (Some (0, (True, 3), 0x2004))"
  by (simp_all add: page_walk_def pload32_def pload8_def entry_at_def page_base_def row_of_def demo_cpu_def demo_mem_def
      tlb_clear_def bit_iff_odd_drop_bit)

lemma demo_mapped:
  "k < 4 \<Longrightarrow> mapped (tlb_clear demo_cpu) 2 3 (0xffe + of_nat k) (if k < 2 then 0x3ffe + of_nat k else of_nat (k - 2))"
proof -
  assume "k < 4"
  then have "k \<in> {0, 1, 2, 3}" by auto
  moreover have "page_allows (True, 3) True True" by (simp add: page_allows_def)
  ultimately show ?thesis by (auto simp: mapped_def demo_walk)
qed

text \<open>
  C22: address translation with its two levels of caches answers as an uncached walk
  of the page tables does.  In every state reached from a flush by translations of data accesses and
  instruction fetches, loads of control registers and changes of state that leave the page tables alone
  (a store to the tables is covered after the next flush), a translation of a
  linear address either gives the frame of the page with the offset of the
  address, or raises the page fault of the walk with its address, error code and
  presence bit, sets the dirty bit of a written page and leaves the caches
  coherent; it leaves the guest memory exactly where the walk does.  The two-level cache
  and the single tables of 512 and of 256 entries agree.
\<close>

theorem translation_follows_tables:
  assumes "mmu_reach c" "rwm \<in> {1, 2, 3}"
  shows "case page_walk c (drop_bit 12 laddr) of
      Inl f \<Rightarrow> translate_lpgno_fast c rwm (drop_bit 12 laddr) laddr cp = Inl f \<and>
               translate_lpgno 512 c rwm (drop_bit 12 laddr) laddr cp = Inl f \<and>
               translate_lpgno 256 c rwm (drop_bit 12 laddr) laddr cp = Inl f
    | Inr w \<Rightarrow> agrees c w rwm laddr cp (translate_lpgno_fast c rwm (drop_bit 12 laddr) laddr cp) \<and>
               agrees c w rwm laddr cp (translate_lpgno 512 c rwm (drop_bit 12 laddr) laddr cp) \<and>
               agrees c w rwm laddr cp (translate_lpgno 256 c rwm (drop_bit 12 laddr) laddr cp)"
  using mmu_reach_coherent [OF assms(1)] assms(2)
  by (auto split: sum.split intro: fast.follows_walk fast.follows_fault native.follows_walk native.follows_fault
      esp32.follows_walk esp32.follows_fault)

theorem translation_follows_tables_witness:
  "agrees (tlb_clear demo_cpu) (Some (0x3000, (True, 3), 0x2000)) 2 0xffe 3 (translate_lpgno_fast (tlb_clear demo_cpu) 2 0 0xffe 3)"
  using translation_follows_tables [OF mmu_reach.intros(1), of 2 demo_cpu "0xffe" 3] by (simp add: demo_walk)

text \<open>
  C23: a 32-bit store to a mapped, writable address puts the four bytes of the value
  exactly where the page tables send the four linear addresses, also across a
  page boundary into an unrelated frame, and changes nothing else but accessed
  and dirty bits; a 32-bit load from there returns the four bytes in
  little-endian order.
\<close>

theorem paged_access32:
  assumes "mmu_reach c" "cr0 c AND CR0_PG \<noteq> 0" "segment_usable c s"
    "laddr = base (seg c s) + addr" "unat laddr + 4 \<le> 2 ^ 32"
    "\<And>k. k < 4 \<Longrightarrow> mapped c 2 (cpl c) (laddr + of_nat k) (p k)"
    "\<And>k. k < 4 \<Longrightarrow> p k < phys_mem_size c" "\<not> in_iomem (p 0)" "phys_mem_size c \<le> 0xfffe0000" "inj_on p {0, 1, 2, 3}"
  shows "(\<exists>c'. cpu_store32 cb c (Some s) addr v = Inr (Some (), c') \<and> (\<forall>k < 4. phys_mem c' (p k) = le_byte v k) \<and>
      (\<forall>a n. a \<notin> p ` {0, 1, 2, 3} \<longrightarrow> bit (phys_mem c' a) n = bit (phys_mem c a) n \<or> take_bit 2 a = 0 \<and> n \<in> {5, 6})) \<and>
    (\<exists>c'. cpu_load32 cb c (Some s) addr = Inr (Some (le_value (\<lambda>k. phys_mem c' (p k))), c') \<and> ad_mem (phys_mem c) (phys_mem c'))"
proof
  note coh = mmu_reach_coherent [OF assms(1)]
  obtain oa c' where t: "translate32 c 2 (Some s) addr = Inr (Some oa, c')" "ad_mem (phys_mem c) (phys_mem c')"
      "\<And>k. k < 4 \<Longrightarrow> byte_at oa k = p k" "ram_access c' oa"
    by (rule translate32_bytes [OF coh assms(2,3) _ assms(4-9)]) auto
  have "inj_on (byte_at oa) {0, 1, 2, 3} = inj_on p {0, 1, 2, 3}" by (rule inj_on_cong) (auto simp: t(3))
  moreover have "byte_at oa ` {0, 1, 2, 3} = p ` {0, 1, 2, 3}" by (simp add: t(3))
  ultimately have g: "\<And>k. k < 4 \<Longrightarrow> put_bytes oa v (phys_mem c') (p k) = le_byte v k"
    "\<And>a. a \<notin> p ` {0, 1, 2, 3} \<Longrightarrow> put_bytes oa v (phys_mem c') a = phys_mem c' a"
    using put_bytes_get [of oa] assms(10) t(3) by metis+
  have "cpu_store32 cb c (Some s) addr v = Inr (Some (), c'\<lparr>phys_mem := put_bytes oa v (phys_mem c')\<rparr>)"
    using t(1) by (simp add: cpu_store32_def TRY_def store32_ram [OF t(4)])
  then show "\<exists>c'. cpu_store32 cb c (Some s) addr v = Inr (Some (), c') \<and> (\<forall>k < 4. phys_mem c' (p k) = le_byte v k) \<and>
      (\<forall>a n. a \<notin> p ` {0, 1, 2, 3} \<longrightarrow> bit (phys_mem c' a) n = bit (phys_mem c a) n \<or> take_bit 2 a = 0 \<and> n \<in> {5, 6})"
    using g t(2) by (intro exI [of _ "c'\<lparr>phys_mem := put_bytes oa v (phys_mem c')\<rparr>"]) (auto simp: ad_mem_def)
next
  note coh = mmu_reach_coherent [OF assms(1)]
  have r: "k < 4 \<Longrightarrow> mapped c 1 (cpl c) (laddr + of_nat k) (p k)" for k
    using assms(6) [of k] page_allows_read unfolding mapped_def by auto
  obtain oa c' where t: "translate32 c 1 (Some s) addr = Inr (Some oa, c')" "ad_mem (phys_mem c) (phys_mem c')"
      "\<And>k. k < 4 \<Longrightarrow> byte_at oa k = p k" "ram_access c' oa"
    by (rule translate32_bytes [OF coh assms(2,3) _ assms(4,5) r assms(7-9)]) auto
  have "le_value (\<lambda>k. phys_mem c' (byte_at oa k)) = le_value (\<lambda>k. phys_mem c' (p k))" by (rule le_value_cong) (simp add: t(3))
  then show "\<exists>c'. cpu_load32 cb c (Some s) addr = Inr (Some (le_value (\<lambda>k. phys_mem c' (p k))), c') \<and> ad_mem (phys_mem c) (phys_mem c')"
    using t(1,2) by (simp add: cpu_load32_def TRY_def returning_def load32_ram [OF t(4)])
qed

theorem paged_access32_witness:
  "\<exists>c'. cpu_store32 demo_cb (tlb_clear demo_cpu) (Some SEG_DS) 0xffe 0x11223344 = Inr (Some (), c') \<and> phys_mem c' 0x3fff = 0x33 \<and> phys_mem c' 0 = 0x22"
proof -
  define p :: "nat \<Rightarrow> u32" where "p k = (if k < 2 then 0x3ffe + of_nat k else of_nat (k - 2))" for k
  have p: "p 0 = 0x3ffe" "p 1 = 0x3fff" "p 2 = 0" "p 3 = 1" by (simp_all add: p_def)
  have "(\<exists>c'. cpu_store32 demo_cb (tlb_clear demo_cpu) (Some SEG_DS) 0xffe 0x11223344 = Inr (Some (), c') \<and> (\<forall>k < 4. phys_mem c' (p k) = le_byte 0x11223344 k) \<and>
      (\<forall>a n. a \<notin> p ` {0, 1, 2, 3} \<longrightarrow> bit (phys_mem c' a) n = bit (phys_mem (tlb_clear demo_cpu) a) n \<or> take_bit 2 a = 0 \<and> n \<in> {5, 6})) \<and>
    (\<exists>c'. cpu_load32 demo_cb (tlb_clear demo_cpu) (Some SEG_DS) 0xffe = Inr (Some (le_value (\<lambda>k. phys_mem c' (p k))), c') \<and>
      ad_mem (phys_mem (tlb_clear demo_cpu)) (phys_mem c'))"
  proof (rule paged_access32 [where laddr = "0xffe"])
    show "mmu_reach (tlb_clear demo_cpu)" by (rule mmu_reach.intros)
    show "mapped (tlb_clear demo_cpu) 2 (cpl (tlb_clear demo_cpu)) (0xffe + of_nat k) (p k)" if "k < 4" for k
      using demo_mapped [OF that] by (simp add: p_def tlb_clear_def demo_cpu_def)
    show "p k < phys_mem_size (tlb_clear demo_cpu)" if "k < 4" for k
    proof -
      have "k \<in> {0, 1, 2, 3}" using that by auto
      then show ?thesis by (auto simp: p p(2) [simplified] tlb_clear_def demo_cpu_def)
    qed
  qed (simp_all add: p p(2) [simplified] segment_usable_def tlb_clear_def demo_cpu_def in_iomem_def inj_on_def)
  then obtain c' where c': "cpu_store32 demo_cb (tlb_clear demo_cpu) (Some SEG_DS) 0xffe 0x11223344 = Inr (Some (), c')"
    "\<forall>k < 4. phys_mem c' (p k) = le_byte 0x11223344 k" by blast
  have "phys_mem c' (p 1) = le_byte 0x11223344 1" "phys_mem c' (p 2) = le_byte 0x11223344 2" using c'(2) by simp_all
  then show ?thesis using c'(1) by (intro exI [of _ c']) (simp add: p p(2) [simplified] le_byte_def)
qed

text \<open>
  C24: the bounds check of 32-bit accesses covers their first byte only.  A load or
  store of four bytes with one physical address, one that does not go to the device window, leaves the guest memory
  exactly when it starts inside it and ends outside, in the last three
  bytes; one that starts outside is ignored: the load gives zero, and neither changes the state.
\<close>

theorem access32_bounds:
  "(load32 cb c (ADDR_OK1 a) = Inl OutOfBounds \<longleftrightarrow>
      (iomem_read32 cb = None \<or> \<not> in_iomem (map_bios_alias a)) \<and>
      unat (map_bios_alias a) < unat (phys_mem_size c) \<and> unat (phys_mem_size c) < unat (map_bios_alias a) + 4) \<and>
   (store32 cb c (ADDR_OK1 a) v = Inl OutOfBounds \<longleftrightarrow>
      (iomem_write32 cb = None \<or> \<not> in_iomem a) \<and> unat a < unat (phys_mem_size c) \<and> unat (phys_mem_size c) < unat a + 4) \<and>
   ((iomem_read32 cb = None \<or> \<not> in_iomem (map_bios_alias a)) \<and> phys_mem_size c \<le> map_bios_alias a \<longrightarrow>
      load32 cb c (ADDR_OK1 a) = Inr (0, c)) \<and>
   ((iomem_write32 cb = None \<or> \<not> in_iomem a) \<and> phys_mem_size c \<le> a \<longrightarrow> store32 cb c (ADDR_OK1 a) v = Inr c)"
proof -
  have L: "load32 cb c (ADDR_OK1 a) = Inl OutOfBounds \<longleftrightarrow>
      (iomem_read32 cb = None \<or> \<not> in_iomem (map_bios_alias a)) \<and> ram32 c (ADDR_OK1 a) = Inl OutOfBounds"
    by (cases "ram32 c (ADDR_OK1 a)") (auto simp: load32_def Let_def split: option.split prod.split)
  have S: "store32 cb c (ADDR_OK1 a) v = Inl OutOfBounds \<longleftrightarrow>
      (iomem_write32 cb = None \<or> \<not> in_iomem a) \<and> store_ram32 c (ADDR_OK1 a) v = Inl OutOfBounds"
    by (auto simp: store32_def split: option.split)
  have "ram32 c (ADDR_OK1 a) = Inl OutOfBounds \<longleftrightarrow> map_bios_alias a < phys_mem_size c \<and> past_end4 c (map_bios_alias a)"
    by (auto simp: ram32_def Let_def pload32_def pload8_def past_end4_def)
  moreover have "store_ram32 c (ADDR_OK1 a) v = Inl OutOfBounds \<longleftrightarrow> a < phys_mem_size c \<and> past_end4 c a"
    by (auto simp: store_ram32_def pstore32_def pstore8_def past_end4_def)
  moreover have "(iomem_read32 cb = None \<or> \<not> in_iomem (map_bios_alias a)) \<and> phys_mem_size c \<le> map_bios_alias a \<longrightarrow>
      load32 cb c (ADDR_OK1 a) = Inr (0, c)"
    by (auto simp: load32_def ram32_def Let_def split: option.split)
  moreover have "(iomem_write32 cb = None \<or> \<not> in_iomem a) \<and> phys_mem_size c \<le> a \<longrightarrow> store32 cb c (ADDR_OK1 a) v = Inr c"
    by (auto simp: store32_def store_ram32_def split: option.split)
  ultimately show ?thesis unfolding L S by (simp add: past_end4_unat word_less_nat_alt cong: conj_cong)
qed

theorem access32_bounds_witness:
  "load32 demo_cb demo_cpu (ADDR_OK1 0x3ffd) = Inl OutOfBounds \<and> load32 demo_cb demo_cpu (ADDR_OK1 0x3ffc) \<noteq> Inl OutOfBounds \<and>
   load32 demo_cb demo_cpu (ADDR_OK1 0x4000) = Inr (0, demo_cpu)"
proof -
  have s: "phys_mem_size demo_cpu = 0x4000" "iomem_read32 demo_cb = None" by (simp_all add: demo_cpu_def demo_cb_def)
  show ?thesis
    using access32_bounds [of demo_cb demo_cpu "0x3ffd" 0] access32_bounds [of demo_cb demo_cpu "0x3ffc" 0]
    by (simp add: s map_bios_alias_def in_iomem_def) (simp add: load32_def ram32_def s map_bios_alias_def)
qed

text \<open>
  Loading a segment register decodes what a descriptor encodes.  The base, the
  20-bit limit (in pages where the granularity bit says so) and the access
  rights packed into the two descriptor words come back from them.
\<close>

lemma descriptor_roundtrip:
  "desc_segment s (fst (encode_desc bs lim ar)) (snd (encode_desc bs lim ar)) =
     \<lparr>sel = s, base = bs,
      limit = (if bit ar 15 then push_bit 12 (lim AND 0xfffff) OR 0xfff else lim AND 0xfffff),
      sflags = (ar AND 0xf0ff) OR (drop_bit 8 lim AND 0xf00)\<rparr>"
proof -
  obtain w1 w2 where w: "encode_desc bs lim ar = (w1, w2)" by (cases "encode_desc bs lim ar")
  have g: "w2 AND 0x00800000 \<noteq> 0 \<longleftrightarrow> bit w2 23" using and_exp_eq_0_iff_not_bit [of w2 23] by simp
  show ?thesis unfolding w fst_conv snd_conv desc_segment_def Let_def g by (simp only: descriptor_fields [OF w] segment.simps)
qed

text \<open>
  C25: after a flush of the translation caches, where the instruction pointer is in
  the last page of the linear address space (but its first sixteen bytes), the next instruction byte is read
  through the offset of the page fetched from before the flush, whatever the
  page tables say: on a 32-bit machine the invalid mark of the fetch cache is
  the address of a byte of that page.
\<close>

theorem stale_fetch_after_flush:
  assumes "base (seg c SEG_CS) + next_ip c = laddr" "0xfffff010 \<le> laddr"
  shows "fetch8pf cb (tlb_clear c) =
    bind_result (pload8 c (ixaddr (ifetch c) XOR laddr)) (\<lambda>v.
      Inr (Some v, (tlb_clear c)\<lparr>ifetch := (ifetch (tlb_clear c))\<lparr>ipaddr := (ixaddr (ifetch c) XOR laddr) + 1\<rparr>, next_ip := next_ip c + 1\<rparr>))"
proof -
  have "unat laddr < 2 ^ LENGTH(32)" by (rule unsigned_less)
  then have le: "laddr \<le> 0xffffffff" by (simp add: word_le_nat_alt)
  have m: "(0xffffffff :: u32) = mask 32" by (simp add: mask_eq_exp_minus_1)
  have "laddr XOR 0xffffffff = NOT laddr" unfolding m by (rule bit_word_eqI) (simp add: bit_simps)
  then have "laddr XOR 0xffffffff = 0xffffffff - laddr" by (simp add: not_eq_complement)
  then have "unat (laddr XOR 0xffffffff) = 0xffffffff - unat laddr" using unat_sub [OF le] by simp
  moreover have "0xfffff010 \<le> unat laddr" using assms(2) by (simp add: word_le_nat_alt)
  ultimately have "laddr XOR 0xffffffff < 4096 - 16" by (simp add: word_less_nat_alt)
  then show ?thesis using assms(1) by (simp add: fetch8pf_def tlb_clear_def pload8_def Let_def)
qed

theorem stale_fetch_after_flush_witness:
  "fetch8pf demo_cb (tlb_clear (demo_cpu\<lparr>next_ip := 0xfffffff0, ifetch := \<lparr>iladdr = 0, ixaddr = 0xffffeff0, ipaddr = 0\<rparr>\<rparr>)) \<noteq> Inl OutOfBounds \<and>
   page_walk (tlb_clear (demo_cpu\<lparr>next_ip := 0xfffffff0, ifetch := \<lparr>iladdr = 0, ixaddr = 0xffffeff0, ipaddr = 0\<rparr>\<rparr>)) 0xfffff = Inr None"
  using stale_fetch_after_flush [of "demo_cpu\<lparr>next_ip := 0xfffffff0, ifetch := \<lparr>iladdr = 0, ixaddr = 0xffffeff0, ipaddr = 0\<rparr>\<rparr>" "0xfffffff0" demo_cb]
  by (simp add: demo_cpu_def demo_mem_def pload8_def page_walk_def pload32_def entry_at_def page_base_def tlb_clear_def bit_iff_odd_drop_bit)

end
