(* ===== verification/Stack.thy ===== *)
theory Stack
  imports MMU
begin

text \<open>
  Instructions of the processor around the stack, the flags register, near jumps,
  system registers and ports (\<open>i386.c\<close>): the macros that the instruction table
  applies to their decoded operands.  An operand arrives as a value, as in the
  expansion of the addressing-mode macros; \<open>opsz16\<close> and \<open>adsz16\<close> are the
  operand and address sizes.  Returning \<open>true\<close> early only ends a batch of
  instructions and is the normal result.
\<close>

section \<open>Registers and flags\<close>

abbreviation (input) "EX_BP \<equiv> (3 :: nat)"
abbreviation (input) "EX_OF \<equiv> (4 :: nat)"
abbreviation (input) "EX_UD \<equiv> (6 :: nat)"
abbreviation (input) "EX_NM \<equiv> (7 :: nat)"
abbreviation (input) "TF \<equiv> (0x100 :: u32)"
abbreviation (input) "IF \<equiv> (0x200 :: u32)"
abbreviation (input) "DF \<equiv> (0x400 :: u32)"
abbreviation (input) "IOPL \<equiv> (0x3000 :: u32)"
abbreviation (input) "NT \<equiv> (0x4000 :: u32)"
abbreviation (input) "RF \<equiv> (0x10000 :: u32)"

definition THROW0 :: "nat \<Rightarrow> 'd CPU \<Rightarrow> ('a, 'd) exec" where
  "THROW0 ex c = Inr (None, c\<lparr>excno := ex\<rparr>)"

definition finish :: "'d CPU result \<Rightarrow> (unit, 'd) exec" where
  "finish m = bind_result m (\<lambda>c. Inr (Some (), c))"

text \<open>\<open>TRY1\<close> ends the emulator where \<open>TRY\<close> hands the exception on; the mask of the stack pointer, from the stack segment.\<close>

definition TRY1 :: "('a, 'd) exec \<Rightarrow> ('a \<Rightarrow> 'd CPU \<Rightarrow> ('b, 'd) exec) \<Rightarrow> ('b, 'd) exec" where
  "TRY1 m f = bind_result m (\<lambda>(r, c). case r of None \<Rightarrow> Inl Abort | Some x \<Rightarrow> f x c)"

definition ss_mask :: "'d CPU \<Rightarrow> u32" where
  "ss_mask c = (if sflags (seg c SEG_SS) AND SEG_D_BIT \<noteq> 0 then 0xffffffff else 0xffff)"

definition lreg8 :: "'d CPU \<Rightarrow> nat \<Rightarrow> u8" where
  "lreg8 c i = ucast (if 3 < i then drop_bit 8 (gpr c (i - 4)) else gpr c i)"

definition lreg16 :: "'d CPU \<Rightarrow> nat \<Rightarrow> u16" where
  "lreg16 c i = ucast (gpr c i)"

definition sreg8 :: "nat \<Rightarrow> u8 \<Rightarrow> 'd CPU \<Rightarrow> 'd CPU" where
  "sreg8 i v c =
     c\<lparr>gpr := (if 3 < i then (gpr c)(i - 4 := (gpr c (i - 4) AND (0xffffffff XOR 0xff00)) OR push_bit 8 (ucast v))
              else (gpr c)(i := (gpr c i AND (0xffffffff XOR 0xff)) OR ucast v))\<rparr>"

definition sreg16 :: "nat \<Rightarrow> u16 \<Rightarrow> 'd CPU \<Rightarrow> 'd CPU" where
  "sreg16 i v c = c\<lparr>gpr := (gpr c)(i := (gpr c i AND (0xffffffff XOR 0xffff)) OR ucast v)\<rparr>"

definition sreg32 :: "nat \<Rightarrow> u32 \<Rightarrow> 'd CPU \<Rightarrow> 'd CPU" where
  "sreg32 i v c = c\<lparr>gpr := (gpr c)(i := v)\<rparr>"

definition set_sp :: "u32 \<Rightarrow> u32 \<Rightarrow> 'd CPU \<Rightarrow> 'd CPU" where
  "set_sp v m c = sreg32 4 ((v AND m) OR (gpr c 4 AND NOT m)) c"

definition flags :: "'d CPU \<Rightarrow> u32" where
  "flags c = eflags (alu c)"

definition set_flags :: "u32 \<Rightarrow> 'd CPU \<Rightarrow> 'd CPU" where
  "set_flags v c = c\<lparr>alu := (alu c)\<lparr>eflags := v\<rparr>\<rparr>"

definition clear_ccmask :: "'d CPU \<Rightarrow> 'd CPU" where
  "clear_ccmask c = c\<lparr>alu := (alu c)\<lparr>ccmask := 0\<rparr>\<rparr>"

definition cpu_refresh_flags :: "'d CPU \<Rightarrow> 'd CPU result" where
  "cpu_refresh_flags c = bind_result (refresh_flags (alu c)) (\<lambda>a. Inr (c\<lparr>alu := a\<rparr>))"

definition get_IOPL :: "'d CPU \<Rightarrow> nat" where
  "get_IOPL c = unat (drop_bit 12 (flags c AND IOPL))"

section \<open>Stack\<close>

text \<open>The push and pop that the macros spell out, at 16 and at 32 bits.\<close>

definition push16 :: "'d CPU_CB \<Rightarrow> u16 \<Rightarrow> 'd CPU \<Rightarrow> (unit, 'd) exec" where
  "push16 cb v c =
     (let sp = gpr c 4
      in TRY (translate16 c 2 (Some SEG_SS) ((sp - 2) AND sp_mask c)) (\<lambda>oa c.
           finish (store16 cb (set_sp (sp - 2) (sp_mask c) c) oa v)))"

definition push32 :: "'d CPU_CB \<Rightarrow> u32 \<Rightarrow> 'd CPU \<Rightarrow> (unit, 'd) exec" where
  "push32 cb v c =
     (let sp = gpr c 4
      in TRY (translate32 c 2 (Some SEG_SS) ((sp - 4) AND sp_mask c)) (\<lambda>oa c.
           finish (store32 cb (set_sp (sp - 4) (sp_mask c) c) oa v)))"

text \<open>With the direct stack address where there is one (\<open>PUSHd\<close>, \<open>CALLd\<close>, \<open>CALLABSd\<close>, \<open>POPRegd\<close>, \<open>RETw\<close>).\<close>

definition fast_push32 :: "'d CPU_CB \<Rightarrow> u32 \<Rightarrow> 'd CPU \<Rightarrow> (unit, 'd) exec" where
  "fast_push32 cb v c =
     (let sp = gpr c 4; fast_sp = (sp - 4) AND sp_mask c
      in bind_result (stack32_direct_addr c 2 fast_sp) (\<lambda>(p, c).
         case p of
           Some fast_paddr \<Rightarrow> finish (pstore32 (set_sp (sp - 4) (sp_mask c) c) fast_paddr v)
         | None \<Rightarrow> TRY (translate32 c 2 (Some SEG_SS) fast_sp) (\<lambda>oa c.
             finish (store32 cb (set_sp (sp - 4) (sp_mask c) c) oa v))))"

definition stack_load32 :: "'d CPU_CB \<Rightarrow> 'd CPU \<Rightarrow> (u32, 'd) exec" where
  "stack_load32 cb c =
     TRY (translate32 c 1 (Some SEG_SS) (gpr c 4 AND sp_mask c)) (\<lambda>oa c. returning (load32 cb c oa))"

definition fast_stack_load32 :: "'d CPU_CB \<Rightarrow> 'd CPU \<Rightarrow> (u32, 'd) exec" where
  "fast_stack_load32 cb c =
     bind_result (stack32_direct_addr c 1 (gpr c 4 AND sp_mask c)) (\<lambda>(p, c).
       case p of
         Some fast_paddr \<Rightarrow> bind_result (pload32 c fast_paddr) (\<lambda>v. Inr (Some v, c))
       | None \<Rightarrow> stack_load32 cb c)"

definition stack_load16 :: "'d CPU_CB \<Rightarrow> 'd CPU \<Rightarrow> (u16, 'd) exec" where
  "stack_load16 cb c =
     TRY (translate16 c 1 (Some SEG_SS) (gpr c 4 AND sp_mask c)) (\<lambda>oa c. returning (load16 cb c oa))"

definition add_sp :: "u32 \<Rightarrow> 'd CPU \<Rightarrow> 'd CPU" where
  "add_sp n c = set_sp (gpr c 4 + n) (sp_mask c) c"

definition PUSHb :: "'d CPU_CB \<Rightarrow> bool \<Rightarrow> u8 \<Rightarrow> 'd CPU \<Rightarrow> (unit, 'd) exec" where
  "PUSHb cb opsz16 v c = (if opsz16 then push16 cb (ucast (sextw v)) c else push32 cb (sextw v) c)"

definition PUSHw :: "'d CPU_CB \<Rightarrow> u16 \<Rightarrow> 'd CPU \<Rightarrow> (unit, 'd) exec" where
  "PUSHw cb v c = push16 cb v c"

definition PUSHd :: "'d CPU_CB \<Rightarrow> u32 \<Rightarrow> 'd CPU \<Rightarrow> (unit, 'd) exec" where
  "PUSHd cb v c = fast_push32 cb v c"

definition POPRegw :: "'d CPU_CB \<Rightarrow> nat \<Rightarrow> 'd CPU \<Rightarrow> (unit, 'd) exec" where
  "POPRegw cb reg c = TRY (stack_load16 cb c) (\<lambda>v c. Inr (Some (), sreg16 reg v (add_sp 2 c)))"

definition POPRegd :: "'d CPU_CB \<Rightarrow> nat \<Rightarrow> 'd CPU \<Rightarrow> (unit, 'd) exec" where
  "POPRegd cb reg c = TRY (fast_stack_load32 cb c) (\<lambda>v c. Inr (Some (), sreg32 reg v (add_sp 4 c)))"

text \<open>
  \<open>POP r/m\<close>: the stack pointer moves before the destination is computed from it
  and moves back when the destination cannot be written.
\<close>

definition POP16 :: "'d CPU_CB \<Rightarrow> bool \<Rightarrow> nat option \<Rightarrow> 'd CPU \<Rightarrow> (unit, 'd) exec" where
  "POP16 cb adsz16 so c0 =
     TRY (fetch8 cb c0) (\<lambda>modrm c.
       let md = unat (drop_bit 6 modrm); rm = unat (modrm AND 7); sp = gpr c 4
       in TRY (stack_load16 cb c) (\<lambda>src c.
          let c = add_sp 2 c
          in if md = 3 then Inr (Some (), sreg16 rm src c)
             else bind_result (TRY (modsib cb c adsz16 md rm so) (\<lambda>(addr, s) c. translate16 c 2 s addr)) (\<lambda>(oa, c).
               case oa of None \<Rightarrow> Inr (None, set_sp sp (sp_mask c) c)
               | Some oa \<Rightarrow> finish (store16 cb c oa src))))"

definition POP32 :: "'d CPU_CB \<Rightarrow> bool \<Rightarrow> nat option \<Rightarrow> 'd CPU \<Rightarrow> (unit, 'd) exec" where
  "POP32 cb adsz16 so c0 =
     TRY (fetch8 cb c0) (\<lambda>modrm c.
       let md = unat (drop_bit 6 modrm); rm = unat (modrm AND 7); sp = gpr c 4
       in TRY (stack_load32 cb c) (\<lambda>src c.
          let c = add_sp 4 c
          in if md = 3 then Inr (Some (), sreg32 rm src c)
             else bind_result (TRY (modsib cb c adsz16 md rm so) (\<lambda>(addr, s) c. translate32 c 2 s addr)) (\<lambda>(oa, c).
               case oa of None \<Rightarrow> Inr (None, set_sp sp (sp_mask c) c)
               | Some oa \<Rightarrow> finish (store32 cb c oa src))))"

definition POP :: "'d CPU_CB \<Rightarrow> bool \<Rightarrow> bool \<Rightarrow> nat option \<Rightarrow> 'd CPU \<Rightarrow> (unit, 'd) exec" where
  "POP cb opsz16 adsz16 so c = (if opsz16 then POP16 cb adsz16 so c else POP32 cb adsz16 so c)"

definition PUSHF :: "'d CPU_CB \<Rightarrow> bool \<Rightarrow> 'd CPU \<Rightarrow> (unit, 'd) exec" where
  "PUSHF cb opsz16 c =
     (if flags c AND VM \<noteq> 0 \<and> get_IOPL c < 3 then THROW EX_GP 0 c
      else let sp = gpr c 4
           in if opsz16
              then TRY (translate16 c 2 (Some SEG_SS) ((sp - 2) AND sp_mask c)) (\<lambda>oa c.
                     bind_result (cpu_refresh_flags c) (\<lambda>c.
                       let c = set_sp (sp - 2) (sp_mask c) (clear_ccmask c)
                       in finish (store16 cb c oa (ucast (flags c)))))
              else TRY (translate32 c 2 (Some SEG_SS) ((sp - 4) AND sp_mask c)) (\<lambda>oa c.
                     bind_result (cpu_refresh_flags c) (\<lambda>c.
                       let c = set_sp (sp - 4) (sp_mask c) (clear_ccmask c)
                       in finish (store32 cb c oa (flags c AND NOT (RF OR VM))))))"

text \<open>The flags that \<open>POPF\<close> and \<open>IRET\<close> may not change at a privilege level.\<close>

definition protected_flags :: "'d CPU \<Rightarrow> u32" where
  "protected_flags c = (if 0 < cpl c then IOPL else 0) OR (if get_IOPL c < cpl c then IF else 0)"

definition POPF :: "'d CPU_CB \<Rightarrow> bool \<Rightarrow> 'd CPU \<Rightarrow> (unit, 'd) exec" where
  "POPF cb opsz16 c =
     (if flags c AND VM \<noteq> 0 \<and> get_IOPL c < 3 then THROW EX_GP 0 c
      else let m = VM OR (if cr0 c AND 1 \<noteq> 0 then protected_flags c else 0);
               load = (\<lambda>v c. Inr (Some (), clear_ccmask (set_flags ((v AND flags_mask c) OR 2) c)))
           in if opsz16
              then TRY (stack_load16 cb c) (\<lambda>v c.
                     let c = add_sp 2 c in load ((flags c AND (0xffff0000 OR m)) OR (ucast v AND NOT m)) c)
              else TRY (stack_load32 cb c) (\<lambda>v c.
                     let c = add_sp 4 c in load ((flags c AND m) OR (v AND NOT m)) c))"

definition PUSHSeg :: "'d CPU_CB \<Rightarrow> bool \<Rightarrow> nat \<Rightarrow> 'd CPU \<Rightarrow> (unit, 'd) exec" where
  "PUSHSeg cb opsz16 s c =
     (let sp = gpr c 4; n = (if opsz16 then 2 else 4)
      in TRY (translate16 c 2 (Some SEG_SS) ((sp - n) AND sp_mask c)) (\<lambda>oa c.
           finish (store16 cb (set_sp (sp - n) (sp_mask c) c) oa (ucast (sel (seg c s))))))"

text \<open>\<open>POPSeg\<close>, as \<open>POP_ES\<close>, \<open>POP_DS\<close>, \<open>POP_FS\<close> and \<open>POP_GS\<close> use it; for \<open>SS\<close> see \<open>POP_SS\<close>.\<close>

definition POPSeg :: "'d CPU_CB \<Rightarrow> bool \<Rightarrow> nat \<Rightarrow> 'd CPU \<Rightarrow> (unit, 'd) exec" where
  "POPSeg cb opsz16 s c =
     (let m = sp_mask c; sp = gpr c 4
      in TRY (stack_load16 cb c) (\<lambda>v c. TRY (set_seg cb c s (ucast v)) (\<lambda>_ c.
           Inr (Some (), set_sp (sp + (if opsz16 then 2 else 4)) m c))))"

text \<open>Several addresses translated one after the other, then accessed in the same order.\<close>

fun translate_all :: "('d CPU \<Rightarrow> u32 \<Rightarrow> (OptAddr, 'd) exec) \<Rightarrow> u32 list \<Rightarrow> 'd CPU \<Rightarrow> (OptAddr list, 'd) exec" where
  "translate_all tr [] c = Inr (Some [], c)"
| "translate_all tr (a # as) c =
     TRY (tr c a) (\<lambda>oa c. TRY (translate_all tr as c) (\<lambda>oas c. Inr (Some (oa # oas), c)))"

fun store_all16 :: "'d CPU_CB \<Rightarrow> (OptAddr \<times> u16) list \<Rightarrow> 'd CPU \<Rightarrow> 'd CPU result" where
  "store_all16 cb [] c = Inr c"
| "store_all16 cb ((oa, v) # l) c = bind_result (store16 cb c oa v) (store_all16 cb l)"

fun store_all32 :: "'d CPU_CB \<Rightarrow> (OptAddr \<times> u32) list \<Rightarrow> 'd CPU \<Rightarrow> 'd CPU result" where
  "store_all32 cb [] c = Inr c"
| "store_all32 cb ((oa, v) # l) c = bind_result (store32 cb c oa v) (store_all32 cb l)"

fun load_regs16 :: "'d CPU_CB \<Rightarrow> (nat \<times> OptAddr) list \<Rightarrow> 'd CPU \<Rightarrow> 'd CPU result" where
  "load_regs16 cb [] c = Inr c"
| "load_regs16 cb ((i, oa) # l) c = bind_result (load16 cb c oa) (\<lambda>(v, c). load_regs16 cb l (sreg16 i v c))"

fun load_regs32 :: "'d CPU_CB \<Rightarrow> (nat \<times> OptAddr) list \<Rightarrow> 'd CPU \<Rightarrow> 'd CPU result" where
  "load_regs32 cb [] c = Inr c"
| "load_regs32 cb ((i, oa) # l) c = bind_result (load32 cb c oa) (\<lambda>(v, c). load_regs32 cb l (sreg32 i v c))"

definition PUSHA :: "'d CPU_CB \<Rightarrow> bool \<Rightarrow> 'd CPU \<Rightarrow> (unit, 'd) exec" where
  "PUSHA cb opsz16 c =
     (let sp = gpr c 4; m = sp_mask c
      in if opsz16
         then TRY (translate_all (\<lambda>c. translate16 c 2 (Some SEG_SS)) (map (\<lambda>k. (sp - 2 * of_nat k) AND m) [1..<9]) c) (\<lambda>oas c.
           finish (bind_result (store_all16 cb (zip oas [lreg16 c 0, lreg16 c 1, lreg16 c 2, lreg16 c 3, ucast sp,
               lreg16 c 5, lreg16 c 6, lreg16 c 7]) c) (\<lambda>c. Inr (set_sp (sp - 2 * 8) m c))))
         else TRY (translate_all (\<lambda>c. translate32 c 2 (Some SEG_SS)) (map (\<lambda>k. (sp - 4 * of_nat k) AND m) [1..<9]) c) (\<lambda>oas c.
           finish (bind_result (store_all32 cb (zip oas [gpr c 0, gpr c 1, gpr c 2, gpr c 3, sp, gpr c 5, gpr c 6, gpr c 7]) c)
             (\<lambda>c. Inr (set_sp (sp - 4 * 8) m c)))))"

definition POPA :: "'d CPU_CB \<Rightarrow> bool \<Rightarrow> 'd CPU \<Rightarrow> (unit, 'd) exec" where
  "POPA cb opsz16 c =
     (let sp = gpr c 4; m = sp_mask c; ks = [0, 1, 2, 4, 5, 6, 7 :: nat]; regs = [7, 6, 5, 3, 2, 1, 0]
      in if opsz16
         then TRY (translate_all (\<lambda>c. translate16 c 1 (Some SEG_SS)) (map (\<lambda>k. (sp + 2 * of_nat k) AND m) ks) c) (\<lambda>oas c.
           finish (bind_result (load_regs16 cb (zip regs oas) c) (\<lambda>c. Inr (set_sp (sp + 2 * 8) m c))))
         else TRY (translate_all (\<lambda>c. translate32 c 1 (Some SEG_SS)) (map (\<lambda>k. (sp + 4 * of_nat k) AND m) ks) c) (\<lambda>oas c.
           finish (bind_result (load_regs32 cb (zip regs oas) c) (\<lambda>c. Inr (set_sp (sp + 4 * 8) m c)))))"

text \<open>
  \<open>ENTER\<close>: the nested case is \<open>enter_helper\<close>, whose loop keeps pushing to the slot
  below the initial stack pointer.
\<close>

definition dec_bp :: "u32 \<Rightarrow> u32 \<Rightarrow> 'd CPU \<Rightarrow> 'd CPU" where
  "dec_bp m n c = (if m = 0xffff then sreg16 5 (lreg16 c 5 - ucast n) c else sreg32 5 (gpr c 5 - n) c)"

fun enter_loop :: "'d CPU_CB \<Rightarrow> bool \<Rightarrow> u32 \<Rightarrow> u32 \<Rightarrow> nat \<Rightarrow> 'd CPU \<Rightarrow> (unit, 'd) exec" where
  "enter_loop cb opsz16 m sp 0 c = Inr (Some (), c)"
| "enter_loop cb opsz16 m sp (Suc n) c =
     TRY (if opsz16
          then TRY (translate16 (dec_bp m 2 c) 2 (Some SEG_SS) ((sp - 2) AND m)) (\<lambda>oa c.
                 finish (store16 cb (set_sp (sp - 2) m c) oa (lreg16 c 5)))
          else TRY (translate32 (dec_bp m 4 c) 2 (Some SEG_SS) ((sp - 4) AND m)) (\<lambda>oa c.
                 finish (store32 cb (set_sp (sp - 4) m c) oa (gpr c 5))))
       (\<lambda>_. enter_loop cb opsz16 m sp n)"

definition enter_helper :: "'d CPU_CB \<Rightarrow> bool \<Rightarrow> u32 \<Rightarrow> nat \<Rightarrow> u32 \<Rightarrow> 'd CPU \<Rightarrow> (unit, 'd) exec" where
  "enter_helper cb opsz16 m level allocsz c =
     (if level = 0 then Inl Assertion
      else let sp = gpr c 4
           in if opsz16
              then TRY (translate16 c 2 (Some SEG_SS) ((sp - 2) AND m)) (\<lambda>oa c.
                     bind_result (store16 cb (set_sp (sp - 2) m c) oa (lreg16 c 5)) (\<lambda>c.
                     let temp = lreg16 c 4
                     in TRY (enter_loop cb opsz16 m sp (level - 1) c) (\<lambda>_ c.
                        TRY (translate16 c 2 (Some SEG_SS) ((sp - 2) AND m)) (\<lambda>oa c.
                          bind_result (store16 cb (set_sp (sp - 2 - allocsz) m c) oa temp) (\<lambda>c.
                          Inr (Some (), sreg16 5 temp c))))))
              else TRY (translate32 c 2 (Some SEG_SS) ((sp - 4) AND m)) (\<lambda>oa c.
                     bind_result (store32 cb (set_sp (sp - 4) m c) oa (gpr c 5)) (\<lambda>c.
                     let temp = gpr c 4
                     in TRY (enter_loop cb opsz16 m sp (level - 1) c) (\<lambda>_ c.
                        TRY (translate32 c 2 (Some SEG_SS) ((sp - 4) AND m)) (\<lambda>oa c.
                          bind_result (store32 cb (set_sp (sp - 4 - allocsz) m c) oa temp) (\<lambda>c.
                          Inr (Some (), sreg32 5 temp c)))))))"

definition ENTER :: "'d CPU_CB \<Rightarrow> bool \<Rightarrow> u16 \<Rightarrow> u8 \<Rightarrow> 'd CPU \<Rightarrow> (unit, 'd) exec" where
  "ENTER cb opsz16 i16 i8 c =
     (let level = unat i8 mod 32; sp = gpr c 4; m = sp_mask c
      in if level = 0
         then if opsz16
              then TRY (translate16 c 2 (Some SEG_SS) ((sp - 2) AND m)) (\<lambda>oa c.
                     bind_result (store16 cb (set_sp (sp - 2 - ucast i16) m c) oa (lreg16 c 5)) (\<lambda>c.
                     Inr (Some (), sreg16 5 (ucast ((sp - 2) AND m)) c)))
              else TRY (translate32 c 2 (Some SEG_SS) ((sp - 4) AND m)) (\<lambda>oa c.
                     bind_result (store32 cb (set_sp (sp - 4 - ucast i16) m c) oa (gpr c 5)) (\<lambda>c.
                     Inr (Some (), sreg32 5 ((sp - 4) AND m) c)))
         else enter_helper cb opsz16 m level (ucast i16) c)"

definition LEAVE :: "'d CPU_CB \<Rightarrow> bool \<Rightarrow> 'd CPU \<Rightarrow> (unit, 'd) exec" where
  "LEAVE cb opsz16 c =
     (let sp = gpr c 5; m = sp_mask c
      in if opsz16
         then TRY (translate16 c 1 (Some SEG_SS) (sp AND m)) (\<lambda>oa c.
                bind_result (load16 cb (set_sp (sp + 2) m c) oa) (\<lambda>(v, c). Inr (Some (), sreg16 5 v c)))
         else TRY (translate32 c 1 (Some SEG_SS) (sp AND m)) (\<lambda>oa c.
                bind_result (load32 cb (set_sp (sp + 4) m c) oa) (\<lambda>(v, c). Inr (Some (), sreg32 5 v c))))"

section \<open>Near jumps, calls and returns\<close>

definition jump_rel :: "u32 \<Rightarrow> 'd CPU \<Rightarrow> 'd CPU" where
  "jump_rel d c = c\<lparr>next_ip := next_ip c + d\<rparr>"

definition jump_rel16 :: "u32 \<Rightarrow> 'd CPU \<Rightarrow> 'd CPU" where
  "jump_rel16 d c = c\<lparr>next_ip := (next_ip c + d) AND 0xffff\<rparr>"

definition JCXZb :: "bool \<Rightarrow> u8 \<Rightarrow> 'd CPU \<Rightarrow> 'd CPU" where
  "JCXZb adsz16 i c = (if (if adsz16 then lreg16 c 1 = 0 else gpr c 1 = 0) then jump_rel (sextw i) c else c)"

definition dec_cx :: "bool \<Rightarrow> 'd CPU \<Rightarrow> bool \<times> 'd CPU" where
  "dec_cx adsz16 c =
     (let c = (if adsz16 then sreg16 1 (lreg16 c 1 - 1) c else sreg32 1 (gpr c 1 - 1) c)
      in (if adsz16 then lreg16 c 1 \<noteq> 0 else gpr c 1 \<noteq> 0, c))"

definition LOOPb :: "bool \<Rightarrow> u8 \<Rightarrow> 'd CPU \<Rightarrow> 'd CPU" where
  "LOOPb adsz16 i c = (let (more, c) = dec_cx adsz16 c in if more then jump_rel (sextw i) c else c)"

definition LOOPEb :: "bool \<Rightarrow> u8 \<Rightarrow> 'd CPU \<Rightarrow> 'd CPU" where
  "LOOPEb adsz16 i c =
     (let (more, c) = dec_cx adsz16 c in if more \<and> get_ZF (alu c) then jump_rel (sextw i) c else c)"

definition LOOPNEb :: "bool \<Rightarrow> u8 \<Rightarrow> 'd CPU \<Rightarrow> 'd CPU" where
  "LOOPNEb adsz16 i c =
     (let (more, c) = dec_cx adsz16 c in if more \<and> \<not> get_ZF (alu c) then jump_rel (sextw i) c else c)"

definition COND :: "nat \<Rightarrow> ALU \<Rightarrow> bool result" where
  "COND b1 a =
     (let n = b1 mod 16; neg = (\<lambda>m. bind_result m (\<lambda>x. Inr (\<not> x)))
      in if n = 0 then get_OF a else if n = 1 then neg (get_OF a)
         else if n = 2 then get_CF a else if n = 3 then neg (get_CF a)
         else if n = 4 then Inr (get_ZF a) else if n = 5 then Inr (\<not> get_ZF a)
         else if n = 6 then (if get_ZF a then Inr True else get_CF a)
         else if n = 7 then (if get_ZF a then Inr False else neg (get_CF a))
         else if n = 8 then Inr (get_SF a) else if n = 9 then Inr (\<not> get_SF a)
         else if n = 10 then Inr (get_PF a) else if n = 11 then Inr (\<not> get_PF a)
         else if n = 12 then bind_result (get_OF a) (\<lambda>ov. Inr (get_SF a \<noteq> ov))
         else if n = 13 then bind_result (get_OF a) (\<lambda>ov. Inr (get_SF a = ov))
         else if n = 14 then (if get_ZF a then Inr True else bind_result (get_OF a) (\<lambda>ov. Inr (get_SF a \<noteq> ov)))
         else (if get_ZF a then Inr False else bind_result (get_OF a) (\<lambda>ov. Inr (get_SF a = ov))))"

definition JCCb :: "nat \<Rightarrow> u8 \<Rightarrow> 'd CPU \<Rightarrow> 'd CPU result" where
  "JCCb b1 i c = bind_result (COND b1 (alu c)) (\<lambda>cond. Inr (if cond then jump_rel (sextw i) c else c))"

definition JCCw :: "nat \<Rightarrow> u16 \<Rightarrow> 'd CPU \<Rightarrow> 'd CPU result" where
  "JCCw b1 i c = bind_result (COND b1 (alu c)) (\<lambda>cond. Inr (if cond then jump_rel16 (sextw i) c else c))"

definition JCCd :: "nat \<Rightarrow> u32 \<Rightarrow> 'd CPU \<Rightarrow> 'd CPU result" where
  "JCCd b1 i c = bind_result (COND b1 (alu c)) (\<lambda>cond. Inr (if cond then jump_rel i c else c))"

definition SETCCb :: "nat \<Rightarrow> ALU \<Rightarrow> u8 result" where
  "SETCCb b1 a = bind_result (COND b1 a) (\<lambda>cond. Inr (of_bool cond))"

definition JMPb :: "u8 \<Rightarrow> 'd CPU \<Rightarrow> 'd CPU" where
  "JMPb i c = jump_rel (sextw i) c"

definition JMPw :: "u16 \<Rightarrow> 'd CPU \<Rightarrow> 'd CPU" where
  "JMPw i c = jump_rel16 (sextw i) c"

definition JMPd :: "u32 \<Rightarrow> 'd CPU \<Rightarrow> 'd CPU" where
  "JMPd i c = jump_rel i c"

definition JMPABS :: "u32 \<Rightarrow> 'd CPU \<Rightarrow> 'd CPU" where
  "JMPABS i c = c\<lparr>next_ip := i\<rparr>"

definition CALLw :: "'d CPU_CB \<Rightarrow> u16 \<Rightarrow> 'd CPU \<Rightarrow> (unit, 'd) exec" where
  "CALLw cb i c = TRY (push16 cb (ucast (next_ip c)) c) (\<lambda>_ c. Inr (Some (), jump_rel16 (sextw i) c))"

definition CALLd :: "'d CPU_CB \<Rightarrow> u32 \<Rightarrow> 'd CPU \<Rightarrow> (unit, 'd) exec" where
  "CALLd cb i c = TRY (fast_push32 cb (next_ip c) c) (\<lambda>_ c. Inr (Some (), jump_rel i c))"

definition CALLABSw :: "'d CPU_CB \<Rightarrow> u16 \<Rightarrow> 'd CPU \<Rightarrow> (unit, 'd) exec" where
  "CALLABSw cb nip c = TRY (push16 cb (ucast (next_ip c)) c) (\<lambda>_ c. Inr (Some (), JMPABS (ucast nip) c))"

definition CALLABSd :: "'d CPU_CB \<Rightarrow> u32 \<Rightarrow> 'd CPU \<Rightarrow> (unit, 'd) exec" where
  "CALLABSd cb nip c = TRY (fast_push32 cb (next_ip c) c) (\<lambda>_ c. Inr (Some (), JMPABS nip c))"

definition RETw :: "'d CPU_CB \<Rightarrow> bool \<Rightarrow> u16 \<Rightarrow> 'd CPU \<Rightarrow> (unit, 'd) exec" where
  "RETw cb opsz16 i c =
     (if opsz16
      then TRY (stack_load16 cb c) (\<lambda>v c. Inr (Some (), JMPABS (ucast v) (add_sp (2 + ucast i) c)))
      else TRY (fast_stack_load32 cb c) (\<lambda>v c. Inr (Some (), add_sp (4 + ucast i) (JMPABS v c))))"

section \<open>System instructions\<close>

definition INT3 :: "'d CPU \<Rightarrow> (unit, 'd) exec" where
  "INT3 c = THROW0 EX_BP (c\<lparr>ip := next_ip c\<rparr>)"

definition INTO :: "'d CPU \<Rightarrow> (unit, 'd) exec" where
  "INTO c = bind_result (get_OF (alu c)) (\<lambda>ov.
     if ov then THROW0 EX_OF (c\<lparr>ip := next_ip c\<rparr>) else Inr (Some (), c))"

definition HLT :: "'d CPU \<Rightarrow> (unit, 'd) exec" where
  "HLT c = (if cpl c \<noteq> 0 then THROW EX_GP 0 c else Inr (Some (), c\<lparr>halt := True\<rparr>))"

definition CLI :: "'d CPU \<Rightarrow> (unit, 'd) exec" where
  "CLI c = (if get_IOPL c < cpl c then THROW EX_GP 0 c else Inr (Some (), set_flags (flags c AND NOT IF) c))"

text \<open>\<open>STI\<close> also asks for at least one more instruction before interrupts are taken: the new step count.\<close>

definition STI :: "int \<Rightarrow> 'd CPU \<Rightarrow> (int, 'd) exec" where
  "STI stepcount c =
     (if get_IOPL c < cpl c then THROW EX_GP 0 c
      else Inr (Some (if intr c \<or> stepcount < 2 then 2 else stepcount), set_flags (flags c OR IF) c))"

definition CLD :: "'d CPU \<Rightarrow> 'd CPU" where
  "CLD c = set_flags (flags c AND NOT DF) c"

definition STD :: "'d CPU \<Rightarrow> 'd CPU" where
  "STD c = set_flags (flags c OR DF) c"

text \<open>Loading \<open>SS\<close> with \<open>MOV\<close> or \<open>POP\<close> asks for one more instruction too: the new step count.\<close>

definition MOVSeg :: "'d CPU_CB \<Rightarrow> nat \<Rightarrow> u16 \<Rightarrow> int \<Rightarrow> 'd CPU \<Rightarrow> (int, 'd) exec" where
  "MOVSeg cb s v stepcount c =
     (if s = SEG_CS then THROW0 EX_UD c
      else TRY (set_seg cb c s (ucast v)) (\<lambda>_ c. Inr (Some (if s = SEG_SS then stepcount + 1 else stepcount), c)))"

definition POP_SS :: "'d CPU_CB \<Rightarrow> bool \<Rightarrow> int \<Rightarrow> 'd CPU \<Rightarrow> (int, 'd) exec" where
  "POP_SS cb opsz16 stepcount c = TRY (POPSeg cb opsz16 SEG_SS c) (\<lambda>_ c. Inr (Some (stepcount + 1), c))"

definition XCHGAX :: "bool \<Rightarrow> nat \<Rightarrow> 'd CPU \<Rightarrow> 'd CPU" where
  "XCHGAX opsz16 b1 c =
     (let reg = b1 mod 8
      in if opsz16 then sreg16 0 (lreg16 c reg) (sreg16 reg (lreg16 c 0) c)
         else sreg32 0 (gpr c reg) (sreg32 reg (gpr c 0) c))"

definition CBW_CWDE :: "bool \<Rightarrow> 'd CPU \<Rightarrow> 'd CPU" where
  "CBW_CWDE opsz16 c =
     (if opsz16 then sreg16 0 (ucast (sextw (lreg8 c 0))) c else sreg32 0 (sextw (lreg16 c 0)) c)"

definition CWD_CDQ :: "bool \<Rightarrow> 'd CPU \<Rightarrow> 'd CPU" where
  "CWD_CDQ opsz16 c =
     (if opsz16 then sreg16 2 (ucast (- drop_bit 31 (sextw (lreg16 c 0)))) c else sreg32 2 (- drop_bit 31 (gpr c 0)) c)"

definition MOVFC :: "'d CPU_CB \<Rightarrow> 'd CPU \<Rightarrow> (unit, 'd) exec" where
  "MOVFC cb c =
     (if cpl c \<noteq> 0 then THROW EX_GP 0 c
      else TRY (fetch8 cb c) (\<lambda>modrm c.
        let r = unat (drop_bit 3 modrm AND 7); rm = unat (modrm AND 7)
        in if r = 0 then Inr (Some (), sreg32 rm (cr0 c) c)
           else if r = 2 then Inr (Some (), sreg32 rm (cr2 c) c)
           else if r = 3 then Inr (Some (), sreg32 rm (cr3 c) c)
           else if r = 4 then Inr (Some (), sreg32 rm 0 c)
           else THROW0 EX_UD c))"

definition MOVFD :: "'d CPU_CB \<Rightarrow> 'd CPU \<Rightarrow> (unit, 'd) exec" where
  "MOVFD cb c = TRY (fetch8 cb c) (\<lambda>modrm c.
     Inr (Some (), sreg32 (unat (modrm AND 7)) (dr c (unat (drop_bit 3 modrm AND 7))) c))"

definition MOVTD :: "'d CPU_CB \<Rightarrow> 'd CPU \<Rightarrow> (unit, 'd) exec" where
  "MOVTD cb c = TRY (fetch8 cb c) (\<lambda>modrm c.
     Inr (Some (), c\<lparr>dr := (dr c)(unat (drop_bit 3 modrm AND 7) := gpr c (unat (modrm AND 7)))\<rparr>))"

definition store_table :: "'d CPU_CB \<Rightarrow> nat option \<Rightarrow> u32 \<Rightarrow> u32 \<Rightarrow> u32 \<Rightarrow> 'd CPU \<Rightarrow> (unit, 'd) exec" where
  "store_table cb s addr lim bs c =
     TRY (translate16 c 2 s addr) (\<lambda>m1 c. TRY (translate32 c 2 s (addr + 2)) (\<lambda>m2 c.
       finish (bind_result (store16 cb c m1 (ucast lim)) (\<lambda>c. store32 cb c m2 bs))))"

definition SGDT :: "'d CPU_CB \<Rightarrow> nat option \<Rightarrow> u32 \<Rightarrow> 'd CPU \<Rightarrow> (unit, 'd) exec" where
  "SGDT cb s addr c = store_table cb s addr (gdt_limit c) (gdt_base c) c"

definition SIDT :: "'d CPU_CB \<Rightarrow> nat option \<Rightarrow> u32 \<Rightarrow> 'd CPU \<Rightarrow> (unit, 'd) exec" where
  "SIDT cb s addr c = store_table cb s addr (idt_limit c) (idt_base c) c"

definition load_table :: "'d CPU_CB \<Rightarrow> bool \<Rightarrow> nat option \<Rightarrow> u32 \<Rightarrow> 'd CPU \<Rightarrow> (u32 \<times> u32, 'd) exec" where
  "load_table cb opsz16 s addr c =
     (if cpl c \<noteq> 0 then THROW EX_GP 0 c
      else TRY (translate16 c 1 s addr) (\<lambda>m1 c. TRY (translate32 c 1 s (addr + 2)) (\<lambda>m2 c.
        bind_result (load16 cb c m1) (\<lambda>(lim, c). bind_result (load32 cb c m2) (\<lambda>(bs, c).
          Inr (Some (ucast lim, if opsz16 then bs AND 0xffffff else bs), c))))))"

definition LGDT :: "'d CPU_CB \<Rightarrow> bool \<Rightarrow> nat option \<Rightarrow> u32 \<Rightarrow> 'd CPU \<Rightarrow> (unit, 'd) exec" where
  "LGDT cb opsz16 s addr c =
     TRY (load_table cb opsz16 s addr c) (\<lambda>(lim, bs) c. Inr (Some (), c\<lparr>gdt_base := bs, gdt_limit := lim\<rparr>))"

definition LIDT :: "'d CPU_CB \<Rightarrow> bool \<Rightarrow> nat option \<Rightarrow> u32 \<Rightarrow> 'd CPU \<Rightarrow> (unit, 'd) exec" where
  "LIDT cb opsz16 s addr c =
     TRY (load_table cb opsz16 s addr c) (\<lambda>(lim, bs) c. Inr (Some (), c\<lparr>idt_base := bs, idt_limit := lim\<rparr>))"

definition LLDT :: "'d CPU_CB \<Rightarrow> u16 \<Rightarrow> 'd CPU \<Rightarrow> (unit, 'd) exec" where
  "LLDT cb v c = (if cpl c \<noteq> 0 then THROW EX_GP 0 c else set_seg cb c SEG_LDT (ucast v))"

definition LTR :: "'d CPU_CB \<Rightarrow> u16 \<Rightarrow> 'd CPU \<Rightarrow> (unit, 'd) exec" where
  "LTR cb v c = (if cpl c \<noteq> 0 then THROW EX_GP 0 c else set_seg cb c SEG_TR (ucast v))"

definition SMSW :: "'d CPU \<Rightarrow> u16" where
  "SMSW c = ucast (cr0 c AND 0xffff)"

definition LMSW :: "u16 \<Rightarrow> 'd CPU \<Rightarrow> (unit, 'd) exec" where
  "LMSW v c =
     (if cpl c \<noteq> 0 then THROW EX_GP 0 c
      else Inr (Some (), c\<lparr>cr0 := (cr0 c AND (NOT 0xf OR 1)) OR (ucast v AND 0xf)\<rparr>))"

definition CLTS :: "'d CPU \<Rightarrow> 'd CPU" where
  "CLTS c = c\<lparr>cr0 := cr0 c AND NOT (push_bit 3 1)\<rparr>"

definition WAIT :: "'d CPU \<Rightarrow> (unit, 'd) exec" where
  "WAIT c = (if cr0 c AND 0xa = 0xa then THROW0 EX_NM c else Inr (Some (), c))"

definition LSEGd_helper :: "'d CPU_CB \<Rightarrow> bool \<Rightarrow> nat \<Rightarrow> nat \<Rightarrow> nat option \<Rightarrow> u32 \<Rightarrow> 'd CPU \<Rightarrow> (unit, 'd) exec" where
  "LSEGd_helper cb adsz16 sg reg so addr0 c =
     (let addr = (if adsz16 then addr0 AND 0xffff else addr0)
      in TRY (translate32 c 1 so addr) (\<lambda>m1 c. TRY (translate16 c 1 so (addr + 4)) (\<lambda>m2 c.
         bind_result (load32 cb c m1) (\<lambda>(r, c). bind_result (load16 cb c m2) (\<lambda>(s, c).
           TRY (set_seg cb c sg (ucast s)) (\<lambda>_ c. Inr (Some (), sreg32 reg r c)))))))"

definition LSEGw_helper :: "'d CPU_CB \<Rightarrow> bool \<Rightarrow> nat \<Rightarrow> nat \<Rightarrow> nat option \<Rightarrow> u32 \<Rightarrow> 'd CPU \<Rightarrow> (unit, 'd) exec" where
  "LSEGw_helper cb adsz16 sg reg so addr0 c =
     (let addr = (if adsz16 then addr0 AND 0xffff else addr0)
      in TRY (translate16 c 1 so addr) (\<lambda>m1 c. TRY (translate16 c 1 so (addr + 2)) (\<lambda>m2 c.
         bind_result (load16 cb c m1) (\<lambda>(r, c). bind_result (load16 cb c m2) (\<lambda>(s, c).
           TRY (set_seg cb c sg (ucast s)) (\<lambda>_ c. Inr (Some (), sreg16 reg r c)))))))"

section \<open>Ports\<close>

text \<open>
  The permission of a port access: by privilege level, else by the bit map of the
  task state segment.  \<open>bits\<close> is the width of the access.
\<close>

definition check_ioperm :: "'d CPU_CB \<Rightarrow> u32 \<Rightarrow> nat \<Rightarrow> 'd CPU \<Rightarrow> (unit, 'd) exec" where
  "check_ioperm cb port bits c0 =
     TRY (if cr0 c0 AND 1 \<noteq> 0 \<and> (get_IOPL c0 < cpl c0 \<or> flags c0 AND VM \<noteq> 0)
          then if 103 \<le> limit (seg c0 SEG_TR)
               then TRY (translate c0 1 (Some SEG_TR) 102 2 0) (\<lambda>oa c.
                      bind_result (load16 cb c oa) (\<lambda>(iobase, c).
                      if ucast iobase + port div 8 < limit (seg c SEG_TR)
                      then TRY (translate c 1 (Some SEG_TR) (ucast iobase + port div 8) 2 0) (\<lambda>oa c.
                             bind_result (load16 cb c oa) (\<lambda>(perm, c).
                             let len = bits div 8; bit_index = unat (port AND 7); m = push_bit len 1 - (1 :: u32)
                             in Inr (Some (drop_bit bit_index (ucast perm) AND m = 0), c)))
                      else Inr (Some False, c)))
               else Inr (Some False, c0)
          else Inr (Some True, c0))
       (\<lambda>allow c. if allow then Inr (Some (), c) else THROW EX_GP 0 c)"

definition INb :: "'d CPU_CB \<Rightarrow> u32 \<Rightarrow> 'd CPU \<Rightarrow> (u8, 'd) exec" where
  "INb cb port c = TRY (check_ioperm cb port 8 c) (\<lambda>_ c.
     let (v, d) = io_read8 cb (dev c) port in Inr (Some v, c\<lparr>dev := d\<rparr>))"

definition INw :: "'d CPU_CB \<Rightarrow> u32 \<Rightarrow> 'd CPU \<Rightarrow> (u16, 'd) exec" where
  "INw cb port c = TRY (check_ioperm cb port 16 c) (\<lambda>_ c.
     let (v, d) = io_read16 cb (dev c) port in Inr (Some v, c\<lparr>dev := d\<rparr>))"

definition INd :: "'d CPU_CB \<Rightarrow> u32 \<Rightarrow> 'd CPU \<Rightarrow> (u32, 'd) exec" where
  "INd cb port c = TRY (check_ioperm cb port 32 c) (\<lambda>_ c.
     let (v, d) = io_read32 cb (dev c) port in Inr (Some v, c\<lparr>dev := d\<rparr>))"

definition OUTb :: "'d CPU_CB \<Rightarrow> u32 \<Rightarrow> u8 \<Rightarrow> 'd CPU \<Rightarrow> (unit, 'd) exec" where
  "OUTb cb port v c = TRY (check_ioperm cb port 8 c) (\<lambda>_ c.
     Inr (Some (), c\<lparr>dev := io_write8 cb (dev c) port v\<rparr>))"

definition OUTw :: "'d CPU_CB \<Rightarrow> u32 \<Rightarrow> u16 \<Rightarrow> 'd CPU \<Rightarrow> (unit, 'd) exec" where
  "OUTw cb port v c = TRY (check_ioperm cb port 16 c) (\<lambda>_ c.
     Inr (Some (), c\<lparr>dev := io_write16 cb (dev c) port v\<rparr>))"

definition OUTd :: "'d CPU_CB \<Rightarrow> u32 \<Rightarrow> u32 \<Rightarrow> 'd CPU \<Rightarrow> (unit, 'd) exec" where
  "OUTd cb port v c = TRY (check_ioperm cb port 32 c) (\<lambda>_ c.
     Inr (Some (), c\<lparr>dev := io_write32 cb (dev c) port v\<rparr>))"

section \<open>Specification vocabulary\<close>

text \<open>Without paging an address is the segment base plus the offset.\<close>

abbreviation (input) "no_paging c \<equiv> cr0 c AND CR0_PG = 0"

text \<open>What translations, loads and stores leave alone.\<close>

definition same_core :: "'d CPU \<Rightarrow> 'd CPU \<Rightarrow> bool" where
  "same_core c c' \<longleftrightarrow> c' = c\<lparr>cr2 := cr2 c', dtlb_fast := dtlb_fast c', tab := tab c', phys_mem := phys_mem c',
     excno := excno c', excerr := excerr c', dev := dev c'\<rparr>"

text \<open>
  Rules to show that an operation keeps a relation between the states before and
  after it, along its structure, for every relation that is reflexive and transitive.
\<close>

definition keeps :: "('d CPU \<Rightarrow> 'd CPU \<Rightarrow> bool) \<Rightarrow> 'd CPU \<Rightarrow> 'd CPU result \<Rightarrow> bool" where
  "keeps R c m \<longleftrightarrow> (\<forall>c'. m = Inr c' \<longrightarrow> R c c')"

definition stays :: "('d CPU \<Rightarrow> 'd CPU \<Rightarrow> bool) \<Rightarrow> 'd CPU \<Rightarrow> ('a \<times> 'd CPU) result \<Rightarrow> bool" where
  "stays R c m \<longleftrightarrow> (\<forall>r c'. m = Inr (r, c') \<longrightarrow> R c c')"

named_theorems frame_rules

text \<open>Accesses in flat memory: the bytes are inside it and no device claims them.\<close>

definition ram :: "'d CPU \<Rightarrow> u32 \<Rightarrow> nat \<Rightarrow> bool" where
  "ram c a n \<longleftrightarrow> \<not> in_iomem a \<and> phys_mem_size c \<le> 0xfffe0000 \<and> unat a + n \<le> unat (phys_mem_size c)"

definition get16 :: "(u32 \<Rightarrow> u8) \<Rightarrow> u32 \<Rightarrow> u16" where
  "get16 m a = ucast (m a) OR push_bit 8 (ucast (m (a + 1)))"

definition put16 :: "u32 \<Rightarrow> u16 \<Rightarrow> (u32 \<Rightarrow> u8) \<Rightarrow> (u32 \<Rightarrow> u8)" where
  "put16 a v m = m(a := ucast v, a + 1 := ucast (drop_bit 8 v))"

definition get32 :: "(u32 \<Rightarrow> u8) \<Rightarrow> u32 \<Rightarrow> u32" where
  "get32 m a = le_value (\<lambda>k. m (a + of_nat k))"

definition put32 :: "u32 \<Rightarrow> u32 \<Rightarrow> (u32 \<Rightarrow> u8) \<Rightarrow> (u32 \<Rightarrow> u8)" where
  "put32 a v = put_bytes (ADDR_OK1 a) v"

text \<open>A 32-bit stack in flat memory.\<close>

definition flat_stack32 :: "'d CPU \<Rightarrow> bool" where
  "flat_stack32 c \<longleftrightarrow> no_paging c \<and> segment_usable c SEG_SS \<and> sp_mask c = 0xffffffff \<and> ram c (base (seg c SEG_SS) + (gpr c 4 - 4)) 4"

section \<open>Frames and flat memory\<close>

lemma TRY_simps [simp]:
  "TRY (Inr (Some x, c)) f = f x c" "TRY (Inr (None, c)) f = Inr (None, c)" "TRY (Inl e) f = Inl e"
  by (simp_all add: TRY_def)

lemma TRY1_simps [simp]:
  "TRY1 (Inr (Some x, c)) f = f x c" "TRY1 (Inr (None, c)) f = Inl Abort" "TRY1 (Inl e) f = Inl e"
  by (simp_all add: TRY1_def)

lemma TRY_eq_Some: "TRY m f = Inr (Some y, c') \<longleftrightarrow> (\<exists>x c. m = Inr (Some x, c) \<and> f x c = Inr (Some y, c'))"
  by (auto simp: TRY_def bind_result_eq_Inr split: option.splits)

lemma TRY1_eq_Some: "TRY1 m f = Inr (Some y, c') \<longleftrightarrow> (\<exists>x c. m = Inr (Some x, c) \<and> f x c = Inr (Some y, c'))"
  by (auto simp: TRY1_def bind_result_eq_Inr split: option.splits)

lemma finish_eq_Some: "finish m = Inr (r, c') \<longleftrightarrow> m = Inr c' \<and> r = Some ()"
  by (auto simp: finish_def bind_result_eq_Inr)

lemma returning_eq: "returning m = Inr (r, c') \<longleftrightarrow> (\<exists>v. r = Some v \<and> m = Inr (v, c'))"
  by (auto simp: returning_def bind_result_eq_Inr)

lemma translate_flat:
  assumes "no_paging c" "segment_usable c s"
  shows "translate c rwm (Some s) a sz cp = Inr (Some (ADDR_OK1 (base (seg c s) + a)), c)"
  using assms by (auto simp: translate_def segcheck_def segment_usable_def translate_laddr_def translate_laddr_with_def)

lemma same_coreI: "c' = c\<lparr>cr2 := x, dtlb_fast := d, tab := t, phys_mem := m, excno := e, excerr := r, dev := y\<rparr> \<Longrightarrow> same_core c c'"
  by (simp add: same_core_def)

lemma same_coreE:
  assumes "same_core c c'"
  obtains x d t m e r y where "c' = c\<lparr>cr2 := x, dtlb_fast := d, tab := t, phys_mem := m, excno := e, excerr := r, dev := y\<rparr>"
  using assms unfolding same_core_def by blast

lemma same_core_refl [simp]: "same_core c c" by (simp add: same_core_def)

lemma same_core_trans [trans]: "same_core a b \<Longrightarrow> same_core b c \<Longrightarrow> same_core a c"
  by (elim same_coreE) (simp add: same_core_def)

lemma same_core_fields:
  assumes "same_core c c'"
  shows "alu c' = alu c" "gpr c' = gpr c" "ip c' = ip c" "next_ip c' = next_ip c" "cpl c' = cpl c" "seg c' = seg c"
    "cr0 c' = cr0 c" "flags_mask c' = flags_mask c" "sp_mask c' = sp_mask c" "gdt_base c' = gdt_base c" "gdt_limit c' = gdt_limit c"
    "idt_base c' = idt_base c" "idt_limit c' = idt_limit c" "phys_mem_size c' = phys_mem_size c" "flags c' = flags c" "ss_mask c' = ss_mask c"
  using assms by (auto elim!: same_coreE simp: flags_def ss_mask_def)

lemma same_core_upd:
  "same_core c (c\<lparr>phys_mem := m\<rparr>)" "same_core c (c\<lparr>tab := t\<rparr>)" "same_core c (c\<lparr>dtlb_fast := d\<rparr>)" "same_core c (c\<lparr>dev := y\<rparr>)"
  "same_core c (page_fault p l rw cp c)"
  by (simp_all add: same_core_def page_fault_def)

lemma frame_leaf [frame_rules]:
  "keeps R c (Inl e)" "stays R c (Inl e)" "R c c' \<Longrightarrow> keeps R c (Inr c')" "R c c' \<Longrightarrow> stays R c (Inr (r, c'))"
  by (simp_all add: keeps_def stays_def)

lemma frame_if [frame_rules]:
  "(b \<Longrightarrow> keeps R c x) \<Longrightarrow> (\<not> b \<Longrightarrow> keeps R c y) \<Longrightarrow> keeps R c (if b then x else y)"
  "(b \<Longrightarrow> stays R c u) \<Longrightarrow> (\<not> b \<Longrightarrow> stays R c v) \<Longrightarrow> stays R c (if b then u else v)"
  by simp_all

lemma frame_pair [frame_rules]: "(\<And>a b. stays R c (f a b x)) \<Longrightarrow> stays R c ((case p of (a, b) \<Rightarrow> f a b) x)"
  by (simp split: prod.split)

lemma frame_pure: "(\<And>x. keeps R c (f x)) \<Longrightarrow> keeps R c (bind_result m f)" "(\<And>x. stays R c (g x)) \<Longrightarrow> stays R c (bind_result m g)"
  by (auto simp: keeps_def stays_def bind_result_eq_Inr)

lemma frame_finish [frame_rules]: "keeps R c m \<Longrightarrow> stays R c (finish m)"
  by (auto simp: keeps_def stays_def finish_eq_Some)

lemma frame_returning [frame_rules]: "stays R c m \<Longrightarrow> stays R c (returning m)"
  by (auto simp: stays_def returning_eq)

locale step_relation =
  fixes R :: "'d CPU \<Rightarrow> 'd CPU \<Rightarrow> bool"
  assumes refl: "R c c" and trans: "R a b \<Longrightarrow> R b c \<Longrightarrow> R a c"
begin

lemma bind_keeps:
  "keeps R c m \<Longrightarrow> (\<And>c'. R c c' \<Longrightarrow> keeps R c' (f c')) \<Longrightarrow> keeps R c (bind_result m f)"
  "keeps R c m \<Longrightarrow> (\<And>c'. R c c' \<Longrightarrow> stays R c' (g c')) \<Longrightarrow> stays R c (bind_result m g)"
  unfolding keeps_def stays_def bind_result_eq_Inr by (blast intro: trans)+

lemma bind_stays:
  "stays R c m \<Longrightarrow> (\<And>r c'. R c c' \<Longrightarrow> keeps R c' (f r c')) \<Longrightarrow> keeps R c (bind_result m (\<lambda>(r, c'). f r c'))"
  "stays R c m \<Longrightarrow> (\<And>r c'. R c c' \<Longrightarrow> stays R c' (g r c')) \<Longrightarrow> stays R c (bind_result m (\<lambda>(r, c'). g r c'))"
  unfolding keeps_def stays_def bind_result_eq_Inr by (force intro: trans)+

lemma try_stays:
  "stays R c m \<Longrightarrow> (\<And>r c'. R c c' \<Longrightarrow> stays R c' (g r c')) \<Longrightarrow> stays R c (TRY m g)"
  unfolding TRY_def by (rule bind_stays, assumption) (auto intro: frame_rules refl split: option.split)

lemma try1_stays:
  "stays R c m \<Longrightarrow> (\<And>r c'. R c c' \<Longrightarrow> stays R c' (g r c')) \<Longrightarrow> stays R c (TRY1 m g)"
  unfolding TRY1_def by (rule bind_stays, assumption) (auto intro: frame_rules refl split: option.split)

lemma after_step: "R c c1 \<Longrightarrow> keeps R c1 m \<Longrightarrow> keeps R c m" "R c c1 \<Longrightarrow> stays R c1 u \<Longrightarrow> stays R c u"
  by (auto simp: keeps_def stays_def intro: trans)

end

interpretation core: step_relation same_core
  by unfold_locales (auto intro: same_core_trans)

lemma core_THROW [frame_rules]: "stays same_core c (THROW ex err c)"
  by (simp add: stays_def THROW_def same_core_def)

lemma core_pstore8 [frame_rules]: "keeps same_core c (pstore8 c a v)"
  unfolding pstore8_def by (intro frame_rules same_core_upd)

lemma core_pstore16 [frame_rules]: "keeps same_core c (pstore16 c a v)"
  unfolding pstore16_def by (intro frame_rules core.bind_keeps)

lemma core_pstore32 [frame_rules]: "keeps same_core c (pstore32 c a v)"
  unfolding pstore32_def by (intro frame_rules core.bind_keeps)

lemma core_refill [frame_rules]: "stays same_core c (tlb_refill c e lp)"
  unfolding tlb_refill_def Let_def
  by (intro frame_rules core.bind_keeps(2) [OF core_pstore8] frame_pure(2)) (auto simp: same_core_def)

lemma core_dirty [frame_rules]: "keeps same_core c (mark_pte_dirty p c)"
  unfolding mark_pte_dirty_def by (cases p) (auto intro!: frame_rules frame_pure)

lemma core_use [frame_rules]: "stays same_core c (use_entry c rwm lp la cp)"
  unfolding use_entry_def Let_def
  by (intro frame_rules core.bind_keeps(2) [OF core_dirty]) (auto simp: same_core_def page_fault_def)

lemma core_translate_lpgno_fast [frame_rules]: "stays same_core c (translate_lpgno_fast c rwm lp la cp)"
proof -
  have d: "keeps same_core c (if \<not> write_dirty d s then bind_result (mark_pte_dirty p c) (\<lambda>c. Inr (c\<lparr>dtlb_fast := x\<rparr>)) else Inr c)" for d s p x
    by (intro frame_rules core.bind_keeps(1) [OF core_dirty]) (simp_all add: same_core_upd)
  have r: "stays same_core c (if b then tlb_refill c e lp else Inr (True, c))" for b e by (intro frame_rules) simp_all
  show ?thesis
    unfolding translate_lpgno_fast_def Let_def
    by (intro frame_if core.bind_keeps(2) [OF d] core.bind_stays(2) [OF r] frame_rules) (auto simp: same_core_upd)
qed

lemma core_translate_laddr [frame_rules]: "stays same_core c (translate_laddr c rwm la sz cp)"
  unfolding translate_laddr_def translate_laddr_with_def Let_def
  by (intro frame_if core.try_stays core_translate_lpgno_fast frame_leaf) simp_all

lemma core_translate [frame_rules]: "stays same_core c (translate c rwm s a sz cp)"
  unfolding translate_def segcheck_def
  by (cases s) (auto intro!: core.try_stays frame_rules)

lemma core_translates [frame_rules]:
  "stays same_core c (translate8 c rwm s a)" "stays same_core c (translate16 c rwm s a)" "stays same_core c (translate32 c rwm s a)"
  by (simp_all add: translate8_def translate16_def translate32_def core_translate)

lemma core_load16 [frame_rules]: "stays same_core c (load16 cb c oa)"
  by (auto simp: load16_def Let_def same_core_upd split: option.split prod.split intro!: frame_rules frame_pure)

lemma core_load32 [frame_rules]: "stays same_core c (load32 cb c oa)"
  by (auto simp: load32_def Let_def same_core_upd split: option.split prod.split intro!: frame_rules frame_pure)

lemma core_store16 [frame_rules]: "keeps same_core c (store16 cb c oa v)"
proof -
  have "keeps same_core c (store_ram16 c oa v)" unfolding store_ram16_def
    by (cases oa) (auto intro!: frame_rules core.bind_keeps(1) [OF core_pstore8])
  then show ?thesis by (auto simp: store16_def same_core_upd split: option.split intro!: frame_rules)
qed

lemma core_store32 [frame_rules]: "keeps same_core c (store32 cb c oa v)"
proof -
  have "keeps same_core c (store_ram32 c oa v)" unfolding store_ram32_def
    by (cases oa) (auto intro!: frame_rules core.bind_keeps(1) [OF core_pstore8] core.bind_keeps(1) [OF core_pstore16])
  then show ?thesis by (auto simp: store32_def same_core_upd split: option.split intro!: frame_rules)
qed

lemma core_read_desc [frame_rules]: "stays same_core c (read_desc cb c s w)"
proof -
  have d: "stays same_core c (desc_load cb c a)" for c :: "'a CPU" and a
    unfolding desc_load_def by (intro core.try_stays frame_returning frame_rules)
  show ?thesis unfolding read_desc_def Let_def by (auto intro!: frame_rules core.try_stays d split: prod.split)
qed

lemma ram_byte: "ram c a n \<Longrightarrow> k < n \<Longrightarrow> a + of_nat k < phys_mem_size c"
proof -
  assume r: "ram c a n" and k: "k < n"
  have "unat (phys_mem_size c) < 2 ^ 32" using unsigned_less [of "phys_mem_size c"] by simp
  moreover have "unat a + k < unat (phys_mem_size c)" using r k by (simp add: ram_def)
  ultimately have "unat (a + of_nat k) = unat a + k" by (simp add: unat_word_ariths unat_of_nat)
  then show ?thesis using \<open>unat a + k < _\<close> by (simp add: word_less_nat_alt)
qed

lemma ram_alias: "ram c a n \<Longrightarrow> k < n \<Longrightarrow> map_bios_alias (a + of_nat k) = a + of_nat k"
proof -
  assume r: "ram c a n" and k: "k < n"
  have "a + of_nat k < phys_mem_size c" by (rule ram_byte [OF r k])
  also have "\<dots> \<le> 0xfffe0000" using r by (simp add: ram_def)
  finally show ?thesis by (auto simp: map_bios_alias_def)
qed

lemma ram_0: "ram c a n \<Longrightarrow> 0 < n \<Longrightarrow> a < phys_mem_size c \<and> map_bios_alias a = a"
  using ram_byte [of c a n 0] ram_alias [of c a n 0] by simp

lemma store16_flat: "ram c a 2 \<Longrightarrow> store16 cb c (ADDR_OK1 a) v = Inr (c\<lparr>phys_mem := put16 a v (phys_mem c)\<rparr>)"
  using ram_0 [of c a 2] ram_byte [of c a 2 1]
  by (auto simp: store16_def store_ram16_def pstore16_def pstore8_def put16_def ram_def split: option.split)

lemma load16_flat: "ram c a 2 \<Longrightarrow> load16 cb c (ADDR_OK1 a) = Inr (get16 (phys_mem c) a, c)"
  using ram_0 [of c a 2] ram_byte [of c a 2 1]
  by (auto simp: load16_def ram16_def pload16_def pload8_def get16_def ram_def Let_def split: option.split)

lemma ram_access_flat: "ram c a 4 \<Longrightarrow> ram_access c (ADDR_OK1 a)"
  using ram_byte [of c a 4] by (simp add: ram_access_def byte_at_def ram_def)

lemma store32_flat: "ram c a 4 \<Longrightarrow> store32 cb c (ADDR_OK1 a) v = Inr (c\<lparr>phys_mem := put32 a v (phys_mem c)\<rparr>)"
  by (simp add: store32_ram ram_access_flat put32_def)

lemma load32_flat: "ram c a 4 \<Longrightarrow> load32 cb c (ADDR_OK1 a) = Inr (get32 (phys_mem c) a, c)"
  by (simp add: load32_ram ram_access_flat get32_def byte_at_def)

lemma get16_put16: "get16 (put16 a v m) a = v"
proof -
  have "a + 1 \<noteq> a" by simp
  then have "get16 (put16 a v m) a = ucast (ucast v :: u8) OR push_bit 8 (ucast (ucast (drop_bit 8 v) :: u8))"
    by (simp add: get16_def put16_def)
  also have "\<dots> = v" by (rule bit_word_eqI) (auto simp: bit_simps)
  finally show ?thesis .
qed

lemma get16_other: "b \<noteq> a \<Longrightarrow> b \<noteq> a + 1 \<Longrightarrow> b + 1 \<noteq> a \<Longrightarrow> get16 (put16 a v m) b = get16 m b"
  by (simp add: get16_def put16_def)

lemma get32_put32: "get32 (put32 a v m) a = v"
proof -
  have i: "inj_on (byte_at (ADDR_OK1 a)) {0, 1, 2, 3}" by (auto simp: inj_on_def byte_at_def)
  have "le_value (\<lambda>k. put_bytes (ADDR_OK1 a) v m (byte_at (ADDR_OK1 a) k)) = le_value (le_byte v)"
    by (rule le_value_cong) (simp add: put_bytes_get(1) [OF i])
  then show ?thesis using le_value_byte [of v] by (simp add: get32_def put32_def byte_at_def)
qed

text \<open>The direct path to the stack does what the general path does.\<close>

lemma direct_translate:
  assumes "stack32_direct_addr c rwm off = Inr (Some a, c1)"
  obtains p where "translate32 c rwm (Some SEG_SS) off = Inr (Some (ADDR_OK1 p), c1)" "a = map_bios_alias p"
    "\<not> in_iomem a" "a < phys_mem_size c1"
proof -
  let ?l = "base (seg c SEG_SS) + off"
  have g: "\<not> (cr0 c AND 1 \<noteq> 0 \<and> limit (seg c SEG_SS) = 0 \<and> sel (seg c SEG_SS) AND NOT 0x3 = 0)" "\<not> 0xffc < ?l AND 0xfff"
    using assms by (auto simp: stack32_direct_addr_def Let_def split: if_splits)
  obtain p where t: "(if cr0 c AND CR0_PG \<noteq> 0 then translate_lpgno_fast c rwm (drop_bit 12 ?l) ?l (cpl c) else Inr (Some ?l, c)) = Inr (Some p, c1)"
      "a = map_bios_alias p" "\<not> in_iomem a" "a < phys_mem_size c1"
    using assms g by (auto simp: stack32_direct_addr_def Let_def TRY_eq_Some not_le split: if_splits)
  have "segcheck c SEG_SS = Inr (Some (), c)" using g(1) by (auto simp: segcheck_def)
  then have "translate32 c rwm (Some SEG_SS) off = Inr (Some (ADDR_OK1 p), c1)"
    using t(1) g(2) by (auto simp: translate32_def translate_def translate_laddr_def translate_laddr_with_def Let_def split: if_splits)
  then show thesis using t that by blast
qed

lemma not_aliased: "a = map_bios_alias p \<Longrightarrow> a < 0xe0000 \<or> 0xfffff < a \<Longrightarrow> p = a"
proof -
  assume a: "a = map_bios_alias p" "a < 0xe0000 \<or> 0xfffff < a"
  show "p = a"
  proof (rule ccontr)
    assume "p \<noteq> a"
    then have p: "0xfffe0000 \<le> p" "a = p AND 0xfffff" using a(1) by (auto simp: map_bios_alias_def split: if_splits)
    have "a \<le> 0xfffff" using p(2) by (simp add: word_and_le1)
    moreover have "0xe0000 \<le> a"
    proof -
      have m: "(0xfffff :: u32) = mask 20" by (simp add: mask_eq_exp_minus_1)
      have u: "unat (p AND 0xfffff) = unat p mod 2 ^ 20"
        unfolding m take_bit_eq_mask [symmetric] unsigned_take_bit_eq by (simp add: take_bit_eq_mod)
      have "unat p < 2 ^ LENGTH(32)" by (rule unsigned_less)
      moreover have "0xfffe0000 \<le> unat p" using p(1) by (simp add: word_le_nat_alt)
      ultimately obtain r where "unat p = r + 2 ^ 20 * 0xfff" "0xe0000 \<le> r" "r < 2 ^ 20"
        by (intro that [of "unat p - 0xfff00000"]) simp_all
      then have "0xe0000 \<le> unat p mod 2 ^ 20" by (simp only: mod_mult_self2 mod_less)
      then show ?thesis unfolding p(2) word_le_nat_alt u by simp
    qed
    ultimately show False using a(2) by auto
  qed
qed

lemma fast_push32_direct:
  assumes "stack32_direct_addr c 2 ((gpr c 4 - 4) AND sp_mask c) = Inr (Some a, c1)" "a < 0xe0000 \<or> 0xfffff < a"
  shows "fast_push32 cb v c = push32 cb v c"
proof -
  obtain p where t: "translate32 c 2 (Some SEG_SS) ((gpr c 4 - 4) AND sp_mask c) = Inr (Some (ADDR_OK1 p), c1)"
      "a = map_bios_alias p" "\<not> in_iomem a" "a < phys_mem_size c1"
    by (rule direct_translate [OF assms(1)])
  have p: "p = a" by (rule not_aliased [OF t(2) assms(2)])
  have "phys_mem_size (set_sp x m c1) = phys_mem_size c1" for x m by (simp add: set_sp_def sreg32_def)
  then have "store32 cb (set_sp x m c1) (ADDR_OK1 a) v = pstore32 (set_sp x m c1) a v" for x m
    using t(3,4) by (auto simp: store32_def store_ram32_def not_le split: option.split)
  then show ?thesis using assms(1) t(1) p by (simp add: fast_push32_def push32_def Let_def)
qed

lemma fast_load32_direct:
  assumes "stack32_direct_addr c 1 (gpr c 4 AND sp_mask c) = Inr (Some a, c1)"
  shows "fast_stack_load32 cb c = stack_load32 cb c"
proof -
  obtain p where t: "translate32 c 1 (Some SEG_SS) (gpr c 4 AND sp_mask c) = Inr (Some (ADDR_OK1 p), c1)"
      "a = map_bios_alias p" "\<not> in_iomem a" "a < phys_mem_size c1"
    by (rule direct_translate [OF assms])
  have "load32 cb c1 (ADDR_OK1 p) = bind_result (pload32 c1 a) (\<lambda>v. Inr (v, c1))"
    using t(2-4) by (auto simp: load32_def ram32_def Let_def not_le split: option.split)
  then show ?thesis using assms t(1)
    by (cases "pload32 c1 a") (simp_all add: fast_stack_load32_def stack_load32_def returning_def)
qed

lemma full_mask: "(v :: u32) AND 0xffffffff = v" "(v :: u32) AND NOT 0xffffffff = 0"
proof -
  have m: "(0xffffffff :: u32) = mask 32" by (simp add: mask_eq_exp_minus_1)
  show "v AND 0xffffffff = v" unfolding m by (rule bit_word_eqI) (simp add: bit_simps)
  show "v AND NOT 0xffffffff = 0" unfolding m by (rule bit_word_eqI) (simp add: bit_simps)
qed

lemma set_sp_full: "set_sp v 0xffffffff c = sreg32 4 v c"
  unfolding set_sp_def full_mask by simp

lemma store_flat32:
  assumes "no_paging c" "segment_usable c SEG_SS" "ram c (base (seg c SEG_SS) + a) 4"
  shows "TRY (translate32 c 2 (Some SEG_SS) a) (\<lambda>oa c. finish (store32 cb (sreg32 i v c) oa w)) =
    Inr (Some (), (sreg32 i v c)\<lparr>phys_mem := put32 (base (seg c SEG_SS) + a) w (phys_mem c)\<rparr>)"
proof -
  have "ram (sreg32 i v c) (base (seg c SEG_SS) + a) 4" using assms(3) by (simp add: ram_def sreg32_def)
  then show ?thesis using assms(1,2)
    by (simp add: translate32_def translate_flat finish_def store32_flat) (simp add: sreg32_def)
qed

lemma enter_loop_flat:
  assumes "no_paging c" "segment_usable c SEG_SS" "ram c (base (seg c SEG_SS) + (sp - 4)) 4"
  shows "\<exists>g mm. enter_loop cb False 0xffffffff sp n c = Inr (Some (), c\<lparr>gpr := g, phys_mem := mm\<rparr>)"
  using assms
proof (induction n arbitrary: c)
  case 0
  then show ?case by (intro exI [of _ "gpr c"] exI [of _ "phys_mem c"]) simp
next
  case (Suc n)
  define c1 where "c1 = dec_bp 0xffffffff 4 c"
  have c1: "c1 = c\<lparr>gpr := gpr c1\<rparr>" by (simp add: c1_def dec_bp_def sreg32_def)
  have f: "no_paging c1" "segment_usable c1 SEG_SS" "ram c1 (base (seg c1 SEG_SS) + (sp - 4)) 4" "base (seg c1 SEG_SS) = base (seg c SEG_SS)"
    using Suc.prems by (subst c1, simp add: segment_usable_def ram_def)+
  define c2 where "c2 = (sreg32 4 (sp - 4) c1)\<lparr>phys_mem := put32 (base (seg c1 SEG_SS) + (sp - 4)) (gpr c1 5) (phys_mem c1)\<rparr>"
  have st: "TRY (translate32 c1 2 (Some SEG_SS) ((sp - 4) AND 0xffffffff))
      (\<lambda>oa c. finish (store32 cb (set_sp (sp - 4) 0xffffffff c) oa (gpr c 5))) = Inr (Some (), c2)"
  proof -
    have "translate32 c1 2 (Some SEG_SS) (sp - 4) = Inr (Some (ADDR_OK1 (base (seg c1 SEG_SS) + (sp - 4))), c1)"
      using f by (simp add: translate32_def translate_flat)
    moreover have "ram (sreg32 4 (sp - 4) c1) (base (seg c1 SEG_SS) + (sp - 4)) 4" using f by (simp add: ram_def sreg32_def)
    ultimately show ?thesis
      unfolding full_mask(1) set_sp_full by (simp add: finish_def store32_flat c2_def) (simp add: sreg32_def)
  qed
  have c2: "c2 = c\<lparr>gpr := gpr c2, phys_mem := phys_mem c2\<rparr>" unfolding c2_def by (subst (2) c1) (simp add: sreg32_def)
  have "no_paging c2" "segment_usable c2 SEG_SS" "ram c2 (base (seg c2 SEG_SS) + (sp - 4)) 4"
    using Suc.prems by (subst c2, simp add: segment_usable_def ram_def)+
  then obtain g mm where ih: "enter_loop cb False 0xffffffff sp n c2 = Inr (Some (), c2\<lparr>gpr := g, phys_mem := mm\<rparr>)"
    using Suc.IH [of c2] by blast
  have "enter_loop cb False 0xffffffff sp (Suc n) c = enter_loop cb False 0xffffffff sp n c2"
    unfolding enter_loop.simps if_False c1_def [symmetric] st by simp
  also have "\<dots> = Inr (Some (), c\<lparr>gpr := g, phys_mem := mm\<rparr>)" unfolding ih by (subst c2) simp
  finally show ?case by blast
qed

lemma ENTER_flat:
  assumes "flat_stack32 c"
  obtains g mm where "ENTER cb False n lvl c = Inr (Some (), c\<lparr>gpr := g, phys_mem :=
      put32 (base (seg c SEG_SS) + (gpr c 4 - 4)) (if unat lvl mod 32 = 0 then gpr c 5 else gpr c 4 - 4) mm\<rparr>)"
    "g 5 = gpr c 4 - 4"
proof -
  let ?sp = "gpr c 4" and ?a = "base (seg c SEG_SS) + (gpr c 4 - 4)"
  have f: "no_paging c" "segment_usable c SEG_SS" "sp_mask c = 0xffffffff" "ram c ?a 4" using assms by (simp_all add: flat_stack32_def)
  have tr: "translate32 x 2 (Some SEG_SS) (?sp - 4) = Inr (Some (ADDR_OK1 ?a), x)"
    if "x = c\<lparr>gpr := h, phys_mem := m\<rparr>" for x h m
    using f that by (simp add: translate32_def translate_flat segment_usable_def)
  have st: "store32 cb x (ADDR_OK1 ?a) v = Inr (x\<lparr>phys_mem := put32 ?a v (phys_mem x)\<rparr>)"
    if "x = c\<lparr>gpr := h, phys_mem := m\<rparr>" for x v h m
    using f(4) that by (intro store32_flat) (simp add: ram_def)
  have t0: "translate32 c 2 (Some SEG_SS) (?sp - 4) = Inr (Some (ADDR_OK1 ?a), c)" using tr [where x = c and h = "gpr c" and m = "phys_mem c"] by simp
  show thesis
  proof (cases "unat lvl mod 32 = 0")
    case True
    define c1 where "c1 = sreg32 4 (?sp - 4 - ucast n) c"
    have "c1 = c\<lparr>gpr := gpr c1, phys_mem := phys_mem c\<rparr>" by (simp add: c1_def sreg32_def)
    note s = st [OF this]
    have "ENTER cb False n lvl c = Inr (Some (), sreg32 5 (?sp - 4) (c1\<lparr>phys_mem := put32 ?a (gpr c 5) (phys_mem c1)\<rparr>))"
      unfolding ENTER_def Let_def f(3) full_mask set_sp_full using True t0 s by (simp add: c1_def)
    then show thesis using True
      by (intro that [where g = "(gpr c1)(5 := ?sp - 4)" and mm = "phys_mem c"]) (simp_all add: c1_def sreg32_def)
  next
    case False
    define c1 where "c1 = (sreg32 4 (?sp - 4) c)\<lparr>phys_mem := put32 ?a (gpr c 5) (phys_mem c)\<rparr>"
    have s1: "store32 cb (sreg32 4 (?sp - 4) c) (ADDR_OK1 ?a) (gpr c 5) = Inr c1"
      using st [where x = "sreg32 4 (?sp - 4) c" and h = "(gpr c)(4 := ?sp - 4)" and m = "phys_mem c" and v = "gpr c 5"] by (simp add: sreg32_def c1_def)
    have c1: "c1 = c\<lparr>gpr := gpr c1, phys_mem := phys_mem c1\<rparr>" "gpr c1 4 = ?sp - 4" by (simp_all add: c1_def sreg32_def)
    have "no_paging c1" "segment_usable c1 SEG_SS" "ram c1 (base (seg c1 SEG_SS) + (?sp - 4)) 4"
      using f by (subst c1(1), simp add: segment_usable_def ram_def)+
    then obtain g mm where l: "enter_loop cb False 0xffffffff ?sp (unat lvl mod 32 - 1) c1 = Inr (Some (), c1\<lparr>gpr := g, phys_mem := mm\<rparr>)"
      using enter_loop_flat by blast
    define c2 where "c2 = c1\<lparr>gpr := g, phys_mem := mm\<rparr>"
    have c2: "c2 = c\<lparr>gpr := g, phys_mem := mm\<rparr>" unfolding c2_def by (subst c1(1)) simp
    define c3 where "c3 = sreg32 4 (?sp - 4 - ucast n) c2"
    have c3: "c3 = c\<lparr>gpr := g(4 := ?sp - 4 - ucast n), phys_mem := mm\<rparr>" by (simp add: c3_def c2 sreg32_def)
    have "ENTER cb False n lvl c = Inr (Some (), sreg32 5 (?sp - 4) (c3\<lparr>phys_mem := put32 ?a (?sp - 4) mm\<rparr>))"
      unfolding ENTER_def enter_helper_def Let_def f(3) full_mask set_sp_full
      using False t0 s1 l tr [OF c2] st [OF c3] c1(2) by (simp flip: c2_def c3_def) (simp add: c3)
    then show thesis using False
      by (intro that [where g = "g(4 := ?sp - 4 - ucast n, 5 := ?sp - 4)" and mm = mm]) (simp_all add: c3 sreg32_def)
  qed
qed

lemma LEAVE_flat:
  assumes "no_paging c" "segment_usable c SEG_SS" "sp_mask c = 0xffffffff" "ram c (base (seg c SEG_SS) + gpr c 5) 4"
  shows "LEAVE cb False c =
    Inr (Some (), sreg32 5 (get32 (phys_mem c) (base (seg c SEG_SS) + gpr c 5)) (sreg32 4 (gpr c 5 + 4) c))"
proof -
  have "ram (sreg32 4 (gpr c 5 + 4) c) (base (seg c SEG_SS) + gpr c 5) 4" using assms(4) by (simp add: ram_def sreg32_def)
  then show ?thesis using assms(1,2)
    unfolding LEAVE_def Let_def assms(3) full_mask set_sp_full
    by (simp add: translate32_def translate_flat load32_flat) (simp add: sreg32_def)
qed

lemma enter_leave_flat:
  assumes "flat_stack32 c"
  shows "\<exists>c1 c2. ENTER cb False n lvl c = Inr (Some (), c1) \<and> LEAVE cb False c1 = Inr (Some (), c2) \<and>
    gpr c2 4 = gpr c 4 \<and> gpr c2 5 = (if unat lvl mod 32 = 0 then gpr c 5 else gpr c 4 - 4)"
proof -
  obtain g mm where e: "ENTER cb False n lvl c = Inr (Some (), c\<lparr>gpr := g, phys_mem :=
      put32 (base (seg c SEG_SS) + (gpr c 4 - 4)) (if unat lvl mod 32 = 0 then gpr c 5 else gpr c 4 - 4) mm\<rparr>)" "g 5 = gpr c 4 - 4"
    by (rule ENTER_flat [OF assms])
  define c1 where "c1 = c\<lparr>gpr := g, phys_mem :=
      put32 (base (seg c SEG_SS) + (gpr c 4 - 4)) (if unat lvl mod 32 = 0 then gpr c 5 else gpr c 4 - 4) mm\<rparr>"
  have f: "no_paging c1" "segment_usable c1 SEG_SS" "sp_mask c1 = 0xffffffff" "ram c1 (base (seg c1 SEG_SS) + gpr c1 5) 4"
    using assms e(2) by (simp_all add: flat_stack32_def c1_def segment_usable_def ram_def)
  have "get32 (phys_mem c1) (base (seg c1 SEG_SS) + gpr c1 5) = (if unat lvl mod 32 = 0 then gpr c 5 else gpr c 4 - 4)"
    by (simp add: c1_def e(2) get32_put32)
  then have "LEAVE cb False c1 = Inr (Some (), sreg32 5 (if unat lvl mod 32 = 0 then gpr c 5 else gpr c 4 - 4) (sreg32 4 (gpr c1 5 + 4) c1))"
    using LEAVE_flat [OF f] by simp
  moreover have "gpr c1 5 = gpr c 4 - 4" by (simp add: c1_def e(2))
  moreover have "ENTER cb False n lvl c = Inr (Some (), c1)" using e(1) by (simp only: c1_def)
  ultimately show ?thesis by - (rule exI [of _ c1], simp add: sreg32_def)
qed

text \<open>The flags that \<open>POPF\<close> may not touch.\<close>

lemma merge_bit: "bit m n \<Longrightarrow> bit (((a AND m) OR (b AND NOT m)) :: u32) n = bit a n"
  by (auto simp: bit_simps)

lemma POPF_bits:
  assumes "POPF cb w c = Inr (Some (), c')" "bit (flags_mask c) n" "n \<noteq> 1"
    "bit (VM OR (if cr0 c AND 1 \<noteq> 0 then protected_flags c else 0)) n"
  shows "bit (flags c') n = bit (flags c) n"
proof -
  define m where "m = VM OR (if cr0 c AND 1 \<noteq> 0 then protected_flags c else 0)"
  have bm: "bit m n" using assms(4) by (simp add: m_def)
  have ld: "stays same_core c (stack_load16 cb c)" "stays same_core c (stack_load32 cb c)"
    unfolding stack_load16_def stack_load32_def by (intro core.try_stays frame_rules)+
  have fl: "flags (clear_ccmask (set_flags x y)) = x" "flags (add_sp k y) = flags y" "flags_mask (add_sp k y) = flags_mask y" for x k and y :: "'a CPU"
    by (simp_all add: flags_def clear_ccmask_def set_flags_def add_sp_def set_sp_def sreg32_def)
  have "bit (2 :: u32) n \<longleftrightarrow> n = 1" using bit_exp_iff [of 1 n, where 'a = "32 word"] by auto
  then have b2: "bit ((x AND flags_mask c) OR 2) n = bit x n" for x :: u32 using assms(2,3) by (simp add: bit_simps)
  show ?thesis
  proof (cases w)
    case True
    then obtain v c1 where v: "stack_load16 cb c = Inr (Some v, c1)"
        "flags c' = ((((flags c1 AND (0xffff0000 OR m)) OR (ucast v AND NOT m)) AND flags_mask c1) OR 2)"
      using assms(1) by (auto simp: POPF_def Let_def TRY_eq_Some THROW_def fl m_def split: if_splits)
    have s: "same_core c c1" using ld(1) v(1) by (simp add: stays_def)
    have "bit (((flags c AND (0xffff0000 OR m)) OR (ucast v AND NOT m))) n = bit (flags c) n" using bm by (auto simp: bit_simps)
    then show ?thesis unfolding v(2) same_core_fields [OF s] b2 .
  next
    case False
    then obtain v c1 where v: "stack_load32 cb c = Inr (Some v, c1)"
        "flags c' = ((((flags c1 AND m) OR (v AND NOT m)) AND flags_mask c1) OR 2)"
      using assms(1) by (auto simp: POPF_def Let_def TRY_eq_Some THROW_def fl m_def split: if_splits)
    have s: "same_core c c1" using ld(2) v(1) by (simp add: stays_def)
    then show ?thesis unfolding v(2) same_core_fields [OF s] b2 using bm by (simp only: merge_bit)
  qed
qed

section \<open>Properties\<close>

text \<open>A machine in real mode with a flat 32-bit stack.\<close>

definition demo_flat :: "unit CPU" where
  "demo_flat = demo_cpu\<lparr>cr0 := 0, cpl := 0, sp_mask := 0xffffffff, flags_mask := 0x37fd7, gpr := (\<lambda>_. 0)(4 := 0x3000, 5 := 0x55)\<rparr>"

text \<open>
  C31: the direct path that 32-bit pushes, pops, near calls and near returns take to the stack does what
  the general path does: translate, move the stack pointer and access memory
  through the device window.  Where a direct address is found outside the ROM
  alias, or where looking for one changes nothing, the instructions equal their
  versions by the general path in every result, fault and state.
\<close>

theorem fast_stack_path:
  assumes "stack32_direct_addr c 2 ((gpr c 4 - 4) AND sp_mask c) = Inr (p, c1)" "case p of None \<Rightarrow> c1 = c | Some a \<Rightarrow> a < 0xe0000 \<or> 0xfffff < a"
    "stack32_direct_addr c 1 (gpr c 4 AND sp_mask c) = Inr (q, c2)" "q = None \<Longrightarrow> c2 = c"
  shows "PUSHd cb v c = push32 cb v c \<and>
    CALLd cb d c = TRY (push32 cb (next_ip c) c) (\<lambda>_ c. Inr (Some (), c\<lparr>next_ip := next_ip c + d\<rparr>)) \<and>
    CALLABSd cb a c = TRY (push32 cb (next_ip c) c) (\<lambda>_ c. Inr (Some (), c\<lparr>next_ip := a\<rparr>)) \<and>
    POPRegd cb r c = TRY (stack_load32 cb c) (\<lambda>v c. Inr (Some (), sreg32 r v (add_sp 4 c))) \<and>
    RETw cb False i c = TRY (stack_load32 cb c) (\<lambda>v c. Inr (Some (), (add_sp (4 + ucast i) c)\<lparr>next_ip := v\<rparr>))"
proof -
  have "fast_push32 cb v c = push32 cb v c" for v
  proof (cases p)
    case None
    then show ?thesis using assms(1,2) by (simp add: fast_push32_def push32_def Let_def)
  next
    case (Some a)
    then show ?thesis using assms(1,2) by (intro fast_push32_direct) auto
  qed
  moreover have "fast_stack_load32 cb c = stack_load32 cb c"
  proof (cases q)
    case None
    then show ?thesis using assms(3,4) by (simp add: fast_stack_load32_def)
  next
    case (Some a)
    then show ?thesis using assms(3) by (intro fast_load32_direct) auto
  qed
  moreover have "add_sp k (JMPABS v x) = (add_sp k x)\<lparr>next_ip := v\<rparr>" for k v and x :: "'a CPU"
    by (cases x) (simp add: JMPABS_def add_sp_def set_sp_def sreg32_def)
  ultimately show ?thesis by (simp add: PUSHd_def CALLd_def CALLABSd_def POPRegd_def RETw_def jump_rel_def) (simp add: JMPABS_def)
qed

theorem fast_stack_path_witness:
  "PUSHd demo_cb 7 demo_flat = push32 demo_cb 7 demo_flat \<and> stack32_direct_addr demo_flat 2 0x2ffc = Inr (Some 0x2ffc, demo_flat)"
proof -
  have m: "(v :: u32) AND 0xffffffff = v" for v by (rule full_mask)
  have s: "gpr demo_flat 4 = 0x3000" "sp_mask demo_flat = 0xffffffff" by (simp_all add: demo_flat_def)
  have d: "stack32_direct_addr demo_flat w a = Inr (Some a, demo_flat)" if "a \<in> {0x2ffc, 0x3000}" for w a
    using that by (auto simp: stack32_direct_addr_def demo_flat_def demo_cpu_def Let_def map_bios_alias_def in_iomem_def)
  show ?thesis
    using fast_stack_path [of demo_flat "Some 0x2ffc" demo_flat "Some 0x3000" demo_flat demo_cb 7] d
    by (simp add: s m)
qed

text \<open>
  C33: with 32-bit operands on a flat 32-bit stack without paging, \<open>ENTER\<close> with nesting
  level 0 and \<open>LEAVE\<close> restore the frame and the stack
  pointer; with a nesting level above 0 the saved frame pointer is overwritten:
  every push of the helper goes to the same slot, and \<open>LEAVE\<close> returns the
  address of the frame instead of the frame pointer of the caller.
\<close>

theorem enter_leave:
  assumes "flat_stack32 c"
  shows "\<exists>c1 c2. ENTER cb False n lvl c = Inr (Some (), c1) \<and> LEAVE cb False c1 = Inr (Some (), c2) \<and>
    gpr c2 4 = gpr c 4 \<and> gpr c2 5 = (if unat lvl mod 32 = 0 then gpr c 5 else gpr c 4 - 4)"
  using assms by (rule enter_leave_flat)

theorem enter_leave_witness:
  "(\<exists>c1 c2. ENTER demo_cb False 16 0 demo_flat = Inr (Some (), c1) \<and> LEAVE demo_cb False c1 = Inr (Some (), c2) \<and> gpr c2 5 = 0x55) \<and>
   (\<exists>c1 c2. ENTER demo_cb False 16 2 demo_flat = Inr (Some (), c1) \<and> LEAVE demo_cb False c1 = Inr (Some (), c2) \<and> gpr c2 5 = 0x2ffc)"
proof -
  have "flat_stack32 demo_flat"
    by (simp add: flat_stack32_def demo_flat_def demo_cpu_def segment_usable_def ram_def in_iomem_def)
  moreover have "gpr demo_flat 5 = 0x55" "gpr demo_flat 4 = 0x3000" by (simp_all add: demo_flat_def)
  ultimately show ?thesis using enter_leave [of demo_flat demo_cb 16 0] enter_leave [of demo_flat demo_cb 16 2] by auto
qed

text \<open>
  C32: \<open>POPF\<close> respects the privilege level.  At either operand size it never changes
  the virtual 8086 flag, outside level 0 of protected mode it never changes the I/O
  privilege level, and where the I/O privilege level does not cover the current
  one it leaves the interrupt flag alone.
\<close>

theorem popf_privilege:
  assumes "POPF cb w c = Inr (Some (), c')" "\<And>n. n \<in> {9, 12, 13, 17} \<Longrightarrow> bit (flags_mask c) n" "cr0 c AND 1 \<noteq> 0"
  shows "bit (flags c') 17 = bit (flags c) 17 \<and>
    (0 < cpl c \<longrightarrow> bit (flags c') 12 = bit (flags c) 12 \<and> bit (flags c') 13 = bit (flags c) 13) \<and>
    (get_IOPL c < cpl c \<longrightarrow> bit (flags c') 9 = bit (flags c) 9)"
proof -
  have "bit (flags c') n = bit (flags c) n" if "n \<in> {9, 12, 13, 17}" "bit (VM OR protected_flags c) n" for n
    using POPF_bits [OF assms(1) assms(2) [OF that(1)]] that assms(3) by auto
  then show ?thesis by (auto simp: protected_flags_def bit_simps)
qed

theorem popf_privilege_witness:
  "\<exists>c'. POPF demo_cb False (demo_flat\<lparr>cr0 := 1, cpl := 3, phys_mem := put32 0x3000 0x23202 demo_mem\<rparr>) = Inr (Some (), c') \<and>
     \<not> bit (flags c') 17 \<and> \<not> bit (flags c') 12 \<and> \<not> bit (flags c') 9"
proof -
  let ?c = "demo_flat\<lparr>cr0 := 1, cpl := 3, phys_mem := put32 0x3000 0x23202 demo_mem\<rparr>"
  have m: "(v :: u32) AND 0xffffffff = v" for v by (rule full_mask)
  have r: "ram ?c 0x3000 4" "base (seg ?c SEG_SS) = 0" "gpr ?c 4 = 0x3000" "sp_mask ?c = 0xffffffff" "get_IOPL ?c = 0" "flags ?c = 2"
      "flags_mask ?c = 0x37fd7" "cpl ?c = 3" "cr0 ?c = 1"
    by (simp_all add: ram_def demo_flat_def demo_cpu_def in_iomem_def get_IOPL_def flags_def)
  have "segment_usable ?c SEG_SS" by (simp add: segment_usable_def demo_flat_def demo_cpu_def)
  then have "stack_load32 demo_cb ?c = Inr (Some (get32 (phys_mem ?c) 0x3000), ?c)"
    unfolding stack_load32_def translate32_def r m using load32_flat [OF r(1), of demo_cb] r
    by (subst translate_flat) (simp_all add: returning_def demo_flat_def)
  then obtain c' where c': "POPF demo_cb False ?c = Inr (Some (), c')"
    by (simp add: POPF_def r Let_def)
  have "n \<in> {9, 12, 13, 17} \<Longrightarrow> bit (flags_mask ?c) n" for n :: nat unfolding r by (auto simp: bit_iff_odd_drop_bit)
  then show ?thesis using popf_privilege [OF c'] c' r by (auto simp: bit_iff_odd_drop_bit)
qed

end
