(* ===== verification/Control.thy ===== *)
theory Control
  imports Stack
begin

text \<open>
  Transfers of control between segments, privilege levels and tasks (\<open>i386.c\<close>):
  interrupts and exceptions, far calls and jumps through descriptors and gates,
  far returns and \<open>IRET\<close>, task switches, and the step of the processor.  A
  \<open>TRY1\<close> that fails and \<open>cpu_abort\<close> end the emulator: the fault \<open>Abort\<close>.
\<close>

section \<open>Task switch\<close>

abbreviation (input) "EX_DF \<equiv> (8 :: nat)"
abbreviation (input) "EX_TS \<equiv> (10 :: nat)"

datatype sw_type = TS_JMP | TS_CALL | TS_IRET

definition is_tss32 :: "'d CPU \<Rightarrow> bool" where
  "is_tss32 c = (let t = sflags (seg c SEG_TR) AND 0xf in t = 9 \<or> t = 11)"

definition tss_store :: "'d CPU_CB \<Rightarrow> u32 \<Rightarrow> u32 \<Rightarrow> 'd CPU \<Rightarrow> (unit, 'd) exec" where
  "tss_store cb off v c = TRY1 (translate c 2 (Some SEG_TR) off 4 0) (\<lambda>oa c. finish (store32 cb c oa v))"

definition tss_load :: "'d CPU_CB \<Rightarrow> u32 \<Rightarrow> 'd CPU \<Rightarrow> (u32, 'd) exec" where
  "tss_load cb off c = TRY1 (translate c 1 (Some SEG_TR) off 4 0) (\<lambda>oa c. returning (load32 cb c oa))"

fun tss_save_regs :: "'d CPU_CB \<Rightarrow> nat list \<Rightarrow> 'd CPU \<Rightarrow> (unit, 'd) exec" where
  "tss_save_regs cb [] c = Inr (Some (), c)"
| "tss_save_regs cb (i # is) c = TRY (tss_store cb (0x28 + 4 * of_nat i) (gpr c i) c) (\<lambda>_. tss_save_regs cb is)"

fun tss_save_segs :: "'d CPU_CB \<Rightarrow> nat list \<Rightarrow> 'd CPU \<Rightarrow> (unit, 'd) exec" where
  "tss_save_segs cb [] c = Inr (Some (), c)"
| "tss_save_segs cb (i # is) c = TRY (tss_store cb (0x48 + 4 * of_nat i) (sel (seg c i)) c) (\<lambda>_. tss_save_segs cb is)"

fun tss_load_regs :: "'d CPU_CB \<Rightarrow> nat list \<Rightarrow> 'd CPU \<Rightarrow> (unit, 'd) exec" where
  "tss_load_regs cb [] c = Inr (Some (), c)"
| "tss_load_regs cb (i # is) c = TRY (tss_load cb (0x28 + 4 * of_nat i) c) (\<lambda>v c. tss_load_regs cb is (sreg32 i v c))"

fun tss_load_segs :: "'d CPU_CB \<Rightarrow> nat list \<Rightarrow> 'd CPU \<Rightarrow> (unit, 'd) exec" where
  "tss_load_segs cb [] c = Inr (Some (), c)"
| "tss_load_segs cb (i # is) c =
     TRY (tss_load cb (0x48 + 4 * of_nat i) c) (\<lambda>v c. TRY1 (set_seg cb c i v) (\<lambda>_. tss_load_segs cb is))"

definition update_busy :: "'d CPU_CB \<Rightarrow> u32 \<Rightarrow> (u32 \<Rightarrow> u32) \<Rightarrow> 'd CPU \<Rightarrow> (unit, 'd) exec" where
  "update_busy cb s f c =
     TRY1 (translate_laddr c 3 (gdt_base c + (s AND NOT 0x7) + 4) 4 0) (\<lambda>oa c.
       bind_result (load32 cb c oa) (\<lambda>(v, c). finish (store32 cb c oa (f v))))"

definition task_save :: "'d CPU_CB \<Rightarrow> sw_type \<Rightarrow> 'd CPU \<Rightarrow> (unit, 'd) exec" where
  "task_save cb sw c =
     TRY (tss_store cb 0x20 (next_ip c) c) (\<lambda>_ c.
     bind_result (cpu_refresh_flags c) (\<lambda>c.
     TRY (tss_store cb 0x24 (if sw = TS_IRET then flags c AND NOT NT else flags c) c) (\<lambda>_ c.
     TRY (tss_save_regs cb [0..<8] c) (\<lambda>_ c.
     TRY (tss_save_segs cb [0..<6] c) (\<lambda>_ c.
       if sw = TS_JMP \<or> sw = TS_IRET then update_busy cb (sel (seg c SEG_TR)) (\<lambda>v. v AND NOT (push_bit 9 1)) c
       else Inr (Some (), c))))))"

definition task_load :: "'d CPU_CB \<Rightarrow> u32 \<Rightarrow> sw_type \<Rightarrow> 'd CPU \<Rightarrow> (unit, 'd) exec" where
  "task_load cb oldtss sw c =
     TRY (tss_load cb 0x60 c) (\<lambda>ldt c. TRY1 (set_seg cb c SEG_LDT ldt) (\<lambda>_ c.
     TRY (tss_load_regs cb [0..<8] c) (\<lambda>_ c.
     TRY (tss_load_segs cb [0..<6] c) (\<lambda>_ c.
     TRY (tss_load cb 0x20 c) (\<lambda>eip c.
     TRY (tss_load cb 0x24 (c\<lparr>next_ip := eip\<rparr>)) (\<lambda>fl c.
     let c = set_flags ((fl AND flags_mask c) OR 2) c
     in TRY (if sw = TS_CALL then TRY (tss_store cb 0 oldtss c) (\<lambda>_ c. Inr (Some (), set_flags (flags c OR NT) c))
             else Inr (Some (), c)) (\<lambda>_ c.
        TRY (tss_load cb 0x1c c) (\<lambda>pdbr c. Inr (Some (), tlb_clear (c\<lparr>cr3 := pdbr\<rparr>))))))))))"

definition task_switch :: "'d CPU_CB \<Rightarrow> u32 \<Rightarrow> sw_type \<Rightarrow> 'd CPU \<Rightarrow> (unit, 'd) exec" where
  "task_switch cb tss sw c =
     (let oldtss = sel (seg c SEG_TR)
      in if \<not> is_tss32 c then Inl Assertion
         else TRY (task_save cb sw c) (\<lambda>_ c.
           TRY1 (set_seg cb c SEG_TR tss) (\<lambda>_ c.
           if \<not> is_tss32 c then Inl Assertion
           else TRY (if sw = TS_JMP \<or> sw = TS_CALL
                     then TRY (update_busy cb tss (\<lambda>v. v OR push_bit 9 1) c) (\<lambda>_ c.
                       Inr (Some (), c\<lparr>seg := (seg c)(SEG_TR := (seg c SEG_TR)\<lparr>sflags := sflags (seg c SEG_TR) OR 2\<rparr>)\<rparr>))
                     else Inr (Some (), c)) (\<lambda>_ c.
             task_load cb oldtss sw (c\<lparr>cr0 := cr0 c OR push_bit 3 1\<rparr>)))))"

section \<open>Frames on the stack\<close>

text \<open>
  \<open>translate_frame\<close> translates the slots \<open>1 .. n\<close> of the given width below the
  stack pointer at privilege level 0, as the code does before it stores a frame.
\<close>

definition stack_slots :: "u32 \<Rightarrow> nat \<Rightarrow> u32 \<Rightarrow> u32 \<Rightarrow> u32 list" where
  "stack_slots w n sp m = map (\<lambda>k. (sp - w * of_nat k) AND m) [1..<Suc n]"

definition translate_frame :: "u32 \<Rightarrow> nat \<Rightarrow> 'd CPU \<Rightarrow> (OptAddr list, 'd) exec" where
  "translate_frame w n c =
     translate_all (\<lambda>c a. translate c 2 (Some SEG_SS) a w 0) (stack_slots w n (gpr c 4) (ss_mask c)) c"

definition aborting :: "('a, 'd) exec \<Rightarrow> ('a, 'd) exec" where
  "aborting m = TRY1 m (\<lambda>x c. Inr (Some x, c))"

section \<open>Far calls and jumps\<close>

text \<open>Fields of the second word of a descriptor.\<close>

definition desc_dpl :: "u32 \<Rightarrow> nat" where
  "desc_dpl w2 = unat (drop_bit 13 w2 AND 3)"

definition gate_type :: "u32 \<Rightarrow> nat" where
  "gate_type w2 = unat (drop_bit 8 w2 AND 0xf)"

text \<open>The return address of a far call pushed on the current stack.\<close>

definition push_return16 :: "'d CPU_CB \<Rightarrow> 'd CPU \<Rightarrow> (unit, 'd) exec" where
  "push_return16 cb c =
     (let sp = gpr c 4
      in TRY (translate_frame 2 2 c) (\<lambda>oas c.
           let c = set_sp (sp - 4) (ss_mask c) c
           in finish (store_all16 cb (zip oas [ucast (sel (seg c SEG_CS)), ucast (next_ip c)]) c)))"

definition push_return32 :: "'d CPU_CB \<Rightarrow> 'd CPU \<Rightarrow> (unit, 'd) exec" where
  "push_return32 cb c =
     (let sp = gpr c 4
      in TRY (translate_frame 4 2 c) (\<lambda>oas c.
           let c = set_sp (sp - 8) (ss_mask c) c
           in finish (store_all32 cb (zip oas [sel (seg c SEG_CS), next_ip c]) c)))"

definition push_return :: "'d CPU_CB \<Rightarrow> bool \<Rightarrow> 'd CPU \<Rightarrow> (unit, 'd) exec" where
  "push_return cb w16 c = (if w16 then push_return16 cb c else push_return32 cb c)"

text \<open>The parameters of a call gate, read from the outer stack.\<close>

fun read_params :: "'d CPU_CB \<Rightarrow> bool \<Rightarrow> u32 \<Rightarrow> u32 \<Rightarrow> nat list \<Rightarrow> 'd CPU \<Rightarrow> (u32 list, 'd) exec" where
  "read_params cb gate16 oldsp m [] c = Inr (Some [], c)"
| "read_params cb gate16 oldsp m (i # is) c =
     TRY (if gate16
          then TRY (translate c 1 (Some SEG_SS) ((oldsp + 2 * of_nat i) AND m) 2 0) (\<lambda>oa c.
                 bind_result (load16 cb c oa) (\<lambda>(v, c). Inr (Some (ucast v), c)))
          else TRY (translate c 1 (Some SEG_SS) ((oldsp + 4 * of_nat i) AND m) 4 0) (\<lambda>oa c. returning (load32 cb c oa)))
       (\<lambda>v c. TRY (read_params cb gate16 oldsp m is c) (\<lambda>vs c. Inr (Some (v # vs), c)))"

text \<open>Parameter \<open>i\<close> goes to slot \<open>2 + wc - i\<close> of the inner stack.\<close>

fun write_params :: "'d CPU_CB \<Rightarrow> bool \<Rightarrow> u32 \<Rightarrow> u32 \<Rightarrow> nat \<Rightarrow> (nat \<times> u32) list \<Rightarrow> 'd CPU \<Rightarrow> (unit, 'd) exec" where
  "write_params cb gate16 sp m wc [] c = Inr (Some (), c)"
| "write_params cb gate16 sp m wc ((i, v) # l) c =
     TRY (if gate16
          then TRY1 (translate c 2 (Some SEG_SS) ((sp - 2 * of_nat (2 + wc - i)) AND m) 2 0) (\<lambda>oa c. finish (store16 cb c oa (ucast v)))
          else TRY1 (translate c 2 (Some SEG_SS) ((sp - 4 * of_nat (2 + wc - i)) AND m) 4 0) (\<lambda>oa c. finish (store32 cb c oa v)))
       (\<lambda>_. write_params cb gate16 sp m wc l)"

text \<open>The inner stack of a privilege level, from the task state segment.\<close>

definition tss_stack :: "'d CPU_CB \<Rightarrow> nat \<Rightarrow> 'd CPU \<Rightarrow> (u32 \<times> u32, 'd) exec" where
  "tss_stack cb pl c =
     (if sflags (seg c SEG_TR) AND 0x8 = 0
      then TRY (translate c 1 (Some SEG_TR) (2 + 4 * of_nat pl) 2 0) (\<lambda>msp c.
           TRY (translate c 1 (Some SEG_TR) (4 + 4 * of_nat pl) 2 0) (\<lambda>mss c.
             bind_result (load16 cb c msp) (\<lambda>(sp, c). bind_result (load16 cb c mss) (\<lambda>(ss, c).
               Inr (Some (ucast sp, ucast ss), c)))))
      else TRY (translate c 1 (Some SEG_TR) (4 + 8 * of_nat pl) 4 0) (\<lambda>msp c.
           TRY (translate c 1 (Some SEG_TR) (8 + 8 * of_nat pl) 4 0) (\<lambda>mss c.
             bind_result (load32 cb c msp) (\<lambda>(sp, c). bind_result (load32 cb c mss) (\<lambda>(ss, c).
               Inr (Some (sp, ss), c))))))"

text \<open>Entering a more privileged level through a call gate: the inner stack, the outer stack pointer, the parameters and the return address.\<close>

definition gate_inner :: "'d CPU_CB \<Rightarrow> bool \<Rightarrow> bool \<Rightarrow> nat \<Rightarrow> nat \<Rightarrow> 'd CPU \<Rightarrow> (unit, 'd) exec" where
  "gate_inner cb isjmp gate16 newdpl wc c =
     (let oldss = sel (seg c SEG_SS); oldsp = gpr c 4
      in TRY (read_params cb gate16 oldsp (ss_mask c) [0..<wc] c) (\<lambda>params c.
         TRY (tss_stack cb newdpl c) (\<lambda>(sp0, ss0) c.
         TRY (set_seg cb (sreg32 4 sp0 c) SEG_SS ss0) (\<lambda>_ c.
         if isjmp then Inr (Some (), c)
         else let w = (if gate16 then 2 else 4); sp = gpr c 4; m = ss_mask c
              in TRY (aborting (translate_all (\<lambda>c a. translate c 2 (Some SEG_SS) a w 0)
                       (map (\<lambda>k. (sp - w * of_nat k) AND m) [1, 2, 3 + wc, 4 + wc]) c)) (\<lambda>oas c.
                 TRY (write_params cb gate16 sp m wc (zip [0..<wc] params) c) (\<lambda>_ c.
                 let vs = [oldss, oldsp, sel (seg c SEG_CS), next_ip c]
                 in bind_result (if gate16 then store_all16 cb (zip oas (map ucast vs)) c else store_all32 cb (zip oas vs) c) (\<lambda>c.
                    Inr (Some (), set_sp (sp - w * of_nat (4 + wc)) m c))))))))"

definition pmcall :: "'d CPU_CB \<Rightarrow> bool \<Rightarrow> u32 \<Rightarrow> u32 \<Rightarrow> bool \<Rightarrow> 'd CPU \<Rightarrow> (unit, 'd) exec" where
  "pmcall cb opsz16 addr sel0 isjmp c =
     (let s = sel0 AND 0xffff
      in if s AND NOT 0x3 = 0 then THROW EX_GP 0 c
         else TRY (read_desc cb c s True) (\<lambda>(ow1, w2) c.
         let w1 = (case ow1 of Some w \<Rightarrow> w | None \<Rightarrow> 0); dpl = desc_dpl w2
         in if \<not> bit w2 15 then THROW EX_NP (s AND NOT 0x3) c
         else if bit w2 12
         then
           if \<not> bit w2 11 then THROW EX_GP (s AND NOT 0x3) c
           else if bit w2 10 \<and> cpl c < dpl then THROW EX_GP (s AND NOT 0x3) c
           else if \<not> bit w2 10 \<and> (cpl c < unat (s AND 3) \<or> dpl \<noteq> cpl c) then THROW EX_GP (s AND NOT 0x3) c
           else let s' = (s AND 0xfffc) OR of_nat (cpl c)
                in TRY (if isjmp then Inr (Some (), c) else push_return cb opsz16 c) (\<lambda>_ c.
                   TRY1 (set_seg cb c SEG_CS s') (\<lambda>_ c. Inr (Some (), c\<lparr>next_ip := addr\<rparr>)))
         else
           let newcs = drop_bit 16 w1; newip = (w1 AND 0xffff) OR (w2 AND 0xffff0000); gt = gate_type w2;
               wc = unat (w2 AND 31)
           in if dpl < cpl c \<or> dpl < unat (s AND 3) then THROW EX_GP (s AND NOT 0x3) c
              else if is_tss32 c \<and> gt = 9 then task_switch cb s (if isjmp then TS_JMP else TS_CALL) c
              else if is_tss32 c \<and> gt = 5 then task_switch cb newcs (if isjmp then TS_JMP else TS_CALL) c
              else if gt \<noteq> 4 \<and> gt \<noteq> 12 then Inl Abort
              else if newcs AND NOT 0x3 = 0 then THROW EX_GP 0 c
              else TRY (read_desc cb c newcs False) (\<lambda>(_, neww2) c.
              let newdpl = desc_dpl neww2; gate16 = (gt = 4); nip = (if gate16 then newip AND 0xffff else newip)
              in if drop_bit 11 neww2 AND 3 \<noteq> 3 then THROW EX_GP (newcs AND NOT 0x3) c
                 else if \<not> bit neww2 15 then THROW EX_NP (newcs AND NOT 0x3) c
                 else if cpl c < newdpl then THROW EX_GP (newcs AND NOT 0x3) c
                 else TRY (if \<not> bit neww2 10 \<and> newdpl < cpl c
                           then TRY (gate_inner cb isjmp gate16 newdpl wc c) (\<lambda>_ c.
                             Inr (Some ((newcs AND 0xfffc) OR of_nat newdpl), c))
                           else TRY (if isjmp then Inr (Some (), c) else push_return cb gate16 c) (\<lambda>_ c.
                             Inr (Some ((newcs AND 0xfffc) OR of_nat (cpl c)), c))) (\<lambda>ncs c.
                   TRY1 (set_seg cb c SEG_CS ncs) (\<lambda>_ c. Inr (Some (), c\<lparr>next_ip := nip\<rparr>))))))"

section \<open>Interrupts and exceptions\<close>

text \<open>
  The check of the target code segment: whether the handler runs at the same
  level (1), at an inner level (2) or is entered from virtual 8086 mode (3), with
  the level of the segment.
\<close>

definition call_isr_check_cs :: "'d CPU_CB \<Rightarrow> u32 \<Rightarrow> u32 \<Rightarrow> 'd CPU \<Rightarrow> (nat \<times> nat, 'd) exec" where
  "call_isr_check_cs cb sel0 ext c =
     (let s = sel0 AND 0xffff; off = s AND NOT 0x7;
          (bs, lim) = (if s AND 0x4 \<noteq> 0 then (base (seg c SEG_LDT), limit (seg c SEG_LDT)) else (gdt_base c, gdt_limit c))
      in if s AND NOT 0x3 = 0 \<or> lim < off + 7 then THROW EX_GP ext c
         else TRY1 (translate_laddr c 1 (bs + off + 4) 4 0) (\<lambda>oa c.
           bind_result (load32 cb c oa) (\<lambda>(w2, c).
           let dpl = desc_dpl w2
           in if \<not> bit w2 12 \<or> \<not> bit w2 11 \<or> cpl c < dpl then THROW EX_GP ((s AND NOT 0x3) OR ext) c
              else if \<not> bit w2 15 then THROW EX_NP (s AND NOT 0x3) c
              else if \<not> bit w2 10 \<and> dpl < cpl c
              then if flags c AND VM = 0 then Inr (Some (2, dpl), c)
                   else if dpl \<noteq> 0 then THROW EX_GP ((s AND NOT 0x3) OR ext) c
                   else Inr (Some (3, dpl), c)
              else if flags c AND VM \<noteq> 0 then THROW EX_GP ((s AND NOT 0x3) OR ext) c
              else if bit w2 10 \<or> dpl = cpl c then Inr (Some (1, dpl), c)
              else THROW EX_GP ((s AND NOT 0x3) OR ext) c)))"

definition isr_real :: "'d CPU_CB \<Rightarrow> nat \<Rightarrow> 'd CPU \<Rightarrow> (unit, 'd) exec" where
  "isr_real cb no c =
     (let m = ss_mask c; sp = gpr c 4
      in TRY1 (translate_laddr c 1 (idt_base c + of_nat (no * 4)) 4 0) (\<lambda>oa c.
         bind_result (load32 cb c oa) (\<lambda>(w1, c).
         let newcs = drop_bit 16 w1; newip = w1 AND 0xffff
         in TRY (aborting (translate_frame 2 3 c)) (\<lambda>oas c.
            bind_result (cpu_refresh_flags c) (\<lambda>c.
            let c = clear_ccmask c
            in bind_result (store_all16 cb (zip oas [ucast (flags c), ucast (sel (seg c SEG_CS)), ucast (ip c)]) c) (\<lambda>c.
               TRY1 (set_seg cb (sreg32 4 ((sp - 2 * 3) AND m) c) SEG_CS newcs) (\<lambda>_ c.
               Inr (Some (), set_flags (flags c AND NOT (IF OR TF)) (c\<lparr>next_ip := newip, ip := newip\<rparr>)))))))))"

text \<open>The frame of a handler at the same level.  The error code of a 16-bit gate is stored with \<open>saddr32\<close>.\<close>

definition isr_same16 :: "'d CPU_CB \<Rightarrow> bool \<Rightarrow> 'd CPU \<Rightarrow> (unit, 'd) exec" where
  "isr_same16 cb pusherr c =
     (let sp = gpr c 4; m = ss_mask c; n = (if pusherr then 4 else 3)
      in TRY (translate_frame 2 n c) (\<lambda>oas c.
         bind_result (cpu_refresh_flags c) (\<lambda>c.
         let c = clear_ccmask c
         in bind_result (store_all16 cb (zip (take 3 oas) [ucast (flags c), ucast (sel (seg c SEG_CS)), ucast (ip c)]) c) (\<lambda>c.
            bind_result (store_all32 cb (zip (drop 3 oas) [excerr c]) c) (\<lambda>c.
            Inr (Some (), set_sp (sp - 2 * of_nat n) m c))))))"

definition isr_same32 :: "'d CPU_CB \<Rightarrow> bool \<Rightarrow> 'd CPU \<Rightarrow> (unit, 'd) exec" where
  "isr_same32 cb pusherr c =
     (let sp = gpr c 4; m = ss_mask c; n = (if pusherr then 4 else 3)
      in TRY (translate_frame 4 n c) (\<lambda>oas c.
         bind_result (cpu_refresh_flags c) (\<lambda>c.
         let c = clear_ccmask c
         in bind_result (store_all32 cb (zip oas [flags c, sel (seg c SEG_CS), ip c, excerr c]) c) (\<lambda>c.
            Inr (Some (), set_sp (sp - 4 * of_nat n) m c)))))"

text \<open>The frame of a handler at an inner level, on its own stack.\<close>

definition isr_inner_frame16 :: "'d CPU_CB \<Rightarrow> bool \<Rightarrow> u32 \<Rightarrow> u32 \<Rightarrow> 'd CPU \<Rightarrow> (unit, 'd) exec" where
  "isr_inner_frame16 cb pusherr oldss oldsp c =
     (let sp = gpr c 4; m = ss_mask c; n = (if pusherr then 6 else 5)
      in TRY (translate_frame 2 n c) (\<lambda>oas c.
         bind_result (store_all16 cb (zip (take 2 oas) [ucast oldss, ucast oldsp]) c) (\<lambda>c.
         bind_result (cpu_refresh_flags c) (\<lambda>c.
         let c = clear_ccmask c
         in bind_result (store_all16 cb (zip (drop 2 oas)
               [ucast (flags c), ucast (sel (seg c SEG_CS)), ucast (ip c), ucast (excerr c)]) c) (\<lambda>c.
            Inr (Some (), set_sp (sp - 2 * of_nat n) m c))))))"

definition isr_inner_frame32 :: "'d CPU_CB \<Rightarrow> bool \<Rightarrow> u32 \<Rightarrow> u32 \<Rightarrow> 'd CPU \<Rightarrow> (unit, 'd) exec" where
  "isr_inner_frame32 cb pusherr oldss oldsp c =
     (let sp = gpr c 4; n = (if pusherr then 6 else 5)
      in TRY (translate_frame 4 n c) (\<lambda>oas c.
         bind_result (store_all32 cb (zip (take 2 oas) [oldss, oldsp]) c) (\<lambda>c.
         bind_result (cpu_refresh_flags c) (\<lambda>c.
         let c = clear_ccmask c
         in bind_result (store_all32 cb (zip (drop 2 oas) [flags c, sel (seg c SEG_CS), ip c, excerr c]) c) (\<lambda>c.
            Inr (Some (), sreg32 4 (sp - 4 * of_nat n) c))))))"

definition isr_inner :: "'d CPU_CB \<Rightarrow> bool \<Rightarrow> bool \<Rightarrow> nat \<Rightarrow> 'd CPU \<Rightarrow> (unit, 'd) exec" where
  "isr_inner cb gate16 pusherr newpl c =
     (let oldss = sel (seg c SEG_SS); oldsp = gpr c 4
      in TRY (tss_stack cb newpl c) (\<lambda>(newsp, newss) c.
         TRY (set_seg cb (sreg32 4 newsp c) SEG_SS (newss AND 0xffff)) (\<lambda>_ c.
         if gate16 then isr_inner_frame16 cb pusherr oldss oldsp c else isr_inner_frame32 cb pusherr oldss oldsp c)))"

text \<open>The frame of a handler entered from virtual 8086 mode: the data segments first.\<close>

definition isr_vm86_frame :: "'d CPU_CB \<Rightarrow> bool \<Rightarrow> u32 \<Rightarrow> u32 \<Rightarrow> 'd CPU \<Rightarrow> (unit, 'd) exec" where
  "isr_vm86_frame cb pusherr oldss oldsp c =
     (let sp = gpr c 4; m = ss_mask c; n = (if pusherr then 10 else 9)
      in TRY (aborting (translate_frame 4 9 c)) (\<lambda>oas c.
         TRY (if pusherr then TRY (translate c 2 (Some SEG_SS) ((sp - 4 * 10) AND m) 4 0) (\<lambda>oa c. Inr (Some (oas @ [oa]), c))
              else Inr (Some oas, c)) (\<lambda>oas c.
         bind_result (store_all32 cb (zip (take 6 oas) [sel (seg c SEG_GS), sel (seg c SEG_FS), sel (seg c SEG_DS),
             sel (seg c SEG_ES), oldss, oldsp]) c) (\<lambda>c.
         bind_result (cpu_refresh_flags c) (\<lambda>c.
         let c = clear_ccmask c
         in bind_result (store_all32 cb (zip (drop 6 oas) [flags c OR VM, sel (seg c SEG_CS), ip c, excerr c]) c) (\<lambda>c.
            Inr (Some (), set_sp (sp - 4 * of_nat n) m c)))))))"

definition isr_vm86 :: "'d CPU_CB \<Rightarrow> bool \<Rightarrow> bool \<Rightarrow> 'd CPU \<Rightarrow> (unit, 'd) exec" where
  "isr_vm86 cb gate16 pusherr c =
     (let oldss = sel (seg c SEG_SS); oldsp = gpr c 4
      in if gate16 \<or> sflags (seg c SEG_TR) AND 0x8 = 0 then Inl Abort
         else TRY (tss_stack cb 0 c) (\<lambda>(newsp, newss) c.
         let oldflags = flags c
         in bind_result (set_seg cb (sreg32 4 newsp (set_flags (flags c AND NOT VM) c)) SEG_SS (newss AND 0xffff)) (\<lambda>(r, c).
            case r of None \<Rightarrow> Inr (None, sreg32 4 oldsp (set_flags oldflags c))
            | Some _ \<Rightarrow> TRY (isr_vm86_frame cb pusherr oldss oldsp c) (\<lambda>_ c.
                TRY1 (set_seg cb c SEG_DS 0) (\<lambda>_ c. TRY1 (set_seg cb c SEG_ES 0) (\<lambda>_ c.
                TRY1 (set_seg cb c SEG_FS 0) (\<lambda>_ c. TRY1 (set_seg cb c SEG_GS 0) (\<lambda>_ c.
                Inr (Some (), c)))))))))"

definition call_isr :: "'d CPU_CB \<Rightarrow> nat \<Rightarrow> bool \<Rightarrow> u32 \<Rightarrow> 'd CPU \<Rightarrow> (unit, 'd) exec" where
  "call_isr cb no pusherr ext c =
     (if cr0 c AND 1 = 0 then isr_real cb no c
      else let off = push_bit 3 (of_nat no)
           in if idt_limit c < off + 7 then THROW EX_GP (off OR 2 OR ext) c
              else TRY1 (translate_laddr c 1 (idt_base c + off) 4 0) (\<lambda>oa c.
                bind_result (load32 cb c oa) (\<lambda>(w1, c).
                TRY1 (translate_laddr c 1 (idt_base c + off + 4) 4 0) (\<lambda>oa c.
                bind_result (load32 cb c oa) (\<lambda>(w2, c).
                let gt = gate_type w2
                in if gt \<notin> {6, 7, 0xe, 0xf, 5} then THROW EX_GP (off OR 2 OR ext) c
                   else if ext = 0 \<and> desc_dpl w2 < cpl c then THROW EX_GP (off OR 2) c
                   else if \<not> bit w2 15 then THROW EX_NP (off OR 2 OR ext) c
                   else if gt = 5 then task_switch cb (drop_bit 16 w1) TS_CALL c
                   else let newcs = drop_bit 16 w1; gate16 = (gt = 6 \<or> gt = 7);
                            newip = (let i = (w1 AND 0xffff) OR (w2 AND 0xffff0000) in if gate16 then i AND 0xffff else i)
                        in TRY (call_isr_check_cs cb newcs ext c) (\<lambda>(k, csdpl) c.
                           TRY (if k = 1
                                then TRY (if gate16 then isr_same16 cb pusherr c else isr_same32 cb pusherr c) (\<lambda>_ c.
                                  Inr (Some ((newcs AND NOT 3) OR of_nat (cpl c)), c))
                                else if k = 2
                                then TRY (isr_inner cb gate16 pusherr csdpl c) (\<lambda>_ c.
                                  Inr (Some ((newcs AND NOT 3) OR of_nat csdpl), c))
                                else TRY (isr_vm86 cb gate16 pusherr c) (\<lambda>_ c.
                                  Inr (Some (newcs AND NOT 3), set_flags (flags c AND NOT (TF OR RF OR NT)) c))) (\<lambda>ncs c.
                           TRY1 (set_seg cb c SEG_CS ncs) (\<lambda>_ c.
                           let c = c\<lparr>next_ip := newip, ip := newip\<rparr>;
                               c = set_flags (flags c AND NOT (TF OR RF OR NT)) c
                           in Inr (Some (), if gt = 6 \<or> gt = 0xe then set_flags (flags c AND NOT IF) c else c)))))))))"

section \<open>Far returns\<close>

text \<open>The checks of the code segment that a far return names, at the same and at an outer level.\<close>

definition pmiret_check_cs_same :: "'d CPU_CB \<Rightarrow> u32 \<Rightarrow> 'd CPU \<Rightarrow> (unit, 'd) exec" where
  "pmiret_check_cs_same cb sel0 c =
     (let s = sel0 AND 0xffff
      in if s AND NOT 0x3 = 0 then THROW EX_GP (s AND NOT 0x3) c
         else TRY (read_desc cb c s False) (\<lambda>(_, w2) c.
           let dpl = desc_dpl w2
           in if \<not> bit w2 12 \<or> \<not> bit w2 11 then THROW EX_GP (s AND NOT 0x3) c
              else if (if bit w2 10 then cpl c < dpl else dpl \<noteq> cpl c) then THROW EX_GP (s AND NOT 0x3) c
              else if \<not> bit w2 15 then THROW EX_NP (s AND NOT 0x3) c
              else Inr (Some (), c)))"

definition pmiret_check_cs_outer :: "'d CPU_CB \<Rightarrow> u32 \<Rightarrow> 'd CPU \<Rightarrow> (unit, 'd) exec" where
  "pmiret_check_cs_outer cb sel0 c =
     (let s = sel0 AND 0xffff
      in if s AND NOT 0x3 = 0 then THROW EX_GP (s AND NOT 0x3) c
         else TRY (read_desc cb c s False) (\<lambda>(_, w2) c.
           let dpl = desc_dpl w2; rpl = unat (s AND 3)
           in if \<not> bit w2 12 \<or> \<not> bit w2 11 then THROW EX_GP (s AND NOT 0x3) c
              else if (if bit w2 10 then dpl \<le> cpl c else dpl \<noteq> rpl) then THROW EX_GP (s AND NOT 0x3) c
              else if \<not> bit w2 15 then THROW EX_NP (s AND NOT 0x3) c
              else Inr (Some (), c)))"

text \<open>Reading the words of a frame above the stack pointer: all addresses first, then the values.\<close>

fun load_all16 :: "'d CPU_CB \<Rightarrow> OptAddr list \<Rightarrow> 'd CPU \<Rightarrow> (u32 list \<times> 'd CPU) result" where
  "load_all16 cb [] c = Inr ([], c)"
| "load_all16 cb (oa # oas) c =
     bind_result (load16 cb c oa) (\<lambda>(v, c). bind_result (load_all16 cb oas c) (\<lambda>(vs, c). Inr (ucast v # vs, c)))"

fun load_all32 :: "'d CPU_CB \<Rightarrow> OptAddr list \<Rightarrow> 'd CPU \<Rightarrow> (u32 list \<times> 'd CPU) result" where
  "load_all32 cb [] c = Inr ([], c)"
| "load_all32 cb (oa # oas) c =
     bind_result (load32 cb c oa) (\<lambda>(v, c). bind_result (load_all32 cb oas c) (\<lambda>(vs, c). Inr (v # vs, c)))"

definition read_frame :: "'d CPU_CB \<Rightarrow> bool \<Rightarrow> u32 \<Rightarrow> u32 \<Rightarrow> u32 list \<Rightarrow> 'd CPU \<Rightarrow> (u32 list, 'd) exec" where
  "read_frame cb w16 sp m offs c =
     TRY (translate_all (\<lambda>c a. translate c 1 (Some SEG_SS) a (if w16 then 2 else 4) 0) (map (\<lambda>x. (sp + x) AND m) offs) c) (\<lambda>oas c.
       returning (if w16 then load_all16 cb oas c else load_all32 cb oas c))"

text \<open>The return address and, for \<open>IRET\<close>, the flags, which are read first.\<close>

definition pmret_frame :: "'d CPU_CB \<Rightarrow> bool \<Rightarrow> bool \<Rightarrow> u32 \<Rightarrow> u32 \<Rightarrow> 'd CPU \<Rightarrow> (u32 \<times> u32 \<times> u32, 'd) exec" where
  "pmret_frame cb opsz16 isiret sp m c =
     (let w = (if opsz16 then 2 else 4); ld = (if opsz16 then load_all16 cb else load_all32 cb)
      in TRY (translate_all (\<lambda>c a. translate c 1 (Some SEG_SS) a w 0)
                (map (\<lambda>x. (sp + x) AND m) (if isiret then [0, w, 2 * w] else [0, w])) c) (\<lambda>oas c.
         bind_result (ld (if isiret then [oas ! 2, oas ! 0, oas ! 1] else oas) c) (\<lambda>(vs, c).
         Inr (Some (if isiret then (vs ! 1, vs ! 2, vs ! 0) else (vs ! 0, vs ! 1, 0)), c))))"

text \<open>The flags that \<open>IRET\<close> loads: what the level may not change stays.\<close>

definition iret_flags :: "u32 \<Rightarrow> 'd CPU \<Rightarrow> u32" where
  "iret_flags newflags c =
     (let m = protected_flags c in (((flags c AND m) OR (newflags AND NOT m)) AND flags_mask c) OR 2)"

definition pmret_vm86 :: "'d CPU_CB \<Rightarrow> bool \<Rightarrow> u32 \<Rightarrow> u32 \<Rightarrow> u32 \<Rightarrow> u32 \<Rightarrow> u32 \<Rightarrow> 'd CPU \<Rightarrow> (unit, 'd) exec" where
  "pmret_vm86 cb opsz16 sp m newip newcs newflags c =
     (if cpl c \<noteq> 0 \<or> opsz16 then Inl Abort
      else TRY (translate_all (\<lambda>c a. translate c 1 (Some SEG_SS) a 4 0) (map (\<lambda>x. (sp + x) AND m) [12, 16, 20, 24, 28, 32]) c) (\<lambda>oas c.
        TRY1 (set_seg cb (set_flags newflags c) SEG_CS newcs) (\<lambda>_ c.
        let c = (set_sp (sp + 12) m c)\<lparr>next_ip := newip\<rparr>
        in bind_result (load32 cb c (oas ! 1)) (\<lambda>(ss, c). TRY1 (set_seg cb c SEG_SS ss) (\<lambda>_ c.
           bind_result (load32 cb c (oas ! 2)) (\<lambda>(es, c). TRY1 (set_seg cb c SEG_ES es) (\<lambda>_ c.
           bind_result (load32 cb c (oas ! 3)) (\<lambda>(ds, c). TRY1 (set_seg cb c SEG_DS ds) (\<lambda>_ c.
           bind_result (load32 cb c (oas ! 4)) (\<lambda>(fs, c). TRY1 (set_seg cb c SEG_FS fs) (\<lambda>_ c.
           bind_result (load32 cb c (oas ! 5)) (\<lambda>(gs, c). TRY (set_seg cb c SEG_GS gs) (\<lambda>_ c.
           bind_result (load32 cb c (oas ! 0)) (\<lambda>(nsp, c). Inr (Some (), set_sp nsp 0xffffffff c)))))))))))))))"

definition pmret_outer :: "'d CPU_CB \<Rightarrow> bool \<Rightarrow> bool \<Rightarrow> u32 \<Rightarrow> u32 \<Rightarrow> u32 \<Rightarrow> u32 \<Rightarrow> u32 \<Rightarrow> u32 \<Rightarrow> 'd CPU \<Rightarrow> (unit, 'd) exec" where
  "pmret_outer cb opsz16 isiret off sp m newip newcs newflags c =
     TRY (pmiret_check_cs_outer cb newcs c) (\<lambda>_ c.
     TRY (read_frame cb opsz16 sp m (if opsz16 then [4 + off, 6 + off] else [8 + off, 12 + off]) c) (\<lambda>vs c.
     let newsp = (if isiret then vs ! 0 else vs ! 0 + off); newss = vs ! 1
     in TRY1 (set_seg cb (if isiret then set_flags newflags c else c) SEG_CS newcs) (\<lambda>_ c.
        TRY1 (set_seg cb c SEG_SS newss) (\<lambda>_ c.
        Inr (Some (), clear_segs ((set_sp newsp (ss_mask c) c)\<lparr>next_ip := newip\<rparr>))))))"

definition pmret_same :: "'d CPU_CB \<Rightarrow> bool \<Rightarrow> bool \<Rightarrow> u32 \<Rightarrow> u32 \<Rightarrow> u32 \<Rightarrow> u32 \<Rightarrow> u32 \<Rightarrow> u32 \<Rightarrow> 'd CPU \<Rightarrow> (unit, 'd) exec" where
  "pmret_same cb opsz16 isiret off sp m newip newcs newflags c =
     TRY (pmiret_check_cs_same cb newcs c) (\<lambda>_ c.
     TRY1 (set_seg cb (if isiret then set_flags newflags c else c) SEG_CS newcs) (\<lambda>_ c.
     Inr (Some (), (set_sp (sp + (if opsz16 then 4 else 8) + off) m c)\<lparr>next_ip := newip\<rparr>)))"

definition pmret :: "'d CPU_CB \<Rightarrow> bool \<Rightarrow> u32 \<Rightarrow> bool \<Rightarrow> 'd CPU \<Rightarrow> (unit, 'd) exec" where
  "pmret cb opsz16 off0 isiret c =
     (if isiret \<and> flags c AND VM \<noteq> 0 then THROW EX_GP 0 c
      else if isiret \<and> flags c AND NT \<noteq> 0
      then TRY (translate c 1 (Some SEG_TR) 0 2 0) (\<lambda>oa c.
             bind_result (load16 cb c oa) (\<lambda>(tssback, c).
             if tssback = 0 then THROW EX_TS 0 c else task_switch cb (ucast tssback) TS_IRET c))
      else let off = (if isiret then off0 + (if opsz16 then 2 else 4) else off0); m = ss_mask c; sp = gpr c 4
           in TRY (pmret_frame cb opsz16 isiret sp m c) (\<lambda>(newip, newcs, fl) c.
              let newflags = (if isiret then iret_flags (if opsz16 then (flags c AND 0xffff0000) OR fl else fl) c else 0)
              in TRY (if isiret \<and> newflags AND VM \<noteq> 0 then pmret_vm86 cb opsz16 sp m newip newcs newflags c
                      else let rpl = unat (newcs AND 3)
                           in if rpl < cpl c then THROW EX_GP (newcs AND NOT 0x3) c
                              else if rpl = cpl c then pmret_same cb opsz16 isiret off sp m newip newcs newflags c
                              else pmret_outer cb opsz16 isiret off sp m newip newcs newflags c) (\<lambda>_ c.
                 Inr (Some (), if isiret then clear_ccmask c else c))))"

section \<open>Instructions\<close>

definition INTn :: "'d CPU_CB \<Rightarrow> u8 \<Rightarrow> 'd CPU \<Rightarrow> (unit, 'd) exec" where
  "INTn cb i c =
     (if flags c AND VM \<noteq> 0 \<and> get_IOPL c < 3 then THROW EX_GP 0 c
      else let oldip = ip c
           in bind_result (call_isr cb (unat i) False 0 (c\<lparr>ip := next_ip c\<rparr>)) (\<lambda>(r, c).
              case r of None \<Rightarrow> Inr (None, c\<lparr>ip := oldip\<rparr>) | Some _ \<Rightarrow> Inr (Some (), c)))"

definition iret_real :: "'d CPU_CB \<Rightarrow> 'd CPU \<Rightarrow> (unit, 'd) exec" where
  "iret_real cb c =
     (let sp = gpr c 4; m = sp_mask c
      in TRY (translate16 c 1 (Some SEG_SS) (sp AND m)) (\<lambda>m1 c.
         bind_result (load16 cb c m1) (\<lambda>(newip, c).
         TRY (translate16 c 1 (Some SEG_SS) ((sp + 2) AND m)) (\<lambda>m2 c.
         bind_result (load16 cb c m2) (\<lambda>(newcs, c).
         TRY (translate16 c 1 (Some SEG_SS) ((sp + 4) AND m)) (\<lambda>m3 c.
         bind_result (load16 cb c m3) (\<lambda>(fl, c).
         let oldflags = flags c;
             nf = (if flags c AND VM \<noteq> 0 then (flags c AND (0xffff0000 OR IOPL)) OR (ucast fl AND NOT IOPL)
                   else (flags c AND 0xffff0000) OR ucast fl)
         in bind_result (set_seg cb (set_flags ((nf AND flags_mask c) OR 2) c) SEG_CS (ucast newcs)) (\<lambda>(r, c).
            case r of None \<Rightarrow> Inr (None, set_flags oldflags c)
            | Some _ \<Rightarrow> Inr (Some (), (set_sp (sp + 6) m (clear_ccmask c))\<lparr>next_ip := ucast newip\<rparr>)))))))))"

definition IRET :: "'d CPU_CB \<Rightarrow> bool \<Rightarrow> 'd CPU \<Rightarrow> (unit, 'd) exec" where
  "IRET cb opsz16 c =
     (if cr0 c AND 1 \<noteq> 0 \<and> (flags c AND VM = 0 \<or> get_IOPL c < 3) then pmret cb opsz16 0 True c
      else if \<not> opsz16 then Inl Abort else iret_real cb c)"

definition RETFARw :: "'d CPU_CB \<Rightarrow> bool \<Rightarrow> u16 \<Rightarrow> 'd CPU \<Rightarrow> (unit, 'd) exec" where
  "RETFARw cb opsz16 i c =
     (if cr0 c AND 1 \<noteq> 0 \<and> flags c AND VM = 0 then pmret cb opsz16 (ucast i) False c
      else let sp = gpr c 4; m = sp_mask c
           in if opsz16
              then TRY (translate16 c 1 (Some SEG_SS) (sp AND m)) (\<lambda>m1 c. bind_result (load16 cb c m1) (\<lambda>(newip, c).
                   TRY (translate16 c 1 (Some SEG_SS) ((sp + 2) AND m)) (\<lambda>m2 c. bind_result (load16 cb c m2) (\<lambda>(newcs, c).
                   TRY (set_seg cb c SEG_CS (ucast newcs)) (\<lambda>_ c.
                   Inr (Some (), (set_sp (sp + 4 + ucast i) m c)\<lparr>next_ip := ucast newip\<rparr>))))))
              else TRY (translate32 c 1 (Some SEG_SS) (sp AND m)) (\<lambda>m1 c. bind_result (load32 cb c m1) (\<lambda>(newip, c).
                   TRY (translate32 c 1 (Some SEG_SS) ((sp + 4) AND m)) (\<lambda>m2 c. bind_result (load32 cb c m2) (\<lambda>(newcs, c).
                   TRY (set_seg cb c SEG_CS newcs) (\<lambda>_ c.
                   Inr (Some (), (set_sp (sp + 8 + ucast i) m c)\<lparr>next_ip := newip\<rparr>)))))))"

definition JMPFAR :: "'d CPU_CB \<Rightarrow> bool \<Rightarrow> u32 \<Rightarrow> u32 \<Rightarrow> 'd CPU \<Rightarrow> (unit, 'd) exec" where
  "JMPFAR cb opsz16 addr sg c =
     (if cr0 c AND 1 \<noteq> 0 \<and> flags c AND VM = 0 then pmcall cb opsz16 addr sg True c
      else TRY (set_seg cb c SEG_CS sg) (\<lambda>_ c. Inr (Some (), c\<lparr>next_ip := addr\<rparr>)))"

definition CALLFAR :: "'d CPU_CB \<Rightarrow> bool \<Rightarrow> u32 \<Rightarrow> u32 \<Rightarrow> 'd CPU \<Rightarrow> (unit, 'd) exec" where
  "CALLFAR cb opsz16 addr sg c =
     (if cr0 c AND 1 \<noteq> 0 \<and> flags c AND VM = 0 then pmcall cb opsz16 addr sg False c
      else let sp = gpr c 4; m = sp_mask c
           in TRY (if opsz16
                   then TRY (translate16 c 2 (Some SEG_SS) ((sp - 2) AND m)) (\<lambda>m1 c.
                        TRY (translate16 c 2 (Some SEG_SS) ((sp - 4) AND m)) (\<lambda>m2 c.
                        let c = set_sp (sp - 4) m c
                        in finish (store_all16 cb [(m1, ucast (sel (seg c SEG_CS))), (m2, ucast (next_ip c))] c)))
                   else TRY (translate32 c 2 (Some SEG_SS) ((sp - 4) AND m)) (\<lambda>m1 c.
                        TRY (translate32 c 2 (Some SEG_SS) ((sp - 8) AND m)) (\<lambda>m2 c.
                        let c = set_sp (sp - 8) m c
                        in finish (store_all32 cb [(m1, sel (seg c SEG_CS)), (m2, next_ip c)] c)))) (\<lambda>_ c.
              TRY (set_seg cb c SEG_CS sg) (\<lambda>_ c. Inr (Some (), c\<lparr>next_ip := addr\<rparr>))))"

section \<open>Fast system calls\<close>

definition sys_enter :: "nat \<Rightarrow> u32 \<Rightarrow> 'd CPU \<Rightarrow> 'd CPU" where
  "sys_enter pl cs c =
     c\<lparr>seg := (seg c)
         (SEG_CS := \<lparr>sel = (cs AND 0xfffc) OR of_nat pl, base = 0, limit = 0xffffffff,
                     sflags = SEG_D_BIT OR 0x5b OR push_bit 5 (of_nat pl)\<rparr>,
          SEG_SS := \<lparr>sel = ((cs + 8) AND 0xfffc) OR of_nat pl, base = 0, limit = 0xffffffff,
                     sflags = SEG_D_BIT OR 0x53 OR push_bit 5 (of_nat pl)\<rparr>),
       cpl := pl, code16 := False, sp_mask := 0xffffffff\<rparr>"

definition SYSENTER :: "'d CPU \<Rightarrow> (unit, 'd) exec" where
  "SYSENTER c =
     (let (cs, eip, esp) = sysenter c
      in if cr0 c AND 1 = 0 \<or> cs AND NOT 0x3 = 0 then THROW EX_GP 0 c
         else Inr (Some (), (sreg32 4 esp (sys_enter 0 cs (set_flags (flags c AND NOT (VM OR IF)) c)))\<lparr>next_ip := eip\<rparr>))"

definition SYSEXIT :: "'d CPU \<Rightarrow> (unit, 'd) exec" where
  "SYSEXIT c =
     (let (cs, eip, esp) = sysenter c
      in if cr0 c AND 1 = 0 \<or> cs AND NOT 0x3 = 0 \<or> cpl c \<noteq> 0 then THROW EX_GP 0 c
         else Inr (Some (), (sreg32 4 (gpr c 1) (sys_enter 3 (cs + 16) c))\<lparr>next_ip := gpr c 2\<rparr>))"

definition WRMSR :: "'d CPU \<Rightarrow> (unit, 'd) exec" where
  "WRMSR c =
     (let (cs, eip, esp) = sysenter c; v = gpr c 0
      in if cpl c \<noteq> 0 then THROW EX_GP 0 c
         else if gpr c 1 = 0x174 then Inr (Some (), c\<lparr>sysenter := (v, eip, esp)\<rparr>)
         else if gpr c 1 = 0x176 then Inr (Some (), c\<lparr>sysenter := (cs, v, esp)\<rparr>)
         else if gpr c 1 = 0x175 then Inr (Some (), c\<lparr>sysenter := (cs, eip, v)\<rparr>)
         else THROW EX_GP 0 c)"

definition RDMSR :: "'d CPU \<Rightarrow> (unit, 'd) exec" where
  "RDMSR c =
     (let (cs, eip, esp) = sysenter c
      in if cpl c \<noteq> 0 then THROW EX_GP 0 c
         else if gpr c 1 = 0x174 then Inr (Some (), sreg32 2 0 (sreg32 0 cs c))
         else if gpr c 1 = 0x176 then Inr (Some (), sreg32 2 0 (sreg32 0 eip c))
         else if gpr c 1 = 0x175 then Inr (Some (), sreg32 2 0 (sreg32 0 esp c))
         else THROW EX_GP 0 c)"

section \<open>Reset and step\<close>

definition cpui386_reset :: "bool \<Rightarrow> 'd CPU \<Rightarrow> 'd CPU" where
  "cpui386_reset fpu c =
     (let null_seg = \<lparr>sel = 0, base = 0, limit = 0, sflags = 0\<rparr>
      in tlb_clear (c\<lparr>gpr := (\<lambda>i. if i < 8 then 0 else gpr c i),
           alu := (alu c)\<lparr>eflags := 2, ccmask := 0\<rparr>, cpl := 0, code16 := True, sp_mask := 0xffff, halt := False,
           seg := (\<lambda>i. if i < 8 then null_seg else seg c i)
             (SEG_SS := null_seg\<lparr>sflags := push_bit 22 1\<rparr>,
              SEG_CS := \<lparr>sel = 0xf000, base = 0xf0000, limit = 0, sflags = push_bit 22 1\<rparr>),
           ip := 0xfff0, next_ip := 0xfff0, idt_base := 0, idt_limit := 0x3ff, gdt_base := 0, gdt_limit := 0,
           cr0 := if fpu then 0x10 else 0, cr2 := 0, cr3 := 0, dr := (\<lambda>i. if i < 8 then 0 else dr c i),
           sysenter := (0, 0, 0)\<rparr>))"

definition cpui386_reset_pm :: "bool \<Rightarrow> u32 \<Rightarrow> 'd CPU \<Rightarrow> 'd CPU" where
  "cpui386_reset_pm fpu start_addr c0 =
     (let c = cpui386_reset fpu c0; data = \<lparr>sel = 0x10, base = 0, limit = 0xffffffff, sflags = SEG_D_BIT\<rparr>
      in c\<lparr>cr0 := 1,
           seg := (seg c)(SEG_CS := \<lparr>sel = 0x8, base = 0, limit = 0xffffffff, sflags = SEG_D_BIT\<rparr>,
             SEG_SS := data, SEG_DS := data, SEG_ES := data),
           next_ip := start_addr, cpl := 0, code16 := False, sp_mask := 0xffffffff\<rparr>)"

definition cpui386_raise_irq :: "'d CPU \<Rightarrow> 'd CPU" where
  "cpui386_raise_irq c = c\<lparr>intr := True\<rparr>"

text \<open>
  The two ends of \<open>cpui386_step\<close>: the interrupt that is taken before the batch of
  instructions, and, after it, the exception that the batch ended with if it failed.
  The batch itself (\<open>cpu_exec1\<close>, the decoder) is not modelled.
\<close>

definition step_interrupt :: "'d CPU_CB \<Rightarrow> 'd CPU \<Rightarrow> (unit, 'd) exec" where
  "step_interrupt cb c =
     (if flags c AND IF \<noteq> 0 \<and> intr c
      then let (no, d) = pic_read_irq cb (dev c)
           in aborting (call_isr cb no False 1 (c\<lparr>intr := False, halt := False, dev := d, ip := next_ip c\<rparr>))
      else Inr (Some (), c))"

definition pushes_error :: "nat \<Rightarrow> bool" where
  "pushes_error n = (n \<in> {EX_DF, EX_TS, EX_NP, EX_SS, EX_GP, EX_PF})"

definition step_exception :: "'d CPU_CB \<Rightarrow> bool \<Rightarrow> 'd CPU \<Rightarrow> (unit, 'd) exec" where
  "step_exception cb ret c =
     (let c = c\<lparr>ifetch := (ifetch c)\<lparr>ipaddr := 0\<rparr>\<rparr>
      in if ret then Inr (Some (), c)
         else aborting (call_isr cb (excno c) (pushes_error (excno c)) 1 (c\<lparr>next_ip := ip c\<rparr>)))"

section \<open>Specification vocabulary\<close>

text \<open>The privilege level, the mode bits and virtual 8086 mode.\<close>

definition same_level :: "'d CPU \<Rightarrow> 'd CPU \<Rightarrow> bool" where
  "same_level c c' \<longleftrightarrow> cpl c' = cpl c \<and> cr0 c' = cr0 c \<and> bit (flags c') 17 = bit (flags c) 17"

definition seg_loaded :: "nat \<Rightarrow> 'd CPU \<Rightarrow> 'd CPU \<Rightarrow> bool" where
  "seg_loaded sg c c' \<longleftrightarrow> (sg \<noteq> SEG_CS \<longrightarrow> cpl c' = cpl c) \<and>
     c' = c\<lparr>seg := (seg c)(sg := seg c' sg), cpl := cpl c', code16 := code16 c', sp_mask := sp_mask c'\<rparr>"

text \<open>The gate of an interrupt: the two words of its descriptor.\<close>

definition idt_gate :: "'d CPU_CB \<Rightarrow> nat \<Rightarrow> 'd CPU \<Rightarrow> (u32 \<times> u32, 'd) exec" where
  "idt_gate cb no c =
     TRY1 (translate_laddr c 1 (idt_base c + push_bit 3 (of_nat no)) 4 0) (\<lambda>oa c.
       bind_result (load32 cb c oa) (\<lambda>(w1, c).
       TRY1 (translate_laddr c 1 (idt_base c + push_bit 3 (of_nat no) + 4) 4 0) (\<lambda>oa c.
         bind_result (load32 cb c oa) (\<lambda>(w2, c). Inr (Some (w1, w2), c)))))"

text \<open>The rest of an interrupt through a gate of the interrupt or trap kind.\<close>

definition enter_gate :: "'d CPU_CB \<Rightarrow> u32 \<Rightarrow> u32 \<Rightarrow> bool \<Rightarrow> u32 \<Rightarrow> 'd CPU \<Rightarrow> (unit, 'd) exec" where
  "enter_gate cb w1 w2 pusherr ext c =
     (let gt = gate_type w2; newcs = drop_bit 16 w1; gate16 = (gt = 6 \<or> gt = 7);
          newip = (let i = (w1 AND 0xffff) OR (w2 AND 0xffff0000) in if gate16 then i AND 0xffff else i)
      in TRY (call_isr_check_cs cb newcs ext c) (\<lambda>(k, csdpl) c.
         TRY (if k = 1
              then TRY (if gate16 then isr_same16 cb pusherr c else isr_same32 cb pusherr c) (\<lambda>_ c.
                Inr (Some ((newcs AND NOT 3) OR of_nat (cpl c)), c))
              else if k = 2
              then TRY (isr_inner cb gate16 pusherr csdpl c) (\<lambda>_ c. Inr (Some ((newcs AND NOT 3) OR of_nat csdpl), c))
              else TRY (isr_vm86 cb gate16 pusherr c) (\<lambda>_ c.
                Inr (Some (newcs AND NOT 3), set_flags (flags c AND NOT (TF OR RF OR NT)) c))) (\<lambda>ncs c.
         TRY1 (set_seg cb c SEG_CS ncs) (\<lambda>_ c.
         let c = c\<lparr>next_ip := newip, ip := newip\<rparr>;
             c = set_flags (flags c AND NOT (TF OR RF OR NT)) c
         in Inr (Some (), if gt = 6 \<or> gt = 0xe then set_flags (flags c AND NOT IF) c else c)))))"

text \<open>The operands of the last arithmetic instruction, from which flags are read lazily.\<close>

definition same_lazy :: "'d CPU \<Rightarrow> 'd CPU \<Rightarrow> bool" where
  "same_lazy c c' \<longleftrightarrow> alu c' = (alu c)\<lparr>eflags := eflags (alu c')\<rparr>"

text \<open>Conventional memory: below the device window.\<close>

definition low_ram :: "'d CPU \<Rightarrow> u32 \<Rightarrow> nat \<Rightarrow> bool" where
  "low_ram c a n \<longleftrightarrow> unat a + n \<le> 0xa0000 \<and> unat a + n \<le> unat (phys_mem_size c) \<and> phys_mem_size c \<le> 0xfffe0000"

definition real_seg :: "u32 \<Rightarrow> segment" where
  "real_seg s = \<lparr>sel = s, base = push_bit 4 s, limit = 0xffff, sflags = 0\<rparr>"

text \<open>The state of a handler in real mode that has brought the stack pointer back to its frame.\<close>

definition at_frame :: "'d CPU \<Rightarrow> 'd CPU \<Rightarrow> bool" where
  "at_frame c h \<longleftrightarrow> cr0 h AND 1 = 0 \<and> no_paging h \<and> flags h AND VM = 0 \<and> sp_mask h = 0xffff \<and> seg h SEG_SS = seg c SEG_SS \<and>
     gpr h 4 = gpr c 4 \<and> phys_mem_size h = phys_mem_size c \<and> flags_mask h = flags_mask c \<and>
     (\<forall>k < 6. phys_mem h (base (seg c SEG_SS) + gpr c 4 + of_nat k) = phys_mem c (base (seg c SEG_SS) + gpr c 4 + of_nat k))"

definition real_stack :: "'d CPU \<Rightarrow> bool" where
  "real_stack c \<longleftrightarrow> cr0 c AND 1 = 0 \<and> no_paging c \<and> flags c AND VM = 0 \<and> ss_mask c = 0xffff \<and> sp_mask c = 0xffff \<and> gpr c 4 \<le> 0xffff \<and> 6 \<le> unat (gpr c 4) \<and>
     low_ram c (base (seg c SEG_SS) + (gpr c 4 - 6)) 6"

text \<open>Well-formed processor states: the privilege level, the stack mask and the selectors have their ranges.\<close>

definition wf_cpu :: "'d CPU \<Rightarrow> bool" where
  "wf_cpu c \<longleftrightarrow> cpl c < 4 \<and> sp_mask c \<in> {0xffff, 0xffffffff} \<and> (\<forall>i < 8. sel (seg c i) \<le> 0xffff)"

definition keeps_wf :: "'d CPU \<Rightarrow> 'd CPU \<Rightarrow> bool" where
  "keeps_wf c c' \<longleftrightarrow> (wf_cpu c \<longrightarrow> wf_cpu c')"

section \<open>What control transfers keep\<close>

lemma same_level_trans: "same_level a b \<Longrightarrow> same_level b c \<Longrightarrow> same_level a c"
  by (simp add: same_level_def)

lemma same_core_level: "same_core c c' \<Longrightarrow> same_level c c'"
  by (simp add: same_level_def same_core_fields)

lemma level_mono: "keeps same_core c m \<Longrightarrow> keeps same_level c m" "stays same_core c u \<Longrightarrow> stays same_level c u"
  by (auto simp: keeps_def stays_def same_core_level)

lemma VM_bit: "x AND VM = 0 \<longleftrightarrow> \<not> bit x 17" for x :: u32
  using and_exp_eq_0 [of x 17] by simp

lemma same_level_upd [simp]:
  "same_level c (sreg32 i v c)" "same_level c (set_sp v m c)" "same_level c (clear_ccmask c)"
  "same_level c (c\<lparr>next_ip := a\<rparr>)" "same_level c (c\<lparr>ip := b\<rparr>)" "same_level c (c\<lparr>seg := g\<rparr>)" "same_level c (c\<lparr>phys_mem := mm\<rparr>)" "same_level c c"
  by (simp_all add: same_level_def sreg32_def set_sp_def clear_ccmask_def flags_def)

lemma refresh_keeps_bits: "refresh_flags a = Inr a' \<Longrightarrow> n \<notin> {0, 2, 4, 6, 7, 11} \<Longrightarrow> bit (eflags a') n = bit (eflags a) n"
  by (auto simp: refresh_flags_def Let_def bind_result_eq_Inr SET_BIT_flag)

lemma level_refresh: "keeps same_level c (cpu_refresh_flags c)"
  unfolding cpu_refresh_flags_def keeps_def same_level_def bind_result_eq_Inr
  by (auto simp: flags_def refresh_keeps_bits)

lemma seg_loadedI:
  "seg_loaded SEG_CS c (c\<lparr>seg := (seg c)(SEG_CS := g), cpl := p, code16 := q\<rparr>)"
  "seg_loaded SEG_SS c (c\<lparr>seg := (seg c)(SEG_SS := g), sp_mask := m\<rparr>)"
  "seg_loaded sg c (c\<lparr>seg := (seg c)(sg := g)\<rparr>)"
  by (simp_all add: seg_loaded_def)

lemma set_seg_real:
  assumes "cr0 c AND 1 = 0 \<or> eflags (alu c) AND VM \<noteq> 0"
  shows "\<exists>c'. set_seg cb c sg s = Inr (Some (), c') \<and> seg_loaded sg c c'"
proof -
  consider "sg = SEG_CS" | "sg = SEG_SS" | "sg \<noteq> SEG_CS" "sg \<noteq> SEG_SS" by blast
  then show ?thesis
    by cases (use assms in \<open>simp_all add: set_seg_def Let_def seg_loadedI [simplified]\<close>)
qed

lemma set_seg_desc:
  assumes "\<not> (cr0 c AND 1 = 0 \<or> eflags (alu c) AND VM \<noteq> 0)" "read_desc cb c (s AND 0xffff) True = Inr (Some (ow1, w2), c1)"
  shows "\<exists>r c'. set_seg cb c sg s = Inr (r, c') \<and> (same_core c1 c' \<or> seg_loaded sg c1 c')"
proof -
  have t: "same_core c1 (c1\<lparr>excno := e, excerr := z\<rparr>)" for e z by (simp add: same_core_def)
  consider "sg = SEG_CS" | "sg = SEG_SS" | "sg \<noteq> SEG_CS" "sg \<noteq> SEG_SS" by blast
  then show ?thesis
    by cases (use assms in \<open>simp_all add: set_seg_def Let_def THROW_def t seg_loadedI [simplified]\<close>)
qed

lemma set_seg_result:
  assumes "set_seg cb c sg s = Inr (r, c')"
  obtains c1 where "same_core c c1" "same_core c1 c' \<or> seg_loaded sg c1 c'"
proof (cases "cr0 c AND 1 = 0 \<or> eflags (alu c) AND VM \<noteq> 0")
  case True
  then show thesis using set_seg_real [of c cb sg s] assms that [of c] by auto
next
  case False
  note F = False
  show thesis
  proof (cases "read_desc cb c (s AND 0xffff) True")
    case (Inr x)
    obtain w c1 where x: "x = (w, c1)" by (cases x)
    have c1: "same_core c c1" using core_read_desc Inr x unfolding stays_def by blast
    show thesis
    proof (cases w)
      case None
      then show thesis using assms F Inr x c1 that [of c1] by (simp add: set_seg_def Let_def)
    next
      case (Some ww)
      then show thesis using set_seg_desc [OF F, of cb s "fst ww" "snd ww" c1 sg] assms Inr x that [OF c1] by auto
    qed
  qed (use assms F in \<open>simp add: set_seg_def Let_def\<close>)
qed

lemma seg_loaded_fields:
  assumes "seg_loaded sg c c'"
  shows "alu c' = alu c" "gpr c' = gpr c" "ip c' = ip c" "next_ip c' = next_ip c" "cr0 c' = cr0 c" "flags c' = flags c"
    "phys_mem c' = phys_mem c" "phys_mem_size c' = phys_mem_size c" "i \<noteq> sg \<Longrightarrow> seg c' i = seg c i" "flags_mask c' = flags_mask c"
proof -
  have e: "c' = c\<lparr>seg := (seg c)(sg := seg c' sg), cpl := cpl c', code16 := code16 c', sp_mask := sp_mask c'\<rparr>"
    using assms by (simp add: seg_loaded_def)
  show "alu c' = alu c" "gpr c' = gpr c" "ip c' = ip c" "next_ip c' = next_ip c" "cr0 c' = cr0 c" "flags c' = flags c"
    "phys_mem c' = phys_mem c" "phys_mem_size c' = phys_mem_size c" "i \<noteq> sg \<Longrightarrow> seg c' i = seg c i" "flags_mask c' = flags_mask c"
    by (subst e, simp add: flags_def)+
qed

lemma level_set_seg: "sg \<noteq> SEG_CS \<Longrightarrow> stays same_level c (set_seg cb c sg s)"
  unfolding stays_def
proof (intro allI impI)
  fix r c' assume sg: "sg \<noteq> SEG_CS" and "set_seg cb c sg s = Inr (r, c')"
  then obtain c1 where c1: "same_core c c1" "same_core c1 c' \<or> seg_loaded sg c1 c'" by (elim set_seg_result)
  from c1(2) have "same_level c1 c'"
  proof
    assume l: "seg_loaded sg c1 c'"
    then show ?thesis using sg seg_loaded_fields [OF l] by (simp add: same_level_def seg_loaded_def)
  qed (rule same_core_level)
  then show "same_level c c'" using same_core_level [OF c1(1)] same_level_trans by blast
qed

lemma set_seg_CS_cpl:
  assumes "set_seg cb c SEG_CS s = Inr (Some (), c')" "cr0 c AND 1 \<noteq> 0"
  shows "cpl c' = (if bit (flags c) 17 then 3 else unat (s AND 3)) \<and> cr0 c' = cr0 c \<and> flags c' = flags c"
proof (cases "bit (flags c) 17")
  case True
  then show ?thesis using assms by (auto simp: set_seg_def flags_def VM_bit Let_def)
next
  case False
  then have v: "eflags (alu c) AND VM = 0" by (simp add: VM_bit flags_def)
  obtain w c1 where r: "read_desc cb c (s AND 0xffff) True = Inr (Some w, c1)"
      "cpl c' = unat ((s AND 0xffff) AND 3)" "cr0 c' = cr0 c1" "alu c' = alu c1"
    using assms v by (auto simp: set_seg_def Let_def TRY_eq_Some THROW_def split: if_splits)
  have "same_core c c1" using core_read_desc r(1) unfolding stays_def by blast
  moreover have "(s AND 0xffff) AND 3 = s AND 3" by (simp add: and.assoc)
  ultimately show ?thesis using r False by (simp add: same_core_fields flags_def)
qed

text \<open>
  A relation that every access of memory keeps is kept by all that is read and checked
  in the course of a transfer of control.
\<close>

locale access_relation = step_relation R for R :: "'d CPU \<Rightarrow> 'd CPU \<Rightarrow> bool" +
  assumes core: "same_core c c' \<Longrightarrow> R c c'"
begin

lemma reflexive [simp]: "R c c"
  by (rule refl)

lemma core_mono: "keeps same_core c m \<Longrightarrow> keeps R c m" "stays same_core c u \<Longrightarrow> stays R c u"
  by (auto simp: keeps_def stays_def core)

lemma access [frame_rules]:
  "stays R c (translate c rwm s a sz cp)" "stays R c (translate_laddr c rwm a sz cp)"
  "stays R c (load16 cb c oa)" "stays R c (load32 cb c oa)"
  "keeps R c (store16 cb c oa v16)" "keeps R c (store32 cb c oa v32)" "stays R c (read_desc cb c d b)"
  by (intro core_mono frame_rules)+

lemma throw_ok [frame_rules]: "stays R c (THROW ex err c)"
  by (rule core_mono(2)) (rule core_THROW)

lemma translate_all_ok: "stays R c (translate_all (\<lambda>c a. translate c rwm s a w cp) l c)"
proof (induction l arbitrary: c)
  case (Cons a l)
  show ?case by (auto intro!: try_stays frame_rules Cons.IH core_mono(2) [OF core_translate])
qed (auto intro!: frame_rules)

lemma store_all_ok: "keeps R c (store_all16 cb l16 c)" "keeps R c (store_all32 cb l32 c)"
proof -
  show "keeps R c (store_all16 cb l16 c)"
    by (induction cb l16 c rule: store_all16.induct)
      (auto intro!: frame_rules bind_keeps(1) core_mono(1) [OF core_store16])
  show "keeps R c (store_all32 cb l32 c)"
    by (induction cb l32 c rule: store_all32.induct)
      (auto intro!: frame_rules bind_keeps(1) core_mono(1) [OF core_store32])
qed

lemma load_all_ok: "stays R c (load_all16 cb l c)" "stays R c (load_all32 cb l c)"
proof -
  show "stays R c (load_all16 cb l c)"
  proof (induction l arbitrary: c)
    case (Cons a l)
    show ?case by (auto intro!: bind_stays(2) frame_rules Cons.IH core_mono(2) [OF core_load16])
  qed (auto intro!: frame_rules)
  show "stays R c (load_all32 cb l c)"
  proof (induction l arbitrary: c)
    case (Cons a l)
    show ?case by (auto intro!: bind_stays(2) frame_rules Cons.IH core_mono(2) [OF core_load32])
  qed (auto intro!: frame_rules)
qed

lemma frame_ok [frame_rules]: "stays R c (translate_frame w n c)"
  unfolding translate_frame_def by (rule translate_all_ok)

lemma aborting_ok: "stays R c u \<Longrightarrow> stays R c (aborting u)"
  unfolding aborting_def by (rule try1_stays) (auto intro: frame_rules)

lemma store_after_ok:
  "R c c1 \<Longrightarrow> keeps R c (store_all16 cb l16 c1)" "R c c1 \<Longrightarrow> keeps R c (store_all32 cb l32 c1)"
  by (blast intro: after_step store_all_ok)+

lemma read_params_ok [frame_rules]: "stays R c (read_params cb g sp m l c)"
proof (induction l arbitrary: c)
  case (Cons i l)
  show ?case unfolding read_params.simps
    by (intro try_stays frame_rules bind_stays Cons.IH) simp_all
qed (simp add: frame_rules)

lemma tss_stack_ok [frame_rules]: "stays R c (tss_stack cb pl c)"
  unfolding tss_stack_def
  by (intro frame_if try_stays frame_rules bind_stays) simp_all

lemma check_cs_ok [frame_rules]: "stays R c (call_isr_check_cs cb s ext c)"
  unfolding call_isr_check_cs_def Let_def
  by (auto intro!: try1_stays bind_stays frame_rules split: prod.split)

lemma pmiret_ok [frame_rules]: "stays R c (pmiret_check_cs_same cb s c)" "stays R c (pmiret_check_cs_outer cb s c)"
  unfolding pmiret_check_cs_same_def pmiret_check_cs_outer_def Let_def
  by (auto intro!: try_stays frame_rules split: prod.split)

lemma pmret_frame_ok [frame_rules]: "stays R c (pmret_frame cb w i sp m c)"
proof -
  have l: "stays R c' ((if w then load_all16 cb else load_all32 cb) l c')" for c' :: "'d CPU" and l
    by (simp add: load_all_ok)
  show ?thesis
    unfolding pmret_frame_def Let_def
    by (intro try_stays translate_all_ok bind_stays(2) [OF l] frame_rules) simp_all
qed

lemma read_frame_ok [frame_rules]: "stays R c (read_frame cb w sp m l c)"
  unfolding read_frame_def by (auto intro!: try_stays translate_all_ok frame_rules load_all_ok)



end

text \<open>
  A relation that also every move of a register and every load of a segment other than
  \<open>CS\<close> keeps is kept by the frames of calls and interrupts.
\<close>

locale transfer_relation = access_relation R for R :: "'d CPU \<Rightarrow> 'd CPU \<Rightarrow> bool" +
  assumes upd: "R c (sreg32 i v c)" "R c (set_sp v m c)" "R c (clear_ccmask c)" "R c (c\<lparr>next_ip := a\<rparr>)"
    and refreshed: "keeps R c (cpu_refresh_flags c)"
    and seg_load: "sg \<noteq> SEG_CS \<Longrightarrow> stays R c (set_seg cb c sg s)"
begin

lemma moves [simp]: "R c (sreg32 i v c)" "R c (set_sp v m c)" "R c (clear_ccmask c)" "R c (c\<lparr>next_ip := a\<rparr>)"
  by (rule upd)+

lemma push_return_ok [frame_rules]: "stays R c (push_return cb b c)"
  unfolding push_return_def push_return16_def push_return32_def Let_def
  by (intro frame_if try_stays frame_rules store_after_ok) simp_all

lemma write_params_ok [frame_rules]: "stays R c (write_params cb g sp m wc l c)"
proof (induction cb g sp m wc l c rule: write_params.induct)
  case (2 cb g sp m wc i v l c)
  show ?case unfolding write_params.simps
    by (intro try_stays try1_stays frame_rules bind_stays) (metis 2 stays_def)
qed (simp add: frame_rules)

lemma gate_inner_ok [frame_rules]: "stays R c (gate_inner cb j g dpl wc c)"
proof -
  have r: "stays R c' (set_seg cb (sreg32 4 v c') SEG_SS s)" for c' :: "'d CPU" and v s
    by (rule after_step(2) [of _ "sreg32 4 v c'"]) (simp_all add: seg_load)
  show ?thesis
    unfolding gate_inner_def Let_def
    by (auto intro!: try_stays frame_rules r aborting_ok translate_all_ok bind_keeps(2) store_all_ok
        split: prod.split)
qed

lemma isr_ok [frame_rules]:
  "stays R c (isr_same16 cb e c)" "stays R c (isr_same32 cb e c)"
  "stays R c (isr_inner_frame16 cb e ss sp c)" "stays R c (isr_inner_frame32 cb e ss sp c)"
proof -
  show "stays R c (isr_same16 cb e c)"
    unfolding isr_same16_def Let_def
    by (intro try_stays bind_keeps frame_rules refreshed store_after_ok) simp_all
  show "stays R c (isr_same32 cb e c)"
    unfolding isr_same32_def Let_def
    by (intro try_stays bind_keeps frame_rules refreshed store_after_ok) simp_all
  show "stays R c (isr_inner_frame16 cb e ss sp c)"
    unfolding isr_inner_frame16_def Let_def
    by (intro try_stays bind_keeps frame_rules refreshed store_after_ok) simp_all
  show "stays R c (isr_inner_frame32 cb e ss sp c)"
    unfolding isr_inner_frame32_def Let_def
    by (intro try_stays bind_keeps frame_rules refreshed store_after_ok) simp_all
qed

lemma isr_inner_ok [frame_rules]: "stays R c (isr_inner cb g e pl c)"
proof -
  have r: "stays R c' (set_seg cb (sreg32 4 v c') SEG_SS s)" for c' :: "'d CPU" and v s
    by (rule after_step(2) [of _ "sreg32 4 v c'"]) (simp_all add: seg_load)
  show ?thesis
    unfolding isr_inner_def Let_def by (auto intro!: try_stays frame_rules r split: prod.split)
qed

end

interpretation core: access_relation same_core
  by unfold_locales

interpretation level: transfer_relation same_level
proof
  show "same_level a b \<Longrightarrow> same_level b c \<Longrightarrow> same_level a c" for a b c :: "'d CPU" by (rule same_level_trans)
  show "same_core c c' \<Longrightarrow> same_level c c'" for c c' :: "'d CPU" by (rule same_core_level)
  show "keeps same_level c (cpu_refresh_flags c)" for c :: "'d CPU" by (rule level_refresh)
  show "sg \<noteq> SEG_CS \<Longrightarrow> stays same_level c (set_seg cb c sg s)" for c :: "'d CPU" and cb sg s by (rule level_set_seg)
qed simp_all

lemma staysD: "stays R c m \<Longrightarrow> m = Inr (r, c') \<Longrightarrow> R c c'"
  by (simp add: stays_def)

lemma sel_level: "n < 4 \<Longrightarrow> unat (((x AND y) OR of_nat n) AND 3 :: u32) = n" if "y AND 3 = 0"
proof -
  assume n: "n < 4"
  have "((x AND y) OR of_nat n) AND 3 = (x AND (y AND 3)) OR (of_nat n AND 3)" by (simp add: bit.conj_disj_distrib2 and.assoc)
  moreover have "n \<in> {0, 1, 2, 3}" using n by auto
  then have "(of_nat n AND 3 :: u32) = of_nat n" by auto
  ultimately show ?thesis using that n by (simp add: unat_of_nat)
qed

lemma rpl_bound: "unat (x AND 3 :: u32) < 4"
  using unat_and_le_right [of x 3] by simp

lemma clear_segs_cpl [simp]: "cpl (clear_segs c) = cpl c"
  by (simp add: clear_segs_def clear_seg_def Let_def)

lemma pmret_same_cpl:
  assumes "pmret_same cb w i off sp m nip ncs nf c = Inr (Some (), c')" "cr0 c AND 1 \<noteq> 0"
    "\<not> bit (if i then nf else flags c) 17"
  shows "cpl c' = unat (ncs AND 3)"
proof -
  obtain c1 c2 where c: "pmiret_check_cs_same cb ncs c = Inr (Some (), c1)"
    "set_seg cb (if i then set_flags nf c1 else c1) SEG_CS ncs = Inr (Some (), c2)" "cpl c' = cpl c2"
    using assms(1) by (auto simp: pmret_same_def TRY_eq_Some TRY1_eq_Some set_sp_def sreg32_def)
  have "same_level c c1" by (rule staysD [OF level.pmiret_ok(1) c(1)])
  then have "cr0 (if i then set_flags nf c1 else c1) AND 1 \<noteq> 0" "\<not> bit (flags (if i then set_flags nf c1 else c1)) 17"
    using assms by (auto simp: same_level_def set_flags_def flags_def)
  then show ?thesis using set_seg_CS_cpl [OF c(2)] c(3) by simp
qed

lemma pmret_outer_cpl:
  assumes "pmret_outer cb w i off sp m nip ncs nf c = Inr (Some (), c')" "cr0 c AND 1 \<noteq> 0"
    "\<not> bit (if i then nf else flags c) 17"
  shows "cpl c' = unat (ncs AND 3)"
proof -
  obtain c1 vs c2 c3 c4 where c: "pmiret_check_cs_outer cb ncs c = Inr (Some (), c1)"
    "read_frame cb w sp m (if w then [4 + off, 6 + off] else [8 + off, 12 + off]) c1 = Inr (Some vs, c2)"
    "set_seg cb (if i then set_flags nf c2 else c2) SEG_CS ncs = Inr (Some (), c3)"
    "set_seg cb c3 SEG_SS (vs ! 1) = Inr (Some (), c4)" "cpl c' = cpl c4"
    using assms(1) by (auto simp: pmret_outer_def Let_def TRY_eq_Some TRY1_eq_Some set_sp_def sreg32_def)
  have "same_level c c1" "same_level c1 c2" "same_level c3 c4"
    using staysD [OF level.pmiret_ok(2) c(1)] staysD [OF level.read_frame_ok c(2)] staysD [OF level_set_seg c(4)] by simp_all
  moreover from this have "cr0 (if i then set_flags nf c2 else c2) AND 1 \<noteq> 0" "\<not> bit (flags (if i then set_flags nf c2 else c2)) 17"
    using assms by (auto simp: same_level_def set_flags_def flags_def)
  ultimately show ?thesis using set_seg_CS_cpl [OF c(3)] c(5) by (simp add: same_level_def)
qed

lemma pmret_vm86_cpl:
  assumes "pmret_vm86 cb w sp m nip ncs nf c = Inr (Some (), c')" "cr0 c AND 1 \<noteq> 0" "bit nf 17"
  shows "cpl c' = 3"
proof -
  obtain oas c1 c2 where c: "translate_all (\<lambda>c a. translate c 1 (Some SEG_SS) a 4 0) (map (\<lambda>x. (sp + x) AND m) [12, 16, 20, 24, 28, 32]) c = Inr (Some oas, c1)"
    "set_seg cb (set_flags nf c1) SEG_CS ncs = Inr (Some (), c2)"
    using assms(1) by (auto simp: pmret_vm86_def TRY_eq_Some TRY1_eq_Some split: if_splits)
  have l: "same_level c c1" by (rule staysD [OF level.translate_all_ok c(1)])
  have "cpl c2 = 3" using set_seg_CS_cpl [OF c(2)] l assms(2,3) by (simp add: same_level_def set_flags_def flags_def)
  define rest where "rest c =
        (let c = (set_sp (sp + 12) m c)\<lparr>next_ip := nip\<rparr>
        in bind_result (load32 cb c (oas ! 1)) (\<lambda>(ss, c). TRY1 (set_seg cb c SEG_SS ss) (\<lambda>_ c.
           bind_result (load32 cb c (oas ! 2)) (\<lambda>(es, c). TRY1 (set_seg cb c SEG_ES es) (\<lambda>_ c.
           bind_result (load32 cb c (oas ! 3)) (\<lambda>(ds, c). TRY1 (set_seg cb c SEG_DS ds) (\<lambda>_ c.
           bind_result (load32 cb c (oas ! 4)) (\<lambda>(fs, c). TRY1 (set_seg cb c SEG_FS fs) (\<lambda>_ c.
           bind_result (load32 cb c (oas ! 5)) (\<lambda>(gs, c). TRY (set_seg cb c SEG_GS gs) (\<lambda>_ c.
           bind_result (load32 cb c (oas ! 0)) (\<lambda>(nsp, c). Inr (Some (), set_sp nsp 0xffffffff c)))))))))))))" for c
  have "pmret_vm86 cb w sp m nip ncs nf c = rest c2"
    using assms(1) c by (auto simp: pmret_vm86_def rest_def split: if_splits)
  moreover have "stays same_level c2 (rest c2)"
  proof -
    have ld: "same_level c x \<Longrightarrow> stays same_level c (load32 cb x oa)" for c x :: "'a CPU" and oa
      by (blast intro: level.after_step level.access)
    show ?thesis unfolding rest_def Let_def
      by (intro level.bind_stays(2) ld level.try1_stays level.try_stays level_set_seg frame_leaf) 
        (simp_all add: same_level_def set_sp_def sreg32_def flags_def)
  qed
  ultimately have "same_level c2 c'" using assms(1) staysD by metis
  then show ?thesis using \<open>cpl c2 = 3\<close> by (simp add: same_level_def)
qed

lemma pmret_cpl:
  assumes "pmret cb w off i c = Inr (Some (), c')" "cr0 c AND 1 \<noteq> 0" "flags c AND VM = 0" "\<not> (i \<and> flags c AND NT \<noteq> 0)" "cpl c < 4"
  shows "cpl c \<le> cpl c' \<and> cpl c' < 4"
proof -
  obtain nip ncs fl c1 where f: "pmret_frame cb w i (gpr c 4) (ss_mask c) c = Inr (Some (nip, ncs, fl), c1)"
    using assms by (auto simp: pmret_def Let_def TRY_eq_Some)
  have l: "same_level c c1" by (rule staysD [OF level.pmret_frame_ok f])
  define nf where "nf = (if i then iret_flags (if w then (flags c1 AND 0xffff0000) OR fl else fl) c1 else 0)"
  define off' where "off' = (if i then off + (if w then 2 else 4) else off)"
  define tail where "tail = (if i \<and> nf AND VM \<noteq> 0 then pmret_vm86 cb w (gpr c 4) (ss_mask c) nip ncs nf c1
       else if unat (ncs AND 3) < cpl c1 then THROW EX_GP (ncs AND NOT 0x3) c1
       else if unat (ncs AND 3) = cpl c1 then pmret_same cb w i off' (gpr c 4) (ss_mask c) nip ncs nf c1
       else pmret_outer cb w i off' (gpr c 4) (ss_mask c) nip ncs nf c1)"
  have n: "(i \<and> flags c AND VM \<noteq> 0) = False" "(i \<and> flags c AND NT \<noteq> 0) = False" using assms(3,4) by simp_all
  have "pmret cb w off i c = TRY tail (\<lambda>_ c. Inr (Some (), if i then clear_ccmask c else c))"
    unfolding pmret_def tail_def nf_def off'_def by (simp only: n Let_def if_False TRY_simps prod.case f)
  then have "TRY tail (\<lambda>_ c. Inr (Some (), if i then clear_ccmask c else c)) = Inr (Some (), c')" using assms(1) by simp
  then obtain c2 where r: "tail = Inr (Some (), c2)" "cpl c' = cpl c2"
    by (auto simp: TRY_eq_Some clear_ccmask_def)
  note r = r [unfolded tail_def]
  have k: "cr0 c1 AND 1 \<noteq> 0" "\<not> bit (flags c1) 17" "cpl c1 = cpl c" using l assms(2,3) by (auto simp: same_level_def VM_bit)
  show ?thesis
  proof (cases "i \<and> nf AND VM \<noteq> 0")
    case True
    then show ?thesis using r pmret_vm86_cpl [of cb w _ _ nip ncs nf c1 c2] k assms(5) by (simp add: VM_bit)
  next
    case False
    then have nv: "\<not> bit (if i then nf else flags c1) 17" using k by (simp add: VM_bit)
    have "cpl c2 = unat (ncs AND 3)" "cpl c1 \<le> unat (ncs AND 3)"
      using r(1) False pmret_same_cpl [OF _ k(1) nv] pmret_outer_cpl [OF _ k(1) nv] by (auto simp: THROW_def split: if_splits)
    then show ?thesis using r(2) k(3) rpl_bound [of ncs] by simp
  qed
qed

lemma set_seg_CS_level:
  assumes "set_seg cb c2 SEG_CS ((x AND y) OR of_nat n) = Inr (Some (), c')" "y AND 3 = 0" "n < 4"
    "same_level c c2" "cr0 c AND 1 \<noteq> 0" "flags c AND VM = 0"
  shows "cpl c' = n"
proof -
  have "cr0 c2 AND 1 \<noteq> 0" "\<not> bit (flags c2) 17" using assms(4-6) by (auto simp: same_level_def VM_bit)
  then show ?thesis using set_seg_CS_cpl [OF assms(1)] sel_level [OF assms(2,3)] by simp
qed

lemma push_return_level:
  "(if j then Inr (Some (), c) else push_return cb w c) = Inr (r, c') \<Longrightarrow> same_level c c'"
  by (auto split: if_splits intro: staysD [OF level.push_return_ok])

lemma pmcall_code:
  assumes "pmcall cb w addr s j c = Inr (Some (), c')" "read_desc cb c (s AND 0xffff) True = Inr (Some (ow1, w2), c1)"
    "bit w2 12" "cr0 c AND 1 \<noteq> 0" "flags c AND VM = 0" "cpl c < 4"
  shows "cpl c' = cpl c"
proof -
  have l1: "same_level c c1" using staysD [OF level.access(7) assms(2)] .
  obtain c2 c3 where p: "(if j then Inr (Some (), c1) else push_return cb w c1) = Inr (Some (), c2)"
      "set_seg cb c2 SEG_CS (((s AND 0xffff) AND 0xfffc) OR of_nat (cpl c1)) = Inr (Some (), c3)" "cpl c' = cpl c3"
    using assms(1-3) by (auto simp: pmcall_def Let_def TRY_eq_Some TRY1_eq_Some THROW_def split: if_splits)
  have "same_level c c2" using level.trans [OF l1 push_return_level [OF p(1)]] .
  then have "cpl c3 = cpl c1" using set_seg_CS_level [OF p(2)] l1 assms(4-6) by (simp add: same_level_def)
  then show ?thesis using p(3) l1 by (simp add: same_level_def)
qed

lemma pmcall_gate:
  assumes "pmcall cb w addr s j c = Inr (Some (), c')" "read_desc cb c (s AND 0xffff) True = Inr (Some (ow1, w2), c1)"
    "\<not> bit w2 12" "gate_type w2 \<notin> {5, 9}" "cr0 c AND 1 \<noteq> 0" "flags c AND VM = 0" "cpl c < 4"
  shows "cpl c' \<le> cpl c \<and> gate_type w2 \<in> {4, 12} \<and> cpl c \<le> desc_dpl w2 \<and> unat (s AND 3) \<le> desc_dpl w2"
proof -
  define ncs where "ncs = drop_bit 16 (case ow1 of Some w \<Rightarrow> w | None \<Rightarrow> 0)"
  have l1: "same_level c c1" using staysD [OF level.access(7) assms(2)] .
  have s3: "(s AND 0xffff) AND 3 = s AND 3" by (simp add: and.assoc)
  define tail where "tail nw2 g c2 =
      TRY (if \<not> bit nw2 10 \<and> desc_dpl nw2 < cpl c2
           then TRY (gate_inner cb j g (desc_dpl nw2) (unat (w2 AND 31)) c2) (\<lambda>_ c. Inr (Some ((ncs AND 0xfffc) OR of_nat (desc_dpl nw2)), c))
           else TRY (if j then Inr (Some (), c2) else push_return cb g c2) (\<lambda>_ c. Inr (Some ((ncs AND 0xfffc) OR of_nat (cpl c)), c)))
        (\<lambda>n c. TRY1 (set_seg cb c SEG_CS n) (\<lambda>_ c. Inr (Some (), c\<lparr>next_ip :=
           (let newip = ((case ow1 of Some w \<Rightarrow> w | None \<Rightarrow> 0) AND 0xffff) OR (w2 AND 0xffff0000) in if g then newip AND 0xffff else newip)\<rparr>)))" for nw2 g c2
  have g: "\<not> (desc_dpl w2 < cpl c1 \<or> desc_dpl w2 < unat (s AND 3))" "gate_type w2 \<in> {4, 12}"
    using assms(1-4) by (auto simp: pmcall_def Let_def s3 THROW_def split: if_splits)
  obtain o2 nw2 c2 where n: "read_desc cb c1 ncs False = Inr (Some (o2, nw2), c2)" "desc_dpl nw2 \<le> cpl c2"
      "tail nw2 (gate_type w2 = 4) c2 = Inr (Some (), c')"
    using assms(1-4) g unfolding tail_def
    by (auto simp: pmcall_def Let_def s3 THROW_def TRY_eq_Some TRY1_eq_Some ncs_def not_less split: if_splits)
  have l2: "same_level c c2" using level.trans [OF l1 staysD [OF level.access(7) n(1)]] .
  have k: "cpl c2 = cpl c" using l2 by (simp add: same_level_def)
  have "cpl c' \<le> cpl c"
  proof (cases "\<not> bit nw2 10 \<and> desc_dpl nw2 < cpl c2")
    case True
    obtain c3 c4 where t: "gate_inner cb j (gate_type w2 = 4) (desc_dpl nw2) (unat (w2 AND 31)) c2 = Inr (Some (), c3)"
        "set_seg cb c3 SEG_CS ((ncs AND 0xfffc) OR of_nat (desc_dpl nw2)) = Inr (Some (), c4)" "cpl c' = cpl c4"
      using n(3) True by (auto simp: tail_def TRY_eq_Some TRY1_eq_Some)
    have "same_level c c3" using level.trans [OF l2 staysD [OF level.gate_inner_ok t(1)]] .
    then have "cpl c4 = desc_dpl nw2" using set_seg_CS_level [OF t(2)] True k assms(5-7) by simp
    then show ?thesis using t(3) n(2) k by simp
  next
    case False
    obtain c3 c4 where t: "(if j then Inr (Some (), c2) else push_return cb (gate_type w2 = 4) c2) = Inr (Some (), c3)"
        "set_seg cb c3 SEG_CS ((ncs AND 0xfffc) OR of_nat (cpl c3)) = Inr (Some (), c4)" "cpl c' = cpl c4"
      using n(3) False by (auto simp: tail_def TRY_eq_Some TRY1_eq_Some split: if_splits)
    have l3: "same_level c c3" using level.trans [OF l2 push_return_level [OF t(1)]] .
    then have "cpl c4 = cpl c3" using set_seg_CS_level [OF t(2)] assms(5-7) by (simp add: same_level_def)
    then show ?thesis using t(3) l3 by (simp add: same_level_def)
  qed
  then show ?thesis using g l1 by (simp add: same_level_def not_less)
qed

lemma call_isr_gate:
  assumes "cr0 c AND 1 \<noteq> 0" "\<not> idt_limit c < push_bit 3 (of_nat no) + 7" "idt_gate cb no c = Inr (Some (w1, w2), c1)"
  shows "call_isr cb no pusherr ext c =
    (let off = push_bit 3 (of_nat no); gt = gate_type w2
     in if gt \<notin> {6, 7, 0xe, 0xf, 5} then THROW EX_GP (off OR 2 OR ext) c1
        else if ext = 0 \<and> desc_dpl w2 < cpl c1 then THROW EX_GP (off OR 2) c1
        else if \<not> bit w2 15 then THROW EX_NP (off OR 2 OR ext) c1
        else if gt = 5 then task_switch cb (drop_bit 16 w1) TS_CALL c1
        else enter_gate cb w1 w2 pusherr ext c1)"
proof -
  obtain oa a1 a2 oa' a3 where g: "translate_laddr c 1 (idt_base c + push_bit 3 (of_nat no)) 4 0 = Inr (Some oa, a1)"
      "load32 cb a1 oa = Inr (w1, a2)" "translate_laddr a2 1 (idt_base a2 + push_bit 3 (of_nat no) + 4) 4 0 = Inr (Some oa', a3)"
      "load32 cb a3 oa' = Inr (w2, c1)"
    using assms(3) by (auto simp: idt_gate_def TRY1_eq_Some bind_result_eq_Inr)
  note e = if_False if_True simp_thms prod.case TRY1_simps bind_result_simps g
  show ?thesis
    unfolding call_isr_def enter_gate_def Let_def using assms(1,2) by (simp only: e)
qed

lemma check_cs_result:
  assumes "call_isr_check_cs cb s ext c = Inr (Some (k, dpl), c')" "flags c AND VM = 0"
  shows "k = 1 \<or> k = 2 \<and> dpl < cpl c"
proof -
  obtain oa a1 w2 a2 where g: "translate_laddr c 1 ((if (s AND 0xffff) AND 4 \<noteq> 0 then base (seg c SEG_LDT) else gdt_base c) + ((s AND 0xffff) AND NOT 7) + 4) 4 0 = Inr (Some oa, a1)"
      "load32 cb a1 oa = Inr (w2, a2)" and
      r: "k = 1 \<or> k = 2 \<and> dpl < cpl a2 \<or> k = 3 \<and> flags a2 AND VM \<noteq> 0"
    using assms(1)
    by (auto simp: call_isr_check_cs_def Let_def TRY1_eq_Some bind_result_eq_Inr THROW_def split: if_splits)
  have "same_level c a2"
    using level.trans [OF staysD [OF level.access(2) g(1)] staysD [OF level.access(4) g(2)]] .
  then show ?thesis using r assms(2) by (auto simp: same_level_def VM_bit)
qed

lemma enter_gate_cpl:
  assumes "enter_gate cb w1 w2 pe ext c = Inr (Some (), c')" "cr0 c AND 1 \<noteq> 0" "flags c AND VM = 0" "cpl c < 4"
  shows "cpl c' \<le> cpl c"
proof -
  let ?n = "drop_bit 16 w1"
  obtain k dpl c1 where k: "call_isr_check_cs cb ?n ext c = Inr (Some (k, dpl), c1)"
    using assms(1) by (auto simp: enter_gate_def Let_def TRY_eq_Some)
  have l1: "same_level c c1" by (rule staysD [OF level.check_cs_ok k])
  have fl: "cpl (set_flags v x) = cpl x" "cpl (x\<lparr>next_ip := a, ip := b\<rparr>) = cpl x" for v a b and x :: "'a CPU" by (simp_all add: set_flags_def)
  have z: "(NOT 3 :: u32) AND 3 = 0" by simp
  from check_cs_result [OF k assms(3)] show ?thesis
  proof
    assume k1: "k = 1"
    obtain c2 c3 where t: "(if gate_type w2 = 6 \<or> gate_type w2 = 7 then isr_same16 cb pe c1 else isr_same32 cb pe c1) = Inr (Some (), c2)"
        "set_seg cb c2 SEG_CS ((?n AND NOT 3) OR of_nat (cpl c2)) = Inr (Some (), c3)" "cpl c' = cpl c3"
      using assms(1) k k1 by (auto simp: enter_gate_def Let_def TRY_eq_Some TRY1_eq_Some fl split: if_splits)
    have "same_level c1 c2" using t(1) by (auto split: if_splits dest: staysD [OF level.isr_ok(1)] staysD [OF level.isr_ok(2)])
    then have l2: "same_level c c2" using l1 level.trans by blast
    then have "cpl c2 < 4" using assms(4) by (simp add: same_level_def)
    then have "cpl c3 = cpl c2" using set_seg_CS_level [OF t(2) z _ l2 assms(2,3)] by simp
    then show ?thesis using t(3) l2 by (simp add: same_level_def)
  next
    assume k2: "k = 2 \<and> dpl < cpl c"
    obtain c2 c3 where t: "isr_inner cb (gate_type w2 = 6 \<or> gate_type w2 = 7) pe dpl c1 = Inr (Some (), c2)"
        "set_seg cb c2 SEG_CS ((?n AND NOT 3) OR of_nat dpl) = Inr (Some (), c3)" "cpl c' = cpl c3"
      using assms(1) k k2 by (auto simp: enter_gate_def Let_def TRY_eq_Some TRY1_eq_Some fl split: if_splits)
    have l2: "same_level c c2" using level.trans [OF l1 staysD [OF level.isr_inner_ok t(1)]] .
    have "cpl c3 = dpl" using set_seg_CS_level [OF t(2) z _ l2 assms(2,3)] k2 assms(4) by simp
    then show ?thesis using t(3) k2 by simp
  qed
qed

lemma call_isr_cpl:
  assumes "call_isr cb no pe ext c = Inr (Some (), c')" "idt_gate cb no c = Inr (Some (w1, w2), c1)" "gate_type w2 \<noteq> 5"
    "cr0 c AND 1 \<noteq> 0" "flags c AND VM = 0" "cpl c < 4"
  shows "cpl c' \<le> cpl c \<and> (ext = 0 \<longrightarrow> cpl c \<le> desc_dpl w2)"
proof -
  have lim: "\<not> idt_limit c < push_bit 3 (of_nat no) + 7" using assms(1,4) by (auto simp: call_isr_def Let_def THROW_def)
  have "stays same_level c (idt_gate cb no c)"
    unfolding idt_gate_def by (intro level.try1_stays level.bind_stays frame_rules) simp
  then have l1: "same_level c c1" using assms(2) by (rule staysD)
  have "enter_gate cb w1 w2 pe ext c1 = Inr (Some (), c') \<and> (ext = 0 \<longrightarrow> cpl c1 \<le> desc_dpl w2)"
    using assms(1,3) call_isr_gate [OF assms(4) lim assms(2)] by (auto simp: Let_def THROW_def not_less split: if_splits)
  moreover have "cr0 c1 AND 1 \<noteq> 0" "flags c1 AND VM = 0" "cpl c1 = cpl c" using l1 assms(4,5) by (simp_all add: same_level_def VM_bit)
  ultimately show ?thesis using enter_gate_cpl [of cb w1 w2 pe ext c1 c'] assms(6) by simp
qed

lemma same_alu_trans: "y = x\<lparr>eflags := e\<rparr> \<Longrightarrow> z = y\<lparr>eflags := eflags z\<rparr> \<Longrightarrow> z = x\<lparr>eflags := eflags z\<rparr>" for x y z :: ALU
  by (cases x; cases z) simp

lemma same_core_lazy: "same_core c c' \<Longrightarrow> same_lazy c c'"
  by (simp add: same_lazy_def same_core_fields)

lemma same_lazy_upd [simp]:
  "same_lazy c c" "same_lazy c (sreg32 i v c)" "same_lazy c (set_flags v c)" "same_lazy c (c\<lparr>next_ip := a\<rparr>)" "same_lazy c (c\<lparr>seg := g\<rparr>)"
  "same_lazy c (c\<lparr>cr0 := x\<rparr>)" "same_lazy c (tlb_clear c)" "same_lazy c (c\<lparr>cr3 := y\<rparr>)" "same_lazy c (tlb_clear (c\<lparr>cr3 := y\<rparr>))"
  by (simp_all add: same_lazy_def sreg32_def set_flags_def tlb_clear_def)

lemma lazy_set_seg: "stays same_lazy c (set_seg cb c sg s)"
  unfolding stays_def
proof (intro allI impI)
  fix r c' assume "set_seg cb c sg s = Inr (r, c')"
  then obtain c1 where c1: "same_core c c1" "same_core c1 c' \<or> seg_loaded sg c1 c'" by (elim set_seg_result)
  from c1(2) have "alu c' = alu c1" by (auto simp: same_core_fields seg_loaded_fields)
  then show "same_lazy c c'" using same_core_fields(1) [OF c1(1)] by (simp add: same_lazy_def)
qed

lemma lazy_refresh: "keeps same_lazy c (cpu_refresh_flags c)"
  unfolding cpu_refresh_flags_def keeps_def same_lazy_def bind_result_eq_Inr
  by (auto simp: refresh_flags_def Let_def bind_result_eq_Inr)

text \<open>What a task switch keeps.\<close>

locale task_relation = access_relation R for R :: "'d CPU \<Rightarrow> 'd CPU \<Rightarrow> bool" +
  assumes upd: "R c (sreg32 i v c)" "R c (set_flags v c)" "R c (c\<lparr>next_ip := a\<rparr>)" "R c (c\<lparr>cr0 := x\<rparr>)" "R c (tlb_clear (c\<lparr>cr3 := y\<rparr>))"
      "R c (c\<lparr>seg := (seg c)(sg := (seg c sg)\<lparr>sflags := f\<rparr>)\<rparr>)"
    and refreshed: "keeps R c (cpu_refresh_flags c)"
    and seg_load: "stays R c (set_seg cb c sg s)"
begin

lemma moves [simp]:
  "R c (sreg32 i v c)" "R c (set_flags v c)" "R c (c\<lparr>next_ip := a\<rparr>)" "R c (c\<lparr>cr0 := x\<rparr>)" "R c (tlb_clear (c\<lparr>cr3 := y\<rparr>))"
  "R c (c\<lparr>seg := (seg c)(sg := (seg c sg)\<lparr>sflags := f\<rparr>)\<rparr>)"
  by (rule upd)+

lemma seg_load_ok [frame_rules]: "stays R c (set_seg cb c sg sl)"
  by (rule seg_load)

lemma tss_ok [frame_rules]: "stays R c (tss_store cb off v c)" "stays R c (tss_load cb off c)" "stays R c (update_busy cb s f c)"
  unfolding tss_store_def tss_load_def update_busy_def
  by (intro try1_stays bind_stays frame_rules)+

lemma tss_loops_ok [frame_rules]:
  "stays R c (tss_save_regs cb l c)" "stays R c (tss_save_segs cb l c)"
  "stays R c (tss_load_regs cb l c)" "stays R c (tss_load_segs cb l c)"
proof -
  show "stays R c (tss_save_regs cb l c)"
  proof (induction l arbitrary: c)
    case (Cons i l) then show ?case by (auto intro!: try_stays frame_rules)
  qed (simp add: frame_rules)
  show "stays R c (tss_save_segs cb l c)"
  proof (induction l arbitrary: c)
    case (Cons i l) then show ?case by (auto intro!: try_stays frame_rules)
  qed (simp add: frame_rules)
  show "stays R c (tss_load_regs cb l c)"
  proof (induction l arbitrary: c)
    case (Cons i l)
    have "stays R c' (tss_load_regs cb l (sreg32 i v c'))" for c' v
      by (rule after_step(2) [OF _ Cons.IH]) simp
    then show ?case by (auto intro!: try_stays frame_rules)
  qed (simp add: frame_rules)
  show "stays R c (tss_load_segs cb l c)"
  proof (induction l arbitrary: c)
    case (Cons i l) then show ?case by (auto intro!: try_stays try1_stays frame_rules)
  qed (simp add: frame_rules)
qed

lemma task_save_ok [frame_rules]: "stays R c (task_save cb sw c)"
  unfolding task_save_def by (intro try_stays bind_keeps refreshed frame_rules) simp

lemma task_load_ok [frame_rules]: "stays R c (task_load cb o' sw c)"
proof -
  have t: "stays R x (tss_load cb off (x\<lparr>next_ip := a\<rparr>))" for x :: "'d CPU" and off a
    by (rule after_step(2) [OF _ tss_ok(2)]) simp
  have f: "R x (set_flags v x)" for x :: "'d CPU" and v by simp
  have k: "stays R x (let c = set_flags ((fl AND flags_mask x) OR 2) x
     in TRY (if sw = TS_CALL then TRY (tss_store cb 0 o' c) (\<lambda>_ c. Inr (Some (), set_flags (flags c OR NT) c))
             else Inr (Some (), c)) (\<lambda>_ c.
        TRY (tss_load cb 0x1c c) (\<lambda>pdbr c. Inr (Some (), tlb_clear (c\<lparr>cr3 := pdbr\<rparr>)))))" for x :: "'d CPU" and fl
    unfolding Let_def
    by (rule after_step(2) [OF f [of _ "(fl AND flags_mask x) OR 2"]]) (intro try_stays frame_rules, simp_all)
  show ?thesis unfolding task_load_def
    by (intro try_stays try1_stays frame_rules t k)
qed

lemma task_switch_ok: "stays R c (task_switch cb tss sw c)"
proof -
  have t: "stays R x (task_load cb o' sw (x\<lparr>cr0 := a\<rparr>))" for x :: "'d CPU" and a o'
    by (rule after_step(2) [OF _ task_load_ok]) simp
  show ?thesis unfolding task_switch_def Let_def
    by (intro try_stays try1_stays frame_rules t) simp_all
qed

end

interpretation lazy: task_relation same_lazy
proof
  show "same_lazy a b \<Longrightarrow> same_lazy b c \<Longrightarrow> same_lazy a c" for a b c :: "'d CPU"
    by (auto simp: same_lazy_def intro: same_alu_trans)
  show "same_core c c' \<Longrightarrow> same_lazy c c'" for c c' :: "'d CPU" by (rule same_core_lazy)
  show "keeps same_lazy c (cpu_refresh_flags c)" for c :: "'d CPU" by (rule lazy_refresh)
  show "stays same_lazy c (set_seg cb c sg s)" for c :: "'d CPU" and cb sg s by (rule lazy_set_seg)
qed simp_all

lemma lazy_readers:
  assumes "same_lazy c c'"
  shows "ccmask (alu c) AND CF \<noteq> 0 \<Longrightarrow> get_CF (alu c') = get_CF (alu c)" "ccmask (alu c) AND ZF \<noteq> 0 \<Longrightarrow> get_ZF (alu c') = get_ZF (alu c)"
    "ccmask (alu c) AND SF \<noteq> 0 \<Longrightarrow> get_SF (alu c') = get_SF (alu c)"
proof -
  define e where "e = eflags (alu c')"
  have a: "alu c' = (alu c)\<lparr>eflags := e\<rparr>" using assms by (simp add: same_lazy_def e_def)
  show "ccmask (alu c) AND CF \<noteq> 0 \<Longrightarrow> get_CF (alu c') = get_CF (alu c)" unfolding a by (cases "ccop (alu c)") (simp_all add: get_CF_def)
  show "ccmask (alu c) AND ZF \<noteq> 0 \<Longrightarrow> get_ZF (alu c') = get_ZF (alu c)" unfolding a by (simp add: get_ZF_def)
  show "ccmask (alu c) AND SF \<noteq> 0 \<Longrightarrow> get_SF (alu c') = get_SF (alu c)" unfolding a by (simp add: get_SF_def)
qed

lemma low_ram_part: "low_ram c a n \<Longrightarrow> k + j \<le> n \<Longrightarrow> 0 < j \<Longrightarrow> ram c (a + of_nat k) j"
proof -
  assume l: "low_ram c a n" and k: "k + j \<le> n" "0 < j"
  have u: "unat (a + of_nat k) = unat a + k"
    using l k by (simp add: low_ram_def unat_word_ariths unat_of_nat)
  then have "unat (a + of_nat k) < 0xa0000" using l k by (simp add: low_ram_def)
  then have "a + of_nat k < 0xa0000" by (simp add: word_less_nat_alt)
  then show ?thesis using l k u by (auto simp: ram_def low_ram_def in_iomem_def)
qed

lemma stack_masked: "x \<le> ss_mask c \<Longrightarrow> unat k \<le> unat x \<Longrightarrow> (x - k) AND ss_mask c = x - k"
proof -
  assume x: "x \<le> ss_mask c" "unat k \<le> unat x"
  have le: "x - k \<le> x" using x(2) by (simp add: word_le_nat_alt unat_sub_if')
  show ?thesis
  proof (cases "ss_mask c = 0xffffffff")
    case True
    then show ?thesis by (simp only: full_mask)
  next
    case False
    then have s: "ss_mask c = 0xffff" by (simp add: ss_mask_def split: if_splits)
    have m: "(0xffff :: u32) = mask 16" by (simp add: mask_eq_exp_minus_1)
    have "unat (x - k) < 2 ^ 16" using le x(1) s by (simp add: word_le_nat_alt)
    then have "take_bit 16 (x - k) = x - k" by (simp add: word_unat_eq_iff unsigned_take_bit_eq take_bit_nat_eq_self)
    then show ?thesis unfolding s m by (simp add: take_bit_eq_mask)
  qed
qed

lemma translate_all_flat:
  assumes "no_paging c" "segment_usable c s"
  shows "translate_all (\<lambda>c a. translate c rwm (Some s) a w cp) l c = Inr (Some (map (\<lambda>a. ADDR_OK1 (base (seg c s) + a)) l), c)"
  by (induction l) (simp_all add: translate_flat [OF assms])

lemma frame_flat:
  assumes "no_paging c" "segment_usable c SEG_SS" "gpr c 4 \<le> ss_mask c" "unat w * n \<le> unat (gpr c 4)"
  shows "translate_frame w n c =
    Inr (Some (map (\<lambda>k. ADDR_OK1 (base (seg c SEG_SS) + (gpr c 4 - w * of_nat k))) [1..<Suc n]), c)"
proof -
  have "(gpr c 4 - w * of_nat k) AND ss_mask c = gpr c 4 - w * of_nat k" if "k \<in> set [1..<Suc n]" for k
  proof (rule stack_masked [OF assms(3)])
    have "unat (w * of_nat k) \<le> unat w * k" by (simp add: unat_word_ariths unat_of_nat mod_mult_right_eq)
    also have "\<dots> \<le> unat w * n" using that by (intro mult_le_mono2) auto
    finally show "unat (w * of_nat k) \<le> unat (gpr c 4)" using assms(4) by simp
  qed
  then have "stack_slots w n (gpr c 4) (ss_mask c) = map (\<lambda>k. gpr c 4 - w * of_nat k) [1..<Suc n]"
    unfolding stack_slots_def by (intro map_cong) auto
  then show ?thesis unfolding translate_frame_def translate_all_flat [OF assms(1,2)] by simp
qed

lemma get16_put32: "get16 (put32 a v m) a = ucast v" "get16 (put32 a v m) (a + 2) = ucast (drop_bit 16 v)"
proof -
  have i: "inj_on (byte_at (ADDR_OK1 a)) {0, 1, 2, 3}" by (auto simp: inj_on_def byte_at_def)
  have b: "put32 a v m (a + of_nat k) = le_byte v k" if "k < 4" for k
    using put_bytes_get(1) [OF i that, of v m] by (simp add: put32_def byte_at_def)
  have "get16 (put32 a v m) a = ucast (le_byte v 0) OR push_bit 8 (ucast (le_byte v 1))"
    using b [of 0] b [of 1] by (simp add: get16_def)
  also have "\<dots> = ucast v" by (rule bit_word_eqI) (auto simp: le_byte_def bit_simps)
  finally show "get16 (put32 a v m) a = ucast v" .
  have "get16 (put32 a v m) (a + 2) = ucast (le_byte v 2) OR push_bit 8 (ucast (le_byte v 3))"
    using b [of 2] b [of 3] by (simp add: get16_def add.commute)
  also have "\<dots> = ucast (drop_bit 16 v)" by (rule bit_word_eqI) (auto simp: le_byte_def bit_simps)
  finally show "get16 (put32 a v m) (a + 2) = ucast (drop_bit 16 v)" .
qed

lemma refresh_flat: "refresh_flags (alu c) = Inr a \<Longrightarrow> cpu_refresh_flags c = Inr (c\<lparr>alu := a\<rparr>)"
  by (simp add: cpu_refresh_flags_def)

lemma isr_same16_error:
  assumes "no_paging c" "segment_usable c SEG_SS" "gpr c 4 \<le> ss_mask c" "8 \<le> unat (gpr c 4)"
    "low_ram c (base (seg c SEG_SS) + (gpr c 4 - 8)) 8" "refresh_flags (alu c) = Inr a"
  shows "\<exists>c'. isr_same16 cb True c = Inr (Some (), c') \<and>
    get16 (phys_mem c') (base (seg c SEG_SS) + (gpr c 4 - 8)) = ucast (excerr c) \<and>
    get16 (phys_mem c') (base (seg c SEG_SS) + (gpr c 4 - 6)) = ucast (drop_bit 16 (excerr c))"
proof -
  define A where "A = base (seg c SEG_SS) + (gpr c 4 - 8)"
  have ad: "base (seg c SEG_SS) + (gpr c 4 - 2 * of_nat k) = A + of_nat (8 - 2 * k)" if "k \<le> 4" for k
    using that by (simp add: A_def of_nat_diff)
  have fr: "translate_frame 2 4 c = Inr (Some [ADDR_OK1 (A + 6), ADDR_OK1 (A + 4), ADDR_OK1 (A + 2), ADDR_OK1 A], c)"
  proof -
    have u: "[1..<Suc 4] = [1, 2, 3, 4]" by (simp add: upt_rec)
    have "translate_frame 2 4 c = Inr (Some (map (\<lambda>k. ADDR_OK1 (base (seg c SEG_SS) + (gpr c 4 - 2 * of_nat k))) [1, 2, 3, 4]), c)"
      using frame_flat [OF assms(1-3), of 2 4] assms(4) unfolding u by simp
    then show ?thesis unfolding list.map ad [of 1, simplified] ad [of 2, simplified] ad [of 3, simplified] ad [of 4, simplified]
      using ad [of 1] ad [of 2] ad [of 3] ad [of 4] by simp
  qed
  have r: "ram c (A + 6) 2" "ram c (A + 4) 2" "ram c (A + 2) 2" "ram c A 4"
    using low_ram_part [OF assms(5) [folded A_def], of 6 2] low_ram_part [OF assms(5) [folded A_def], of 4 2]
      low_ram_part [OF assms(5) [folded A_def], of 2 2] low_ram_part [OF assms(5) [folded A_def], of 0 4] by simp_all
  define c1 where "c1 = clear_ccmask (c\<lparr>alu := a\<rparr>)"
  have s16: "store16 cb x (ADDR_OK1 p) v = Inr (x\<lparr>phys_mem := put16 p v (phys_mem x)\<rparr>)"
    if "x = c1\<lparr>phys_mem := m\<rparr>" "ram c p 2" for x p v m
    using that by (intro store16_flat) (simp add: ram_def c1_def clear_ccmask_def)
  have s32: "store32 cb x (ADDR_OK1 p) v = Inr (x\<lparr>phys_mem := put32 p v (phys_mem x)\<rparr>)"
    if "x = c1\<lparr>phys_mem := m\<rparr>" "ram c p 4" for x p v m
    using that by (intro store32_flat) (simp add: ram_def c1_def clear_ccmask_def)
  define m3 where "m3 = put16 (A + 2) (ucast (ip c1)) (put16 (A + 4) (ucast (sel (seg c1 SEG_CS))) (put16 (A + 6) (ucast (flags c1)) (phys_mem c1)))"
  have st: "store_all16 cb [(ADDR_OK1 (A + 6), ucast (flags c1)), (ADDR_OK1 (A + 4), ucast (sel (seg c1 SEG_CS))), (ADDR_OK1 (A + 2), ucast (ip c1))] c1 =
      Inr (c1\<lparr>phys_mem := m3\<rparr>)"
    using s16 [of c1 "phys_mem c1"] s16 [OF refl] r by (simp add: m3_def)
  have "isr_same16 cb True c = Inr (Some (), set_sp (gpr c 4 - 8) (ss_mask c) (c1\<lparr>phys_mem := put32 A (excerr c1) m3\<rparr>))"
    unfolding isr_same16_def Let_def using fr refresh_flat [OF assms(6)] st s32 [OF refl r(4)] by (simp flip: c1_def)
  moreover define c2 where "c2 = set_sp (gpr c 4 - 8) (ss_mask c) (c1\<lparr>phys_mem := put32 A (excerr c1) m3\<rparr>)"
  moreover have "phys_mem c2 = put32 A (excerr c) m3" by (simp add: c2_def set_sp_def sreg32_def c1_def clear_ccmask_def)
  moreover have e: "base (seg c SEG_SS) + (gpr c 4 - 6) = A + 2" by (simp add: A_def)
  ultimately show ?thesis
    unfolding e A_def [symmetric] by (intro exI [of _ c2]) (simp only: get16_put32 simp_thms)
qed

text \<open>An interrupt in real mode and the return from it.\<close>

lemma isr_real_frame:
  assumes "cr0 c AND 1 = 0" "no_paging c" "ss_mask c = 0xffff" "gpr c 4 \<le> 0xffff" "6 \<le> unat (gpr c 4)"
    "low_ram c (base (seg c SEG_SS) + (gpr c 4 - 6)) 6" "ram c (idt_base c + of_nat (no * 4)) 4"
    "refresh_flags (alu c) = Inr a" "flags c AND VM = 0"
  obtains c1 where "isr_real cb no c = Inr (Some (), c1)"
    "get16 (phys_mem c1) (base (seg c SEG_SS) + (gpr c 4 - 6)) = ucast (ip c)"
    "get16 (phys_mem c1) (base (seg c SEG_SS) + (gpr c 4 - 6) + 2) = ucast (sel (seg c SEG_CS))"
    "get16 (phys_mem c1) (base (seg c SEG_SS) + (gpr c 4 - 6) + 4) = ucast (eflags a)"
    "gpr c1 = (gpr c)(4 := gpr c 4 - 6)" "seg c1 SEG_SS = seg c SEG_SS" "cr0 c1 = cr0 c" "sp_mask c1 = sp_mask c"
    "flags c1 = eflags a AND NOT (IF OR TF)" "phys_mem_size c1 = phys_mem_size c" "flags_mask c1 = flags_mask c"
    "next_ip c1 = get32 (phys_mem c) (idt_base c + of_nat (no * 4)) AND 0xffff"
    "sel (seg c1 SEG_CS) = drop_bit 16 (get32 (phys_mem c) (idt_base c + of_nat (no * 4)))"
proof -
  define A where "A = base (seg c SEG_SS) + (gpr c 4 - 6)"
  define w1 where "w1 = get32 (phys_mem c) (idt_base c + of_nat (no * 4))"
  have su: "segment_usable c SEG_SS" using assms(1) by (simp add: segment_usable_def)
  have ad: "base (seg c SEG_SS) + (gpr c 4 - 2 * of_nat k) = A + of_nat (6 - 2 * k)" if "k \<le> 3" for k
    using that by (simp add: A_def of_nat_diff)
  have fr: "translate_frame 2 3 c = Inr (Some [ADDR_OK1 (A + 4), ADDR_OK1 (A + 2), ADDR_OK1 A], c)"
  proof -
    have u: "[1..<Suc 3] = [1, 2, 3]" by (simp add: upt_rec)
    have "translate_frame 2 3 c = Inr (Some (map (\<lambda>k. ADDR_OK1 (base (seg c SEG_SS) + (gpr c 4 - 2 * of_nat k))) [1, 2, 3]), c)"
      using frame_flat [OF assms(2) su, of 2 3] assms(3-5) unfolding u by simp
    then show ?thesis unfolding list.map ad [of 1, simplified] ad [of 2, simplified] ad [of 3, simplified]
      using ad [of 1] ad [of 2] ad [of 3] by simp
  qed
  have r: "ram c (A + 4) 2" "ram c (A + 2) 2" "ram c A 2"
    using low_ram_part [OF assms(6) [folded A_def], of 4 2] low_ram_part [OF assms(6) [folded A_def], of 2 2]
      low_ram_part [OF assms(6) [folded A_def], of 0 2] by simp_all
  define c1 where "c1 = clear_ccmask (c\<lparr>alu := a\<rparr>)"
  have s16: "store16 cb x (ADDR_OK1 p) v = Inr (x\<lparr>phys_mem := put16 p v (phys_mem x)\<rparr>)"
    if "x = c1\<lparr>phys_mem := m\<rparr>" "ram c p 2" for x p v m
    using that by (intro store16_flat) (simp add: ram_def c1_def clear_ccmask_def)
  define m3 where "m3 = put16 A (ucast (ip c)) (put16 (A + 2) (ucast (sel (seg c SEG_CS))) (put16 (A + 4) (ucast (eflags a)) (phys_mem c)))"
  have c1: "flags c1 = eflags a" "ip c1 = ip c" "seg c1 = seg c" "phys_mem c1 = phys_mem c" by (simp_all add: c1_def clear_ccmask_def flags_def)
  have st: "store_all16 cb [(ADDR_OK1 (A + 4), ucast (flags c1)), (ADDR_OK1 (A + 2), ucast (sel (seg c1 SEG_CS))), (ADDR_OK1 A, ucast (ip c1))] c1 =
      Inr (c1\<lparr>phys_mem := m3\<rparr>)"
    using s16 [of c1 "phys_mem c1"] s16 [OF refl] r c1 by (simp add: m3_def)
  define c2 where "c2 = sreg32 4 ((gpr c 4 - 2 * 3) AND ss_mask c) (c1\<lparr>phys_mem := m3\<rparr>)"
  have c2: "cr0 c2 AND 1 = 0" "eflags (alu c2) AND VM = 0"
  proof -
    show "cr0 c2 AND 1 = 0" using assms(1) by (simp add: c2_def sreg32_def c1_def clear_ccmask_def)
    have "bit (eflags a) 17 = bit (eflags (alu c)) 17" by (rule refresh_keeps_bits [OF assms(8)]) simp
    then show "eflags (alu c2) AND VM = 0" using assms(9) by (simp add: c2_def sreg32_def c1_def clear_ccmask_def VM_bit flags_def)
  qed
  define c3 where "c3 = c2\<lparr>seg := (seg c2)(SEG_CS := \<lparr>sel = drop_bit 16 w1, base = push_bit 4 (drop_bit 16 w1), limit = 0xffff, sflags = 0\<rparr>),
    cpl := 0, code16 := True\<rparr>"
  have w: "drop_bit 16 w1 AND 0xffff = drop_bit 16 w1"
  proof -
    have m: "(0xffff :: u32) = mask 16" by (simp add: mask_eq_exp_minus_1)
    show ?thesis unfolding m by (rule bit_word_eqI) (auto simp: bit_simps dest: bit_imp_le_length)
  qed
  have ss: "set_seg cb c2 SEG_CS (drop_bit 16 w1) = Inr (Some (), c3)"
    using c2 unfolding set_seg_def Let_def w c3_def by simp
  have iv: "load32 cb c (ADDR_OK1 (idt_base c + of_nat (no * 4))) = Inr (w1, c)"
    unfolding w1_def by (rule load32_flat [OF assms(7)])
  have tl: "translate_laddr c 1 (idt_base c + of_nat (no * 4)) 4 0 = Inr (Some (ADDR_OK1 (idt_base c + of_nat (no * 4))), c)"
    using assms(2) by (simp add: translate_laddr_def translate_laddr_with_def)
  define c4 where "c4 = set_flags (flags c3 AND NOT (IF OR TF)) (c3\<lparr>next_ip := w1 AND 0xffff, ip := w1 AND 0xffff\<rparr>)"
  have fl3: "flags (c3\<lparr>next_ip := x, ip := x\<rparr>) = flags c3" for x by (simp add: flags_def)
  have "isr_real cb no c = Inr (Some (), c4)"
    unfolding isr_real_def Let_def tl TRY1_simps iv bind_result_simps prod.case aborting_def fr TRY_simps refresh_flat [OF assms(8)]
      c1_def [symmetric] zip_Cons_Cons zip_Nil st c2_def [symmetric] ss fl3 c4_def ..
  moreover have "(gpr c 4 - 2 * 3) AND ss_mask c = gpr c 4 - 6"
    using stack_masked [of "gpr c 4" c 6] assms(3-5) by simp
  moreover have "get16 m3 A = ucast (ip c)" "get16 m3 (A + 2) = ucast (sel (seg c SEG_CS))" "get16 m3 (A + 4) = ucast (eflags a)"
    by (simp_all add: m3_def get16_put16 get16_other)
  ultimately show thesis using c1
    by (intro that [of c4]) (simp_all add: c4_def c3_def c2_def set_flags_def flags_def sreg32_def c1_def clear_ccmask_def w1_def flip: A_def)
qed

lemma low16: "(x :: u32) AND 0xffff = x \<longleftrightarrow> x \<le> 0xffff"
proof -
  have m: "(0xffff :: u32) = mask 16" by (simp add: mask_eq_exp_minus_1)
  have "x AND 0xffff = x" if "x \<le> 0xffff"
  proof -
    have "unat x < 2 ^ 16" using that by (simp add: word_le_nat_alt)
    then have "take_bit 16 x = x" by (simp add: word_unat_eq_iff unsigned_take_bit_eq take_bit_nat_eq_self)
    then show ?thesis unfolding m by (simp add: take_bit_eq_mask)
  qed
  then show ?thesis by (metis word_and_le1)
qed

lemma ucast_low16: "(x :: u32) \<le> 0xffff \<Longrightarrow> ucast (ucast x :: u16) = x"
proof -
  assume "x \<le> 0xffff"
  then have "x AND 0xffff = x" by (simp only: low16)
  moreover have m: "(0xffff :: u32) = mask 16" by (simp add: mask_eq_exp_minus_1)
  ultimately have t: "take_bit 16 x = x" by (simp add: take_bit_eq_mask)
  have "ucast (ucast x :: u16) = take_bit 16 x" by (rule bit_word_eqI) (auto simp: bit_simps)
  then show ?thesis using t by simp
qed

lemma ucast16_le: "(ucast (x :: u16) :: u32) \<le> 0xffff"
proof -
  have m: "(0xffff :: u32) = mask 16" by (simp add: mask_eq_exp_minus_1)
  have "(ucast x :: u32) AND 0xffff = ucast x" unfolding m by (rule bit_word_eqI) (auto simp: bit_simps dest: bit_imp_le_length)
  then show ?thesis unfolding low16 .
qed

lemma set_seg_CS_real: "cr0 c AND 1 = 0 \<Longrightarrow> eflags (alu c) AND VM = 0 \<Longrightarrow>
  set_seg cb c SEG_CS s = Inr (Some (), c\<lparr>seg := (seg c)(SEG_CS := real_seg (s AND 0xffff)), cpl := 0, code16 := True\<rparr>)"
  by (simp add: set_seg_def Let_def real_seg_def)

lemma VM_clear: "\<not> bit (x AND y :: u32) 17 \<Longrightarrow> ((x AND y) OR 2) AND VM = 0"
  unfolding VM_bit using bit_exp_iff [of 1 17, where 'a = "32 word"] by (simp add: bit_simps)

lemma iret_real_flat:
  fixes c :: "'d CPU"
  assumes "cr0 c AND 1 = 0" "no_paging c" "flags c AND VM = 0" "sp_mask c = 0xffff" "gpr c 4 + 6 \<le> 0xffff" "unat (gpr c 4) + 6 \<le> 0xffff"
    "low_ram c (base (seg c SEG_SS) + gpr c 4) 6"
  defines "A \<equiv> base (seg c SEG_SS) + gpr c 4"
  obtains r where "iret_real cb c = Inr (Some (), r)"
    "next_ip r = ucast (get16 (phys_mem c) A)" "seg r = (seg c)(SEG_CS := real_seg (ucast (get16 (phys_mem c) (A + 2))))"
    "gpr r = (gpr c)(4 := gpr c 4 + 6)"
    "flags r = (((flags c AND 0xffff0000) OR ucast (get16 (phys_mem c) (A + 4))) AND flags_mask c) OR 2"
proof -
  have su: "segment_usable c SEG_SS" using assms(1) by (simp add: segment_usable_def)
  have u: "unat (gpr c 4 + of_nat k) = unat (gpr c 4) + k" if "k \<le> 6" for k
    using that assms(6) by (simp add: unat_word_ariths unat_of_nat)
  have mk: "(gpr c 4 + of_nat k) AND 0xffff = gpr c 4 + of_nat k" if "k \<le> 6" for k
    unfolding low16 word_le_nat_alt u [OF that] using assms(6) that by simp
  have mk': "gpr c 4 AND 0xffff = gpr c 4" "(gpr c 4 + 2) AND 0xffff = gpr c 4 + 2" "(gpr c 4 + 4) AND 0xffff = gpr c 4 + 4"
      "(gpr c 4 + 6) AND 0xffff = gpr c 4 + 6"
    using mk [of 0] mk [of 2] mk [of 4] mk [of 6] by simp_all
  have r: "ram c A 2" "ram c (A + 2) 2" "ram c (A + 4) 2"
    using low_ram_part [OF assms(7) [folded A_def], of 0 2] low_ram_part [OF assms(7) [folded A_def], of 2 2]
      low_ram_part [OF assms(7) [folded A_def], of 4 2] by simp_all
  have t: "translate16 c 1 (Some SEG_SS) o' = Inr (Some (ADDR_OK1 (base (seg c SEG_SS) + o')), c)" for o'
    unfolding translate16_def by (rule translate_flat [OF assms(2) su])
  define v where "v k = get16 (phys_mem c) (A + k)" for k
  have l: "load16 cb c (ADDR_OK1 (base (seg c SEG_SS) + gpr c 4)) = Inr (v 0, c)"
    "load16 cb c (ADDR_OK1 (base (seg c SEG_SS) + (gpr c 4 + 2))) = Inr (v 2, c)"
    "load16 cb c (ADDR_OK1 (base (seg c SEG_SS) + (gpr c 4 + 4))) = Inr (v 4, c)"
    using load16_flat [OF r(1), of cb] load16_flat [OF r(2), of cb] load16_flat [OF r(3), of cb] by (simp_all add: A_def v_def add.assoc)
  define nf where "nf = (((flags c AND 0xffff0000) OR ucast (v 4)) AND flags_mask c) OR 2"
  have nv: "nf AND VM = 0"
    unfolding nf_def by (rule VM_clear) (use assms(3) in \<open>auto simp: VM_bit bit_simps dest: bit_imp_le_length\<close>)
  have ss: "set_seg cb (set_flags nf c) SEG_CS (ucast (v 2)) = Inr (Some (), (set_flags nf c)\<lparr>seg := (seg c)(SEG_CS := real_seg (ucast (v 2))), cpl := 0, code16 := True\<rparr>)"
  proof -
    have "(ucast (v 2) :: u32) AND 0xffff = ucast (v 2)" unfolding low16 by (rule ucast16_le)
    moreover have "seg (set_flags nf c) = seg c" "cr0 (set_flags nf c) AND 1 = 0" "eflags (alu (set_flags nf c)) AND VM = 0"
      using nv assms(1) by (simp_all add: set_flags_def)
    ultimately show ?thesis by (simp only: set_seg_CS_real)
  qed
  define r where "r = (set_sp (gpr c 4 + 6) 0xffff (clear_ccmask ((set_flags nf c)\<lparr>seg := (seg c)(SEG_CS := real_seg (ucast (v 2))), cpl := 0, code16 := True\<rparr>)))\<lparr>next_ip := ucast (v 0)\<rparr>"
  have "\<not> flags c AND VM \<noteq> 0" using assms(3) by simp
  then have e: "iret_real cb c = Inr (Some (), r)"
    unfolding iret_real_def Let_def assms(4) mk' t TRY_simps l bind_result_simps prod.case
    by (simp only: if_False nf_def [symmetric] ss bind_result_simps prod.case option.case r_def)
  have "gpr c 4 AND NOT 0xffff = 0"
    using mk'(1) by (metis and.assoc bit.conj_cancel_right bit.conj_zero_right)
  then have g: "gpr r = (gpr c)(4 := gpr c 4 + 6)" unfolding r_def
    by (simp add: set_sp_def sreg32_def clear_ccmask_def set_flags_def mk'(4))
  have "get16 (phys_mem c) A = v 0" by (simp add: v_def)
  then show thesis
    by (intro that [OF e _ _ g]) (simp_all add: r_def set_sp_def sreg32_def clear_ccmask_def set_flags_def flags_def v_def [symmetric] nf_def [unfolded flags_def])
qed


lemma get16_cong: "m a = m' a \<Longrightarrow> m (a + 1) = m' (a + 1) \<Longrightarrow> get16 m a = get16 m' a"
  by (simp add: get16_def)

lemma at_frame_words:
  assumes "at_frame c h"
  defines "A \<equiv> base (seg c SEG_SS) + gpr c 4"
  shows "get16 (phys_mem h) A = get16 (phys_mem c) A" "get16 (phys_mem h) (A + 2) = get16 (phys_mem c) (A + 2)"
    "get16 (phys_mem h) (A + 4) = get16 (phys_mem c) (A + 4)"
proof -
  have m: "phys_mem h (A + of_nat k) = phys_mem c (A + of_nat k)" if "k < 6" for k
    using assms(1) that by (simp add: at_frame_def A_def)
  show "get16 (phys_mem h) A = get16 (phys_mem c) A" "get16 (phys_mem h) (A + 2) = get16 (phys_mem c) (A + 2)"
    "get16 (phys_mem h) (A + 4) = get16 (phys_mem c) (A + 4)"
    using m [of 0] m [of 1] m [of 2] m [of 3] m [of 4] m [of 5] by (auto intro!: get16_cong simp: add.assoc)
qed

lemma real_interrupt:
  fixes c :: "'d CPU"
  assumes "real_stack c" "ram c (idt_base c + of_nat (no * 4)) 4" "refresh_flags (alu c) = Inr a"
    "ip c \<le> 0xffff" "seg c SEG_CS = real_seg s" "s \<le> 0xffff"
  shows "\<exists>c1. call_isr cb no pe ext c = Inr (Some (), c1) \<and> flags c1 = eflags a AND NOT (IF OR TF) \<and>
    next_ip c1 = get32 (phys_mem c) (idt_base c + of_nat (no * 4)) AND 0xffff \<and>
    sel (seg c1 SEG_CS) = drop_bit 16 (get32 (phys_mem c) (idt_base c + of_nat (no * 4))) \<and> at_frame c1 c1 \<and>
    (\<forall>h. at_frame c1 h \<longrightarrow> (\<exists>r. IRET cb True h = Inr (Some (), r) \<and> next_ip r = ip c \<and> seg r SEG_CS = seg c SEG_CS \<and>
       gpr r = (gpr h)(4 := gpr c 4) \<and>
       flags r = (((flags h AND 0xffff0000) OR ucast (ucast (eflags a) :: u16)) AND flags_mask c) OR 2))"
proof -
  let ?A = "base (seg c SEG_SS) + (gpr c 4 - 6)"
  have rs: "cr0 c AND 1 = 0" "no_paging c" "flags c AND VM = 0" "ss_mask c = 0xffff" "gpr c 4 \<le> 0xffff" "6 \<le> unat (gpr c 4)" "low_ram c ?A 6"
    using assms(1) by (simp_all add: real_stack_def)
  obtain c1 where c1: "isr_real cb no c = Inr (Some (), c1)"
    "get16 (phys_mem c1) ?A = ucast (ip c)" "get16 (phys_mem c1) (?A + 2) = ucast (sel (seg c SEG_CS))" "get16 (phys_mem c1) (?A + 4) = ucast (eflags a)"
    "gpr c1 = (gpr c)(4 := gpr c 4 - 6)" "seg c1 SEG_SS = seg c SEG_SS" "cr0 c1 = cr0 c" "sp_mask c1 = sp_mask c"
    "flags c1 = eflags a AND NOT (IF OR TF)" "phys_mem_size c1 = phys_mem_size c" "flags_mask c1 = flags_mask c"
    "next_ip c1 = get32 (phys_mem c) (idt_base c + of_nat (no * 4)) AND 0xffff"
    "sel (seg c1 SEG_CS) = drop_bit 16 (get32 (phys_mem c) (idt_base c + of_nat (no * 4)))"
    by (rule isr_real_frame [OF rs(1,2,4-7) assms(2,3) rs(3)])
  have "\<exists>r. IRET cb True h = Inr (Some (), r) \<and> next_ip r = ip c \<and> seg r SEG_CS = seg c SEG_CS \<and> gpr r = (gpr h)(4 := gpr c 4) \<and>
       flags r = (((flags h AND 0xffff0000) OR ucast (ucast (eflags a) :: u16)) AND flags_mask c) OR 2" if f: "at_frame c1 h" for h
  proof -
    have h: "cr0 h AND 1 = 0" "no_paging h" "flags h AND VM = 0" "sp_mask h = 0xffff" "gpr h 4 = gpr c 4 - 6" "base (seg h SEG_SS) + gpr h 4 = ?A"
        "phys_mem_size h = phys_mem_size c" "flags_mask h = flags_mask c"
      using f c1(5,6,10,11) by (simp_all add: at_frame_def)
    have u: "unat (gpr h 4) = unat (gpr c 4) - 6" unfolding h(5) using rs(6) by (simp add: unat_sub_if')
    have g: "gpr h 4 + 6 \<le> 0xffff" "unat (gpr h 4) + 6 \<le> 0xffff" using rs(5,6) u by (simp_all add: h(5) word_le_nat_alt)
    have lr: "low_ram h (base (seg h SEG_SS) + gpr h 4) 6" using rs(7) h(6,7) by (simp add: low_ram_def)
    obtain r where r: "iret_real cb h = Inr (Some (), r)" "next_ip r = ucast (get16 (phys_mem h) ?A)"
        "seg r = (seg h)(SEG_CS := real_seg (ucast (get16 (phys_mem h) (?A + 2))))" "gpr r = (gpr h)(4 := gpr h 4 + 6)"
        "flags r = (((flags h AND 0xffff0000) OR ucast (get16 (phys_mem h) (?A + 4))) AND flags_mask h) OR 2"
      using iret_real_flat [OF h(1-4) g lr, of cb] unfolding h(6) by blast
    have w: "get16 (phys_mem h) ?A = ucast (ip c)" "get16 (phys_mem h) (?A + 2) = ucast s" "get16 (phys_mem h) (?A + 4) = ucast (eflags a)"
      using at_frame_words [OF f] c1(2-6) assms(5) by (simp_all add: real_seg_def)
    have "IRET cb True h = Inr (Some (), r)" using h(1) r(1) by (simp add: IRET_def)
    moreover have "next_ip r = ip c" unfolding r(2) w(1) by (rule ucast_low16 [OF assms(4)])
    moreover have "seg r SEG_CS = seg c SEG_CS" unfolding r(3) w(2) ucast_low16 [OF assms(6)] assms(5) by simp
    moreover have "gpr r = (gpr h)(4 := gpr c 4)" using r(4) h(5) by simp
    ultimately show ?thesis using r(5) h(8) w(3) by metis
  qed
  moreover have "call_isr cb no pe ext c = Inr (Some (), c1)" using c1(1) rs(1) by (simp add: call_isr_def)
  moreover have "at_frame c1 c1"
  proof -
    have "\<not> bit (eflags a) 17" using refresh_keeps_bits [OF assms(3), of 17] rs(3) by (simp add: VM_bit flags_def)
    then have "flags c1 AND VM = 0" unfolding c1(9) VM_bit by (simp add: bit_simps)
    then show ?thesis using c1(7,8) rs(1,2) assms(1) by (simp add: at_frame_def real_stack_def)
  qed
  ultimately show ?thesis using c1(9,12,13) by blast
qed

lemma wf_sel: "(x :: u32) AND 0xffff \<le> 0xffff"
  by (rule word_and_le1)

lemma keeps_wf_upd [simp]:
  "keeps_wf c c" "keeps_wf c (sreg32 i v c)" "keeps_wf c (set_sp v m c)" "keeps_wf c (clear_ccmask c)" "keeps_wf c (c\<lparr>next_ip := a\<rparr>)"
  "keeps_wf c (c\<lparr>ip := a\<rparr>)" "keeps_wf c (set_flags v c)" "keeps_wf c (c\<lparr>cr0 := x\<rparr>)" "keeps_wf c (tlb_clear (c\<lparr>cr3 := y\<rparr>))"
  "keeps_wf c (c\<lparr>seg := (seg c)(sg := (seg c sg)\<lparr>sflags := f\<rparr>)\<rparr>)"
  by (simp_all add: keeps_wf_def wf_cpu_def sreg32_def set_sp_def clear_ccmask_def set_flags_def tlb_clear_def)

lemma wf_core: "same_core c c' \<Longrightarrow> keeps_wf c c'"
  by (simp add: keeps_wf_def wf_cpu_def same_core_fields)

lemma wf_set_seg: "stays keeps_wf c (set_seg cb c sg s)"
proof -
  have c: "stays keeps_wf c (read_desc cb c d b)" for d b
    using core_read_desc [of c cb d b] by (auto simp: stays_def wf_core)
  have r: "unat (x AND 3 :: u32) < 4" for x using rpl_bound .
  show ?thesis
    unfolding stays_def keeps_wf_def
  proof (intro allI impI)
    fix r c' assume e: "set_seg cb c sg s = Inr (r, c')" and w: "wf_cpu c"
    show "wf_cpu c'"
    proof (cases "cr0 c AND 1 = 0 \<or> eflags (alu c) AND VM \<noteq> 0")
      case True
      then show ?thesis using e w wf_sel [of s]
        by (auto simp: set_seg_def Let_def wf_cpu_def split: if_splits)
    next
      case False
      then obtain x c1 where x: "read_desc cb c (s AND 0xffff) True = Inr (x, c1)"
        using e by (cases "read_desc cb c (s AND 0xffff) True") (auto simp: set_seg_def Let_def)
      then have w1: "wf_cpu c1" using c w by (auto simp: stays_def keeps_wf_def)
      show ?thesis
      proof (cases x)
        case None
        then show ?thesis using e False x w1 by (simp add: set_seg_def Let_def)
      next
        case (Some ww)
        have d: "sel (desc_segment (s AND 0xffff) u v) \<le> 0xffff" for u v using wf_sel [of s] by (simp add: desc_segment_def Let_def)
        show ?thesis using e False x w1 Some d r [of "s AND 0xffff"]
          by (cases ww) (auto simp: set_seg_def Let_def wf_cpu_def THROW_def split: if_splits)
      qed
    qed
  qed
qed

interpretation wf: transfer_relation keeps_wf
proof
  show "keeps_wf a b \<Longrightarrow> keeps_wf b c \<Longrightarrow> keeps_wf a c" for a b c :: "'d CPU" by (simp add: keeps_wf_def)
  show "same_core c c' \<Longrightarrow> keeps_wf c c'" for c c' :: "'d CPU" by (rule wf_core)
  show "keeps keeps_wf c (cpu_refresh_flags c)" for c :: "'d CPU"
    by (auto simp: keeps_def cpu_refresh_flags_def bind_result_eq_Inr keeps_wf_def wf_cpu_def)
  show "stays keeps_wf c (set_seg cb c sg s)" for c :: "'d CPU" and cb sg s by (rule wf_set_seg)
qed simp_all

interpretation wf_task: task_relation keeps_wf
  by unfold_locales (auto intro: wf.refreshed wf_set_seg)

lemma wf_seg_after: "keeps_wf c c1 \<Longrightarrow> stays keeps_wf c (set_seg cb c1 sg s)"
  by (blast intro: wf.after_step wf_set_seg)

lemma wf_upd2 [simp]:
  "keeps_wf c (c\<lparr>next_ip := a, ip := b\<rparr>)" "keeps_wf c (c\<lparr>intr := i, halt := h, dev := d, ip := a\<rparr>)"
  "keeps_wf c (c\<lparr>ifetch := f\<rparr>)" "keeps_wf c (c\<lparr>ifetch := f, next_ip := a\<rparr>)"
  "keeps_wf c (set_flags u (set_flags v (c\<lparr>next_ip := a, ip := b\<rparr>)))"
  "keeps_wf c (set_flags v (c\<lparr>next_ip := a, ip := b\<rparr>))"
  "keeps_wf c (sreg32 r v' (set_flags v c))" "keeps_wf c ((set_sp v m c)\<lparr>next_ip := a\<rparr>)" "keeps_wf c ((set_sp v m (clear_ccmask c))\<lparr>next_ip := a\<rparr>)"
  by (simp_all add: keeps_wf_def wf_cpu_def set_flags_def sreg32_def set_sp_def clear_ccmask_def)

lemma wf_clear_seg: "keeps_wf c (clear_seg s c)"
  by (simp add: keeps_wf_def wf_cpu_def clear_seg_def Let_def)

lemma wf_clear_segs: "keeps_wf c (clear_segs c)"
  unfolding keeps_wf_def clear_segs_def
  by (auto intro: wf_clear_seg [unfolded keeps_wf_def, rule_format])

lemma wf_cond: "keeps_wf c a \<Longrightarrow> keeps_wf c b \<Longrightarrow> keeps_wf c (if p then a else b)"
  by simp

lemmas wf_rules = wf.try_stays wf.try1_stays wf.bind_stays wf.bind_keeps wf.refreshed wf.translate_all_ok wf.store_after_ok wf.load_all_ok
  wf.aborting_ok wf_seg_after frame_rules

lemma wf_isr_real: "stays keeps_wf c (isr_real cb no c)"
  unfolding isr_real_def Let_def by (intro wf_rules) simp_all

lemma wf_isr_vm86_frame: "stays keeps_wf c (isr_vm86_frame cb e ss sp c)"
  unfolding isr_vm86_frame_def Let_def by (intro wf_rules) simp_all


lemma wf_try_rest: "stays keeps_wf c (case r of None \<Rightarrow> Inr (None, c1) | Some x \<Rightarrow> f x)"
  if "keeps_wf c c1" "\<And>x. stays keeps_wf c (f x)" for r
  using that by (auto split: option.split intro: frame_rules)

lemma wf_isr_vm86: "stays keeps_wf c (isr_vm86 cb g e c)"
  unfolding isr_vm86_def Let_def
  by (intro wf_rules wf_isr_vm86_frame wf_try_rest) simp_all

lemma wf_call_isr: "stays keeps_wf c (call_isr cb no e ext c)"
  unfolding call_isr_def Let_def
  by (intro wf_rules wf_isr_real wf_isr_vm86 wf_task.task_switch_ok) simp_all

lemma wf_pmcall: "stays keeps_wf c (pmcall cb w a s j c)"
  unfolding pmcall_def Let_def
  by (intro wf_rules wf_task.task_switch_ok) simp_all


lemma wf_pmret_vm86: "stays keeps_wf c (pmret_vm86 cb w sp m nip ncs nf c)"
proof -
  have l: "keeps_wf c c1 \<Longrightarrow> stays keeps_wf c (load32 cb c1 oa)" for c c1 :: "'a CPU" and oa
    by (blast intro: wf.after_step wf.access)
  show ?thesis unfolding pmret_vm86_def Let_def by (intro wf_rules l) simp_all
qed

lemma wf_pmret: "stays keeps_wf c (pmret cb w off i c)"
proof -
  have c: "keeps_wf c (clear_segs ((set_sp v m c)\<lparr>next_ip := a\<rparr>))" for c :: "'a CPU" and v m a
    by (rule wf.trans [OF _ wf_clear_segs]) simp
  have s: "stays keeps_wf c (pmret_same cb w i off sp m nip ncs nf c)" "stays keeps_wf c (pmret_outer cb w i off sp m nip ncs nf c)"
    for c :: "'a CPU" and off sp m nip ncs nf
    unfolding pmret_same_def pmret_outer_def Let_def by (intro wf_rules wf_cond c; simp)+
  show ?thesis unfolding pmret_def Let_def
    by (intro wf_rules wf_task.task_switch_ok s wf_pmret_vm86 wf_cond) simp_all
qed

lemma wf_IRET: "stays keeps_wf c (IRET cb w c)"
  unfolding IRET_def iret_real_def translate16_def Let_def
  by (intro wf_rules wf_pmret wf_try_rest) simp_all

lemma wf_RETFARw: "stays keeps_wf c (RETFARw cb w i c)"
  unfolding RETFARw_def translate16_def translate32_def Let_def
  by (intro wf_rules wf_pmret) simp_all

lemma wf_far: "stays keeps_wf c (JMPFAR cb w a s c)" "stays keeps_wf c (CALLFAR cb w a s c)"
  unfolding JMPFAR_def CALLFAR_def translate16_def translate32_def Let_def
  by (intro wf_rules wf_pmcall; simp)+

lemma wf_INTn: "stays keeps_wf c (INTn cb n c)"
  unfolding INTn_def Let_def
  by (intro wf_rules wf_try_rest wf.after_step(2) [OF _ wf_call_isr]) simp_all

lemma wf_step:
  "stays keeps_wf c (step_interrupt cb c)" "stays keeps_wf c (step_exception cb ret c)"
proof -
  have i: "stays keeps_wf c (aborting (call_isr cb no e x c1))" if "keeps_wf c c1" for c c1 :: "'a CPU" and no e x
    by (intro wf_rules wf.after_step(2) [OF that wf_call_isr])
  show "stays keeps_wf c (step_interrupt cb c)" "stays keeps_wf c (step_exception cb ret c)"
    by (simp_all add: step_interrupt_def step_exception_def Let_def i frame_leaf split: prod.split)
qed

lemma wf_reset: "wf_cpu (cpui386_reset fpu c)" "wf_cpu (cpui386_reset_pm fpu a c)"
  by (simp_all add: wf_cpu_def cpui386_reset_def cpui386_reset_pm_def Let_def tlb_clear_def)

lemma wf_system_sel: "n < 4 \<Longrightarrow> ((x AND 0xfffc) OR of_nat n :: u32) \<le> 0xffff"
proof -
  assume "n < 4"
  then have "(of_nat n :: u32) \<le> 0xffff" by (simp add: word_le_nat_alt unat_of_nat)
  then have "(of_nat n :: u32) AND 0xffff = of_nat n" by (simp only: low16)
  then have "((x AND 0xfffc) OR of_nat n) AND 0xffff = (x AND 0xfffc) OR of_nat n"
    by (simp add: bit.conj_disj_distrib2 and.assoc)
  then show ?thesis unfolding low16 .
qed

lemma wf_sys: "stays keeps_wf c (SYSENTER c)" "stays keeps_wf c (SYSEXIT c)"
proof -
  have e: "keeps_wf c ((sreg32 4 x (sys_enter n cs c1))\<lparr>next_ip := y\<rparr>)"
    if "n < 4" "keeps_wf c c1" for n cs x y and c c1 :: "'a CPU"
    using that wf_system_sel [OF that(1)] by (auto simp: keeps_wf_def wf_cpu_def sys_enter_def sreg32_def)
  show "stays keeps_wf c (SYSENTER c)" "stays keeps_wf c (SYSEXIT c)"
    unfolding SYSENTER_def SYSEXIT_def Let_def
    by (auto intro!: frame_rules e [of 0, simplified] e split: prod.split)
qed

section \<open>Properties\<close>

text \<open>A machine in protected mode without paging: code and data segments, a call gate and an interrupt gate; and one in real mode.\<close>

lemma translate_laddr_off: "no_paging c \<Longrightarrow> translate_laddr c rwm a sz cp = Inr (Some (ADDR_OK1 a), c)"
  by (simp add: translate_laddr_def translate_laddr_with_def)

lemma desc_load_off: "no_paging c \<Longrightarrow> ram c a 4 \<Longrightarrow> desc_load cb c a = Inr (Some (get32 (phys_mem c) a), c)"
  by (simp add: desc_load_def translate_laddr_off load32_flat returning_def)

definition demo_tables :: "u32 \<Rightarrow> u8" where
  "demo_tables = (\<lambda>_. 0)(0x808 := 0xff, 0x809 := 0xff, 0x80d := 0x9b, 0x80e := 0xcf, 0x818 := 0xff, 0x819 := 0xff, 0x81d := 0xfb, 0x81e := 0xcf,
     0x820 := 0xff, 0x821 := 0xff, 0x825 := 0xf3, 0x826 := 0xcf, 0x828 := 0x34, 0x829 := 0x12, 0x82a := 8, 0x82d := 0x8c,
     0x940 := 0x34, 0x941 := 0x12, 0x942 := 8, 0x945 := 0x8e,
     0x3000 := 0, 0x3001 := 1, 0x3004 := 0x1b, 0x3009 := 0x20, 0x300a := 2, 0x300c := 0x23)"

definition demo_prot :: "unit CPU" where
  "demo_prot = demo_flat\<lparr>cr0 := 1, phys_mem := demo_tables, gdt_base := 0x800, gdt_limit := 0x3f, idt_base := 0x900, idt_limit := 0x7f,
     seg := (\<lambda>_. \<lparr>sel = 8, base = 0, limit = 0xffffffff, sflags = 0x4000\<rparr>)\<rparr>"

definition demo_real :: "unit CPU" where
  "demo_real = demo_flat\<lparr>alu := (alu demo_flat)\<lparr>eflags := 0x246\<rparr>, gpr := (\<lambda>_. 0)(4 := 0x100), sp_mask := 0xffff, ip := 0x7c05,
     seg := (\<lambda>_. real_seg 0)(SEG_SS := real_seg 1), phys_mem := put32 0x20 0xf000fea5 (\<lambda>_. 0)\<rparr>"

lemma demo_words:
  "get32 demo_tables 0x808 = 0xffff" "get32 demo_tables 0x80c = 0xcf9b00" "get32 demo_tables 0x818 = 0xffff" "get32 demo_tables 0x81c = 0xcffb00"
  "get32 demo_tables 0x820 = 0xffff" "get32 demo_tables 0x824 = 0xcff300" "get32 demo_tables 0x828 = 0x81234" "get32 demo_tables 0x82c = 0x8c00"
  "get32 demo_tables 0x940 = 0x81234" "get32 demo_tables 0x944 = 0x8e00"
  "get32 demo_tables 0x3000 = 0x100" "get32 demo_tables 0x3004 = 0x1b" "get32 demo_tables 0x3008 = 0x22000" "get32 demo_tables 0x300c = 0x23"
  by (simp_all add: demo_tables_def get32_def le_value_def)

definition flat_prot :: "'d CPU \<Rightarrow> bool" where
  "flat_prot c \<longleftrightarrow> cr0 c = 1 \<and> phys_mem c = demo_tables \<and> phys_mem_size c = 0x4000 \<and> gdt_base c = 0x800 \<and> gdt_limit c = 0x3f \<and> flags c AND VM = 0"

lemma flat_prot_ram: "flat_prot c \<Longrightarrow> unat a + 4 \<le> 0x4000 \<Longrightarrow> ram c a 4"
  by (auto simp: flat_prot_def ram_def in_iomem_def word_le_nat_alt word_less_nat_alt)

lemma flat_prot_load: "flat_prot c \<Longrightarrow> unat a + 4 \<le> 0x4000 \<Longrightarrow> load32 cb c (ADDR_OK1 a) = Inr (get32 demo_tables a, c)"
  using load32_flat [OF flat_prot_ram, of c a cb] by (simp add: flat_prot_def)

lemma flat_prot_desc: "flat_prot c \<Longrightarrow> unat a + 4 \<le> 0x4000 \<Longrightarrow> desc_load cb c a = Inr (Some (get32 demo_tables a), c)"
  using desc_load_off [of c a cb] flat_prot_ram [of c a] by (simp add: flat_prot_def)

lemma flat_prot_laddr: "flat_prot c \<Longrightarrow> translate_laddr c rwm a sz cp = Inr (Some (ADDR_OK1 a), c)"
  by (simp add: flat_prot_def translate_laddr_off)

lemma demo_prot: "flat_prot demo_prot" "flat_prot (c\<lparr>next_ip := x\<rparr>) = flat_prot c" "flat_prot (c\<lparr>ip := x\<rparr>) = flat_prot c" "flat_prot (c\<lparr>cpl := k\<rparr>) = flat_prot c" "flat_prot (c\<lparr>gpr := g\<rparr>) = flat_prot c"
  by (simp_all add: flat_prot_def demo_prot_def demo_flat_def demo_cpu_def flags_def)

lemma flat_prot_fields: "flat_prot c \<Longrightarrow> cr0 c = 1" "flat_prot c \<Longrightarrow> gdt_base c = 0x800" "flat_prot c \<Longrightarrow> gdt_limit c = 0x3f"
  "flat_prot c \<Longrightarrow> eflags (alu c) AND VM = 0"
  by (simp_all add: flat_prot_def flags_def)

lemmas flat_prot_simps = flat_prot_load flat_prot_desc flat_prot_laddr demo_prot demo_words flat_prot_fields

lemma flat_prot_seg:
  assumes "flat_prot c"
  shows "\<exists>c'. set_seg cb c SEG_SS 0x23 = Inr (Some (), c') \<and> cpl c' = cpl c"
    "\<exists>c'. set_seg cb c SEG_CS 0x1b = Inr (Some (), c') \<and> cpl c' = 3 \<and> flat_prot c'"
    "\<exists>c'. set_seg cb c SEG_CS 8 = Inr (Some (), c') \<and> cpl c' = 0 \<and> flat_prot c'"
proof -
  have r: "read_desc cb c 0x23 True = Inr (Some (Some 0xffff, 0xcff300), c)" "read_desc cb c 0x1b True = Inr (Some (Some 0xffff, 0xcffb00), c)"
      "read_desc cb c 8 True = Inr (Some (Some 0xffff, 0xcf9b00), c)"
    using assms by (simp_all add: read_desc_def flat_prot_simps)
  show "\<exists>c'. set_seg cb c SEG_SS 0x23 = Inr (Some (), c') \<and> cpl c' = cpl c"
    using assms r(1) by (simp add: set_seg_def flat_prot_simps)
  show "\<exists>c'. set_seg cb c SEG_CS 0x1b = Inr (Some (), c') \<and> cpl c' = 3 \<and> flat_prot c'"
    using assms r(2) by (simp add: set_seg_def flat_prot_simps) (simp add: flat_prot_def flags_def)
  show "\<exists>c'. set_seg cb c SEG_CS 8 = Inr (Some (), c') \<and> cpl c' = 0 \<and> flat_prot c'"
    using assms r(3) by (simp add: set_seg_def flat_prot_simps) (simp add: flat_prot_def flags_def)
qed

lemma demo_prot_fields: "gpr demo_prot 4 = 0x3000" "ss_mask demo_prot = 0xffffffff" "base (seg demo_prot s) = 0" "cpl demo_prot = 0" "segment_usable demo_prot s"
     "flags demo_prot = 2" "next_ip demo_prot = 0" "idt_base demo_prot = 0x900" "idt_limit demo_prot = 0x7f" "cr0 demo_prot = 1"
  by (simp_all add: demo_prot_def demo_flat_def demo_cpu_def ss_mask_def segment_usable_def flags_def)

lemma demo_far_return: "\<exists>c'. pmret demo_cb False 0 False demo_prot = Inr (Some (), c') \<and> cpl c' = 3"
proof -
  note P = demo_prot_fields flat_prot_simps
  have f: "pmret_frame demo_cb False False 0x3000 0xffffffff demo_prot = Inr (Some (0x100, 0x1b, 0), demo_prot)"
    unfolding pmret_frame_def Let_def full_mask list.map if_False if_True
    by (subst translate_all_flat) (simp_all add: P)
  have k: "pmiret_check_cs_outer demo_cb 0x1b demo_prot = Inr (Some (), demo_prot)"
    by (simp add: pmiret_check_cs_outer_def read_desc_def P desc_dpl_def bit_iff_odd_drop_bit)
  have rf: "read_frame demo_cb False 0x3000 0xffffffff [8, 12] demo_prot = Inr (Some [0x22000, 0x23], demo_prot)"
    unfolding read_frame_def Let_def full_mask list.map if_False
    by (subst translate_all_flat) (simp_all add: P returning_def)
  obtain c1 where c1: "set_seg demo_cb demo_prot SEG_CS 0x1b = Inr (Some (), c1)" "cpl c1 = 3" "flat_prot c1"
    using flat_prot_seg(2) [OF demo_prot(1)] by blast
  obtain c2 where c2: "set_seg demo_cb c1 SEG_SS 0x23 = Inr (Some (), c2)" "cpl c2 = 3"
    using flat_prot_seg(1) [OF c1(3), of demo_cb] c1(2) by auto
  show ?thesis unfolding pmret_def P Let_def
    by (simp add: f P pmret_outer_def k rf c1 [simplified] c2 [simplified] set_sp_def sreg32_def)
qed


text \<open>
  C26: far returns and \<open>IRET\<close> never gain privilege.  A return in protected mode that
  succeeds, the return from a nested task (\<open>IRET\<close> with \<open>NT\<close> set, a task switch) apart, at either operand size, within a level, to an outer level or into
  virtual 8086 mode, ends at a level that is numerically not below the one it
  started at: the level the selector on the stack asks for.
\<close>

theorem far_return_privilege:
  assumes "pmret cb w off i c = Inr (Some (), c')" "cr0 c AND 1 \<noteq> 0" "flags c AND VM = 0" "\<not> (i \<and> flags c AND NT \<noteq> 0)" "cpl c < 4"
  shows "cpl c \<le> cpl c' \<and> cpl c' < 4"
  using assms by (rule pmret_cpl)

theorem far_return_privilege_witness:
  "\<exists>c'. pmret demo_cb False 0 False demo_prot = Inr (Some (), c') \<and> cpl c' = 3 \<and> cpl demo_prot \<le> cpl c'"
proof -
  obtain c' where c': "pmret demo_cb False 0 False demo_prot = Inr (Some (), c')" "cpl c' = 3" using demo_far_return by blast
  then show ?thesis using far_return_privilege [OF c'(1)] by (simp add: demo_prot_fields flat_prot_simps)
qed

text \<open>
  C27: far calls and jumps through descriptors.  A transfer to a code segment keeps
  the level; any other descriptor that is accepted, task gates and task state
  segments apart, is a call gate whose level admits both the current level and
  the one the selector asks for, and the level after it is not above the one before.
\<close>

theorem call_gate_privilege:
  assumes "pmcall cb w addr s j c = Inr (Some (), c')" "read_desc cb c (s AND 0xffff) True = Inr (Some (ow1, w2), c1)"
    "\<not> bit w2 12 \<Longrightarrow> gate_type w2 \<notin> {5, 9}" "cr0 c AND 1 \<noteq> 0" "flags c AND VM = 0" "cpl c < 4"
  shows "(if bit w2 12 then cpl c' = cpl c
     else cpl c' \<le> cpl c \<and> gate_type w2 \<in> {4, 12} \<and> cpl c \<le> desc_dpl w2 \<and> unat (s AND 3) \<le> desc_dpl w2)"
  using pmcall_code [OF assms(1,2) _ assms(4-6)] pmcall_gate [OF assms(1,2) _ assms(3-6)] by simp

theorem call_gate_privilege_witness:
  "\<exists>c'. pmcall demo_cb False 0 0x28 True demo_prot = Inr (Some (), c') \<and> cpl c' \<le> cpl demo_prot \<and> next_ip c' = 0x1234"
proof -
  note P = demo_prot_fields flat_prot_simps
  have r: "read_desc demo_cb demo_prot 0x28 True = Inr (Some (Some 0x81234, 0x8c00), demo_prot)"
      "read_desc demo_cb demo_prot 8 False = Inr (Some (None, 0xcf9b00), demo_prot)"
    by (simp_all add: read_desc_def P)
  obtain c1 where c1: "set_seg demo_cb demo_prot SEG_CS 8 = Inr (Some (), c1)" using flat_prot_seg(3) [OF demo_prot(1)] by blast
  define c' where "c' = c1\<lparr>next_ip := 0x1234\<rparr>"
  have e: "pmcall demo_cb False 0 0x28 True demo_prot = Inr (Some (), c')"
    by (simp add: pmcall_def Let_def r P desc_dpl_def gate_type_def bit_iff_odd_drop_bit c1 [simplified] c'_def)
  moreover have "cpl c' \<le> cpl demo_prot"
    using call_gate_privilege [OF e, of "Some 0x81234" "0x8c00" demo_prot] r demo_prot_fields by (simp add: bit_iff_odd_drop_bit gate_type_def)
  ultimately show ?thesis by (intro exI [of _ c']) (simp add: c'_def)
qed

text \<open>
  C28: a software interrupt in protected mode passes only through gates that admit
  the current level.  Where \<open>INT n\<close> succeeds the gate does and the handler runs
  at a level not less privileged; where the level of the gate is below the
  current one it raises a general protection fault with the vector in its error
  code, and the level, the mode and the instruction pointer stay as they were.
\<close>

theorem software_interrupt_privilege:
  fixes c :: "'d CPU"
  defines "c0 \<equiv> c\<lparr>ip := next_ip c\<rparr>"
  assumes "idt_gate cb (unat n) c0 = Inr (Some (w1, w2), c1)" "gate_type w2 \<in> {6, 7, 14, 15}" "\<not> idt_limit c < push_bit 3 (ucast n) + 7"
    "cr0 c AND 1 \<noteq> 0" "flags c AND VM = 0" "cpl c < 4"
  shows "(\<forall>c'. INTn cb n c = Inr (Some (), c') \<longrightarrow> cpl c' \<le> cpl c \<and> cpl c \<le> desc_dpl w2) \<and>
    (desc_dpl w2 < cpl c \<longrightarrow> (\<exists>c'. INTn cb n c = Inr (None, c') \<and> excno c' = EX_GP \<and> excerr c' = push_bit 3 (ucast n) OR 2 \<and>
       same_level c c' \<and> ip c' = ip c))"
proof -
  have f: "cr0 c0 AND 1 \<noteq> 0" "flags c0 AND VM = 0" "cpl c0 < 4" "cpl c0 = cpl c" "same_level c c0" using assms(5-7) by (simp_all add: c0_def flags_def same_level_def)
  have n: "of_nat (unat n) = (ucast n :: u32)" by simp
  have i: "INTn cb n c = bind_result (call_isr cb (unat n) False 0 c0) (\<lambda>(r, c2). case r of None \<Rightarrow> Inr (None, c2\<lparr>ip := ip c\<rparr>) | Some _ \<Rightarrow> Inr (Some (), c2))"
    using assms(6) by (simp add: INTn_def c0_def)
  have l: "stays same_level c0 (idt_gate cb (unat n) c0)"
    unfolding idt_gate_def by (intro level.try1_stays level.bind_stays frame_rules) simp
  have l1: "same_level c c1" using level.trans [OF f(5) staysD [OF l assms(2)]] .
  have "cpl c' \<le> cpl c \<and> cpl c \<le> desc_dpl w2" if "INTn cb n c = Inr (Some (), c')" for c'
  proof -
    have "call_isr cb (unat n) False 0 c0 = Inr (Some (), c')" using that unfolding i by (auto simp: bind_result_eq_Inr split: option.splits)
    then show ?thesis using call_isr_cpl [OF _ assms(2) _ f(1-3)] assms(3) f(4) by auto
  qed
  moreover have "\<exists>c'. INTn cb n c = Inr (None, c') \<and> excno c' = EX_GP \<and> excerr c' = push_bit 3 (ucast n) OR 2 \<and> same_level c c' \<and> ip c' = ip c"
    if d: "desc_dpl w2 < cpl c"
  proof -
    have "\<not> idt_limit c0 < push_bit 3 (of_nat (unat n)) + 7" using assms(4) by (simp add: c0_def)
    then have "call_isr cb (unat n) False 0 c0 = THROW EX_GP (push_bit 3 (ucast n) OR 2) c1"
      using call_isr_gate [OF f(1) _ assms(2), of False 0] assms(3) d l1 by (auto simp: Let_def n same_level_def)
    then show ?thesis using l1 unfolding i by (simp add: THROW_def same_level_def flags_def)
  qed
  ultimately show ?thesis by blast
qed

theorem software_interrupt_privilege_witness:
  "\<exists>c'. INTn demo_cb 8 (demo_prot\<lparr>cpl := 3\<rparr>) = Inr (None, c') \<and> excno c' = EX_GP \<and> excerr c' = 0x42 \<and> cpl c' = 3"
proof -
  let ?c = "demo_prot\<lparr>cpl := 3\<rparr>"
  note P = demo_prot_fields flat_prot_simps
  have g: "idt_gate demo_cb (unat (8 :: u8)) (?c\<lparr>ip := next_ip ?c\<rparr>) = Inr (Some (0x81234, 0x8e00), ?c\<lparr>ip := next_ip ?c\<rparr>)"
    by (simp add: idt_gate_def P)
  have "flags ?c = 2" using P(6) by (simp add: flags_def)
  then show ?thesis
    using software_interrupt_privilege [OF g] demo_prot_fields by (auto simp: gate_type_def desc_dpl_def same_level_def)
qed


text \<open>
  C29: an interrupt in real mode saves what \<open>IRET\<close> restores.  The handler starts at the
  address of the vector with interrupts and single stepping off; from every
  state in which the stack pointer is back at the frame and its six bytes are
  intact, in particular at once, \<open>IRET\<close> continues at the interrupted
  instruction with the code segment, the stack pointer and the low flags of the
  interrupted program.
\<close>

theorem real_interrupt_roundtrip:
  fixes c :: "'d CPU"
  assumes "real_stack c" "ram c (idt_base c + of_nat (no * 4)) 4" "refresh_flags (alu c) = Inr a"
    "ip c \<le> 0xffff" "seg c SEG_CS = real_seg s" "s \<le> 0xffff"
  shows "\<exists>c1. call_isr cb no pe ext c = Inr (Some (), c1) \<and> flags c1 = eflags a AND NOT (IF OR TF) \<and>
    next_ip c1 = get32 (phys_mem c) (idt_base c + of_nat (no * 4)) AND 0xffff \<and>
    sel (seg c1 SEG_CS) = drop_bit 16 (get32 (phys_mem c) (idt_base c + of_nat (no * 4))) \<and> at_frame c1 c1 \<and>
    (\<forall>h. at_frame c1 h \<longrightarrow> (\<exists>r. IRET cb True h = Inr (Some (), r) \<and> next_ip r = ip c \<and> seg r SEG_CS = seg c SEG_CS \<and>
       gpr r = (gpr h)(4 := gpr c 4) \<and>
       flags r = (((flags h AND 0xffff0000) OR ucast (ucast (eflags a) :: u16)) AND flags_mask c) OR 2))"
  using assms by (rule real_interrupt)

theorem real_interrupt_roundtrip_witness:
  "\<exists>c1 r. call_isr demo_cb 8 False 1 demo_real = Inr (Some (), c1) \<and> sel (seg c1 SEG_CS) = 0xf000 \<and> IRET demo_cb True c1 = Inr (Some (), r) \<and>
     next_ip r = 0x7c05 \<and> flags r = 0x246 \<and> gpr r 4 = 0x100"
proof -
  have l: "low_ram demo_real (0x10 + 0xfa) 6" "ram demo_real (idt_base demo_real + of_nat (8 * 4)) 4"
    by (simp_all add: low_ram_def ram_def in_iomem_def demo_real_def demo_flat_def demo_cpu_def)
  have f: "alu demo_real = \<lparr>eflags = 0x246, ccop = CC_ADC, dst = 0, dst2 = 0, src1 = 0, src2 = 0, ccmask = 0\<rparr>" "gpr demo_real 4 = 0x100"
      "ip demo_real = 0x7c05" "seg demo_real SEG_SS = real_seg 1" "seg demo_real SEG_CS = real_seg 0" "cr0 demo_real = 0" "sp_mask demo_real = 0xffff"
      "flags_mask demo_real = 0x37fd7" "idt_base demo_real = 0"
    by (simp_all add: demo_real_def demo_flat_def demo_cpu_def)
  have "real_stack demo_real" using l(1) f by (simp add: real_stack_def flags_def ss_mask_def real_seg_def)
  moreover have "refresh_flags (alu demo_real) = Inr (alu demo_real)" by (simp add: f refresh_flags_def Let_def get_CF_def get_PF_def get_AF_def get_ZF_def get_SF_def get_OF_def SET_BIT_def)
  ultimately have "\<exists>c1. call_isr demo_cb 8 False 1 demo_real = Inr (Some (), c1) \<and> flags c1 = eflags (alu demo_real) AND NOT (IF OR TF) \<and>
    next_ip c1 = get32 (phys_mem demo_real) (idt_base demo_real + of_nat (8 * 4)) AND 0xffff \<and>
    sel (seg c1 SEG_CS) = drop_bit 16 (get32 (phys_mem demo_real) (idt_base demo_real + of_nat (8 * 4))) \<and> at_frame c1 c1 \<and>
    (\<forall>h. at_frame c1 h \<longrightarrow> (\<exists>r. IRET demo_cb True h = Inr (Some (), r) \<and> next_ip r = ip demo_real \<and> seg r SEG_CS = seg demo_real SEG_CS \<and>
       gpr r = (gpr h)(4 := gpr demo_real 4) \<and>
       flags r = (((flags h AND 0xffff0000) OR ucast (ucast (eflags (alu demo_real)) :: u16)) AND flags_mask demo_real) OR 2))"
    using l(2) f by (intro real_interrupt_roundtrip [where s = 0]) simp_all
  then obtain c1 r where c1: "call_isr demo_cb 8 False 1 demo_real = Inr (Some (), c1)" "flags c1 = eflags (alu demo_real) AND NOT (IF OR TF)"
    "sel (seg c1 SEG_CS) = drop_bit 16 (get32 (phys_mem demo_real) 0x20)" "IRET demo_cb True c1 = Inr (Some (), r)"
    "next_ip r = ip demo_real" "gpr r = (gpr c1)(4 := gpr demo_real 4)"
    "flags r = (((flags c1 AND 0xffff0000) OR ucast (ucast (eflags (alu demo_real)) :: u16)) AND flags_mask demo_real) OR 2"
    using f(9) by auto
  moreover have "get32 (phys_mem demo_real) 0x20 = 0xf000fea5" by (simp add: demo_real_def get32_put32)
  ultimately show ?thesis by (intro exI [of _ c1] exI [of _ r]) (simp add: f)
qed

text \<open>
  C34: a 16-bit interrupt or trap gate that stays at its level and pushes an error
  code destroys the return address: the code is stored with 32 bits in a slot of
  two bytes, and the handler finds its upper half where the instruction pointer
  was saved.
\<close>

theorem gate16_error_code:
  assumes "no_paging c" "segment_usable c SEG_SS" "gpr c 4 \<le> ss_mask c" "8 \<le> unat (gpr c 4)"
    "low_ram c (base (seg c SEG_SS) + (gpr c 4 - 8)) 8" "refresh_flags (alu c) = Inr a"
  shows "\<exists>c'. isr_same16 cb True c = Inr (Some (), c') \<and>
    get16 (phys_mem c') (base (seg c SEG_SS) + (gpr c 4 - 8)) = ucast (excerr c) \<and>
    get16 (phys_mem c') (base (seg c SEG_SS) + (gpr c 4 - 6)) = ucast (drop_bit 16 (excerr c))"
  using assms by (rule isr_same16_error)

theorem gate16_error_code_witness:
  "\<exists>c'. isr_same16 demo_cb True (demo_prot\<lparr>ip := 0x1234, excerr := 0x18\<rparr>) = Inr (Some (), c') \<and>
     get16 (phys_mem c') 0x2ff8 = 0x18 \<and> get16 (phys_mem c') 0x2ffa = 0"
proof -
  let ?c = "demo_prot\<lparr>ip := 0x1234, excerr := 0x18\<rparr>"
  have f: "gpr ?c 4 = 0x3000" "ss_mask ?c = 0xffffffff" "base (seg ?c SEG_SS) = 0" "segment_usable ?c SEG_SS" "cr0 ?c = 1"
    "alu ?c = \<lparr>eflags = 2, ccop = CC_ADC, dst = 0, dst2 = 0, src1 = 0, src2 = 0, ccmask = 0\<rparr>" "excerr ?c = 0x18" "low_ram ?c 0x2ff8 8"
    by (simp_all add: demo_prot_def demo_flat_def demo_cpu_def ss_mask_def segment_usable_def low_ram_def)
  have "refresh_flags (alu ?c) = Inr (alu ?c)" by (simp add: f refresh_flags_def Let_def get_CF_def get_PF_def get_AF_def get_ZF_def get_SF_def get_OF_def SET_BIT_def)
  then show ?thesis using gate16_error_code [of ?c "alu ?c" demo_cb] f by simp
qed

text \<open>
  C35: a program outside level 0 ends the emulator with one instruction.  A 32-bit
  \<open>IRET\<close> whose stack holds flags with the virtual 8086 bit is not refused and does
  not ignore the bit: it reaches \<open>cpu_abort\<close>.
\<close>

theorem user_iret_aborts:
  assumes "cr0 c AND 1 \<noteq> 0" "flags c AND VM = 0" "flags c AND NT = 0" "0 < cpl c" "bit (flags_mask c) 17"
    "pmret_frame cb False True (gpr c 4) (ss_mask c) c = Inr (Some (nip, ncs, fl), c1)" "bit fl 17"
  shows "IRET cb False c = Inl Abort"
proof -
  have l: "same_core c c1" by (rule staysD [OF core.pmret_frame_ok assms(6)])
  have "pmret cb False 0 True c = Inl Abort"
  proof -
    have m: "\<not> bit (protected_flags c1) 17" by (auto simp: protected_flags_def bit_simps)
    have "bit (iret_flags fl c1) 17"
      using m assms(5,7) same_core_fields [OF l] by (simp add: iret_flags_def Let_def bit_simps)
    then have "iret_flags fl c1 AND VM \<noteq> 0" by (simp add: VM_bit)
    moreover have "cpl c1 \<noteq> 0" using assms(4) same_core_fields [OF l] by simp
    ultimately show ?thesis using assms(2,3,6) by (simp add: pmret_def pmret_vm86_def Let_def)
  qed
  then show ?thesis using assms(1,2) by (simp add: IRET_def)
qed

theorem user_iret_aborts_witness:
  "IRET demo_cb False (demo_prot\<lparr>cpl := 3\<rparr>) = Inl Abort"
proof -
  let ?c = "demo_prot\<lparr>cpl := 3\<rparr>"
  have f: "gpr ?c 4 = 0x3000" "ss_mask ?c = 0xffffffff" "base (seg ?c SEG_SS) = 0" "segment_usable ?c SEG_SS" "cr0 ?c = 1" "flags ?c = 2" "flags_mask ?c = 0x37fd7"
    "cpl ?c = 3"
    by (simp_all add: demo_prot_def demo_flat_def demo_cpu_def ss_mask_def segment_usable_def flags_def)
  have "pmret_frame demo_cb False True 0x3000 0xffffffff ?c = Inr (Some (0x100, 0x1b, 0x22000), ?c)"
    unfolding pmret_frame_def Let_def full_mask list.map if_False if_True
    by (subst translate_all_flat) (simp_all add: f f(3) [simplified] flat_prot_simps)
  then show ?thesis using user_iret_aborts [of ?c demo_cb "0x100" "0x1b" "0x22000" ?c] f by (simp add: bit_iff_odd_drop_bit)
qed


text \<open>
  C30: every control transfer keeps the processor state well formed: the privilege
  level is 0 to 3, the stack mask is that of a 16-bit or a 32-bit stack and every
  selector has 16 bits, after interrupts, far calls, jumps and returns, task
  switches, fast system calls and the delivery of interrupts and exceptions at the
  two ends of a step, also where they end with an exception; both resets establish it.
\<close>

theorem control_transfers_well_formed:
  assumes "wf_cpu c" "m = Inr (r, c')"
    "m \<in> {call_isr cb no pe ext c, pmcall cb w a s j c, pmret cb w off i c, task_switch cb tss sw c, INTn cb n c, IRET cb w c, RETFARw cb w k c,
       JMPFAR cb w a s c, CALLFAR cb w a s c, SYSENTER c, SYSEXIT c, step_interrupt cb c, step_exception cb ret c}"
  shows "wf_cpu c' \<and> wf_cpu (cpui386_reset fpu c) \<and> wf_cpu (cpui386_reset_pm fpu a c)"
proof -
  have "stays keeps_wf c m" using assms(3)
    by (auto simp: wf_call_isr wf_pmcall wf_pmret wf_task.task_switch_ok wf_INTn wf_IRET wf_RETFARw wf_far wf_sys wf_step)
  then show ?thesis using assms(1,2) wf_reset by (auto simp: stays_def keeps_wf_def)
qed

theorem control_transfers_well_formed_witness:
  "\<exists>c'. pmret demo_cb False 0 False demo_prot = Inr (Some (), c') \<and> cpl c' = 3 \<and> wf_cpu c'"
proof -
  obtain c' where c': "pmret demo_cb False 0 False demo_prot = Inr (Some (), c')" "cpl c' = 3" using demo_far_return by blast
  have "wf_cpu demo_prot" by (simp add: wf_cpu_def demo_prot_def demo_flat_def)
  then have "wf_cpu c'"
    using control_transfers_well_formed [where c = demo_prot and m = "pmret demo_cb False 0 False demo_prot" and cb = demo_cb
        and w = False and off = 0 and i = False] c' by blast
  then show ?thesis using c' by blast
qed

end
