(* ===== verification/Spec2Isabelle.thy ===== *)
theory Spec2Isabelle
  imports Board SB16 NetLink Control
begin

text \<open>
  WiNspire is an emulator of a personal computer for a pocket calculator, with a
  server that streams a disk image to it.  This library models the processor, the
  devices of the board and the server, and proves what makes each of them correct.

  \<^bold>\<open>The program and how its parts interact.\<close>
  \<open>source/winspire/pc.c\<close> wires the board: the processor (\<open>i386.c\<close>) executes guest
  instructions and reaches every device through callbacks for ports and for the device
  window of memory; devices raise interrupt lines of the two controllers (\<open>i8259.c\<close>),
  which signal the processor; the main loop steps the processor and polls the timer
  (\<open>i8254.c\<close>), the clock, the serial port and the floppy link (\<open>misc.c\<close>), keyboard and
  mouse (\<open>i8042.c\<close>) and the DMA controllers (\<open>i8257.c\<close>), whose only device is the Sound
  Blaster (\<open>sb16.c\<close>).  The PCI bus (\<open>pci.c\<close>) maps the
  regions of its devices.  \<open>source/server/netblock_server.c\<close> serves sectors of an image
  over TCP to the network disk of \<open>ide.c\<close>.

  \<^bold>\<open>Conventions.\<close>  A C structure is a record with the field names of the source, a
  function is a definition of its name on that record, a callback is a field of a record
  of functions or an argument.  Machine integers are words of their width (\<open>u8\<close>, \<open>u16\<close>,
  \<open>u32\<close>, \<open>u64\<close> of \<open>Prelude\<close>); C \<open>int\<close> values are \<open>int\<close> or \<open>nat\<close> where the code cannot
  overflow them.  What the C code leaves undefined, an access outside an array, a division by zero, a
  failed assertion, \<open>abort\<close>, is a value of the sum type \<open>'a result\<close>, so a theorem that an
  operation returns \<open>Inr\<close> includes that none of them happens.  A guest exception of the
  processor is \<open>None\<close> in \<open>exec\<close>, the type of operations that return \<open>bool\<close> in the source.

  \<^bold>\<open>Theories.\<close>
  \<^item> \<open>Prelude\<close>: types of machine integers, the result type and its rules, lemmas on
    words, lists and bits shared by the components.
  \<^item> \<open>Interrupts\<close>: the interface of an interrupt line as a locale.
  \<^item> \<open>PIC\<close> (\<open>i8259.c\<close>): both controllers with cascade; priority resolution against a
    specification, delivery of an edge to the vector, nesting, vectors in reachable states.
  \<^item> \<open>PIT\<close> (\<open>i8254.c\<close>): counters, latches, modes and polling; one pulse per elapsed period,
    no faults but the read of the control port.
  \<^item> \<open>PS2\<close>, \<open>KBC\<close> (\<open>i8042.c\<close>): the byte queue refines a bounded FIFO, no scan code is lost or
    reordered, mouse packets carry the movement; the controller, its commands and lines.
  \<^item> \<open>UART\<close>, \<open>RTC\<close>, \<open>Floppy\<close> (\<open>misc.c\<close>): bytes arrive in order; the periodic interrupt keeps
    its schedule; sectors written through the link are read back.
  \<^item> \<open>PCI\<close> (\<open>pci.c\<close>): configuration accesses are total and keep the identity of devices.
  \<^item> \<open>DMA\<close> (\<open>i8257.c\<close>): the run of a controller over any device that keeps the
    contract of the locale \<open>dma_device\<close>; the memory of a transfer, decrement mode.
  \<^item> \<open>SB16\<close> (\<open>sb16.c\<close>): the transfer handler of the Sound Blaster, proved to be such a device; a
    run of its controller serves the requested channels, once each.
  \<^item> \<open>Board\<close> (\<open>pc.c\<close>): devices and controllers composed; a key press, a timer tick and the
    serial conditions arrive at the interrupt controllers.
  \<^item> \<open>Sectors\<close>: disks as functions from sector numbers to bytes, and files as byte lists.
  \<^item> \<open>NetBlock\<close> (\<open>netblock_server.c\<close>): command line, wire format, session; no access leaves
    the image or a buffer for any behaviour of clients and system calls, data is returned
    as written, a refused write leaves the stream in step.
  \<^item> \<open>NetDisk\<close> (\<open>ide.c\<close>, the network block device): write batch, journal, sector cache,
    read and read-ahead requests over an unreliable link; its buffers keep their shape.
  \<^item> \<open>NetLink\<close>: the client joined to the server of \<open>NetBlock\<close>; reads and writes refine an
    array of sectors, a flush commits what was written, no access leaves a buffer whatever
    the link returns; the two cases in which the client answers with stale data.
  \<^item> \<open>ALU\<close> (\<open>i386.c\<close>): the arithmetic instructions with lazily evaluated flags; results
    and flags equal the architectural ones, assertions in the flag readers never fail.
  \<^item> \<open>MMU\<close> (\<open>i386.c\<close>): physical memory, page tables behind two levels of caches, segments,
    instruction fetch, descriptors; translation equals an uncached walk of the tables.
  \<^item> \<open>Stack\<close> (\<open>i386.c\<close>): stack, near jumps and system instructions; the direct path to the
    stack equals the general one, \<open>POPF\<close> respects privilege.
  \<^item> \<open>Control\<close> (\<open>i386.c\<close>): interrupts, far transfers, task switches, reset, the two ends of
    a step of the processor; returns never gain privilege, gates admit only the levels they name, a
    real-mode interrupt is undone by \<open>IRET\<close>.

  \<^bold>\<open>Interfaces.\<close>  \<open>Interrupts\<close> states what a device may rely on of an interrupt line and is
  interpreted on the controllers; \<open>dma_device\<close> (\<open>DMA\<close>) states what a DMA controller relies on of a
  device and is interpreted on the handler of the Sound Blaster; \<open>disk_link\<close> (\<open>NetLink\<close>) states what the client of the disk relies on of its server and is
  interpreted on the modelled one; \<open>step_relation\<close> (\<open>Stack\<close>) is the calculus of relations
  between the states before and after an operation, extended in \<open>Control\<close> to accesses, transfers and task
  switches and interpreted for memory frames, privilege, lazy flags and well-formedness.

  \<^bold>\<open>Bounds.\<close>  Loops are structural recursion or \<open>function\<close> with a measure; no fuel is used.  The
  handler of the Sound Blaster calls itself through the controllers; \<open>SB16\<close> unrolls it twice and
  proves that a deeper call does not happen.

  \<^bold>\<open>Builds.\<close>  The emulator has two builds, which include \<open>release_config.h\<close>.  The one for the
  server has the two-level translation cache (\<open>TINY386_ARM_FAST\<close>) and the network disk, with
  sixteen windows of 128 sectors; the native one has a single table of 512 translations, and a
  third target of the source one of 256.  \<open>MMU\<close> models all three translations, \<open>NetDisk\<close> the
  sizes of the server build.

  \<^bold>\<open>Not modelled.\<close>  The decoder and dispatch loop of \<open>i386.c\<close> (\<open>cpu_exec1\<close>, macros over
  \<open>i386ins.def\<close>), string instructions, the floating point unit (\<open>fpu.c\<close>, host floating
  point) and \<open>simd.inc\<close>; the drives and file images of \<open>ide.c\<close>, graphics (\<open>vga.c\<close>), network
  card and user network stack (\<open>ne2000.c\<close>) and sound (the command parser, mixer and resampling of
  \<open>sb16.c\<close>, \<open>adlib.c\<close>, \<open>fmopl.c\<close>, \<open>pcspk.c\<close>); the menu (\<open>osd\<close>), the start-up and
  frontend code (\<open>main.c\<close>, \<open>win32.c\<close>, \<open>ini.c\<close>, \<open>winspire-ndless\<close>, \<open>nspire\<close>), which are input and output;
  build scripts, patches and binaries.
\<close>

end
